(* ===== verification/EvPrelude.thy ===== *)
theory EvPrelude
  imports Main "HOL-Library.Word"
begin

unbundle bit_operations_syntax

text \<open>
  Shared vocabulary of the development: the C++ integer types at their widths, the
  result type of operations that can fault, bounds-checked array access, and the word
  lemmas (alignment, masks, sums that do not wrap) that several components use.
\<close>

section \<open>Integer types\<close>

type_synonym u8 = "8 word"
type_synonym u16 = "16 word"
type_synonym u32 = "32 word"
type_synonym u64 = "64 word"

text \<open>Widening keeps the value.\<close>

lemma unat_ucast_u32_u64: "unat (ucast (x :: u32) :: u64) = unat x"
  by (simp add: unsigned_ucast_eq take_bit_nat_eq_self less_le_trans [OF unsigned_less])

lemma unat_ucast_u8_u32: "unat (ucast (x :: u8) :: u32) = unat x"
  by (simp add: unsigned_ucast_eq take_bit_nat_eq_self less_le_trans [OF unsigned_less])

section \<open>Faulting computations\<close>

text \<open>
  The hypervisor is built without exceptions. What ends a computation is the \<open>PANIC\<close>
  macro of common/logger.h (print a message, loop forever), a dereference of a null
  pointer, an access outside the object it is made on, or a loop that never ends.
\<close>

datatype fault = Panic | NullDeref | OutOfBounds | Diverge

type_synonym 'a res = "fault + 'a"

definition rbind :: "'a res \<Rightarrow> ('a \<Rightarrow> 'b res) \<Rightarrow> 'b res" where
  "rbind m f = (case m of Inl e \<Rightarrow> Inl e | Inr x \<Rightarrow> f x)"

named_theorems res_simps "evaluation of faulting computations"

lemma rbind_Inl [simp, res_simps]: "rbind (Inl e) f = Inl e"
  by (simp add: rbind_def)

lemma rbind_Inr [simp, res_simps]: "rbind (Inr x) f = f x"
  by (simp add: rbind_def)

lemma rbind_eq_Inr: "rbind m f = Inr y \<longleftrightarrow> (\<exists>x. m = Inr x \<and> f x = Inr y)"
  by (cases m) simp_all

lemma rbind_eq_Inl: "rbind m f = Inl e \<longleftrightarrow> m = Inl e \<or> (\<exists>x. m = Inr x \<and> f x = Inl e)"
  by (cases m) simp_all

lemma rbindE:
  assumes "rbind m f = Inr y"
  obtains x where "m = Inr x" and "f x = Inr y"
  using assms by (auto simp: rbind_eq_Inr)

lemma rbind_assoc: "rbind (rbind m f) g = rbind m (\<lambda>x. rbind (f x) g)"
  by (cases m) simp_all

definition returns :: "'a res \<Rightarrow> bool" where
  "returns m \<longleftrightarrow> (case m of Inl _ \<Rightarrow> False | Inr _ \<Rightarrow> True)"

lemma returns_simps [simp, res_simps]: "returns (Inr x)" "\<not> returns (Inl e)"
  by (simp_all add: returns_def)

lemma returns_iff: "returns m \<longleftrightarrow> (\<exists>x. m = Inr x)"
  by (cases m) simp_all

lemma returns_rbind: "returns (rbind m f) \<longleftrightarrow> (\<exists>x. m = Inr x \<and> returns (f x))"
  by (cases m) simp_all

section \<open>Arrays\<close>

definition arr_get :: "'a list \<Rightarrow> nat \<Rightarrow> 'a res" where
  "arr_get xs i = (if i < length xs then Inr (xs ! i) else Inl OutOfBounds)"

definition arr_set :: "'a list \<Rightarrow> nat \<Rightarrow> 'a \<Rightarrow> 'a list res" where
  "arr_set xs i v = (if i < length xs then Inr (xs[i := v]) else Inl OutOfBounds)"

lemma arr_get_in [simp, res_simps]: "i < length xs \<Longrightarrow> arr_get xs i = Inr (xs ! i)"
  by (simp add: arr_get_def)

lemma arr_get_out [simp, res_simps]: "\<not> i < length xs \<Longrightarrow> arr_get xs i = Inl OutOfBounds"
  by (simp add: arr_get_def)

lemma arr_set_in [simp, res_simps]: "i < length xs \<Longrightarrow> arr_set xs i v = Inr (xs[i := v])"
  by (simp add: arr_set_def)

lemma arr_set_out [simp, res_simps]: "\<not> i < length xs \<Longrightarrow> arr_set xs i v = Inl OutOfBounds"
  by (simp add: arr_set_def)

lemma arr_set_eq_Inr: "arr_set xs i v = Inr ys \<longleftrightarrow> i < length xs \<and> ys = xs[i := v]"
  by (auto simp: arr_set_def)

lemma arr_get_eq_Inr: "arr_get xs i = Inr x \<longleftrightarrow> i < length xs \<and> x = xs ! i"
  by (auto simp: arr_get_def)

lemma arr_get_set:
  "arr_set xs i v = Inr ys \<Longrightarrow> arr_get ys j = (if j = i then Inr v else arr_get xs j)"
  by (auto simp: arr_set_eq_Inr arr_get_def)

section \<open>Searching loops\<close>

text \<open>
  \<open>for (i = lo; i < hi; i++) if (P(i)) { ... return; }\<close>: the index the loop stops at.
\<close>

function first_index :: "(nat \<Rightarrow> bool) \<Rightarrow> nat \<Rightarrow> nat \<Rightarrow> nat option" where
  "first_index P i hi = (if i < hi then if P i then Some i else first_index P (Suc i) hi else None)"
  by pat_completeness auto
termination by (relation "measure (\<lambda>(P, i, hi). hi - i)") auto

declare first_index.simps [simp del]

lemma first_index_Some:
  "first_index P i hi = Some k \<longleftrightarrow> i \<le> k \<and> k < hi \<and> P k \<and> (\<forall>j. i \<le> j \<and> j < k \<longrightarrow> \<not> P j)"
proof (induction P i hi rule: first_index.induct)
  case (1 P i hi)
  show ?case
  proof (cases "i < hi \<and> \<not> P i")
    case True
    then have "first_index P i hi = first_index P (Suc i) hi" by (subst first_index.simps) simp
    moreover have "(Suc i \<le> k \<and> k < hi \<and> P k \<and> (\<forall>j. Suc i \<le> j \<and> j < k \<longrightarrow> \<not> P j)) \<longleftrightarrow>
        (i \<le> k \<and> k < hi \<and> P k \<and> (\<forall>j. i \<le> j \<and> j < k \<longrightarrow> \<not> P j))"
      using True by (metis Suc_leD Suc_leI le_neq_implies_less)
    ultimately show ?thesis using 1 True by simp
  next
    case False
    then show ?thesis by (subst first_index.simps) (auto simp: not_less)
  qed
qed

lemma first_index_None: "first_index P i hi = None \<longleftrightarrow> (\<forall>j. i \<le> j \<and> j < hi \<longrightarrow> \<not> P j)"
proof (induction P i hi rule: first_index.induct)
  case (1 P i hi)
  show ?case
  proof (cases "i < hi \<and> \<not> P i")
    case True
    then have "first_index P i hi = first_index P (Suc i) hi" by (subst first_index.simps) simp
    moreover have "(\<forall>j. Suc i \<le> j \<and> j < hi \<longrightarrow> \<not> P j) \<longleftrightarrow> (\<forall>j. i \<le> j \<and> j < hi \<longrightarrow> \<not> P j)"
      using True by (metis Suc_leD Suc_leI le_neq_implies_less)
    ultimately show ?thesis using 1 True by simp
  next
    case False
    then show ?thesis by (subst first_index.simps) auto
  qed
qed

end
