(* ===== verification/EvQueue.thy ===== *)
theory EvQueue
  imports EvPrelude "HOL-Library.While_Combinator"
begin

text \<open>
  The console queue of common/queue.h and common/queue.cc: a ring buffer of 1024 slots of
  which one always stays free. The \<open>fifo\<close> locale is the contract the consoles rely on;
  it is interpreted here on the ring buffer.
\<close>

section \<open>The ring buffer\<close>

definition kMaxSize :: u32 where
  "kMaxSize = 1024"

record queue =
  q_head :: u32
  q_tail :: u32
  q_buff :: "nat \<Rightarrow> u32"

text \<open>The constructor; \<open>mem\<close> is what the page returned by the allocator holds.\<close>

definition Queue_new :: "(nat \<Rightarrow> u32) \<Rightarrow> queue" where
  "Queue_new mem = \<lparr>q_head = 0, q_tail = 0, q_buff = mem\<rparr>"

definition Queue_Empty :: "queue \<Rightarrow> bool" where
  "Queue_Empty q \<longleftrightarrow> q_head q = q_tail q"

definition Queue_Full :: "queue \<Rightarrow> bool" where
  "Queue_Full q \<longleftrightarrow> q_head q = (q_tail q + 1) mod kMaxSize"

definition Queue_Push :: "u32 \<Rightarrow> queue \<Rightarrow> bool \<times> queue" where
  "Queue_Push d q =
     (if Queue_Full q then (False, q)
      else
        let q1 = q\<lparr>q_buff := (q_buff q)(unat (q_tail q) := d), q_tail := q_tail q + 1\<rparr>;
            q2 = (if q_tail q1 = kMaxSize then q1\<lparr>q_tail := 0\<rparr> else q1)
        in (True, q2))"

definition Queue_Pop :: "queue \<Rightarrow> u32 \<times> queue" where
  "Queue_Pop q =
     (if Queue_Empty q then (0, q)
      else
        let res = q_buff q (unat (q_head q));
            q1 = q\<lparr>q_head := q_head q + 1\<rparr>;
            q2 = (if q_head q1 = kMaxSize then q1\<lparr>q_head := 0\<rparr> else q1)
        in (res, q2))"

section \<open>Abstraction\<close>

definition queue_inv :: "queue \<Rightarrow> bool" where
  "queue_inv q \<longleftrightarrow> q_head q < 1024 \<and> q_tail q < 1024"

definition queue_len :: "queue \<Rightarrow> nat" where
  "queue_len q = (unat (q_tail q) + 1024 - unat (q_head q)) mod 1024"

definition queue_list :: "queue \<Rightarrow> u32 list" where
  "queue_list q = map (\<lambda>k. q_buff q ((unat (q_head q) + k) mod 1024)) [0..<queue_len q]"

section \<open>Index arithmetic\<close>

lemma queue_inv_nat: "queue_inv q \<longleftrightarrow> unat (q_head q) < 1024 \<and> unat (q_tail q) < 1024"
  by (simp add: queue_inv_def word_less_nat_alt)

lemma unat_Suc_small: "unat (x :: u32) < 1024 \<Longrightarrow> unat (x + 1) = Suc (unat x)"
  by (simp add: unat_word_ariths)

text \<open>The ring successor, as the two ways the code writes it.\<close>

lemma ring_succ_mod:
  "unat (x :: u32) < 1024 \<Longrightarrow> unat ((x + 1) mod kMaxSize) = Suc (unat x) mod 1024"
  by (simp add: kMaxSize_def unat_mod unat_Suc_small)

lemma ring_succ_if:
  "unat (x :: u32) < 1024 \<Longrightarrow>
   unat (if x + 1 = kMaxSize then 0 else x + 1) = Suc (unat x) mod 1024"
  by (auto simp: kMaxSize_def unat_Suc_small word_unat_eq_iff)

text \<open>Distances on the ring, on plain numbers.\<close>

lemma ring_dist:
  fixes h t :: nat
  assumes "h < 1024" "t < 1024"
  shows "(t + 1024 - h) mod 1024 = (if t < h then t + 1024 - h else t - h)"
proof (cases "t < h")
  case True
  with assms show ?thesis by simp
next
  case False
  then have "t + 1024 - h = 1024 + (t - h)" by simp
  then have "(t + 1024 - h) mod 1024 = (t - h) mod 1024" by (simp only: mod_add_self1)
  with False assms show ?thesis by simp
qed

lemma ring_dist_tail:
  fixes h t :: nat
  assumes "h < 1024" "t < 1024" "(t + 1024 - h) mod 1024 < 1023"
  shows "(Suc t mod 1024 + 1024 - h) mod 1024 = Suc ((t + 1024 - h) mod 1024)"
proof (cases "Suc t = 1024")
  case True
  with assms(1) have d: "(t + 1024 - h) mod 1024 = 1023 - h" by (simp only: ring_dist [OF assms(1,2)]) auto
  with assms(3) have "0 < h" by simp
  with True d assms(1) show ?thesis by simp
next
  case False
  with assms(2) have s: "Suc t < 1024" by simp
  from assms(3) show ?thesis
    unfolding mod_less [OF s] ring_dist [OF assms(1,2)] ring_dist [OF assms(1) s]
    using assms(1) by (auto split: if_splits)
qed

lemma ring_dist_head:
  fixes h t :: nat
  assumes "h < 1024" "t < 1024" "0 < (t + 1024 - h) mod 1024"
  shows "Suc ((t + 1024 - Suc h mod 1024) mod 1024) = (t + 1024 - h) mod 1024"
proof (cases "Suc h = 1024")
  case True
  then have h: "h = 1023" by simp
  with assms(2) show ?thesis by (cases "t = 1023") (use assms(3) in auto)
next
  case False
  with assms(1) have s: "Suc h < 1024" by simp
  from assms(3) show ?thesis
    unfolding mod_less [OF s] ring_dist [OF assms(1,2)] ring_dist [OF s assms(2)]
    by (auto split: if_splits)
qed

section \<open>The operations on the abstraction\<close>

lemma queue_Empty_len: "queue_inv q \<Longrightarrow> Queue_Empty q \<longleftrightarrow> queue_len q = 0"
  unfolding Queue_Empty_def queue_len_def queue_inv_nat word_unat_eq_iff
  by (cases "unat (q_tail q) < unat (q_head q)") (auto simp: mod_if)

lemma queue_Full_len: "queue_inv q \<Longrightarrow> Queue_Full q \<longleftrightarrow> queue_len q = 1023"
  unfolding Queue_Full_def queue_len_def queue_inv_nat word_unat_eq_iff
  by (cases "unat (q_tail q) < unat (q_head q)") (auto simp: ring_succ_mod mod_if)

lemma queue_len_bound: "queue_inv q \<Longrightarrow> queue_len q \<le> 1023"
  by (simp add: queue_len_def flip: less_Suc_eq_le)

lemma Queue_Push_tail:
  assumes "queue_inv q" "\<not> Queue_Full q"
  shows "Queue_Push d q =
    (True, q\<lparr>q_buff := (q_buff q)(unat (q_tail q) := d),
             q_tail := (if q_tail q + 1 = kMaxSize then 0 else q_tail q + 1)\<rparr>)"
  using assms by (simp add: Queue_Push_def Let_def)

lemma Queue_Pop_head:
  assumes "\<not> Queue_Empty q"
  shows "Queue_Pop q = (q_buff q (unat (q_head q)),
    q\<lparr>q_head := (if q_head q + 1 = kMaxSize then 0 else q_head q + 1)\<rparr>)"
  using assms by (simp add: Queue_Pop_def Let_def)

lemma queue_inv_new: "queue_inv (Queue_new mem)" "queue_list (Queue_new mem) = []"
  by (simp_all add: queue_inv_def Queue_new_def queue_list_def queue_len_def)

lemma queue_inv_Push: "queue_inv q \<Longrightarrow> queue_inv (snd (Queue_Push d q))"
  by (cases "Queue_Full q")
     (auto simp: Queue_Push_def Let_def queue_inv_nat unat_Suc_small kMaxSize_def word_unat_eq_iff)

lemma queue_inv_Pop: "queue_inv q \<Longrightarrow> queue_inv (snd (Queue_Pop q))"
  by (cases "Queue_Empty q")
     (auto simp: Queue_Pop_def Let_def queue_inv_nat unat_Suc_small kMaxSize_def word_unat_eq_iff)

lemma queue_list_Push:
  assumes inv: "queue_inv q" and "\<not> Queue_Full q"
  shows "queue_list (snd (Queue_Push d q)) = queue_list q @ [d]"
proof -
  let ?q' = "snd (Queue_Push d q)"
  let ?h = "unat (q_head q)" and ?t = "unat (q_tail q)" and ?n = "queue_len q"
  have h: "?h < 1024" and t: "?t < 1024" using inv by (simp_all add: queue_inv_nat)
  have n: "?n < 1023"
    using queue_len_bound [OF inv] queue_Full_len [OF inv] assms(2) by linarith
  have q': "?q' = q\<lparr>q_buff := (q_buff q)(?t := d),
             q_tail := (if q_tail q + 1 = kMaxSize then 0 else q_tail q + 1)\<rparr>"
    using Queue_Push_tail [OF assms] by simp
  have t': "unat (q_tail ?q') = Suc ?t mod 1024"
    using ring_succ_if [OF t] unfolding q' by simp
  have len': "queue_len ?q' = Suc ?n"
  proof -
    have "queue_len ?q' = (Suc ?t mod 1024 + 1024 - ?h) mod 1024"
      using t' by (simp add: queue_len_def q')
    also have "\<dots> = Suc ?n"
      using ring_dist_tail [OF h t] n unfolding queue_len_def by simp
    finally show ?thesis .
  qed
  have at_end: "(?h + ?n) mod 1024 = ?t"
    using h t unfolding queue_len_def by (cases "?t < ?h") (auto simp: mod_if)
  have old: "(?h + k) mod 1024 \<noteq> ?t" if "k < ?n" for k
    using that h unfolding queue_len_def ring_dist [OF h t]
    by (cases "?h + k < 1024") (auto simp: mod_if [of "?h + k"] split: if_splits)
  show ?thesis
    unfolding queue_list_def len' by (simp add: q' at_end old)
qed

lemma queue_list_Pop:
  assumes inv: "queue_inv q" and "\<not> Queue_Empty q"
  shows "queue_list q = fst (Queue_Pop q) # queue_list (snd (Queue_Pop q))"
proof -
  obtain r q' where pop: "Queue_Pop q = (r, q')" by (cases "Queue_Pop q")
  let ?h = "unat (q_head q)" and ?t = "unat (q_tail q)" and ?n = "queue_len q"
  have h: "?h < 1024" and t: "?t < 1024" using inv by (simp_all add: queue_inv_nat)
  have n: "0 < ?n" using queue_Empty_len [OF inv] assms(2) by simp
  have r: "r = q_buff q ?h" and tail': "q_tail q' = q_tail q" and buff': "q_buff q' = q_buff q"
    and head': "q_head q' = (if q_head q + 1 = kMaxSize then 0 else q_head q + 1)"
    using Queue_Pop_head [OF assms(2)] pop by auto
  have h': "unat (q_head q') = Suc ?h mod 1024"
    using ring_succ_if [OF h] unfolding head' .
  have len': "?n = Suc (queue_len q')"
    using ring_dist_head [OF h t] n unfolding queue_len_def h' tail' by simp
  show ?thesis
    unfolding queue_list_def len' upt_conv_Cons [OF zero_less_Suc] map_Suc_upt [symmetric] pop
    using h by (simp add: h' r buff' mod_add_left_eq)
qed
lemma length_queue_list [simp]: "length (queue_list q) = queue_len q"
  by (simp add: queue_list_def)

section \<open>The contract of a bounded FIFO\<close>

locale fifo =
  fixes push :: "'a \<Rightarrow> 'q \<Rightarrow> bool \<times> 'q"
    and pop :: "'q \<Rightarrow> 'a \<times> 'q"
    and is_empty :: "'q \<Rightarrow> bool"
    and is_full :: "'q \<Rightarrow> bool"
    and contents :: "'q \<Rightarrow> 'a list"
    and inv :: "'q \<Rightarrow> bool"
    and cap :: nat
    and dflt :: 'a
  assumes empty_iff: "inv q \<Longrightarrow> is_empty q \<longleftrightarrow> contents q = []"
    and full_iff: "inv q \<Longrightarrow> is_full q \<longleftrightarrow> length (contents q) = cap"
    and cap_bound: "inv q \<Longrightarrow> length (contents q) \<le> cap"
    and push_full: "is_full q \<Longrightarrow> push x q = (False, q)"
    and push_fst: "\<not> is_full q \<Longrightarrow> fst (push x q)"
    and push_snd: "inv q \<Longrightarrow> \<not> is_full q \<Longrightarrow> contents (snd (push x q)) = contents q @ [x]"
    and pop_empty: "is_empty q \<Longrightarrow> pop q = (dflt, q)"
    and pop_cons: "inv q \<Longrightarrow> \<not> is_empty q \<Longrightarrow> contents q = fst (pop q) # contents (snd (pop q))"
    and inv_push: "inv q \<Longrightarrow> inv (snd (push x q))"
    and inv_pop: "inv q \<Longrightarrow> inv (snd (pop q))"
begin

lemma push_spec:
  assumes "inv q"
  shows "contents (snd (push x q)) = (if length (contents q) = cap then contents q else contents q @ [x])"
    and "fst (push x q) \<longleftrightarrow> length (contents q) \<noteq> cap"
  using push_full [of q x] push_fst [of q x] push_snd [OF assms] full_iff [OF assms] by auto

lemma pop_spec:
  assumes "inv q"
  shows "contents (snd (pop q)) = tl (contents q)"
    and "fst (pop q) = (if contents q = [] then dflt else hd (contents q))"
proof -
  show "contents (snd (pop q)) = tl (contents q)"
  proof (cases "is_empty q")
    case True
    then show ?thesis using pop_empty [OF True] empty_iff [OF assms] by simp
  next
    case False
    show ?thesis unfolding pop_cons [OF assms False] by simp
  qed
  show "fst (pop q) = (if contents q = [] then dflt else hd (contents q))"
  proof (cases "is_empty q")
    case True
    then show ?thesis using pop_empty [OF True] empty_iff [OF assms] by simp
  next
    case False
    show ?thesis unfolding pop_cons [OF assms False] by simp
  qed
qed

lemma push_all:
  assumes "inv q" and "length (contents q) + length xs \<le> cap"
  shows "inv (fold (\<lambda>x q. snd (push x q)) xs q) \<and>
         contents (fold (\<lambda>x q. snd (push x q)) xs q) = contents q @ xs"
  using assms
proof (induction xs arbitrary: q)
  case Nil
  then show ?case by simp
next
  case (Cons x xs)
  then have c: "contents (snd (push x q)) = contents q @ [x]"
    by (simp add: push_spec)
  have "inv (snd (push x q))" by (rule inv_push) (rule Cons.prems)
  from Cons.IH [OF this] Cons.prems(2) c show ?case by simp
qed

text \<open>Popping until the queue is empty ends, and yields the contents in order.\<close>

lemma drain:
  assumes "inv q"
  shows "\<exists>q'. inv q' \<and> contents q' = [] \<and>
    while_option (\<lambda>(q, out). \<not> is_empty q) (\<lambda>(q, out). (snd (pop q), out @ f (fst (pop q)))) (q, out)
      = Some (q', out @ concat (map f (contents q)))"
  using assms
proof (induction "contents q" arbitrary: q out)
  case Nil
  then have "is_empty q" using empty_iff by simp
  with Nil show ?case by (intro exI [of _ q]) (simp add: while_option_unfold)
next
  case (Cons x xs)
  then have ne: "\<not> is_empty q" using empty_iff by fastforce
  have px: "fst (pop q) = x" and pxs: "contents (snd (pop q)) = xs"
    using pop_cons [OF Cons.prems ne] Cons.hyps(2) by simp_all
  have "inv (snd (pop q))" by (rule inv_pop) (rule Cons.prems)
  from Cons.hyps(1) [OF pxs [symmetric] this, of "out @ f x"] pxs Cons.hyps(2) [symmetric] ne px
  show ?case by (subst while_option_unfold) simp
qed

end

interpretation ring: fifo Queue_Push Queue_Pop Queue_Empty Queue_Full queue_list queue_inv 1023 0
proof unfold_locales
  fix q :: queue and x :: u32
  show "queue_inv q \<Longrightarrow> Queue_Empty q \<longleftrightarrow> queue_list q = []"
    by (simp add: queue_Empty_len flip: length_0_conv)
  show "queue_inv q \<Longrightarrow> Queue_Full q \<longleftrightarrow> length (queue_list q) = 1023"
    by (simp add: queue_Full_len)
  show "queue_inv q \<Longrightarrow> length (queue_list q) \<le> 1023"
    by (simp add: queue_len_bound)
  show "Queue_Full q \<Longrightarrow> Queue_Push x q = (False, q)"
    by (simp add: Queue_Push_def)
  show "\<not> Queue_Full q \<Longrightarrow> fst (Queue_Push x q)"
    by (simp add: Queue_Push_def Let_def)
  show "Queue_Empty q \<Longrightarrow> Queue_Pop q = (0, q)"
    by (simp add: Queue_Pop_def)
qed (fact queue_list_Push queue_list_Pop queue_inv_Push queue_inv_Pop)+

section \<open>Properties\<close>

text \<open>
  C23. The ring buffer refines a list of at most 1023 elements: \<open>Push\<close> appends unless the
  list is full, in which case it reports failure and changes nothing; \<open>Pop\<close> removes the
  front, or returns 0 on an empty queue; both keep the indices inside the 1024 slots.
\<close>

theorem Queue_refines_list:
  assumes "queue_inv q"
  shows "queue_inv (snd (Queue_Push d q)) \<and> queue_inv (snd (Queue_Pop q)) \<and>
    (fst (Queue_Push d q) \<longleftrightarrow> length (queue_list q) < 1023) \<and>
    queue_list (snd (Queue_Push d q)) =
      (if length (queue_list q) < 1023 then queue_list q @ [d] else queue_list q) \<and>
    fst (Queue_Pop q) = (if queue_list q = [] then 0 else hd (queue_list q)) \<and>
    queue_list (snd (Queue_Pop q)) = tl (queue_list q)"
  using ring.push_spec [OF assms, of d] ring.pop_spec [OF assms] ring.inv_push [OF assms]
    ring.inv_pop [OF assms] ring.cap_bound [OF assms]
  by (auto simp: le_less)

theorem Queue_refines_list_witness:
  "queue_list (snd (Queue_Push 65 (Queue_new (\<lambda>_. 0)))) = [65]"
  using Queue_refines_list [OF queue_inv_new(1), of 65 "\<lambda>_. 0"] by (simp add: queue_inv_new(2))

end
