(* ===== verification/EvMemory.thy ===== *)
theory EvMemory
  imports EvPrelude
begin

text \<open>
  Memory as the hypervisor uses it: a byte at every 64-bit address, little-endian words in
  it, the memory and string functions of common/cstring. Page alignment is what makes two
  pages or two words disjoint.
\<close>

section \<open>Aligned addresses\<close>

definition aligned :: "nat \<Rightarrow> u64 \<Rightarrow> bool" where
  "aligned n a \<longleftrightarrow> take_bit n a = 0"

lemma unat_lt_64: "unat (x :: u64) < 2 ^ 64"
  using unsigned_less [of x, where ?'a = nat] by simp

lemma aligned_0 [simp]: "aligned n 0"
  by (simp add: aligned_def)

lemma aligned_dvd: "n \<le> 64 \<Longrightarrow> aligned n a \<longleftrightarrow> 2 ^ n dvd unat a"
proof -
  assume "n \<le> 64"
  have "aligned n a \<longleftrightarrow> unat (take_bit n a) = 0"
    unfolding aligned_def by (rule unat_eq_0 [symmetric])
  also have "unat (take_bit n a) = take_bit n (unat a)"
    by (rule unsigned_take_bit_eq)
  also have "\<dots> = unat a mod 2 ^ n" by (rule take_bit_eq_mod)
  finally show ?thesis by (simp add: mod_eq_0_iff_dvd)
qed

lemma aligned_bit: "aligned n a \<longleftrightarrow> (\<forall>k<n. \<not> bit a k)"
proof
  assume "aligned n a"
  then have "bit (take_bit n a) k = bit (0 :: u64) k" for k by (simp add: aligned_def)
  then show "\<forall>k<n. \<not> bit a k" by (simp add: bit_take_bit_iff)
next
  assume "\<forall>k<n. \<not> bit a k"
  then show "aligned n a" unfolding aligned_def by (intro bit_word_eqI) (auto simp: bit_take_bit_iff)
qed

lemma aligned_mono: "aligned n a \<Longrightarrow> k \<le> n \<Longrightarrow> aligned k a"
  by (auto simp: aligned_bit)

lemma aligned_add: "n \<le> 64 \<Longrightarrow> aligned n a \<Longrightarrow> aligned n b \<Longrightarrow> aligned n (a + b)"
proof -
  assume n: "n \<le> 64" and "aligned n a" "aligned n b"
  then have "2 ^ n dvd unat a" "2 ^ n dvd unat b" by (simp_all add: aligned_dvd)
  then have "2 ^ n dvd (unat a + unat b) mod 2 ^ 64"
    using le_imp_power_dvd [OF n, of "2::nat"] by (intro dvd_mod dvd_add)
  then have "2 ^ n dvd unat (a + b)" by (simp add: unat_word_ariths)
  then show ?thesis using n by (simp add: aligned_dvd)
qed

lemma aligned_diff: "n \<le> 64 \<Longrightarrow> aligned n a \<Longrightarrow> aligned n b \<Longrightarrow> aligned n (a - b)"
proof -
  assume "n \<le> 64" "aligned n a" "aligned n b"
  then have "2 ^ n dvd unat a" "2 ^ n dvd unat b" by (simp_all add: aligned_dvd)
  have "(2::nat) ^ n dvd 2 ^ 64" using \<open>n \<le> 64\<close> by (rule le_imp_power_dvd)
  then have "2 ^ n dvd (18446744073709551616 :: nat)" by simp
  then have "2 ^ n dvd unat (a - b)"
    using \<open>2 ^ n dvd unat a\<close> \<open>2 ^ n dvd unat b\<close>
    by (simp add: unat_sub_if_size word_size) 
  then show ?thesis using \<open>n \<le> 64\<close> by (simp add: aligned_dvd)
qed

text \<open>Two different aligned blocks do not overlap.\<close>

lemma aligned_disjoint:
  assumes "n < 64" "aligned n a" "aligned n b" "a \<noteq> b" "unat i < 2 ^ n"
  shows "2 ^ n \<le> unat (b + i - a)"
proof -
  let ?d = "b - a"
  have "aligned n ?d" using assms by (simp add: aligned_diff)
  then obtain c where c: "unat ?d = 2 ^ n * c" using assms(1) by (auto simp: aligned_dvd)
  have "?d \<noteq> 0" using assms(4) by simp
  then have "0 < unat ?d" by (simp add: unat_gt_0)
  with c have "0 < c" by (cases c) auto
  have lt: "unat ?d < 2 ^ 64" by (rule unat_lt_64)
  obtain e where e: "(2::nat) ^ 64 = 2 ^ n * e"
    using le_imp_power_dvd [of n 64 "2::nat"] assms(1) by (auto elim: dvdE)
  have "2 ^ n * c < 2 ^ n * e" using lt unfolding c e .
  then have "c < e" by simp
  then have "2 ^ n * Suc c \<le> 2 ^ n * e" by (intro mult_le_mono2) simp
  then have "unat ?d + 2 ^ n \<le> 2 ^ 64" unfolding c e by simp
  with assms(5) have sum: "unat ?d + unat i < 2 ^ 64" by linarith
  have "unat (b + i - a) = unat (?d + i)" by (simp add: algebra_simps)
  also have "\<dots> = unat ?d + unat i" using sum by (simp add: unat_add_lem [THEN iffD1])
  finally have "unat (b + i - a) = 2 ^ n * c + unat i" using c by simp
  moreover have "2 ^ n * 1 \<le> 2 ^ n * c" using \<open>0 < c\<close> by (intro mult_le_mono2) simp
  ultimately show ?thesis by linarith
qed

section \<open>Bytes\<close>

type_synonym mem = "u64 \<Rightarrow> u8"

definition load_le :: "nat \<Rightarrow> mem \<Rightarrow> u64 \<Rightarrow> 'w::len word" where
  "load_le K m a = foldr (\<lambda>k acc. acc OR push_bit (8 * k) (ucast (m (a + of_nat k)))) [0..<K] 0"

definition store_le :: "nat \<Rightarrow> mem \<Rightarrow> u64 \<Rightarrow> 'w::len word \<Rightarrow> mem" where
  "store_le K m a v =
     (\<lambda>x. if unat (x - a) < K then ucast (drop_bit (8 * unat (x - a)) v) else m x)"

lemma bit_foldr_or:
  "bit (foldr (\<lambda>k acc. acc OR f k) ks z) n \<longleftrightarrow> bit z n \<or> (\<exists>k\<in>set ks. bit (f k :: 'w::len word) n)"
  by (induction ks) (auto simp: bit_or_iff)

lemma bit_load_le:
  assumes "n < LENGTH('w::len)"
  shows "bit (load_le K m a :: 'w word) n \<longleftrightarrow>
         n div 8 < K \<and> bit (m (a + of_nat (n div 8))) (n mod 8)"
proof -
  have one: "bit (push_bit (8 * k) (ucast (m (a + of_nat k)) :: 'w word)) n \<longleftrightarrow>
        k = n div 8 \<and> bit (m (a + of_nat k)) (n mod 8)" for k
  proof -
    have "bit (push_bit (8 * k) (ucast (m (a + of_nat k)) :: 'w word)) n \<longleftrightarrow>
       8 * k \<le> n \<and> bit (m (a + of_nat k)) (n - 8 * k)"
      using assms by (auto simp: bit_push_bit_iff bit_ucast_iff)
    also have "\<dots> \<longleftrightarrow> k = n div 8 \<and> bit (m (a + of_nat k)) (n mod 8)"
    proof
      assume h: "8 * k \<le> n \<and> bit (m (a + of_nat k)) (n - 8 * k)"
      then have "n - 8 * k < 8" using bit_imp_le_length [of "m (a + of_nat k)"] by simp
      with h have "n div 8 = k" by (intro div_nat_eqI) auto
      with h show "k = n div 8 \<and> bit (m (a + of_nat k)) (n mod 8)"
        using minus_mult_div_eq_mod [of n 8] by auto
    next
      assume "k = n div 8 \<and> bit (m (a + of_nat k)) (n mod 8)"
      then show "8 * k \<le> n \<and> bit (m (a + of_nat k)) (n - 8 * k)"
        using minus_mult_div_eq_mod [of n 8] by auto
    qed
    finally show ?thesis .
  qed
  show ?thesis unfolding load_le_def bit_foldr_or by (auto simp: one)
qed

lemma unat_of_nat_u64: "k < 2 ^ 64 \<Longrightarrow> unat (of_nat k :: u64) = k"
  by (simp add: unat_of_nat)

lemma load_store_same:
  assumes "LENGTH('w::len) \<le> 8 * K" "K \<le> 2 ^ 64"
  shows "load_le K (store_le K m a v) a = (v :: 'w word)"
proof (rule bit_word_eqI)
  fix n assume n: "n < LENGTH('w)"
  then have k: "n div 8 < K" using assms(1) by linarith
  have "8 * (n div 8) + n mod 8 = n" by simp
  moreover have "unat (of_nat (n div 8) :: u64) = n div 8"
    using k assms(2) by (intro unat_of_nat_u64) linarith
  ultimately have "bit (store_le K m a v (a + of_nat (n div 8))) (n mod 8) = bit v n"
    using k n by (simp add: store_le_def bit_ucast_iff bit_drop_bit_eq)
  then show "bit (load_le K (store_le K m a v) a :: 'w word) n = bit v n"
    unfolding bit_load_le [OF n] using k by simp
qed

lemma load_store_other:
  assumes "\<And>k. k < K \<Longrightarrow> K' \<le> unat (b + of_nat k - a)"
  shows "load_le K (store_le K' m a v) b = load_le K m b"
proof -
  have "store_le K' m a v (b + of_nat k) = m (b + of_nat k)" if "k < K" for k
    using assms [OF that] by (simp add: store_le_def)
  then show ?thesis unfolding load_le_def by (intro foldr_cong) auto
qed

text \<open>The loops of cstring: byte by byte, ascending.\<close>

definition memcpy :: "u64 \<Rightarrow> u64 \<Rightarrow> u64 \<Rightarrow> mem \<Rightarrow> mem" where
  "memcpy buf1 buf2 n m =
     fold (\<lambda>i m. m(buf1 + of_nat i := m (buf2 + of_nat i))) [0..<unat n] m"

definition memset :: "u64 \<Rightarrow> u32 \<Rightarrow> u64 \<Rightarrow> mem \<Rightarrow> u64 \<times> mem" where
  "memset buf ch n m = fold (\<lambda>_ (bbuf, m). (bbuf + 1, m(bbuf := ucast ch))) [0..<unat n] (buf, m)"

definition memzero :: "u64 \<Rightarrow> u64 \<Rightarrow> mem \<Rightarrow> mem" where
  "memzero buf1 n m = fold (\<lambda>i m. m(buf1 + of_nat i := 0)) [0..<unat n] m"

lemma of_nat_eq_iff_unat: "k < 2 ^ 64 \<Longrightarrow> (x :: u64) = of_nat k \<longleftrightarrow> unat x = k"
  by (auto simp: unat_of_nat_u64)

lemma fold_fun_upd_range:
  assumes "k \<le> 2 ^ 64"
  shows "fold (\<lambda>i m. m(p + of_nat i := f i)) [0..<k] m x =
         (if unat (x - p) < k then f (unat (x - p)) else (m :: mem) x)"
  using assms
proof (induction k)
  case 0
  then show ?case by simp
next
  case (Suc k)
  have "x = p + of_nat k \<longleftrightarrow> unat (x - p) = k"
    using Suc.prems of_nat_eq_iff_unat [of k "x - p"] by (auto simp: algebra_simps)
  with Suc show ?case by (auto simp: less_Suc_eq)
qed

lemma memzero_eq: "memzero p n m x = (if x - p < n then 0 else m x)"
proof -
  have "unat n \<le> 2 ^ 64" using unat_lt_64 [of n] by (rule less_imp_le)
  then show ?thesis unfolding memzero_def by (simp add: fold_fun_upd_range word_less_nat_alt)
qed

lemma memset_eq:
  "memset p ch n m = (p + n, \<lambda>x. if x - p < n then ucast ch else m x)"
proof -
  have loop: "fold (\<lambda>_ (b, m). (b + 1, m(b := c))) [0..<k] (p, m) =
     (p + of_nat k, fold (\<lambda>i m. m(p + of_nat i := c)) [0..<k] m)" for k and c :: u8
    by (induction k) (simp_all add: algebra_simps)
  have "unat n \<le> 2 ^ 64" using unat_lt_64 [of n] by (rule less_imp_le)
  then show ?thesis unfolding memset_def loop
    by (simp add: fun_eq_iff fold_fun_upd_range word_less_nat_alt)
qed

lemma memcpy_loop:
  assumes "k \<le> unat n" and "\<And>i j. i < n \<Longrightarrow> j < n \<Longrightarrow> s + i \<noteq> d + j"
  shows "fold (\<lambda>i m. m(d + of_nat i := m (s + of_nat i))) [0..<k] m =
         fold (\<lambda>i m'. m'(d + of_nat i := m (s + of_nat i))) [0..<k] (m :: mem)"
  using assms(1)
proof (induction k)
  case 0
  then show ?case by simp
next
  case (Suc k)
  have n: "unat n < 2 ^ 64" by (rule unat_lt_64)
  have small: "(of_nat i :: u64) < n" if "i < unat n" for i
    using that n by (simp add: word_less_nat_alt unat_of_nat_u64)
  have "s + of_nat k \<noteq> d + of_nat i" if "i < k" for i
    using Suc.prems that by (intro assms(2) small) auto
  moreover have "d + of_nat (unat (s + of_nat k - d)) = s + of_nat k" by simp
  ultimately have src: "\<not> unat (s + of_nat k - d) < k" by metis
  have "k \<le> 2 ^ 64" using n Suc.prems by simp
  then have "fold (\<lambda>i m'. m'(d + of_nat i := m (s + of_nat i))) [0..<k] m (s + of_nat k) = m (s + of_nat k)"
    using src by (simp add: fold_fun_upd_range)
  moreover have "fold (\<lambda>i m. m(d + of_nat i := m (s + of_nat i))) [0..<k] m =
      fold (\<lambda>i m'. m'(d + of_nat i := m (s + of_nat i))) [0..<k] m"
    using Suc.prems by (intro Suc.IH) simp
  ultimately show ?case by (simp only: upt_Suc_append le0 fold_append o_def fold_simps if_True)
qed

lemma memcpy_eq:
  assumes "\<And>i j. i < n \<Longrightarrow> j < n \<Longrightarrow> s + i \<noteq> d + j"
  shows "memcpy d s n m x = (if x - d < n then m (s + (x - d)) else m x)"
proof -
  have "unat n \<le> 2 ^ 64" using unat_lt_64 [of n] by (rule less_imp_le)
  then have "fold (\<lambda>i m'. m'(d + of_nat i := m (s + of_nat i))) [0..<unat n] m x =
      (if x - d < n then m (s + of_nat (unat (x - d))) else m x)"
    by (simp only: fold_fun_upd_range word_less_nat_alt)
  then show ?thesis unfolding memcpy_def by (subst memcpy_loop [OF order_refl assms]) simp_all
qed

section \<open>Strings\<close>

text \<open>A \<open>const char*\<close> is the function that gives \<open>s[i]\<close>; \<open>char\<close> is unsigned on AArch64.\<close>

type_synonym cstr = "nat \<Rightarrow> u8"

partial_function (option) strlen_loop :: "cstr \<Rightarrow> nat \<Rightarrow> u64 \<Rightarrow> u64 option" where
  "strlen_loop s i count = (if s i \<noteq> 0 then strlen_loop s (Suc i) (count + 1) else Some count)"

definition strlen :: "cstr \<Rightarrow> u64 option" where
  "strlen s = strlen_loop s 0 0"

text \<open>The loop of \<open>strncmp\<close> ends with the index of the first difference, end of string or bound.\<close>

function strncmp_loop :: "cstr \<Rightarrow> cstr \<Rightarrow> nat \<Rightarrow> nat \<Rightarrow> nat" where
  "strncmp_loop s1 s2 n i =
     (if i < n \<and> s1 i \<noteq> 0 \<and> s1 i = s2 i then strncmp_loop s1 s2 n (Suc i) else i)"
  by pat_completeness auto
termination by (relation "measure (\<lambda>(s1, s2, n, i). n - i)") auto

declare strncmp_loop.simps [simp del]

definition strncmp :: "cstr \<Rightarrow> cstr \<Rightarrow> u64 \<Rightarrow> int" where
  "strncmp s1 s2 n =
     (let i = strncmp_loop s1 s2 (unat n) 0
      in if i \<noteq> unat n then uint (s1 i) - uint (s2 i) else 0)"

text \<open>The bytes of a string: up to the terminator, at most \<open>n\<close> of them.\<close>

definition cstr_bytes :: "nat \<Rightarrow> cstr \<Rightarrow> u8 list" where
  "cstr_bytes n s = takeWhile (\<lambda>c. c \<noteq> 0) (map s [0..<n])"

lemma strncmp_loop_eq:
  assumes "i \<le> n"
  shows "(let j = strncmp_loop s1 s2 n i in j \<noteq> n \<longrightarrow> s1 j = s2 j) \<longleftrightarrow>
         takeWhile (\<lambda>c. c \<noteq> 0) (map s1 [i..<n]) = takeWhile (\<lambda>c. c \<noteq> 0) (map s2 [i..<n])"
  using assms
proof (induction s1 s2 n i rule: strncmp_loop.induct)
  case (1 s1 s2 n i)
  show ?case
  proof (cases "i < n \<and> s1 i \<noteq> 0 \<and> s1 i = s2 i")
    case True
    then have "[i..<n] = i # [Suc i..<n]" by (simp add: upt_conv_Cons)
    with 1 True show ?thesis by (subst strncmp_loop.simps) simp
  next
    case False
    then have "strncmp_loop s1 s2 n i = i" by (subst strncmp_loop.simps) (simp only: if_False)
    with False 1(2) show ?thesis by (cases "i = n") (auto simp: upt_conv_Cons)
  qed
qed

lemma strncmp_loop_le: "i \<le> n \<Longrightarrow> strncmp_loop s1 s2 n i \<le> n"
proof (induction s1 s2 n i rule: strncmp_loop.induct)
  case (1 s1 s2 n i)
  show ?case
  proof (cases "i < n \<and> s1 i \<noteq> 0 \<and> s1 i = s2 i")
    case True
    with 1 show ?thesis by (subst strncmp_loop.simps) simp
  next
    case False
    with 1(2) show ?thesis by (subst strncmp_loop.simps) (simp only: if_False)
  qed
qed

lemma strlen_loop_eq:
  assumes "s (i + k) = 0" and "\<And>j. j < k \<Longrightarrow> s (i + j) \<noteq> 0"
  shows "strlen_loop s i c = Some (c + of_nat k)"
  using assms
proof (induction k arbitrary: i c)
  case 0
  then show ?case by (subst strlen_loop.simps) simp
next
  case (Suc k)
  have "s (Suc i + j) \<noteq> 0" if "j < k" for j using Suc.prems(2) [of "Suc j"] that by simp
  with Suc.IH [of "Suc i" "c + 1"] Suc.prems(1) Suc.prems(2) [of 0] show ?case
    by (subst strlen_loop.simps) (simp add: algebra_simps)
qed

section \<open>Properties\<close>

text \<open>
  \<open>memcpy\<close>, \<open>memset\<close> and \<open>memzero\<close> write exactly the n bytes from the destination on, modulo
  the address space; \<open>memcpy\<close> of buffers that do not overlap copies the source as it was.
  The value \<open>memset\<close> returns is the address one past the last byte it wrote.
\<close>

lemma memory_functions_frame:
  assumes "\<And>i j. i < n \<Longrightarrow> j < n \<Longrightarrow> src + i \<noteq> dst + j"
  shows "memcpy dst src n m = (\<lambda>x. if x - dst < n then m (src + (x - dst)) else m x) \<and>
    memset dst ch n m = (dst + n, \<lambda>x. if x - dst < n then ucast ch else m x) \<and>
    memzero dst n m = (\<lambda>x. if x - dst < n then 0 else m x)"
  by (auto simp: memset_eq memzero_eq memcpy_eq [OF assms] fun_eq_iff)

lemma memory_functions_frame_witness:
  "memcpy 0x2000 0x1000 4 (\<lambda>x. ucast x) 0x2003 = 3"
proof -
  have "(0x1000::u64) + i \<noteq> 0x2000 + j" if "i < 4" "j < 4" for i j
  proof -
    have "uint i < 4" and "uint j < 4" using that by (simp_all add: word_less_def)
    then have "uint (0x1000 + i) = 0x1000 + uint i" "uint (0x2000 + j) = 0x2000 + uint j"
      by (simp_all add: uint_word_ariths)
    then have "uint (0x1000 + i) \<noteq> uint (0x2000 + j)"
      using \<open>uint i < 4\<close> uint_ge_0 [of j] by linarith
    then show ?thesis by metis
  qed
  from memory_functions_frame [where m = "\<lambda>x. ucast x", OF this] show ?thesis by simp
qed

text \<open>
  \<open>strlen\<close> returns on every terminated string, with the number of bytes before the
  terminator, and \<open>strncmp\<close> returns zero exactly when the two strings, cut at n, are equal.
\<close>

theorem string_functions_correct:
  assumes "s k = 0" and "\<And>j. j < k \<Longrightarrow> s j \<noteq> 0"
  shows "strlen s = Some (of_nat k) \<and>
    (strncmp s t n = 0 \<longleftrightarrow> cstr_bytes (unat n) s = cstr_bytes (unat n) t)"
proof
  show "strlen s = Some (of_nat k)"
    unfolding strlen_def using strlen_loop_eq [of s 0 k 0] assms by simp
  show "strncmp s t n = 0 \<longleftrightarrow> cstr_bytes (unat n) s = cstr_bytes (unat n) t"
    using strncmp_loop_eq [of 0 "unat n" s t]
    by (auto simp: strncmp_def cstr_bytes_def Let_def simp flip: word_uint_eq_iff)
qed

theorem string_functions_correct_witness:
  "strlen (\<lambda>i. if i < 3 then 65 else 0) = Some 3"
  using string_functions_correct [of "\<lambda>i. if i < 3 then 65 else 0" 3] by simp

end
