(* ===== verification/EvHeap.thy ===== *)
theory EvHeap
  imports EvMemory
begin

text \<open>
  The page allocators of mm/: the kernel heap (kmm_malloc.cc, kmm_zalloc.cc, new.cc), the
  uncached region (kmm_uncached_malloc.cc) and the pages given to guests (umm_malloc.cc).
  The locale \<open>page_allocator\<close> is what the page-table code and the task creation rely on;
  both the kernel heap and the guest pool are instances.
\<close>

section \<open>State\<close>

text \<open>The section start addresses come from the linker script (arch/ld_symbols.h).\<close>

record PageBlock =
  pb_size :: u64
  pb_ref_count :: u8

record heap =
  kHeapStart :: u64
  kUncachedStart :: u64
  kUserStart :: u64
  kernelHeapMemMap :: "nat \<Rightarrow> bool"
  kernelUncachedMemoryRegionMap :: "nat \<Rightarrow> PageBlock"
  userMemoryRegionMap :: "nat \<Rightarrow> u8"
  nextFreeSpaceIndex :: u32
  dram :: mem

definition PAGE_SIZE :: u32 where "PAGE_SIZE = push_bit 12 1"

definition HEAP_PAGES :: nat where "HEAP_PAGES = 16384"

definition kPagingPages :: u32 where "kPagingPages = 524288"

definition kRegionPageNums :: nat where "kRegionPageNums = 256"

section \<open>Kernel heap\<close>

definition kmm_malloc :: "u64 \<Rightarrow> heap \<Rightarrow> (u64 \<times> heap) res" where
  "kmm_malloc sz h =
     (if sz < 1 then Inr (0, h)
      else case first_index (\<lambda>i. \<not> kernelHeapMemMap h i) 0 HEAP_PAGES of
        Some i \<Rightarrow> Inr (kHeapStart h + ucast (of_nat i * PAGE_SIZE),
                      h\<lparr>kernelHeapMemMap := (kernelHeapMemMap h)(i := True)\<rparr>)
      | None \<Rightarrow> Inl Panic)"

definition kmm_free :: "u64 \<Rightarrow> heap \<Rightarrow> heap res" where
  "kmm_free va h =
     (let i = unat ((va - kHeapStart h) div ucast PAGE_SIZE)
      in if i < HEAP_PAGES then Inr (h\<lparr>kernelHeapMemMap := (kernelHeapMemMap h)(i := False)\<rparr>)
         else Inl OutOfBounds)"

definition kmm_zalloc :: "u64 \<Rightarrow> heap \<Rightarrow> (u64 \<times> heap) res" where
  "kmm_zalloc sz h = rbind (kmm_malloc sz h) (\<lambda>(alloc, h).
     Inr (alloc, if alloc \<noteq> 0 then h\<lparr>dram := memzero alloc sz (dram h)\<rparr> else h))"

definition operator_new :: "u64 \<Rightarrow> heap \<Rightarrow> (u64 \<times> heap) res" where
  "operator_new n h = rbind (kmm_malloc n h) (\<lambda>(p, h). if p \<noteq> 0 then Inr (p, h) else Inl Panic)"

definition operator_delete :: "u64 \<Rightarrow> heap \<Rightarrow> heap res" where
  "operator_delete p h = (if p = 0 then Inr h else kmm_free p h)"

section \<open>Guest pages\<close>

definition user_bit :: "nat \<Rightarrow> u8" where
  "user_bit i = push_bit (i mod 8) 1"

definition umm_malloc :: "u64 \<Rightarrow> heap \<Rightarrow> (u64 \<times> heap) res" where
  "umm_malloc sz h =
     (if sz < ucast PAGE_SIZE then Inr (0, h)
      else if sz mod ucast PAGE_SIZE \<noteq> 0 then Inr (0, h)
      else case first_index (\<lambda>i. userMemoryRegionMap h (i div 8) AND user_bit i = 0)
                  (unat (nextFreeSpaceIndex h)) (unat kPagingPages) of
        Some i \<Rightarrow>
          let j = i div 8; old = userMemoryRegionMap h j
          in Inr (kUserStart h + ucast (of_nat i * PAGE_SIZE),
                  h\<lparr>userMemoryRegionMap := (userMemoryRegionMap h)(j := old OR user_bit i),
                    nextFreeSpaceIndex := of_nat i + 1\<rparr>)
      | None \<Rightarrow> Inl Panic)"

definition umm_free :: "u64 \<Rightarrow> heap \<Rightarrow> heap res" where
  "umm_free va h =
     (let page = ucast ((va - kUserStart h) div ucast PAGE_SIZE) :: u32;
          i = unat page div 8;
          old = userMemoryRegionMap h i
      in if i < unat kPagingPages
         then Inr (h\<lparr>userMemoryRegionMap := (userMemoryRegionMap h)(i := old AND NOT (user_bit (unat page)))\<rparr>)
         else Inl OutOfBounds)"

definition umm_zalloc :: "u64 \<Rightarrow> heap \<Rightarrow> (u64 \<times> heap) res" where
  "umm_zalloc sz h = rbind (umm_malloc sz h) (\<lambda>(alloc, h).
     Inr (alloc, if alloc \<noteq> 0 then h\<lparr>dram := memzero alloc sz (dram h)\<rparr> else h))"

section \<open>Uncached region\<close>

text \<open>Reading the map past its end faults; the code does not check \<open>start + i\<close>.\<close>

fun kmm_is_spaces_available :: "(nat \<Rightarrow> PageBlock) \<Rightarrow> nat \<Rightarrow> nat \<Rightarrow> bool res" where
  "kmm_is_spaces_available m start 0 = Inr True"
| "kmm_is_spaces_available m start (Suc n) =
     (if \<not> start < kRegionPageNums then Inl OutOfBounds
      else if pb_ref_count (m start) \<noteq> 0 then Inr False
      else kmm_is_spaces_available m (Suc start) n)"

function uncached_scan :: "(nat \<Rightarrow> PageBlock) \<Rightarrow> nat \<Rightarrow> nat \<Rightarrow> nat res" where
  "uncached_scan m num_pages i =
     (if i < kRegionPageNums
      then rbind (kmm_is_spaces_available m i num_pages)
             (\<lambda>b. if b then Inr i else uncached_scan m num_pages (Suc i))
      else Inl Panic)"
  by pat_completeness auto
termination by (relation "measure (\<lambda>(m, n, i). kRegionPageNums - i)") auto

declare uncached_scan.simps [simp del]

definition uncached_take :: "nat \<Rightarrow> nat \<Rightarrow> (nat \<Rightarrow> PageBlock) \<Rightarrow> (nat \<Rightarrow> PageBlock)" where
  "uncached_take i num_pages m =
     fold (\<lambda>k m. m(k := \<lparr>pb_size = of_nat num_pages, pb_ref_count = pb_ref_count (m k) + 1\<rparr>))
       [i..<i + num_pages] m"

definition kmm_uncached_malloc :: "u64 \<Rightarrow> heap \<Rightarrow> (u64 \<times> heap) res" where
  "kmm_uncached_malloc sz h =
     (if \<not> sz \<ge> 1 then Inl Panic
      else
        let aligned_size = (sz + (ucast PAGE_SIZE - 1)) AND NOT (ucast PAGE_SIZE - 1);
            num_pages = unat (aligned_size div ucast PAGE_SIZE);
            m = kernelUncachedMemoryRegionMap h
        in rbind (uncached_scan m num_pages 0) (\<lambda>i.
             Inr (kUncachedStart h + of_nat i * ucast PAGE_SIZE,
                  h\<lparr>kernelUncachedMemoryRegionMap := uncached_take i num_pages m\<rparr>)))"

definition kmm_uncached_free :: "u64 \<Rightarrow> heap \<Rightarrow> heap res" where
  "kmm_uncached_free va h =
     (if va = 0 then Inl Panic
      else
        let page_idx = unat ((va - kUncachedStart h) div ucast PAGE_SIZE);
            m = kernelUncachedMemoryRegionMap h;
            page_len = unat (pb_size (m page_idx));
            step = (\<lambda>page. \<lparr>pb_size = 0, pb_ref_count = pb_ref_count page - 1\<rparr>)
        in if page_idx < kRegionPageNums
           then Inr (h\<lparr>kernelUncachedMemoryRegionMap := m(page_idx := (step ^^ page_len) (m page_idx))\<rparr>)
           else Inl OutOfBounds)"

definition kmm_uncached_zalloc :: "u64 \<Rightarrow> heap \<Rightarrow> (u64 \<times> heap) res" where
  "kmm_uncached_zalloc sz h = rbind (kmm_uncached_malloc sz h) (\<lambda>(alloc, h).
     Inr (alloc, if alloc \<noteq> 0 then h\<lparr>dram := memzero alloc sz (dram h)\<rparr> else h))"


section \<open>Page addresses\<close>

lemma unat_of_nat_u32: "k < 2 ^ 32 \<Longrightarrow> unat (of_nat k :: u32) = k"
  by (simp add: unat_of_nat)

lemma page_offset:
  assumes "i < 2 ^ 20"
  shows "(ucast (of_nat i * PAGE_SIZE) :: u64) = of_nat (i * 4096)"
    and "unat (ucast (of_nat i * PAGE_SIZE) :: u64) = i * 4096"
proof -
  have "of_nat i * PAGE_SIZE = (of_nat (i * 4096) :: u32)" by (simp add: PAGE_SIZE_def)
  moreover have "unat (of_nat (i * 4096) :: u32) = i * 4096"
    using assms by (intro unat_of_nat_u32) simp
  ultimately have n: "unat (of_nat i * PAGE_SIZE) = i * 4096" by simp
  then show "(ucast (of_nat i * PAGE_SIZE) :: u64) = of_nat (i * 4096)"
    by (metis of_nat_unat)
  then show "unat (ucast (of_nat i * PAGE_SIZE) :: u64) = i * 4096"
    using assms by (simp only:) (intro unat_of_nat_u64, simp)
qed

definition page_at :: "u64 \<Rightarrow> nat \<Rightarrow> u64" where
  "page_at base i = base + of_nat (i * 4096)"

lemma page_at_inj:
  assumes "i < 2 ^ 20" "j < 2 ^ 20"
  shows "page_at b i = page_at b j \<longleftrightarrow> i = j"
proof
  assume "page_at b i = page_at b j"
  then have "(of_nat (i * 4096) :: u64) = of_nat (j * 4096)"
    by (simp only: page_at_def add_left_cancel)
  moreover have "unat (of_nat (i * 4096) :: u64) = i * 4096" "unat (of_nat (j * 4096) :: u64) = j * 4096"
    using assms by (intro unat_of_nat_u64, simp)+
  ultimately show "i = j" by simp
qed simp

lemma page_at_index:
  assumes "i < 2 ^ 20"
  shows "unat ((page_at b i - b) div ucast PAGE_SIZE) = i"
proof -
  have "unat (of_nat (i * 4096) :: u64) = i * 4096"
    using assms by (intro unat_of_nat_u64) simp
  then show ?thesis by (simp add: page_at_def PAGE_SIZE_def unat_div)
qed

lemma page_at_aligned: "aligned 12 b \<Longrightarrow> aligned 12 (page_at b i)"
proof -
  assume b: "aligned 12 b"
  have "of_nat (i * 4096) = push_bit 12 (of_nat i :: u64)" by (simp add: push_bit_eq_mult)
  then have "aligned 12 (of_nat (i * 4096) :: u64)"
    by (simp only: aligned_bit) (simp add: bit_push_bit_iff)
  with b show ?thesis unfolding page_at_def by (intro aligned_add) simp_all
qed

lemma page_at_nonzero:
  assumes "b \<noteq> 0" "unat b + 4096 * n \<le> 2 ^ 64" "i < n"
  shows "page_at b i \<noteq> 0" and "unat (page_at b i) = unat b + i * 4096"
proof -
  have "0 < unat b" using assms(1) by (simp add: unat_gt_0)
  then have s: "i * 4096 < 2 ^ 64" "unat b + i * 4096 < 2 ^ 64" using assms(2,3) by linarith+
  then have "unat (of_nat (i * 4096) :: u64) = i * 4096" by (intro unat_of_nat_u64)
  with s show u: "unat (page_at b i) = unat b + i * 4096"
    unfolding page_at_def by (simp add: unat_add_lem [THEN iffD1])
  then show "page_at b i \<noteq> 0" using \<open>0 < unat b\<close> by auto
qed


section \<open>Invariant\<close>

text \<open>
  The layout the linker scripts produce: page-aligned regions of 64 MiB, 1 MiB and 2 GiB,
  in this order, which do not wrap around.
\<close>

definition layout_ok :: "heap \<Rightarrow> bool" where
  "layout_ok h \<longleftrightarrow>
     aligned 12 (kHeapStart h) \<and> aligned 12 (kUncachedStart h) \<and> aligned 12 (kUserStart h) \<and>
     kHeapStart h \<noteq> 0 \<and>
     unat (kHeapStart h) + 4096 * HEAP_PAGES \<le> unat (kUncachedStart h) \<and>
     unat (kUncachedStart h) + 4096 * kRegionPageNums \<le> unat (kUserStart h) \<and>
     unat (kUserStart h) + 4096 * unat kPagingPages \<le> 2 ^ 64"

definition user_page_used :: "heap \<Rightarrow> nat \<Rightarrow> bool" where
  "user_page_used h i \<longleftrightarrow> bit (userMemoryRegionMap h (i div 8)) (i mod 8)"

definition heap_inv :: "heap \<Rightarrow> bool" where
  "heap_inv h \<longleftrightarrow> layout_ok h \<and> unat (nextFreeSpaceIndex h) \<le> unat kPagingPages \<and>
     (\<forall>i < unat kPagingPages. unat (nextFreeSpaceIndex h) \<le> i \<longrightarrow> \<not> user_page_used h i)"

definition kmm_used :: "heap \<Rightarrow> u64 set" where
  "kmm_used h = page_at (kHeapStart h) ` {i. i < HEAP_PAGES \<and> kernelHeapMemMap h i}"

definition umm_used :: "heap \<Rightarrow> u64 set" where
  "umm_used h = page_at (kUserStart h) ` {i. i < unat kPagingPages \<and> user_page_used h i}"

lemmas heap_consts = HEAP_PAGES_def kPagingPages_def kRegionPageNums_def

lemma kPagingPages_unat [simp]: "unat kPagingPages = 524288"
  by (simp add: kPagingPages_def)

lemma bit_user_bit: "bit (user_bit i) n \<longleftrightarrow> n = i mod 8"
  by (auto simp: user_bit_def bit_exp_iff)

lemma and_user_bit: "(b AND user_bit i = 0) \<longleftrightarrow> \<not> bit b (i mod 8)"
proof -
  have "bit (b AND user_bit i) n \<longleftrightarrow> bit b n \<and> n = i mod 8" for n
    by (simp add: bit_and_iff bit_user_bit)
  then show ?thesis by (metis bit_0_eq bot_apply bot_bool_def bit_eqI)
qed

lemma bit_or_user_bit: "bit (b OR user_bit i) n \<longleftrightarrow> bit b n \<or> n = i mod 8"
  by (simp add: bit_or_iff bit_user_bit)

lemma bit_and_not_user_bit: "bit (b AND NOT (user_bit i)) n \<longleftrightarrow> bit b n \<and> n \<noteq> i mod 8"
  using bit_imp_le_length [of b n] by (auto simp: bit_and_iff bit_not_iff bit_user_bit)

lemma div_mod_8_eq: "(k :: nat) div 8 = i div 8 \<Longrightarrow> k mod 8 = i mod 8 \<longleftrightarrow> k = i"
  by (metis div_mult_mod_eq)

lemma user_page_used_set:
  "bit ((m(i div 8 := m (i div 8) OR user_bit i)) (j div 8)) (j mod 8) \<longleftrightarrow>
     bit (m (j div 8)) (j mod 8) \<or> j = i"
  by (cases "j div 8 = i div 8") (auto simp: bit_or_user_bit div_mod_8_eq)

lemma user_page_used_clear:
  "bit ((m(i div 8 := m (i div 8) AND NOT (user_bit i))) (j div 8)) (j mod 8) \<longleftrightarrow>
     bit (m (j div 8)) (j mod 8) \<and> j \<noteq> i"
  by (cases "j div 8 = i div 8") (auto simp: bit_and_not_user_bit div_mod_8_eq)

section \<open>The operations and the invariant\<close>

lemma kmm_malloc_cases:
  assumes "kmm_malloc sz h = Inr (p, h')"
  obtains "sz = 0" "p = 0" "h' = h"
  | i where "sz \<noteq> 0" "i < HEAP_PAGES" "\<not> kernelHeapMemMap h i" "\<forall>j<i. kernelHeapMemMap h j"
      "p = page_at (kHeapStart h) i" "h' = h\<lparr>kernelHeapMemMap := (kernelHeapMemMap h)(i := True)\<rparr>"
proof (cases "sz < 1")
  case True
  then have "sz = 0" by simp
  with assms that(1) show ?thesis by (simp add: kmm_malloc_def)
next
  case False
  with assms obtain i where i: "first_index (\<lambda>i. \<not> kernelHeapMemMap h i) 0 HEAP_PAGES = Some i"
    and p: "p = kHeapStart h + ucast (of_nat i * PAGE_SIZE)"
    and h': "h' = h\<lparr>kernelHeapMemMap := (kernelHeapMemMap h)(i := True)\<rparr>"
    by (auto simp: kmm_malloc_def split: option.splits)
  from i have "i < HEAP_PAGES" "\<not> kernelHeapMemMap h i" "\<forall>j<i. kernelHeapMemMap h j"
    by (auto simp: first_index_Some)
  moreover from this(1) have "p = page_at (kHeapStart h) i"
    unfolding p page_at_def by (subst page_offset(1)) (simp_all add: HEAP_PAGES_def)
  moreover have "sz \<noteq> 0" using False by auto
  ultimately show ?thesis using that(2) h' by blast
qed

lemma umm_malloc_cases:
  assumes "umm_malloc 4096 h = Inr (p, h')"
  obtains i where "unat (nextFreeSpaceIndex h) \<le> i" "i < 524288" "\<not> user_page_used h i"
      "p = page_at (kUserStart h) i" "unat (nextFreeSpaceIndex h') = Suc i"
      "\<forall>j. user_page_used h' j \<longleftrightarrow> user_page_used h j \<or> j = i"
      "h' = h\<lparr>userMemoryRegionMap := userMemoryRegionMap h', nextFreeSpaceIndex := nextFreeSpaceIndex h'\<rparr>"
proof -
  from assms obtain i where i: "first_index (\<lambda>i. userMemoryRegionMap h (i div 8) AND user_bit i = 0)
                  (unat (nextFreeSpaceIndex h)) (unat kPagingPages) = Some i"
    and p: "p = kUserStart h + ucast (of_nat i * PAGE_SIZE)"
    and h': "h' = h\<lparr>userMemoryRegionMap := (userMemoryRegionMap h)
                  (i div 8 := userMemoryRegionMap h (i div 8) OR user_bit i),
                  nextFreeSpaceIndex := of_nat i + 1\<rparr>"
    by (auto simp: umm_malloc_def PAGE_SIZE_def Let_def split: option.splits)
  from i have *: "unat (nextFreeSpaceIndex h) \<le> i" "i < 524288" "\<not> user_page_used h i"
    by (auto simp: first_index_Some and_user_bit user_page_used_def)
  have "p = page_at (kUserStart h) i"
    unfolding p page_at_def using *(2) by (subst page_offset(1)) simp_all
  moreover have "unat (nextFreeSpaceIndex h') = Suc i"
  proof -
    have "(of_nat i + 1 :: u32) = of_nat (Suc i)" by simp
    moreover have "unat (of_nat (Suc i) :: u32) = Suc i" using *(2) by (intro unat_of_nat_u32) simp
    ultimately show ?thesis unfolding h' by (simp del: of_nat_Suc)
  qed
  moreover have "\<forall>j. user_page_used h' j \<longleftrightarrow> user_page_used h j \<or> j = i"
    unfolding h' user_page_used_def by (simp add: user_page_used_set del: fun_upd_apply)
  ultimately show ?thesis using that * h' by simp
qed


section \<open>The contract of a page allocator\<close>

fun alloc_many :: "('h \<Rightarrow> (u64 \<times> 'h) res) \<Rightarrow> nat \<Rightarrow> 'h \<Rightarrow> (u64 list \<times> 'h) res" where
  "alloc_many f 0 h = Inr ([], h)"
| "alloc_many f (Suc n) h =
     rbind (f h) (\<lambda>(p, h). rbind (alloc_many f n h) (\<lambda>(ps, h). Inr (p # ps, h)))"

locale page_allocator =
  fixes alloc :: "'h \<Rightarrow> (u64 \<times> 'h) res"
    and used :: "'h \<Rightarrow> u64 set"
    and ok :: "'h \<Rightarrow> bool"
  assumes alloc_ok: "ok h \<Longrightarrow> alloc h = Inr (p, h') \<Longrightarrow> ok h'"
    and alloc_fresh: "ok h \<Longrightarrow> alloc h = Inr (p, h') \<Longrightarrow> p \<notin> used h"
    and alloc_used: "ok h \<Longrightarrow> alloc h = Inr (p, h') \<Longrightarrow> used h' = insert p (used h)"
    and used_page: "ok h \<Longrightarrow> p \<in> used h \<Longrightarrow> aligned 12 p \<and> p \<noteq> 0"
begin

lemma alloc_page: "ok h \<Longrightarrow> alloc h = Inr (p, h') \<Longrightarrow> aligned 12 p \<and> p \<noteq> 0"
  using used_page [of h' p] alloc_used alloc_ok by blast

lemma pages_disjoint:
  assumes "ok h" "p \<in> used h" "q \<in> used h" "p \<noteq> q" "i < 4096"
  shows "4096 \<le> unat (q + i - p)"
proof -
  have "unat i < 2 ^ 12" using assms(5) by (simp add: word_less_nat_alt)
  then show ?thesis
    using aligned_disjoint [of 12 p q i] used_page [OF assms(1)] assms(2,3,4) by simp
qed

lemma alloc_many_distinct:
  assumes "ok h" "alloc_many alloc n h = Inr (ps, h')"
  shows "length ps = n \<and> distinct ps \<and> set ps \<inter> used h = {} \<and> used h' = used h \<union> set ps \<and> ok h'"
  using assms
proof (induction n arbitrary: h ps)
  case 0
  then show ?case by simp
next
  case (Suc n)
  from Suc.prems(2) obtain p h1 qs where p: "alloc h = Inr (p, h1)"
    and qs: "alloc_many alloc n h1 = Inr (qs, h')" and ps: "ps = p # qs"
    by (auto simp: rbind_eq_Inr)
  have "ok h1" and u1: "used h1 = insert p (used h)" and "p \<notin> used h"
    using alloc_ok alloc_used alloc_fresh Suc.prems(1) p by blast+
  from Suc.IH [OF \<open>ok h1\<close> qs] u1 \<open>p \<notin> used h\<close> ps show ?case by auto
qed

end

locale page_pool = page_allocator +
  fixes free :: "u64 \<Rightarrow> 'h \<Rightarrow> 'h res"
  assumes free_used: "ok h \<Longrightarrow> p \<in> used h \<Longrightarrow> \<exists>h'. free p h = Inr h' \<and> ok h' \<and> used h' = used h - {p}"
begin

lemma alloc_free_used:
  assumes "ok h" "alloc h = Inr (p, h1)"
  shows "\<exists>h2. free p h1 = Inr h2 \<and> ok h2 \<and> used h2 = used h"
proof -
  have "ok h1" "used h1 = insert p (used h)" "p \<notin> used h"
    using assms alloc_ok alloc_used alloc_fresh by blast+
  then show ?thesis using free_used [of h1 p] by auto
qed

end

section \<open>The kernel heap and the guest pool meet it\<close>

lemma layout_heap: "layout_ok h \<Longrightarrow> unat (kHeapStart h) + 4096 * HEAP_PAGES \<le> 2 ^ 64"
  using unat_lt_64 [of "kUncachedStart h"] by (simp add: layout_ok_def)

lemma layout_user: "layout_ok h \<Longrightarrow> kUserStart h \<noteq> 0 \<and> unat (kUserStart h) + 4096 * 524288 \<le> 2 ^ 64"
proof -
  assume l: "layout_ok h"
  then have "0 < unat (kUserStart h)" by (simp add: layout_ok_def heap_consts)
  then have "kUserStart h \<noteq> 0" by (simp add: unat_gt_0)
  with l show ?thesis by (simp add: layout_ok_def)
qed

lemma kmm_used_page:
  assumes "layout_ok h" "p \<in> kmm_used h"
  shows "aligned 12 p \<and> p \<noteq> 0"
proof -
  obtain i where "i < HEAP_PAGES" "p = page_at (kHeapStart h) i"
    using assms(2) by (auto simp: kmm_used_def)
  then show ?thesis
    using assms(1) page_at_nonzero(1) [OF _ layout_heap] page_at_aligned by (simp add: layout_ok_def)
qed

lemma umm_used_page:
  assumes "layout_ok h" "p \<in> umm_used h"
  shows "aligned 12 p \<and> p \<noteq> 0"
proof -
  obtain i where "i < 524288" "p = page_at (kUserStart h) i"
    using assms(2) by (auto simp: umm_used_def)
  then show ?thesis
    using assms(1) page_at_nonzero(1) [of "kUserStart h" 524288] layout_user [OF assms(1)]
      page_at_aligned by (simp add: layout_ok_def)
qed

lemma heap_inv_layout: "heap_inv h \<Longrightarrow> layout_ok h"
  by (simp add: heap_inv_def)

lemma layout_ok_frame:
  "kHeapStart h' = kHeapStart h \<Longrightarrow> kUncachedStart h' = kUncachedStart h \<Longrightarrow>
   kUserStart h' = kUserStart h \<Longrightarrow> layout_ok h' = layout_ok h"
  by (simp add: layout_ok_def)

lemma kmm_malloc_page:
  assumes "kmm_malloc sz h = Inr (p, h')" "sz \<noteq> 0" "heap_inv h"
  shows "heap_inv h'" "p \<notin> kmm_used h" "kmm_used h' = insert p (kmm_used h)"
    "umm_used h' = umm_used h" "dram h' = dram h"
    "userMemoryRegionMap h' = userMemoryRegionMap h" "nextFreeSpaceIndex h' = nextFreeSpaceIndex h"
    "kHeapStart h' = kHeapStart h" "kUserStart h' = kUserStart h"
proof -
  from kmm_malloc_cases [OF assms(1)] assms(2)
  obtain i where i: "i < HEAP_PAGES" "\<not> kernelHeapMemMap h i" "p = page_at (kHeapStart h) i"
    and h': "h' = h\<lparr>kernelHeapMemMap := (kernelHeapMemMap h)(i := True)\<rparr>" by metis
  have inj: "page_at (kHeapStart h) j = page_at (kHeapStart h) i \<longleftrightarrow> j = i" if "j < HEAP_PAGES" for j
    using that i(1) by (intro page_at_inj) (simp_all add: HEAP_PAGES_def)
  show "p \<notin> kmm_used h" unfolding kmm_used_def image_iff using i inj by (metis mem_Collect_eq)
  show "kmm_used h' = insert p (kmm_used h)" using i by (auto simp: kmm_used_def h')
  show "heap_inv h'" using assms(3) by (simp add: h' heap_inv_def layout_ok_def user_page_used_def)
  show "umm_used h' = umm_used h" "dram h' = dram h"
    "userMemoryRegionMap h' = userMemoryRegionMap h" "nextFreeSpaceIndex h' = nextFreeSpaceIndex h"
    "kHeapStart h' = kHeapStart h" "kUserStart h' = kUserStart h"
    by (simp_all add: h' umm_used_def user_page_used_def)
qed

lemma kmm_free_page:
  assumes "heap_inv h" "p \<in> kmm_used h"
  shows "\<exists>h'. kmm_free p h = Inr h' \<and> heap_inv h' \<and> kmm_used h' = kmm_used h - {p} \<and>
     umm_used h' = umm_used h \<and> dram h' = dram h"
proof -
  obtain i where i: "i < HEAP_PAGES" "kernelHeapMemMap h i" "p = page_at (kHeapStart h) i"
    using assms(2) by (auto simp: kmm_used_def)
  have "unat ((p - kHeapStart h) div ucast PAGE_SIZE) = i"
    unfolding i(3) using i(1) by (intro page_at_index) (simp add: HEAP_PAGES_def)
  then have f: "kmm_free p h = Inr (h\<lparr>kernelHeapMemMap := (kernelHeapMemMap h)(i := False)\<rparr>)"
    using i(1) by (simp add: kmm_free_def)
  have inj: "page_at (kHeapStart h) j = page_at (kHeapStart h) i \<longleftrightarrow> j = i" if "j < HEAP_PAGES" for j
    using that i(1) by (intro page_at_inj) (simp_all add: HEAP_PAGES_def)
  have "kmm_used (h\<lparr>kernelHeapMemMap := (kernelHeapMemMap h)(i := False)\<rparr>) = kmm_used h - {p}"
    using inj by (auto simp: kmm_used_def i(3))
  with assms(1) f show ?thesis
    by (auto simp: heap_inv_def layout_ok_def user_page_used_def umm_used_def)
qed

lemma umm_malloc_page:
  assumes "umm_malloc 4096 h = Inr (p, h')" "heap_inv h"
  shows "heap_inv h'" "p \<notin> umm_used h" "umm_used h' = insert p (umm_used h)"
    "kmm_used h' = kmm_used h" "dram h' = dram h" "kernelHeapMemMap h' = kernelHeapMemMap h"
    "kHeapStart h' = kHeapStart h" "kUserStart h' = kUserStart h"
proof -
  obtain i where i: "unat (nextFreeSpaceIndex h) \<le> i" "i < 524288" "\<not> user_page_used h i"
      "p = page_at (kUserStart h) i" and n: "unat (nextFreeSpaceIndex h') = Suc i"
    and u: "\<forall>j. user_page_used h' j \<longleftrightarrow> user_page_used h j \<or> j = i"
    and h': "h' = h\<lparr>userMemoryRegionMap := userMemoryRegionMap h', nextFreeSpaceIndex := nextFreeSpaceIndex h'\<rparr>"
    by (rule umm_malloc_cases [OF assms(1)])
  have f: "kHeapStart h' = kHeapStart h" "kUncachedStart h' = kUncachedStart h"
    "kUserStart h' = kUserStart h" "dram h' = dram h" "kernelHeapMemMap h' = kernelHeapMemMap h"
    by (subst h', simp)+
  have inj: "page_at (kUserStart h) j = page_at (kUserStart h) i \<longleftrightarrow> j = i" if "j < 524288" for j
    using that i(2) by (intro page_at_inj) simp_all
  show "p \<notin> umm_used h"
    unfolding umm_used_def image_iff kPagingPages_unat using i inj by (metis mem_Collect_eq)
  show "umm_used h' = insert p (umm_used h)" using i u by (auto simp: umm_used_def f)
  show "heap_inv h'" using assms(2) i n u layout_ok_frame [OF f(1-3)] by (auto simp: heap_inv_def)
  show "kmm_used h' = kmm_used h" by (simp add: kmm_used_def f)
  show "dram h' = dram h" "kernelHeapMemMap h' = kernelHeapMemMap h"
    "kHeapStart h' = kHeapStart h" "kUserStart h' = kUserStart h" by (fact f)+
qed


lemma umm_free_page:
  assumes "heap_inv h" "p \<in> umm_used h"
  shows "\<exists>h'. umm_free p h = Inr h' \<and> heap_inv h' \<and> umm_used h' = umm_used h - {p} \<and>
     kmm_used h' = kmm_used h \<and> dram h' = dram h \<and> nextFreeSpaceIndex h' = nextFreeSpaceIndex h"
proof -
  obtain i where i: "i < 524288" "user_page_used h i" "p = page_at (kUserStart h) i"
    using assms(2) by (auto simp: umm_used_def)
  let ?m = "userMemoryRegionMap h"
  let ?h = "h\<lparr>userMemoryRegionMap := ?m(i div 8 := ?m (i div 8) AND NOT (user_bit i))\<rparr>"
  have idx: "unat ((p - kUserStart h) div ucast PAGE_SIZE) = i"
    unfolding i(3) using i(1) by (intro page_at_index) simp
  have "unat (ucast ((p - kUserStart h) div ucast PAGE_SIZE) :: u32) = i"
    unfolding unsigned_ucast_eq idx using i(1) by (simp add: take_bit_nat_eq_self)
  then have f: "umm_free p h = Inr ?h"
    using i(1) by (simp add: umm_free_def Let_def)
  have u: "user_page_used ?h j \<longleftrightarrow> user_page_used h j \<and> j \<noteq> i" for j
    by (simp add: user_page_used_def user_page_used_clear del: fun_upd_apply)
  have inj: "page_at (kUserStart h) j = page_at (kUserStart h) i \<longleftrightarrow> j = i" if "j < 524288" for j
    using that i(1) by (intro page_at_inj) simp_all
  have "umm_used ?h = umm_used h - {p}"
    unfolding umm_used_def u using inj by (auto simp: i(3))
  moreover have "heap_inv ?h" using assms(1) by (auto simp: heap_inv_def u layout_ok_def)
  ultimately show ?thesis using f by (auto simp: kmm_used_def)
qed

interpretation kmm_pool: page_pool "kmm_malloc 4096" kmm_used heap_inv kmm_free
proof unfold_locales
  fix h :: heap and p
  assume "heap_inv h" "p \<in> kmm_used h"
  then show "aligned 12 p \<and> p \<noteq> 0" using kmm_used_page [OF heap_inv_layout] by blast
  show "\<exists>h'. kmm_free p h = Inr h' \<and> heap_inv h' \<and> kmm_used h' = kmm_used h - {p}"
    using kmm_free_page [OF \<open>heap_inv h\<close> \<open>p \<in> kmm_used h\<close>] by blast
qed (use kmm_malloc_page(1-3) [where sz = 4096] in simp_all)

interpretation umm_pool: page_pool "umm_malloc 4096" umm_used heap_inv umm_free
proof unfold_locales
  fix h :: heap and p
  assume "heap_inv h" "p \<in> umm_used h"
  then show "aligned 12 p \<and> p \<noteq> 0" using umm_used_page [OF heap_inv_layout] by blast
  show "\<exists>h'. umm_free p h = Inr h' \<and> heap_inv h' \<and> umm_used h' = umm_used h - {p}"
    using umm_free_page [OF \<open>heap_inv h\<close> \<open>p \<in> umm_used h\<close>] by blast
qed (use umm_malloc_page(1-3) in simp_all)

section \<open>Zeroing allocation\<close>

lemma heap_inv_dram [simp]: "heap_inv (h\<lparr>dram := m\<rparr>) = heap_inv h"
  by (simp add: heap_inv_def layout_ok_def user_page_used_def)

lemma used_dram [simp]: "kmm_used (h\<lparr>dram := m\<rparr>) = kmm_used h" "umm_used (h\<lparr>dram := m\<rparr>) = umm_used h"
  by (simp_all add: kmm_used_def umm_used_def user_page_used_def)

lemma zeroed_page: "unat (x - p) < 4096 \<longleftrightarrow> x - p < (4096 :: u64)"
  by (simp add: word_less_nat_alt)

lemma kmm_zalloc_page:
  assumes "kmm_zalloc 4096 h = Inr (p, h')" "heap_inv h"
  shows "heap_inv h'" "p \<notin> kmm_used h" "kmm_used h' = insert p (kmm_used h)"
    "umm_used h' = umm_used h" "dram h' = (\<lambda>x. if x - p < 4096 then 0 else dram h x)"
    "kHeapStart h' = kHeapStart h" "kUserStart h' = kUserStart h"
proof -
  obtain h1 where h1: "kmm_malloc 4096 h = Inr (p, h1)"
    and h': "h' = (if p \<noteq> 0 then h1\<lparr>dram := memzero p 4096 (dram h1)\<rparr> else h1)"
    using assms(1) by (auto simp: kmm_zalloc_def rbind_eq_Inr)
  note s = kmm_malloc_page [OF h1 _ assms(2)]
  have "p \<noteq> 0" using kmm_pool.alloc_page [OF assms(2) h1] by simp
  with h' have h'': "h' = h1\<lparr>dram := memzero p 4096 (dram h1)\<rparr>" by simp
  show "heap_inv h'" "p \<notin> kmm_used h" "kmm_used h' = insert p (kmm_used h)" "umm_used h' = umm_used h"
    "kHeapStart h' = kHeapStart h" "kUserStart h' = kUserStart h"
    using s by (simp_all add: h'')
  show "dram h' = (\<lambda>x. if x - p < 4096 then 0 else dram h x)"
    using s(5) by (simp add: h'' memzero_eq fun_eq_iff)
qed

lemma umm_zalloc_page:
  assumes "umm_zalloc 4096 h = Inr (p, h')" "heap_inv h"
  shows "heap_inv h'" "p \<notin> umm_used h" "umm_used h' = insert p (umm_used h)"
    "kmm_used h' = kmm_used h" "dram h' = (\<lambda>x. if x - p < 4096 then 0 else dram h x)"
    "kHeapStart h' = kHeapStart h" "kUserStart h' = kUserStart h"
proof -
  obtain h1 where h1: "umm_malloc 4096 h = Inr (p, h1)"
    and h': "h' = (if p \<noteq> 0 then h1\<lparr>dram := memzero p 4096 (dram h1)\<rparr> else h1)"
    using assms(1) by (auto simp: umm_zalloc_def rbind_eq_Inr)
  note s = umm_malloc_page [OF h1 assms(2)]
  have "p \<noteq> 0" using umm_pool.alloc_page [OF assms(2) h1] by simp
  with h' have h'': "h' = h1\<lparr>dram := memzero p 4096 (dram h1)\<rparr>" by simp
  show "heap_inv h'" "p \<notin> umm_used h" "umm_used h' = insert p (umm_used h)" "kmm_used h' = kmm_used h"
    "kHeapStart h' = kHeapStart h" "kUserStart h' = kUserStart h"
    using s by (simp_all add: h'')
  show "dram h' = (\<lambda>x. if x - p < 4096 then 0 else dram h x)"
    using s(5) by (simp add: h'' memzero_eq fun_eq_iff)
qed

text \<open>Kernel pages and guest pages lie in different regions.\<close>

lemma regions_disjoint:
  assumes "layout_ok h" "p \<in> kmm_used h" "q \<in> umm_used h"
  shows "p \<noteq> q"
proof -
  obtain i where i: "i < HEAP_PAGES" "p = page_at (kHeapStart h) i"
    using assms(2) by (auto simp: kmm_used_def)
  obtain j where j: "j < 524288" "q = page_at (kUserStart h) j"
    using assms(3) by (auto simp: umm_used_def)
  have p: "unat p = unat (kHeapStart h) + i * 4096"
    unfolding i(2) using assms(1) i(1) layout_heap [OF assms(1)]
    by (intro page_at_nonzero(2)) (auto simp: layout_ok_def)
  have q: "unat q = unat (kUserStart h) + j * 4096"
    unfolding j(2) using layout_user [OF assms(1)] j(1) by (intro page_at_nonzero(2)) auto
  show ?thesis using p q i(1) assms(1) by (auto simp: layout_ok_def)
qed


section \<open>First fit in the uncached region\<close>

lemma spaces_available_True:
  "kmm_is_spaces_available m i n = Inr True \<longleftrightarrow>
     (n = 0 \<or> i + n \<le> kRegionPageNums) \<and> (\<forall>k<n. pb_ref_count (m (i + k)) = 0)"
proof (induction m i n rule: kmm_is_spaces_available.induct)
  case (1 m start)
  then show ?case by simp
next
  case (2 m start n)
  have "(\<forall>k<Suc n. P (start + k)) \<longleftrightarrow> P start \<and> (\<forall>k<n. P (Suc start + k))" for P
    by (auto simp: less_Suc_eq_0_disj)
  from this [of "\<lambda>j. pb_ref_count (m j) = 0"] 2 show ?case by auto
qed

lemma spaces_available_False:
  "kmm_is_spaces_available m i n = Inr False \<Longrightarrow> \<exists>k<n. pb_ref_count (m (i + k)) \<noteq> 0"
proof (induction m i n rule: kmm_is_spaces_available.induct)
  case (2 m start n)
  show ?case
  proof (cases "pb_ref_count (m start) = 0")
    case True
    with 2 obtain k where "k < n" "pb_ref_count (m (Suc start + k)) \<noteq> 0"
      by (auto split: if_splits)
    then show ?thesis by (intro exI [of _ "Suc k"]) simp
  next
    case False
    then show ?thesis by (intro exI [of _ 0]) simp
  qed
qed simp

lemma uncached_scan_Inr:
  "uncached_scan m n i = Inr k \<Longrightarrow>
     i \<le> k \<and> k < kRegionPageNums \<and> kmm_is_spaces_available m k n = Inr True \<and>
     (\<forall>j. i \<le> j \<and> j < k \<longrightarrow> kmm_is_spaces_available m j n = Inr False)"
proof (induction m n i rule: uncached_scan.induct)
  case (1 m n i)
  show ?case
  proof (cases "i < kRegionPageNums \<and> kmm_is_spaces_available m i n = Inr False")
    case True
    then have "uncached_scan m n (Suc i) = Inr k"
      using 1(2) by (subst (asm) uncached_scan.simps) simp
    with 1(1) True have ih: "Suc i \<le> k \<and> k < kRegionPageNums \<and> kmm_is_spaces_available m k n = Inr True \<and>
      (\<forall>j. Suc i \<le> j \<and> j < k \<longrightarrow> kmm_is_spaces_available m j n = Inr False)" by auto
    then show ?thesis using True by (metis Suc_leD Suc_leI le_neq_implies_less)
  next
    case False
    with 1(2) show ?thesis
      by (subst (asm) uncached_scan.simps) (auto simp: rbind_eq_Inr split: if_splits)
  qed
qed

lemma uncached_take_eq:
  "uncached_take i n m k = (if i \<le> k \<and> k < i + n
     then \<lparr>pb_size = of_nat n, pb_ref_count = pb_ref_count (m k) + 1\<rparr> else m k)"
proof -
  have "fold (\<lambda>k m. m(k := f (m k))) [i..<i + j] m k = (if i \<le> k \<and> k < i + j then f (m k) else m k)"
    for f :: "PageBlock \<Rightarrow> PageBlock" and j
    by (induction j) auto
  then show ?thesis unfolding uncached_take_def .
qed

lemma uncached_step_pow:
  "((\<lambda>page. \<lparr>pb_size = 0, pb_ref_count = pb_ref_count page - 1\<rparr>) ^^ n) b =
     (if n = 0 then b else \<lparr>pb_size = 0, pb_ref_count = pb_ref_count b - of_nat n\<rparr>)"
  by (induction n) (auto simp: algebra_simps)

lemma round_up_page:
  assumes "sz \<noteq> 0" "sz \<le> 0x100000"
  shows "unat (((sz + (ucast PAGE_SIZE - 1)) AND NOT (ucast PAGE_SIZE - 1)) div ucast PAGE_SIZE :: u64)
    = (unat sz + 4095) div 4096"
proof -
  have "unat sz \<le> 0x100000" using assms(2) by (simp add: word_le_nat_alt)
  then have u: "unat (sz + 4095) = unat sz + 4095" by (simp add: unat_word_ariths)
  have "(4095 :: u64) = mask 12" by (simp add: mask_eq_exp_minus_1)
  moreover have "drop_bit 12 (x AND NOT (mask 12)) = drop_bit 12 x" for x :: u64
    by (intro bit_word_eqI)
       (auto simp: bit_and_iff bit_not_iff bit_drop_bit_eq bit_mask_iff dest: bit_imp_le_length)
  ultimately have down: "drop_bit 12 (x AND NOT 4095) = drop_bit 12 x" for x :: u64 by metis
  have "(sz + (ucast PAGE_SIZE - 1)) AND NOT (ucast PAGE_SIZE - 1) = (sz + 4095) AND NOT 4095"
    by (simp add: PAGE_SIZE_def)
  moreover have "x div ucast PAGE_SIZE = drop_bit 12 x" for x :: u64
    by (simp add: PAGE_SIZE_def drop_bit_eq_div)
  ultimately have "unat (((sz + (ucast PAGE_SIZE - 1)) AND NOT (ucast PAGE_SIZE - 1)) div ucast PAGE_SIZE :: u64)
      = unat (drop_bit 12 (sz + 4095))" by (simp only: down)
  also have "\<dots> = unat (sz + 4095) div 4096" by (simp add: drop_bit_eq_div unat_div)
  finally show ?thesis unfolding u .
qed

lemma uncached_malloc_cases:
  assumes "kmm_uncached_malloc sz h = Inr (p, h')"
  obtains i n where "i < kRegionPageNums"
    "n = unat (((sz + (ucast PAGE_SIZE - 1)) AND NOT (ucast PAGE_SIZE - 1)) div ucast PAGE_SIZE :: u64)"
    "p = kUncachedStart h + of_nat i * ucast PAGE_SIZE"
    "h' = h\<lparr>kernelUncachedMemoryRegionMap := uncached_take i n (kernelUncachedMemoryRegionMap h)\<rparr>"
    "uncached_scan (kernelUncachedMemoryRegionMap h) n 0 = Inr i"
  using assms uncached_scan_Inr
  by (fastforce simp: kmm_uncached_malloc_def Let_def rbind_eq_Inr split: if_splits)


section \<open>The state at boot\<close>

text \<open>The allocators' maps are zero-initialised statics.\<close>

definition heap_boot :: "u64 \<Rightarrow> u64 \<Rightarrow> u64 \<Rightarrow> mem \<Rightarrow> heap" where
  "heap_boot hs us gs m = \<lparr>kHeapStart = hs, kUncachedStart = us, kUserStart = gs,
     kernelHeapMemMap = (\<lambda>_. False), kernelUncachedMemoryRegionMap = (\<lambda>_. \<lparr>pb_size = 0, pb_ref_count = 0\<rparr>),
     userMemoryRegionMap = (\<lambda>_. 0), nextFreeSpaceIndex = 0, dram = m\<rparr>"

abbreviation demo_heap :: heap where
  "demo_heap \<equiv> heap_boot 0x44000000 0x48000000 0x48100000 (\<lambda>_. 0)"

lemma heap_inv_boot: "layout_ok (heap_boot hs us gs m) \<Longrightarrow> heap_inv (heap_boot hs us gs m)"
  by (simp add: heap_inv_def heap_boot_def user_page_used_def)

lemma demo_heap_inv: "heap_inv demo_heap"
  by (rule heap_inv_boot)
     (simp add: layout_ok_def heap_boot_def aligned_def heap_consts take_bit_eq_mask mask_eq_exp_minus_1)

lemma kmm_malloc_first:
  "\<not> kernelHeapMemMap h 0 \<Longrightarrow> kmm_malloc 4096 h =
     Inr (kHeapStart h, h\<lparr>kernelHeapMemMap := (kernelHeapMemMap h)(0 := True)\<rparr>)"
  by (simp add: kmm_malloc_def first_index.simps [of _ 0] HEAP_PAGES_def)

lemma umm_malloc_first:
  "userMemoryRegionMap h 0 = 0 \<Longrightarrow> nextFreeSpaceIndex h = 0 \<Longrightarrow> umm_malloc 4096 h =
     Inr (kUserStart h, h\<lparr>userMemoryRegionMap := (userMemoryRegionMap h)(0 := 1), nextFreeSpaceIndex := 1\<rparr>)"
  by (simp add: umm_malloc_def first_index.simps [of _ 0] PAGE_SIZE_def user_bit_def Let_def)

section \<open>Properties\<close>

text \<open>
  C32. Any number of kernel pages taken one after the other are pairwise different, none of
  them was in use, and no byte of one lies in another or in a page taken before.
\<close>

theorem kernel_pages_disjoint:
  assumes "heap_inv h" and "alloc_many (kmm_malloc 4096) n h = Inr (ps, h')"
  shows "length ps = n \<and> distinct ps \<and> set ps \<inter> kmm_used h = {} \<and>
    (\<forall>p\<in>set ps. \<forall>q\<in>set ps \<union> kmm_used h. p \<noteq> q \<longrightarrow> (\<forall>i<4096. 4096 \<le> unat (q + i - p)))"
proof -
  note d = kmm_pool.alloc_many_distinct [OF assms]
  then have "heap_inv h'" and "kmm_used h' = kmm_used h \<union> set ps" by blast+
  with d show ?thesis using kmm_pool.pages_disjoint [of h'] by auto
qed

theorem kernel_pages_disjoint_witness:
  "length (fst (projr (alloc_many (kmm_malloc 4096) (Suc 0) demo_heap))) = 1"
proof -
  have "alloc_many (kmm_malloc 4096) (Suc 0) demo_heap = Inr ([0x44000000],
      demo_heap\<lparr>kernelHeapMemMap := (\<lambda>_. False)(0 := True)\<rparr>)"
    using kmm_malloc_first [of demo_heap] by (simp add: heap_boot_def)
  from kernel_pages_disjoint [OF demo_heap_inv this] this show ?thesis by simp
qed

text \<open>
  C33. A page handed to a guest is zeroed, was in no other use, leaves every other byte of memory
  as it was, and does not overlap the pages the hypervisor uses for itself.
\<close>

theorem guest_page_fresh:
  assumes "heap_inv h" and "umm_zalloc 4096 h = Inr (p, h')"
  shows "heap_inv h' \<and> p \<notin> umm_used h \<and> umm_used h' = insert p (umm_used h) \<and>
    (\<forall>x. dram h' x = (if x - p < 4096 then 0 else dram h x)) \<and>
    (\<forall>k\<in>kmm_used h'. \<forall>i<4096. 4096 \<le> unat (k + i - p))"
proof -
  note z = umm_zalloc_page [OF assms(2,1)]
  have "4096 \<le> unat (k + i - p)" if k: "k \<in> kmm_used h'" and i: "i < 4096" for k i
  proof -
    have l: "layout_ok h'" using heap_inv_layout [OF z(1)] .
    have p: "p \<in> umm_used h'" using z(3) by simp
    then have "p \<noteq> k" using regions_disjoint [OF l k] by blast
    moreover have "aligned 12 p" "aligned 12 k" using kmm_used_page [OF l k] umm_used_page [OF l p] by simp_all
    moreover have "unat i < 2 ^ 12" using i by (simp add: word_less_nat_alt)
    ultimately show ?thesis using aligned_disjoint [of 12 p k i] by simp
  qed
  with z show ?thesis by simp
qed

theorem guest_page_fresh_witness:
  "\<exists>p h'. umm_zalloc 4096 demo_heap = Inr (p, h') \<and> umm_used h' = insert p (umm_used demo_heap)"
proof -
  obtain p h' where z: "umm_zalloc 4096 demo_heap = Inr (p, h')"
    using umm_malloc_first [of demo_heap] by (simp add: umm_zalloc_def heap_boot_def)
  with guest_page_fresh [OF demo_heap_inv z] show ?thesis by blast
qed

lemma umm_malloc_returns_iff:
  assumes "heap_inv h"
  shows "returns (umm_malloc 4096 h) \<longleftrightarrow> unat (nextFreeSpaceIndex h) < 524288"
proof -
  let ?P = "\<lambda>i. userMemoryRegionMap h (i div 8) AND user_bit i = 0"
  have "returns (umm_malloc 4096 h) \<longleftrightarrow> first_index ?P (unat (nextFreeSpaceIndex h)) 524288 \<noteq> None"
    by (auto simp: umm_malloc_def PAGE_SIZE_def Let_def split: option.splits)
  also have "\<dots> \<longleftrightarrow> (\<exists>j. unat (nextFreeSpaceIndex h) \<le> j \<and> j < 524288 \<and> \<not> user_page_used h j)"
    by (auto simp: first_index_None and_user_bit user_page_used_def)
  also have "\<dots> \<longleftrightarrow> unat (nextFreeSpaceIndex h) < 524288"
    using assms by (auto simp: heap_inv_def intro: le_less_trans)
  finally show ?thesis .
qed



text \<open>
  C36. The uncached allocator is first fit: a result is the start of the first run of free pages
  long enough for the request rounded up to pages, and exactly this run is taken.
\<close>

theorem uncached_malloc_first_fit:
  assumes "kmm_uncached_malloc sz h = Inr (p, h')" and "sz \<le> 0x100000"
  shows "\<exists>i. let n = (unat sz + 4095) div 4096; m = kernelUncachedMemoryRegionMap h;
             m' = kernelUncachedMemoryRegionMap h' in
    0 < n \<and> i + n \<le> 256 \<and> p = kUncachedStart h + of_nat i * 4096 \<and>
    (\<forall>k<n. pb_ref_count (m (i + k)) = 0) \<and>
    (\<forall>j<i. \<exists>k<n. pb_ref_count (m (j + k)) \<noteq> 0) \<and>
    (\<forall>k. m' k = (if i \<le> k \<and> k < i + n then \<lparr>pb_size = of_nat n, pb_ref_count = 1\<rparr> else m k))"
proof -
  have "sz \<noteq> 0" using assms(1) by (auto simp: kmm_uncached_malloc_def split: if_splits)
  then have pos: "0 < (unat sz + 4095) div 4096" 
    using unat_gt_0 [of sz] by (simp add: div_greater_zero_iff Suc_le_eq)
  let ?n = "(unat sz + 4095) div 4096"
  obtain i where i: "p = kUncachedStart h + of_nat i * ucast PAGE_SIZE"
    "h' = h\<lparr>kernelUncachedMemoryRegionMap := uncached_take i ?n (kernelUncachedMemoryRegionMap h)\<rparr>"
    "uncached_scan (kernelUncachedMemoryRegionMap h) ?n 0 = Inr i"
    using uncached_malloc_cases [OF assms(1)] round_up_page [OF \<open>sz \<noteq> 0\<close> assms(2)] by metis
  note sc = uncached_scan_Inr [OF i(3)]
  then have run: "i + ?n \<le> 256" "\<forall>k<?n. pb_ref_count (kernelUncachedMemoryRegionMap h (i + k)) = 0"
    using pos by (auto simp: spaces_available_True kRegionPageNums_def)
  moreover have "\<exists>k<?n. pb_ref_count (kernelUncachedMemoryRegionMap h (j + k)) \<noteq> 0" if "j < i" for j
    using sc that by (intro spaces_available_False) simp
  moreover have "uncached_take i ?n (kernelUncachedMemoryRegionMap h) k = (if i \<le> k \<and> k < i + ?n
      then \<lparr>pb_size = of_nat ?n, pb_ref_count = 1\<rparr> else kernelUncachedMemoryRegionMap h k)" for k
    using run(2) [rule_format, of "k - i"] by (auto simp: uncached_take_eq)
  ultimately show ?thesis using pos unfolding Let_def i(1,2) PAGE_SIZE_def
    by (intro exI [of _ i]) simp
qed

theorem uncached_malloc_first_fit_witness:
  "\<exists>p h'. kmm_uncached_malloc 1 demo_heap = Inr (p, h') \<and> p = 0x48000000"
proof -
  have s: "uncached_scan (kernelUncachedMemoryRegionMap demo_heap) 1 0 = Inr 0"
    by (subst uncached_scan.simps)
       (simp add: heap_boot_def kRegionPageNums_def)
  then obtain p h' where m: "kmm_uncached_malloc 1 demo_heap = Inr (p, h')"
    by (simp add: kmm_uncached_malloc_def PAGE_SIZE_def Let_def)
  from uncached_malloc_first_fit [OF m] obtain i where
    "\<forall>j<i. pb_ref_count (kernelUncachedMemoryRegionMap demo_heap j) \<noteq> 0" "p = 0x48000000 + of_nat i * 4096"
    by (auto simp: Let_def heap_boot_def)
  then show ?thesis using m by (cases i) (auto simp: heap_boot_def)
qed




end
