(* ===== verification/EvTask.thy ===== *)
theory EvTask
  imports EvHeap
begin

text \<open>
  Task control blocks (kernel/task/task.h, arch/arm64/cpu_regs.h, the \<open>VCpuContext\<close> of
  kernel/sched/sched.h) and the routines that move the EL1 system registers between the
  CPU and the block of a vCPU (arch/arm64/cpu_regs.cc).
\<close>

section \<open>System registers of a vCPU\<close>

text \<open>The fields of \<open>struct VCpuSysregs\<close>, and the two EL2 registers the load routine writes.\<close>

datatype (plugins only: size) sysreg =
    SCTLR_EL1 | TTBR0_EL1 | TTBR1_EL1 | TCR_EL1 | ESR_EL1 | FAR_EL1 | AFSR0_EL1 | AFSR1_EL1
  | MAIR_EL1 | AMAIR_EL1 | CONTEXTIDR_EL1 | CPACR_EL1 | ELR_EL1 | FPCR | FPSR | MIDR_EL1
  | MPIDR_EL1 | PAR_EL1 | SP_EL0 | SP_EL1 | SPSR_EL1 | TPIDR_EL0 | TPIDR_EL1 | TPIDRRO_EL0
  | VBAR_EL1 | ACTLR_EL1 | ID_PFR0_EL1 | ID_PFR1_EL1 | ID_MMFR0_EL1 | ID_MMFR1_EL1
  | ID_MMFR2_EL1 | ID_MMFR3_EL1 | ID_ISAR0_EL1 | ID_ISAR1_EL1 | ID_ISAR2_EL1 | ID_ISAR3_EL1
  | ID_ISAR4_EL1 | ID_ISAR5_EL1 | MVFR0_EL1 | MVFR1_EL1 | MVFR2_EL1 | ID_AA64PFR0_EL1
  | ID_AA64PFR1_EL1 | ID_AA64DFR0_EL1 | ID_AA64DFR1_EL1 | ID_AA64ISAR0_EL1
  | ID_AA64ISAR1_EL1 | ID_AA64MMFR0_EL1 | ID_AA64MMFR1_EL1 | ID_AA64AFR0_EL1
  | ID_AA64AFR1_EL1 | CTR_EL0 | CCSIDR_EL1 | CLIDR_EL1 | CSSELR_EL1 | AIDR_EL1 | REVIDR_EL1
  | CNTKCTL_EL1 | CNTP_CTL_EL0 | CNTP_CVAL_EL0 | CNTP_TVAL_EL0 | CNTV_CTL_EL0
  | CNTV_CVAL_EL0 | CNTV_TVAL_EL0 | VPIDR_EL2 | VMPIDR_EL2

text \<open>The fields in the order of the struct: field number i lies at byte offset 8 i.\<close>

definition VCpuSysregs_fields :: "sysreg list" where
  "VCpuSysregs_fields = [
     SCTLR_EL1, TTBR0_EL1, TTBR1_EL1, TCR_EL1, ESR_EL1, FAR_EL1, AFSR0_EL1, AFSR1_EL1,
     MAIR_EL1, AMAIR_EL1, CONTEXTIDR_EL1, CPACR_EL1, ELR_EL1, FPCR, FPSR, MIDR_EL1,
     MPIDR_EL1, PAR_EL1, SP_EL0, SP_EL1, SPSR_EL1, TPIDR_EL0, TPIDR_EL1, TPIDRRO_EL0,
     VBAR_EL1, ACTLR_EL1, ID_PFR0_EL1, ID_PFR1_EL1, ID_MMFR0_EL1, ID_MMFR1_EL1,
     ID_MMFR2_EL1, ID_MMFR3_EL1, ID_ISAR0_EL1, ID_ISAR1_EL1, ID_ISAR2_EL1, ID_ISAR3_EL1,
     ID_ISAR4_EL1, ID_ISAR5_EL1, MVFR0_EL1, MVFR1_EL1, MVFR2_EL1, ID_AA64PFR0_EL1,
     ID_AA64PFR1_EL1, ID_AA64DFR0_EL1, ID_AA64DFR1_EL1, ID_AA64ISAR0_EL1, ID_AA64ISAR1_EL1,
     ID_AA64MMFR0_EL1, ID_AA64MMFR1_EL1, ID_AA64AFR0_EL1, ID_AA64AFR1_EL1, CTR_EL0,
     CCSIDR_EL1, CLIDR_EL1, CSSELR_EL1, AIDR_EL1, REVIDR_EL1, CNTKCTL_EL1, CNTP_CTL_EL0,
     CNTP_CVAL_EL0, CNTP_TVAL_EL0, CNTV_CTL_EL0, CNTV_CVAL_EL0, CNTV_TVAL_EL0]"

type_synonym VCpuSysregs = "sysreg \<Rightarrow> u64"

text \<open>
  The assembly of the three routines: the registers named by the \<open>msr\<close> and \<open>mrs\<close> lines, in the
  order in which the pointer walks over the struct.
\<close>

definition load_sequence :: "sysreg list" where
  "load_sequence = [
     SCTLR_EL1, TTBR0_EL1, TTBR1_EL1, TCR_EL1, ESR_EL1, FAR_EL1, AFSR0_EL1, AFSR1_EL1,
     MAIR_EL1, AMAIR_EL1, CONTEXTIDR_EL1, CPACR_EL1, ELR_EL1, FPCR, FPSR, VPIDR_EL2,
     VMPIDR_EL2, PAR_EL1, SP_EL0, SP_EL1, SPSR_EL1, TPIDR_EL0, TPIDR_EL1, TPIDRRO_EL0,
     VBAR_EL1]"

definition store_sequence :: "sysreg list" where
  "store_sequence = [
     SCTLR_EL1, TTBR0_EL1, TTBR1_EL1, TCR_EL1, ESR_EL1, FAR_EL1, AFSR0_EL1, AFSR1_EL1,
     MAIR_EL1, AMAIR_EL1, CONTEXTIDR_EL1, CPACR_EL1, ELR_EL1, FPCR, FPSR, MIDR_EL1,
     MPIDR_EL1, PAR_EL1, SP_EL0, SP_EL1, SPSR_EL1, TPIDR_EL0, TPIDR_EL1, TPIDRRO_EL0,
     VBAR_EL1]"

definition load_all_sequence :: "sysreg list" where
  "load_all_sequence = [
     SCTLR_EL1, TTBR0_EL1, TTBR1_EL1, TCR_EL1, ESR_EL1, FAR_EL1, AFSR0_EL1, AFSR1_EL1,
     MAIR_EL1, AMAIR_EL1, CONTEXTIDR_EL1, CPACR_EL1, ELR_EL1, FPCR, FPSR, MIDR_EL1,
     MPIDR_EL1, PAR_EL1, SP_EL0, SP_EL1, SPSR_EL1, TPIDR_EL0, TPIDR_EL1, TPIDRRO_EL0,
     VBAR_EL1, ACTLR_EL1, ID_PFR0_EL1, ID_PFR1_EL1, ID_MMFR0_EL1, ID_MMFR1_EL1,
     ID_MMFR2_EL1, ID_MMFR3_EL1, ID_ISAR0_EL1, ID_ISAR1_EL1, ID_ISAR2_EL1, ID_ISAR3_EL1,
     ID_ISAR4_EL1, ID_ISAR5_EL1, MVFR0_EL1, MVFR1_EL1, MVFR2_EL1, ID_AA64PFR0_EL1,
     ID_AA64PFR1_EL1, ID_AA64DFR0_EL1, ID_AA64DFR1_EL1, ID_AA64ISAR0_EL1, ID_AA64ISAR1_EL1,
     ID_AA64MMFR0_EL1, ID_AA64MMFR1_EL1, ID_AA64AFR0_EL1, ID_AA64AFR1_EL1, CTR_EL0,
     CCSIDR_EL1, CLIDR_EL1, CSSELR_EL1, AIDR_EL1, REVIDR_EL1, CNTKCTL_EL1, CNTP_CTL_EL0,
     CNTP_CVAL_EL0, CNTP_TVAL_EL0, CNTV_CTL_EL0, CNTV_CVAL_EL0, CNTV_TVAL_EL0]"

text \<open>\<open>msr\<close> writes register number i of the sequence from field number i.\<close>

definition CpuRegLoadVCpuSysregs :: "VCpuSysregs \<Rightarrow> (sysreg \<Rightarrow> u64) \<Rightarrow> (sysreg \<Rightarrow> u64)" where
  "CpuRegLoadVCpuSysregs regs hw =
     fold (\<lambda>(r, f) hw. hw(r := regs f)) (zip load_sequence VCpuSysregs_fields) hw"

definition CpuRegStoreVCpuSysregs :: "(sysreg \<Rightarrow> u64) \<Rightarrow> VCpuSysregs \<Rightarrow> VCpuSysregs" where
  "CpuRegStoreVCpuSysregs hw regs =
     fold (\<lambda>(r, f) regs. regs(f := hw r)) (zip store_sequence VCpuSysregs_fields) regs"

definition CpuRegLoadVCpuAllSysregs :: "(sysreg \<Rightarrow> u64) \<Rightarrow> VCpuSysregs \<Rightarrow> VCpuSysregs" where
  "CpuRegLoadVCpuAllSysregs hw regs =
     fold (\<lambda>(r, f) regs. regs(f := hw r)) (zip load_all_sequence VCpuSysregs_fields) regs"


lemma fold_assign:
  assumes "distinct (map fst zs)"
  shows "fold (\<lambda>(k, v) m. m(k := g v)) zs m x = (case map_of zs x of Some v \<Rightarrow> g v | None \<Rightarrow> m x)"
  using assms
proof (induction zs arbitrary: m)
  case Nil
  then show ?case by simp
next
  case (Cons z zs)
  then have "x = fst z \<Longrightarrow> map_of zs x = None" by (auto simp: map_of_eq_None_iff)
  with Cons show ?case by (cases z) (auto split: option.splits)
qed

lemma fold_assign_same:
  assumes "distinct ks"
  shows "fold (\<lambda>(k, v) m. m(v := g k)) (zip ks ks) m x = (if x \<in> set ks then g x else m x)"
  using assms
proof (induction ks arbitrary: m)
  case Nil
  then show ?case by simp
next
  case (Cons k ks)
  then show ?case by auto
qed

text \<open>The first 25 fields are the ones saved and restored at every switch.\<close>

lemma zip_take: "zip xs ys = zip xs (take (length xs) ys)"
proof -
  have "take (length xs) (zip xs ys) = zip xs ys" by (intro take_all) simp
  then show ?thesis using take_zip [of "length xs" xs ys] by simp
qed

lemma store_sequence_fields: "store_sequence = take 25 VCpuSysregs_fields"
  by (simp add: store_sequence_def VCpuSysregs_fields_def)

lemma load_all_sequence_fields: "load_all_sequence = VCpuSysregs_fields"
  by (simp add: load_all_sequence_def VCpuSysregs_fields_def)

lemma distinct_fields: "distinct VCpuSysregs_fields"
  by (simp add: VCpuSysregs_fields_def)


lemma Store_apply:
  "CpuRegStoreVCpuSysregs hw regs r = (if r \<in> set store_sequence then hw r else regs r)"
proof -
  have d: "distinct store_sequence"
    unfolding store_sequence_fields using distinct_fields by (rule distinct_take)
  have "length store_sequence = 25" by (simp add: store_sequence_def)
  then have "zip store_sequence VCpuSysregs_fields = zip store_sequence store_sequence"
    using zip_take [of store_sequence VCpuSysregs_fields] store_sequence_fields by simp
  then show ?thesis unfolding CpuRegStoreVCpuSysregs_def by (simp add: fold_assign_same [OF d])
qed

lemma LoadAll_apply:
  "CpuRegLoadVCpuAllSysregs hw regs r = (if r \<in> set VCpuSysregs_fields then hw r else regs r)"
  unfolding CpuRegLoadVCpuAllSysregs_def load_all_sequence_fields
  by (rule fold_assign_same) (rule distinct_fields)

text \<open>The load routine writes the fields of MIDR and MPIDR to the virtualisation registers.\<close>

definition load_target :: "sysreg \<Rightarrow> sysreg" where
  "load_target f = (if f = MIDR_EL1 then VPIDR_EL2 else if f = MPIDR_EL1 then VMPIDR_EL2 else f)"

lemma load_sequence_fields: "load_sequence = map load_target store_sequence"
  by (simp add: load_sequence_def store_sequence_def load_target_def)

lemma Load_apply:
  "CpuRegLoadVCpuSysregs regs hw r =
    (if r = VPIDR_EL2 then regs MIDR_EL1 else if r = VMPIDR_EL2 then regs MPIDR_EL1
     else if r \<in> set store_sequence \<and> r \<noteq> MIDR_EL1 \<and> r \<noteq> MPIDR_EL1 then regs r else hw r)"
proof -
  let ?z = "zip load_sequence VCpuSysregs_fields"
  have "distinct (map fst ?z)"
    by (simp add: load_sequence_def VCpuSysregs_fields_def)
  from fold_assign [OF this] have eq: "CpuRegLoadVCpuSysregs regs hw r =
      (case map_of ?z r of Some v \<Rightarrow> regs v | None \<Rightarrow> hw r)"
    by (simp add: CpuRegLoadVCpuSysregs_def)
  have z: "?z = map (\<lambda>f. (load_target f, f)) store_sequence"
    by (simp add: load_sequence_def store_sequence_def load_target_def VCpuSysregs_fields_def)
  show ?thesis
  proof (cases "r \<in> set load_sequence")
    case True
    then show ?thesis unfolding eq z
      by (auto simp: load_sequence_def store_sequence_def load_target_def)
  next
    case False
    then have "map_of ?z r = None" by (auto simp: map_of_eq_None_iff dest: set_zip_leftD)
    with False show ?thesis unfolding eq by (auto simp: load_sequence_def store_sequence_def)
  qed
qed

section \<open>Task control blocks\<close>

datatype TaskState = RUNNING | WAITTING | ZOMBIE | DEAD

text \<open>Callee-saved registers, saved by \<open>SchedContextSwitch\<close>: x19 to x28, fp, sp and pc.\<close>

record CpuContext =
  cc_x19_x28 :: "u64 list"
  cc_fp :: u64
  cc_sp :: u64
  cc_pc :: u64

text \<open>The frame at the top of the block's page, filled by the exception entry code.\<close>

record VCpuContext =
  vc_regs :: "u64 list"
  vc_sp :: u64
  vc_pc :: u64
  vc_pstate :: u64

record MmContext =
  mm_page_table :: u64
  mm_pages :: u64

record TaskStat =
  irq_pending :: bool
  fiq_pending :: bool
  wfx_traps :: u64
  hvc_traps :: u64
  sysreg_traps :: u64
  page_faults :: u64
  mmios :: u64

text \<open>
  The block and its \<open>VCpuContext\<close> share one page (\<open>GetVCpuRegs\<close> returns the top of it). The
  board pointer is null for the init task only; there is one board object, so a flag suffices.
\<close>

record Tcb =
  tcb_name :: string
  tcb_pid :: int
  tcb_priority :: int
  tcb_counter :: int
  tcb_state :: TaskState
  tcb_cpu_context :: CpuContext
  tcb_vcpu_sysregs :: VCpuSysregs
  tcb_mm :: MmContext
  tcb_stat :: TaskStat
  tcb_board :: bool
  tcb_vcpu :: VCpuContext

text \<open>A block on a zeroed page.\<close>

definition zero_CpuContext :: CpuContext where
  "zero_CpuContext = \<lparr>cc_x19_x28 = replicate 10 0, cc_fp = 0, cc_sp = 0, cc_pc = 0\<rparr>"

definition zero_VCpuContext :: VCpuContext where
  "zero_VCpuContext = \<lparr>vc_regs = replicate 31 0, vc_sp = 0, vc_pc = 0, vc_pstate = 0\<rparr>"

definition zero_TaskStat :: TaskStat where
  "zero_TaskStat = \<lparr>irq_pending = False, fiq_pending = False, wfx_traps = 0, hvc_traps = 0,
     sysreg_traps = 0, page_faults = 0, mmios = 0\<rparr>"

definition zero_Tcb :: Tcb where
  "zero_Tcb = \<lparr>tcb_name = [], tcb_pid = 0, tcb_priority = 0, tcb_counter = 0, tcb_state = RUNNING,
     tcb_cpu_context = zero_CpuContext, tcb_vcpu_sysregs = (\<lambda>_. 0),
     tcb_mm = \<lparr>mm_page_table = 0, mm_pages = 0\<rparr>, tcb_stat = zero_TaskStat, tcb_board = False,
     tcb_vcpu = zero_VCpuContext\<rparr>"

text \<open>The statically initialised init task of sched_core.cc.\<close>

definition kInitTask :: Tcb where
  "kInitTask = zero_Tcb\<lparr>tcb_name := ''init'', tcb_priority := 1\<rparr>"

section \<open>Properties\<close>

text \<open>
  Leaving a guest and entering it again is lossless: what \<open>CpuRegStoreVCpuSysregs\<close> saves after
  \<open>CpuRegLoadVCpuSysregs\<close> loaded a block is that block again, for every saved register but the two
  identification registers, whose fields receive the physical values; registers that are not saved
  keep their field, and loading leaves the rest of the CPU alone but for the two virtual
  identification registers.
\<close>

lemma vcpu_sysregs_roundtrip:
  "CpuRegStoreVCpuSysregs (CpuRegLoadVCpuSysregs regs hw) regs r =
     (if r = MIDR_EL1 \<or> r = MPIDR_EL1 then hw r else regs r) \<and>
   CpuRegLoadVCpuSysregs regs hw VPIDR_EL2 = regs MIDR_EL1 \<and>
   CpuRegLoadVCpuSysregs regs hw VMPIDR_EL2 = regs MPIDR_EL1 \<and>
   (r \<in> {VPIDR_EL2, VMPIDR_EL2} \<union> set (take 25 VCpuSysregs_fields) \<or> CpuRegLoadVCpuSysregs regs hw r = hw r)"
proof -
  have "MIDR_EL1 \<in> set store_sequence" "MPIDR_EL1 \<in> set store_sequence"
    "VPIDR_EL2 \<notin> set store_sequence" "VMPIDR_EL2 \<notin> set store_sequence"
    by (simp_all add: store_sequence_def)
  then show ?thesis
    unfolding store_sequence_fields [symmetric] by (auto simp: Store_apply Load_apply)
qed

end
