(* ===== verification/EvStage2.thy ===== *)
theory EvStage2
  imports EvTask
begin

text \<open>
  Stage-2 translation (mm/pgtable_stage2.cc): three levels of 4 KiB tables in kernel heap
  pages. A ghost map gives every table page its root and its path of indices; the locale
  \<open>table_memory\<close> has the read-over-write laws of table entries, and the walk is proved
  correct in it.
\<close>

section \<open>Tables in memory\<close>

definition PAGE_MASK :: u64 where "PAGE_MASK = 0xfffffffffffff000"

definition read_pte :: "mem \<Rightarrow> u64 \<Rightarrow> nat \<Rightarrow> u64" where
  "read_pte m table i = load_le 8 m (table + of_nat (8 * i))"

definition write_pte :: "mem \<Rightarrow> u64 \<Rightarrow> nat \<Rightarrow> u64 \<Rightarrow> mem" where
  "write_pte m table i v = store_le 8 m (table + of_nat (8 * i)) v"

definition zero_page :: "mem \<Rightarrow> u64 \<Rightarrow> mem" where
  "zero_page m p = (\<lambda>x. if x - p < 4096 then 0 else m x)"

lemma slot_unat:
  assumes "i < 512"
  shows "unat (of_nat (8 * i) :: u64) = 8 * i"
  using assms by (intro unat_of_nat_u64) simp

lemma slot_aligned: "aligned 3 (of_nat (8 * i) :: u64)"
proof -
  have "of_nat (8 * i) = push_bit 3 (of_nat i :: u64)" by (simp add: push_bit_eq_mult)
  then show ?thesis by (simp only: aligned_bit) (simp add: bit_push_bit_iff)
qed

lemma slot_in_page:
  assumes "aligned 12 p" "aligned 12 q" "p \<noteq> q" "i < 512" "k < 8"
  shows "4096 \<le> unat (q + of_nat (8 * i) + of_nat k - p)"
proof -
  have "of_nat (8 * i) + of_nat k = (of_nat (8 * i + k) :: u64)" by simp
  moreover have "unat (of_nat (8 * i + k) :: u64) = 8 * i + k"
    using assms by (intro unat_of_nat_u64) simp
  ultimately have "unat (of_nat (8 * i) + of_nat k :: u64) < 2 ^ 12" using assms by simp
  from aligned_disjoint [OF _ assms(1-3) this] show ?thesis by (simp add: add.assoc)
qed

lemma slot_eq:
  assumes "aligned 12 p" "aligned 12 q" "i < 512" "j < 512"
  shows "p + of_nat (8 * i) = q + of_nat (8 * j) \<longleftrightarrow> p = q \<and> i = j"
proof
  assume eq: "p + of_nat (8 * i) = q + of_nat (8 * j)"
  have "p = q"
  proof (rule ccontr)
    assume "p \<noteq> q"
    from slot_in_page [OF assms(1,2) this assms(4), of 0]
    have "4096 \<le> unat (q + of_nat (8 * j) - p)" by simp
    also have "q + of_nat (8 * j) - p = of_nat (8 * i)" unfolding eq [symmetric] by simp
    finally show False using slot_unat [OF assms(3)] assms(3) by simp
  qed
  with eq have "(of_nat (8 * i) :: u64) = of_nat (8 * j)" by simp
  then have "8 * i = 8 * j" using slot_unat [OF assms(3)] slot_unat [OF assms(4)] by metis
  with \<open>p = q\<close> show "p = q \<and> i = j" by simp
qed simp

lemma read_write_pte:
  assumes "aligned 12 p" "aligned 12 q" "i < 512" "j < 512"
  shows "read_pte (write_pte m p i v) q j = (if q = p \<and> j = i then v else read_pte m q j)"
proof (cases "q = p \<and> j = i")
  case True
  then show ?thesis by (simp add: read_pte_def write_pte_def load_store_same)
next
  case False
  let ?a = "p + of_nat (8 * i) :: u64" and ?b = "q + of_nat (8 * j) :: u64"
  have "?a \<noteq> ?b" using slot_eq [OF assms] False by auto
  moreover have "aligned 3 ?a" "aligned 3 ?b"
    using assms(1,2) slot_aligned by (auto intro!: aligned_add elim: aligned_mono)
  ultimately have "8 \<le> unat (?b + of_nat k - ?a)" if "k < 8" for k
    using aligned_disjoint [of 3 ?a ?b "of_nat k"] that by (simp add: unat_of_nat_u64)
  then have "load_le 8 (store_le 8 m ?a v) ?b = (load_le 8 m ?b :: u64)"
    by (rule load_store_other)
  with False show ?thesis by (auto simp: read_pte_def write_pte_def)
qed

lemma read_zero_page:
  assumes "aligned 12 p" "aligned 12 q" "j < 512"
  shows "read_pte (zero_page m p) q j = (if q = p then 0 else read_pte m q j)"
proof (cases "q = p")
  case True
  have "zero_page m p (p + of_nat (8 * j) + of_nat k) = 0" if "k < 8" for k
  proof -
    have "(of_nat (8 * j) :: u64) + of_nat k = of_nat (8 * j + k)" by simp
    then have "p + of_nat (8 * j) + of_nat k - p = of_nat (8 * j + k)" by (simp add: algebra_simps)
    moreover have "unat (of_nat (8 * j + k) :: u64) = 8 * j + k"
      using that assms(3) by (intro unat_of_nat_u64) simp
    ultimately show ?thesis
      using that assms(3) by (simp add: zero_page_def word_less_nat_alt del: of_nat_add)
  qed
  then have "\<not> bit (read_pte (zero_page m p) p j) n" if "n < 64" for n
    using that unfolding read_pte_def by (subst bit_load_le) auto
  then show ?thesis using True by (auto intro!: bit_word_eqI)
next
  case False
  have "zero_page m p (q + of_nat (8 * j) + of_nat k) = m (q + of_nat (8 * j) + of_nat k)" if "k < 8" for k
    using slot_in_page [OF assms(1,2) _ assms(3) that] False by (auto simp: zero_page_def word_less_nat_alt)
  then show ?thesis using False unfolding read_pte_def load_le_def
    by (simp, intro foldr_cong) auto
qed

lemma mask_page_entry: "aligned 12 n \<Longrightarrow> (\<forall>k\<ge>12. \<not> bit f k) \<Longrightarrow> (n OR f) AND PAGE_MASK = n"
proof -
  assume n: "aligned 12 n" and f: "\<forall>k\<ge>12. \<not> bit f k"
  have m: "PAGE_MASK = NOT (mask 12)" by (simp add: PAGE_MASK_def mask_eq_exp_minus_1)
  show ?thesis unfolding m using n f
    by (intro bit_word_eqI) (auto simp: bit_and_iff bit_or_iff bit_not_iff bit_mask_iff aligned_bit not_less)
qed


section \<open>The tree of tables\<close>

fun walk :: "(u64 \<Rightarrow> nat \<Rightarrow> u64) \<Rightarrow> u64 \<Rightarrow> nat list \<Rightarrow> u64" where
  "walk ent p [] = 0"
| "walk ent p [i] = ent p i"
| "walk ent p (i # j # is) =
     (if ent p i = 0 then 0 else walk ent (ent p i AND PAGE_MASK) (j # is))"

type_synonym owner = "u64 \<Rightarrow> (u64 \<times> nat list) option"

text \<open>
  \<open>own p = Some (r, path)\<close>: page p is the table reached from the root r by the indices of path.
  A root table has the empty path, the leaf tables have two indices.
\<close>

definition table_tree :: "(u64 \<Rightarrow> nat \<Rightarrow> u64) \<Rightarrow> owner \<Rightarrow> bool" where
  "table_tree ent own \<longleftrightarrow>
     (\<forall>p r path. own p = Some (r, path) \<longrightarrow>
        aligned 12 p \<and> p \<noteq> 0 \<and> length path \<le> 2 \<and> set path \<subseteq> {..<512} \<and> (path = [] \<longrightarrow> p = r) \<and>
        (path \<noteq> [] \<longrightarrow> (\<exists>q. own q = Some (r, butlast path) \<and> ent q (last path) \<noteq> 0 \<and>
            ent q (last path) AND PAGE_MASK = p)) \<and>
        (length path < 2 \<longrightarrow> (\<forall>i<512. ent p i \<noteq> 0 \<longrightarrow>
            own (ent p i AND PAGE_MASK) = Some (r, path @ [i]))))"

lemma table_treeD:
  assumes "table_tree ent own" "own p = Some (r, path)"
  shows "aligned 12 p" "p \<noteq> 0" "length path \<le> 2" "path = [] \<Longrightarrow> p = r" "set path \<subseteq> {..<512}"
    and "path \<noteq> [] \<Longrightarrow> \<exists>q. own q = Some (r, butlast path) \<and> ent q (last path) \<noteq> 0 \<and>
            ent q (last path) AND PAGE_MASK = p"
    and "\<And>i. length path < 2 \<Longrightarrow> i < 512 \<Longrightarrow> ent p i \<noteq> 0 \<Longrightarrow>
            own (ent p i AND PAGE_MASK) = Some (r, path @ [i])"
  using assms unfolding table_tree_def by blast+

text \<open>The owner map is injective: by induction on the path, from the back.\<close>

lemma owner_inj:
  assumes "table_tree ent own"
  shows "own p = Some (r, path) \<Longrightarrow> own q = Some (r, path) \<Longrightarrow> p = q"
proof (induction path arbitrary: p q rule: rev_induct)
  case Nil
  then show ?case using table_treeD(4) [OF assms] by metis
next
  case (snoc i path)
  obtain p' where p': "own p' = Some (r, path)" "ent p' i AND PAGE_MASK = p"
    using table_treeD(6) [OF assms snoc.prems(1)] by auto
  obtain q' where q': "own q' = Some (r, path)" "ent q' i AND PAGE_MASK = q"
    using table_treeD(6) [OF assms snoc.prems(2)] by auto
  have "p' = q'" using snoc.IH p'(1) q'(1) by blast
  then show ?case using p' q' by simp
qed

lemma owner_prefix:
  assumes "table_tree ent own"
  shows "own p = Some (r, xs @ ys) \<Longrightarrow> \<exists>q. own q = Some (r, xs)"
proof (induction ys arbitrary: p rule: rev_induct)
  case Nil
  then show ?case by auto
next
  case (snoc y ys)
  then show ?case using table_treeD(6) [OF assms snoc.prems] by (auto simp: butlast_append)
qed

lemma walk_zero_table:
  "\<lbrakk>\<And>j. j < 512 \<Longrightarrow> ent n j = 0; set is \<subseteq> {..<512}\<rbrakk> \<Longrightarrow> walk ent n is = 0"
  by (cases "(ent, n, is)" rule: walk.cases) auto

text \<open>Linking an empty table below a zero entry changes no walk.\<close>

lemma walk_link:
  assumes tree: "table_tree ent own" and t: "own t = Some (rt, pt)" "length pt < 2" "i < 512" "ent t i = 0"
    and same: "\<And>p j. own p \<noteq> None \<Longrightarrow> j < 512 \<Longrightarrow> \<not> (p = t \<and> j = i) \<Longrightarrow> ent' p j = ent p j"
    and empty: "\<And>j. j < 512 \<Longrightarrow> ent' (ent' t i AND PAGE_MASK) j = 0"
  shows "own p = Some (r, path) \<Longrightarrow> length path + length is = 3 \<Longrightarrow> set is \<subseteq> {..<512} \<Longrightarrow>
    walk ent' p is = walk ent p is"
proof (induction "is" arbitrary: p path)
  case Nil
  then show ?case by simp
next
  case (Cons k "is")
  show ?case
  proof (cases "is")
    case Nil
    then have "p \<noteq> t" using Cons.prems t by auto
    then show ?thesis using Nil Cons.prems same by simp
  next
    case (Cons j js)
    show ?thesis
    proof (cases "p = t \<and> k = i")
      case True
      then show ?thesis using t(4) walk_zero_table [of ent' "ent' t i AND PAGE_MASK" "is"] empty
          Cons Cons.prems(3) by simp
    next
      case False
      then have eq: "ent' p k = ent p k" using same [of p k] Cons.prems by auto
      show ?thesis
      proof (cases "ent p k = 0")
        case True
        then show ?thesis using eq Cons by simp
      next
        case nz: False
        have "own (ent p k AND PAGE_MASK) = Some (r, path @ [k])"
          using table_treeD(7) [OF tree Cons.prems(1) _ _ nz] Cons.prems Cons by simp
        from Cons.IH [OF this] show ?thesis using eq nz Cons Cons.prems by simp
      qed
    qed
  qed
qed

text \<open>Writing a leaf entry changes exactly the walk that ends there.\<close>

lemma walk_leaf:
  assumes tree: "table_tree ent own" and t: "own t = Some (rt, pt)" "length pt = 2" "i < 512"
    and same: "\<And>p j. own p \<noteq> None \<Longrightarrow> j < 512 \<Longrightarrow> \<not> (p = t \<and> j = i) \<Longrightarrow> ent' p j = ent p j"
  shows "own p = Some (r, path) \<Longrightarrow> length path + length is = 3 \<Longrightarrow> set is \<subseteq> {..<512} \<Longrightarrow>
    walk ent' p is = (if r = rt \<and> path @ is = pt @ [i] then ent' t i else walk ent p is)"
proof (induction "is" arbitrary: p path)
  case Nil
  then show ?case using table_treeD(3) [OF tree] by fastforce
next
  case (Cons k "is")
  show ?case
  proof (cases "is")
    case Nil
    have "p = t \<longleftrightarrow> r = rt \<and> path = pt"
      using owner_inj [OF tree] t(1) Cons.prems(1) by auto
    then show ?thesis using Nil Cons.prems same [of p k] by auto
  next
    case (Cons j js)
    then have "p \<noteq> t" using t Cons.prems by auto
    then have eq: "ent' p k = ent p k" using same [of p k] Cons.prems by auto
    show ?thesis
    proof (cases "ent p k = 0")
      case True
      have "\<not> (r = rt \<and> path @ k # is = pt @ [i])"
      proof
        assume a: "r = rt \<and> path @ k # is = pt @ [i]"
        then have "pt = (path @ [k]) @ butlast is" using Cons by (cases js rule: rev_cases) auto
        then obtain q where q: "own q = Some (rt, path @ [k])"
          using owner_prefix [OF tree] t(1) by metis
        obtain p' where "own p' = Some (rt, path)" "ent p' k \<noteq> 0"
          using table_treeD(6) [OF tree q] by auto
        then show False using owner_inj [OF tree] Cons.prems(1) a True by metis
      qed
      then have "walk ent p (k # is) = (if r = rt \<and> path @ k # is = pt @ [i] then ent' t i else walk ent p (k # is))"
        by (simp only: if_False)
      moreover have "walk ent' p (k # is) = walk ent p (k # is)" using eq Cons True by simp
      ultimately show ?thesis by simp
    next
      case nz: False
      have "own (ent p k AND PAGE_MASK) = Some (r, path @ [k])"
        using table_treeD(7) [OF tree Cons.prems(1) _ _ nz] Cons.prems Cons by simp
      from Cons.IH [OF this] show ?thesis using eq nz Cons Cons.prems by simp
    qed
  qed
qed

lemma tree_link:
  assumes tree: "table_tree ent own" and t: "own t = Some (rt, pt)" "length pt < 2" "i < 512" "ent t i = 0"
    and same: "\<And>p j. own p \<noteq> None \<Longrightarrow> j < 512 \<Longrightarrow> \<not> (p = t \<and> j = i) \<Longrightarrow> ent' p j = ent p j"
    and n: "own n = None" "aligned 12 n" "n \<noteq> 0" "ent' t i \<noteq> 0" "ent' t i AND PAGE_MASK = n"
    and empty: "\<And>j. j < 512 \<Longrightarrow> ent' n j = 0"
  shows "table_tree ent' (own(n \<mapsto> (rt, pt @ [i])))"
proof -
  let ?own = "own(n \<mapsto> (rt, pt @ [i]))"
  have tn: "t \<noteq> n" using t(1) n(1) by auto
  have "aligned 12 p \<and> p \<noteq> 0 \<and> length path \<le> 2 \<and> set path \<subseteq> {..<512} \<and> (path = [] \<longrightarrow> p = r) \<and>
        (path \<noteq> [] \<longrightarrow> (\<exists>q. ?own q = Some (r, butlast path) \<and> ent' q (last path) \<noteq> 0 \<and>
            ent' q (last path) AND PAGE_MASK = p)) \<and>
        (length path < 2 \<longrightarrow> (\<forall>j<512. ent' p j \<noteq> 0 \<longrightarrow>
            ?own (ent' p j AND PAGE_MASK) = Some (r, path @ [j])))"
    if "?own p = Some (r, path)" for p r path
  proof (cases "p = n")
    case True
    with that have "r = rt" "path = pt @ [i]" by simp_all
    then show ?thesis using True n t empty tn table_treeD(5) [OF tree t(1)] by (auto intro!: exI [of _ t])
  next
    case False
    then have p: "own p = Some (r, path)" using that by simp
    note d = table_treeD [OF tree p]
    have parent: "\<exists>q. ?own q = Some (r, butlast path) \<and> ent' q (last path) \<noteq> 0 \<and>
            ent' q (last path) AND PAGE_MASK = p" if ne: "path \<noteq> []"
    proof -
      obtain q where q: "own q = Some (r, butlast path)" "ent q (last path) \<noteq> 0"
        "ent q (last path) AND PAGE_MASK = p" using d(6) ne by blast
      have l: "last path < 512" using d(5) ne last_in_set by blast
      have "\<not> (q = t \<and> last path = i)" using q(2) t(4) by auto
      with l have "ent' q (last path) = ent q (last path)" using same q(1) by auto
      then show ?thesis using q n(1) by (intro exI [of _ q]) auto
    qed
    have child: "?own (ent' p j AND PAGE_MASK) = Some (r, path @ [j])"
      if j: "length path < 2" "j < 512" "ent' p j \<noteq> 0" for j
    proof (cases "p = t \<and> j = i")
      case True
      then show ?thesis using n(5) p t(1) by simp
    next
      case False
      then have e: "ent' p j = ent p j" using same p j(2) by auto
      then have "own (ent p j AND PAGE_MASK) = Some (r, path @ [j])" using d(7) j by simp
      then show ?thesis using e n(1) by auto
    qed
    show ?thesis using d(1-5) parent child by blast
  qed
  then show ?thesis unfolding table_tree_def by blast
qed

lemma tree_leaf:
  assumes tree: "table_tree ent own" and t: "own t = Some (rt, pt)" "length pt = 2"
    and same: "\<And>p j. own p \<noteq> None \<Longrightarrow> p \<noteq> t \<Longrightarrow> j < 512 \<Longrightarrow> ent' p j = ent p j"
  shows "table_tree ent' own"
proof -
  have "aligned 12 p \<and> p \<noteq> 0 \<and> length path \<le> 2 \<and> set path \<subseteq> {..<512} \<and> (path = [] \<longrightarrow> p = r) \<and>
        (path \<noteq> [] \<longrightarrow> (\<exists>q. own q = Some (r, butlast path) \<and> ent' q (last path) \<noteq> 0 \<and>
            ent' q (last path) AND PAGE_MASK = p)) \<and>
        (length path < 2 \<longrightarrow> (\<forall>j<512. ent' p j \<noteq> 0 \<longrightarrow>
            own (ent' p j AND PAGE_MASK) = Some (r, path @ [j])))"
    if p: "own p = Some (r, path)" for p r path
  proof -
    note d = table_treeD [OF tree p]
    have parent: "\<exists>q. own q = Some (r, butlast path) \<and> ent' q (last path) \<noteq> 0 \<and>
            ent' q (last path) AND PAGE_MASK = p" if ne: "path \<noteq> []"
    proof -
      obtain q where q: "own q = Some (r, butlast path)" "ent q (last path) \<noteq> 0"
        "ent q (last path) AND PAGE_MASK = p" using d(6) ne by blast
      have l: "last path < 512" using d(5) ne last_in_set by blast
      have "length (butlast path) < 2" using d(3) ne by simp
      then have "q \<noteq> t" using q(1) t by auto
      then show ?thesis using same q l by (intro exI [of _ q]) auto
    qed
    have child: "own (ent' p j AND PAGE_MASK) = Some (r, path @ [j])"
      if j: "length path < 2" "j < 512" "ent' p j \<noteq> 0" for j
    proof -
      have "p \<noteq> t" using p t j(1) by auto
      then have "ent' p j = ent p j" using same p j(2) by auto
      then show ?thesis using d(7) j by simp
    qed
    show ?thesis using d(1-5) parent child by blast
  qed
  then show ?thesis unfolding table_tree_def by blast
qed

lemma tree_root:
  assumes tree: "table_tree ent own" and n: "own n = None" "aligned 12 n" "n \<noteq> 0"
    and same: "\<And>p j. own p \<noteq> None \<Longrightarrow> j < 512 \<Longrightarrow> ent' p j = ent p j"
    and empty: "\<And>j. j < 512 \<Longrightarrow> ent' n j = 0"
  shows "table_tree ent' (own(n \<mapsto> (n, [])))"
proof -
  let ?own = "own(n \<mapsto> (n, []))"
  have "aligned 12 p \<and> p \<noteq> 0 \<and> length path \<le> 2 \<and> set path \<subseteq> {..<512} \<and> (path = [] \<longrightarrow> p = r) \<and>
        (path \<noteq> [] \<longrightarrow> (\<exists>q. ?own q = Some (r, butlast path) \<and> ent' q (last path) \<noteq> 0 \<and>
            ent' q (last path) AND PAGE_MASK = p)) \<and>
        (length path < 2 \<longrightarrow> (\<forall>j<512. ent' p j \<noteq> 0 \<longrightarrow>
            ?own (ent' p j AND PAGE_MASK) = Some (r, path @ [j])))"
    if "?own p = Some (r, path)" for p r path
  proof (cases "p = n")
    case True
    then show ?thesis using that n empty by auto
  next
    case False
    then have p: "own p = Some (r, path)" using that by simp
    note d = table_treeD [OF tree p]
    have parent: "\<exists>q. ?own q = Some (r, butlast path) \<and> ent' q (last path) \<noteq> 0 \<and>
            ent' q (last path) AND PAGE_MASK = p" if ne: "path \<noteq> []"
    proof -
      obtain q where q: "own q = Some (r, butlast path)" "ent q (last path) \<noteq> 0"
        "ent q (last path) AND PAGE_MASK = p" using d(6) ne by blast
      have l: "last path < 512" using d(5) ne last_in_set by blast
      show ?thesis using same q l n(1) by (intro exI [of _ q]) auto
    qed
    have child: "?own (ent' p j AND PAGE_MASK) = Some (r, path @ [j])"
      if j: "length path < 2" "j < 512" "ent' p j \<noteq> 0" for j
    proof -
      have e: "ent' p j = ent p j" using same p j(2) by auto
      then have "own (ent p j AND PAGE_MASK) = Some (r, path @ [j])" using d(7) j by simp
      then show ?thesis using e n(1) by auto
    qed
    show ?thesis using d(1-5) parent child by blast
  qed
  then show ?thesis unfolding table_tree_def by blast
qed

lemma walk_same:
  assumes tree: "table_tree ent own"
    and same: "\<And>p j. own p \<noteq> None \<Longrightarrow> j < 512 \<Longrightarrow> ent' p j = ent p j"
  shows "own p = Some (r, path) \<Longrightarrow> length path + length is = 3 \<Longrightarrow> set is \<subseteq> {..<512} \<Longrightarrow>
    walk ent' p is = walk ent p is"
proof (induction "is" arbitrary: p path)
  case Nil
  then show ?case by simp
next
  case (Cons k "is")
  have eq: "ent' p k = ent p k" using same [of p k] Cons.prems by auto
  show ?case
  proof (cases "is = [] \<or> ent p k = 0")
    case True
    then show ?thesis using eq by (cases "is") auto
  next
    case False
    then have "own (ent p k AND PAGE_MASK) = Some (r, path @ [k])"
      using table_treeD(7) [OF tree Cons.prems(1)] Cons.prems by (cases "is") auto
    from Cons.IH [OF this] show ?thesis using eq False Cons.prems by (cases "is") auto
  qed
qed


section \<open>The contract of table memory\<close>

locale table_memory =
  fixes rd :: "'m \<Rightarrow> u64 \<Rightarrow> nat \<Rightarrow> u64"
    and wr :: "'m \<Rightarrow> u64 \<Rightarrow> nat \<Rightarrow> u64 \<Rightarrow> 'm"
    and clear :: "'m \<Rightarrow> u64 \<Rightarrow> 'm"
  assumes rd_wr: "\<lbrakk>aligned 12 p; aligned 12 q; i < 512; j < 512\<rbrakk> \<Longrightarrow>
      rd (wr m p i v) q j = (if q = p \<and> j = i then v else rd m q j)"
    and rd_clear: "\<lbrakk>aligned 12 p; aligned 12 q; j < 512\<rbrakk> \<Longrightarrow>
      rd (clear m p) q j = (if q = p then 0 else rd m q j)"
begin

lemma link_step:
  assumes tree: "table_tree (rd m) own" and t: "own t = Some (rt, pt)" "length pt < 2" "i < 512" "rd m t i = 0"
    and n: "own n = None" "aligned 12 n" "n \<noteq> 0" "e \<noteq> 0" "e AND PAGE_MASK = n"
    and m': "m' = wr (clear m n) t i e"
  shows "table_tree (rd m') (own(n \<mapsto> (rt, pt @ [i])))"
    and "own p = Some (r, path) \<Longrightarrow> length path + length is = 3 \<Longrightarrow> set is \<subseteq> {..<512} \<Longrightarrow>
      walk (rd m') p is = walk (rd m) p is"
proof -
  have at: "aligned 12 t" using table_treeD(1) [OF tree t(1)] .
  have tn: "t \<noteq> n" using t(1) n(1) by auto
  have same: "rd m' q j = rd m q j" if "own q \<noteq> None" "j < 512" "\<not> (q = t \<and> j = i)" for q j
  proof -
    have "aligned 12 q" using that(1) table_treeD(1) [OF tree] by fastforce
    moreover have "q \<noteq> n" using that(1) n(1) by auto
    ultimately show ?thesis using that at n(2) t(3) by (auto simp: m' rd_wr rd_clear)
  qed
  have e: "rd m' t i = e" using at t(3) by (simp add: m' rd_wr)
  have empty: "rd m' n j = 0" if "j < 512" for j
    using that at tn n(2) t(3) by (simp add: m' rd_wr rd_clear)
  show "table_tree (rd m') (own(n \<mapsto> (rt, pt @ [i])))"
    using tree_link [OF tree t same n(1-3)] n(4,5) empty by (simp add: e)
  show "walk (rd m') p is = walk (rd m) p is"
    if "own p = Some (r, path)" "length path + length is = 3" "set is \<subseteq> {..<512}"
    using walk_link [OF tree t same _ that] empty n(5) by (simp add: e)
qed

lemma leaf_step:
  assumes tree: "table_tree (rd m) own" and t: "own t = Some (rt, pt)" "length pt = 2" "i < 512"
    and m': "m' = wr m t i e"
  shows "table_tree (rd m') own"
    and "own p = Some (r, path) \<Longrightarrow> length path + length is = 3 \<Longrightarrow> set is \<subseteq> {..<512} \<Longrightarrow>
      walk (rd m') p is = (if r = rt \<and> path @ is = pt @ [i] then e else walk (rd m) p is)"
proof -
  have at: "aligned 12 t" using table_treeD(1) [OF tree t(1)] .
  have same: "rd m' q j = rd m q j" if "own q \<noteq> None" "j < 512" "\<not> (q = t \<and> j = i)" for q j
  proof -
    have "aligned 12 q" using that(1) table_treeD(1) [OF tree] by fastforce
    then show ?thesis using that at t(3) by (simp add: m' rd_wr split: if_splits) blast
  qed
  have e: "rd m' t i = e" using at t(3) by (simp add: m' rd_wr)
  show "table_tree (rd m') own" using tree_leaf [OF tree t(1,2)] same by blast
  show "walk (rd m') p is = (if r = rt \<and> path @ is = pt @ [i] then e else walk (rd m) p is)"
    if "own p = Some (r, path)" "length path + length is = 3" "set is \<subseteq> {..<512}"
    using walk_leaf [OF tree t same that] e by simp
qed

lemma root_step:
  assumes tree: "table_tree (rd m) own" and n: "own n = None" "aligned 12 n" "n \<noteq> 0"
    and m': "m' = clear m n"
  shows "table_tree (rd m') (own(n \<mapsto> (n, [])))"
    and "own p = Some (r, path) \<Longrightarrow> length path + length is = 3 \<Longrightarrow> set is \<subseteq> {..<512} \<Longrightarrow>
      walk (rd m') p is = walk (rd m) p is"
    and "set is \<subseteq> {..<512} \<Longrightarrow> walk (rd m') n is = 0"
proof -
  have same: "rd m' q j = rd m q j" if "own q \<noteq> None" "j < 512" for q j
  proof -
    have "aligned 12 q" using that(1) table_treeD(1) [OF tree] by fastforce
    moreover have "q \<noteq> n" using that(1) n(1) by auto
    ultimately show ?thesis using that n(2) by (simp add: m' rd_clear)
  qed
  have empty: "rd m' n j = 0" if "j < 512" for j using that n(2) by (simp add: m' rd_clear)
  show "table_tree (rd m') (own(n \<mapsto> (n, [])))" by (rule tree_root [OF tree n same empty])
  show "walk (rd m') p is = walk (rd m) p is"
    if "own p = Some (r, path)" "length path + length is = 3" "set is \<subseteq> {..<512}"
    by (rule walk_same [OF tree same that])
  show "set is \<subseteq> {..<512} \<Longrightarrow> walk (rd m') n is = 0"
    using walk_zero_table [of "rd m'" n "is"] empty by blast
qed

end

interpretation pte_memory: table_memory read_pte write_pte zero_page
  by unfold_locales (simp_all add: read_write_pte read_zero_page)

section \<open>The operations\<close>

text \<open>The CPU state the hypervisor writes: EL1 registers, VTTBR, HCR, callee-saved registers.\<close>

record cpu =
  cpu_sysregs :: "sysreg \<Rightarrow> u64"
  vttbr_el2 :: u64
  hcr_el2 :: u64
  cpu_context :: CpuContext

definition kStage2PteDram :: u64 where
  "kStage2PteDram = 3 OR push_bit 10 1 OR push_bit 8 3 OR push_bit 6 3 OR push_bit 2 0xf"

definition kStage2PteDeviceNotAccessible :: u64 where
  "kStage2PteDeviceNotAccessible = 3 OR push_bit 10 1 OR push_bit 8 0 OR push_bit 6 0 OR push_bit 2 0"

definition kStage2PteDeviceAccessible :: u64 where
  "kStage2PteDeviceAccessible = 3 OR push_bit 10 1 OR push_bit 8 0 OR push_bit 6 3 OR push_bit 2 0"

definition table_index :: "nat \<Rightarrow> u64 \<Rightarrow> nat" where
  "table_index shift ipa = unat (drop_bit shift ipa AND (push_bit 9 1 - 1))"

definition CreatePageTable :: "u64 \<Rightarrow> nat \<Rightarrow> u64 \<Rightarrow> heap \<Rightarrow> (u64 \<times> heap) res" where
  "CreatePageTable table shift ipa h =
     (let index = table_index shift ipa
      in if read_pte (dram h) table index = 0
         then rbind (kmm_zalloc (ucast PAGE_SIZE) h) (\<lambda>(next_level_table, h).
                let entry = next_level_table OR 3
                in Inr (next_level_table, h\<lparr>dram := write_pte (dram h) table index entry\<rparr>))
         else Inr (read_pte (dram h) table index AND PAGE_MASK, h))"

definition SetPageTableEntry :: "u64 \<Rightarrow> u64 \<Rightarrow> u64 \<Rightarrow> u64 \<Rightarrow> heap \<Rightarrow> u64 \<times> heap" where
  "SetPageTableEntry pte ipa pa flags h =
     (let index = table_index 12 ipa; entry = pa OR flags
      in (pte + of_nat (8 * index), h\<lparr>dram := write_pte (dram h) pte index entry\<rparr>))"

definition MapPage :: "MmContext \<Rightarrow> u64 \<Rightarrow> u64 \<Rightarrow> u64 \<Rightarrow> heap \<Rightarrow> (u64 \<times> MmContext \<times> heap) res" where
  "MapPage mm ipa page flags h =
     rbind (if mm_page_table mm = 0
            then rbind (kmm_zalloc (ucast PAGE_SIZE) h) (\<lambda>(p, h). Inr (mm\<lparr>mm_page_table := p\<rparr>, h))
            else Inr (mm, h)) (\<lambda>(mm, h).
     let lv1_table = mm_page_table mm
     in rbind (CreatePageTable lv1_table 30 ipa h) (\<lambda>(lv2_table, h).
        rbind (CreatePageTable lv2_table 21 ipa h) (\<lambda>(lv3_table, h).
        let mm = mm\<lparr>mm_pages := mm_pages mm + 1\<rparr>;
            (slot, h) = SetPageTableEntry lv3_table ipa page flags h
        in Inr (slot, mm, h))))"

definition MapPageAccessible :: "MmContext \<Rightarrow> u64 \<Rightarrow> u64 \<Rightarrow> heap \<Rightarrow> (MmContext \<times> heap) res" where
  "MapPageAccessible mm ipa page h =
     rbind (MapPage mm ipa page kStage2PteDram h) (\<lambda>(_, mm, h). Inr (mm, h))"

text \<open>
  Cache maintenance does not change the modelled state; after the TLB maintenance the code
  clears VTTBR.
\<close>

definition FlushTlbVMID :: "cpu \<Rightarrow> cpu" where
  "FlushTlbVMID c = c\<lparr>vttbr_el2 := 0\<rparr>"

definition MapNewPage :: "MmContext \<Rightarrow> u64 \<Rightarrow> u64 \<Rightarrow> heap \<Rightarrow> cpu \<Rightarrow> (MmContext \<times> heap \<times> cpu) res" where
  "MapNewPage mm ipa page h c =
     rbind (MapPage mm (ipa AND PAGE_MASK) page kStage2PteDram h) (\<lambda>(_, mm, h).
       Inr (mm, h, FlushTlbVMID c))"

definition MapNewDevicePage :: "MmContext \<Rightarrow> u64 \<Rightarrow> u64 \<Rightarrow> bool \<Rightarrow> heap \<Rightarrow> (MmContext \<times> heap) res" where
  "MapNewDevicePage mm ipa page accessable h =
     rbind (MapPage mm (ipa AND PAGE_MASK) page
         (if accessable then kStage2PteDeviceAccessible else kStage2PteDeviceNotAccessible) h)
       (\<lambda>(_, mm, h). Inr (mm, h))"

text \<open>mm/pgtable_stage1.cc\<close>

definition PageAllocate :: "heap \<Rightarrow> (u64 \<times> heap) res" where
  "PageAllocate h = umm_zalloc (ucast PAGE_SIZE) h"

definition PageDeallocate :: "u64 \<Rightarrow> heap \<Rightarrow> heap res" where
  "PageDeallocate page h = umm_free page h"

definition PageMap :: "MmContext \<Rightarrow> u64 \<Rightarrow> heap \<Rightarrow> (u64 \<times> MmContext \<times> heap) res" where
  "PageMap mm ipa h = rbind (PageAllocate h) (\<lambda>(page, h).
     rbind (MapPageAccessible mm ipa page h) (\<lambda>(mm, h). Inr (page, mm, h)))"

section \<open>The invariant of the tables\<close>

definition s2_path :: "u64 \<Rightarrow> nat list" where
  "s2_path ipa = [table_index 30 ipa, table_index 21 ipa, table_index 12 ipa]"

text \<open>The descriptor the hardware walk finds; 0 where nothing is mapped.\<close>

definition s2_lookup :: "mem \<Rightarrow> u64 \<Rightarrow> u64 \<Rightarrow> u64" where
  "s2_lookup m root ipa = walk (read_pte m) root (s2_path ipa)"

definition s2_inv :: "owner \<Rightarrow> heap \<Rightarrow> bool" where
  "s2_inv own h \<longleftrightarrow> heap_inv h \<and> table_tree (read_pte (dram h)) own \<and> dom own \<subseteq> kmm_used h"

lemma table_index_less: "table_index s ipa < 512"
proof -
  have "drop_bit s ipa AND (push_bit 9 1 - 1) = take_bit 9 (drop_bit s ipa)"
    by (simp add: take_bit_eq_mask mask_eq_exp_minus_1)
  moreover have "unat (take_bit 9 (drop_bit s ipa)) < 2 ^ 9"
    unfolding unsigned_take_bit_eq by (rule take_bit_nat_less_exp)
  ultimately show ?thesis unfolding table_index_def by simp
qed

lemma s2_path_bound [simp]: "set (s2_path ipa) \<subseteq> {..<512}" "length (s2_path ipa) = 3"
  by (simp_all add: s2_path_def table_index_less)


text \<open>What every step on the tables keeps, and the rest of memory it does not touch.\<close>

definition s2_frame :: "owner \<Rightarrow> owner \<Rightarrow> heap \<Rightarrow> heap \<Rightarrow> bool" where
  "s2_frame own own' h h' \<longleftrightarrow> s2_inv own' h' \<and> own \<subseteq>\<^sub>m own' \<and>
     kmm_used h \<subseteq> kmm_used h' \<and> umm_used h' = umm_used h \<and> kHeapStart h' = kHeapStart h \<and>
     kUserStart h' = kUserStart h \<and>
     (\<forall>x. (\<forall>p\<in>kmm_used h'. \<not> x - p < 4096) \<longrightarrow> dram h' x = dram h x)"

lemma s2_frame_refl: "s2_inv own h \<Longrightarrow> s2_frame own own h h"
  by (simp add: s2_frame_def map_le_def)

lemma s2_frame_trans:
  "s2_frame own1 own2 h1 h2 \<Longrightarrow> s2_frame own2 own3 h2 h3 \<Longrightarrow> s2_frame own1 own3 h1 h3"
  unfolding s2_frame_def by (auto intro: map_le_trans) blast

lemma unat_add_small: "unat (y :: u64) + unat o' < 2 ^ 64 \<Longrightarrow> unat (y + o') = unat y + unat o'"
  by (simp add: unat_word_ariths)

lemma pte_write_frame:
  assumes "\<not> x - p < 4096" "i < 512"
  shows "write_pte m p i v x = m x"
proof -
  have "\<not> unat (x - (p + of_nat (8 * i))) < 8"
  proof
    assume a: "unat (x - (p + of_nat (8 * i))) < 8"
    have "x - p = (x - (p + of_nat (8 * i))) + of_nat (8 * i)" by (simp add: algebra_simps)
    also have "unat \<dots> = unat (x - (p + of_nat (8 * i))) + unat (of_nat (8 * i) :: u64)"
    proof (rule unat_add_small)
      have "(8 :: nat) + 8 * 512 < 2 ^ 64" by simp
      then show "unat (x - (p + of_nat (8 * i))) + unat (of_nat (8 * i) :: u64) < 2 ^ 64"
        using a assms(2) slot_unat [OF assms(2)] by linarith
    qed
    finally have "unat (x - p) = unat (x - (p + of_nat (8 * i))) + 8 * i"
      using slot_unat [OF assms(2)] by linarith
    then show False using a assms by (simp add: word_less_nat_alt)
  qed
  then show ?thesis by (simp add: write_pte_def store_le_def)
qed

lemma kmm_used_aligned: "s2_inv own h \<Longrightarrow> own p = Some x \<Longrightarrow> p \<in> kmm_used h"
  by (auto simp: s2_inv_def)

text \<open>One level of the descent.\<close>

lemma CreatePageTable_spec:
  assumes inv: "s2_inv own h" and t: "own t = Some (r, path)" "length path < 2"
    and step: "CreatePageTable t shift ipa h = Inr (t', h')"
  shows "\<exists>own'. s2_frame own own' h h' \<and> own' t' = Some (r, path @ [table_index shift ipa]) \<and>
    (\<forall>q r'. own' q = Some (r', []) \<longleftrightarrow> own q = Some (r', [])) \<and>
    (\<forall>q r' is. own q = Some (r', []) \<longrightarrow> length is = 3 \<longrightarrow> set is \<subseteq> {..<512} \<longrightarrow>
       walk (read_pte (dram h')) q is = walk (read_pte (dram h)) q is)"
proof (cases "read_pte (dram h) t (table_index shift ipa) = 0")
  case False
  have tree: "table_tree (read_pte (dram h)) own" using inv by (simp add: s2_inv_def)
  have "t' = read_pte (dram h) t (table_index shift ipa) AND PAGE_MASK" "h' = h"
    using step False by (auto simp: CreatePageTable_def)
  then show ?thesis
    using table_treeD(7) [OF tree t table_index_less False] s2_frame_refl [OF inv] by blast
next
  case True
  let ?i = "table_index shift ipa"
  have tree: "table_tree (read_pte (dram h)) own" using inv by (simp add: s2_inv_def)
  have hinv: "heap_inv h" and dom: "dom own \<subseteq> kmm_used h" using inv by (simp_all add: s2_inv_def)
  obtain h1 where z: "kmm_zalloc 4096 h = Inr (t', h1)"
    and h': "h' = h1\<lparr>dram := write_pte (dram h1) t ?i (t' OR 3)\<rparr>"
    using step True by (auto simp: CreatePageTable_def PAGE_SIZE_def rbind_eq_Inr)
  note k = kmm_zalloc_page [OF z hinv]
  have "aligned 12 t' \<and> t' \<noteq> 0"
    using kmm_used_page [OF heap_inv_layout [OF k(1)], of t'] k(3) by simp
  then have t': "aligned 12 t'" "t' \<noteq> 0" by blast+
  have fresh: "own t' = None" using dom k(2) by auto
  have d1: "dram h1 = zero_page (dram h) t'" using k(5) by (simp add: zero_page_def)
  have m': "dram h' = write_pte (zero_page (dram h) t') t ?i (t' OR 3)" by (simp add: h' d1)
  have bits: "\<forall>k\<ge>12. \<not> bit (3 :: u64) k"
    using bit_mask_iff [where 'a = "64 word", of 2] by (simp add: mask_eq_exp_minus_1)
  have e: "(t' OR 3) AND PAGE_MASK = t'" by (rule mask_page_entry [OF t'(1) bits])
  have "t' OR 3 \<noteq> 0"
  proof
    assume "t' OR 3 = 0"
    with e have "t' = 0 AND PAGE_MASK" by simp
    then show False using t'(2) by simp
  qed
  note L = pte_memory.link_step [OF tree t table_index_less True fresh t' this e m']
  let ?own = "own(t' \<mapsto> (r, path @ [?i]))"
  have "s2_inv ?own h'"
    using L(1) k(1,3) dom by (auto simp: s2_inv_def h')
  moreover have "own \<subseteq>\<^sub>m ?own" using fresh by (auto simp: map_le_def)
  moreover have "dram h' x = dram h x" if x: "\<forall>p\<in>kmm_used h'. \<not> x - p < 4096" for x
  proof -
    have "t \<in> kmm_used h'" "t' \<in> kmm_used h'" using dom t(1) k(3) by (auto simp: h')
    then show ?thesis using x by (simp add: m' pte_write_frame table_index_less zero_page_def)
  qed
  ultimately have "s2_frame own ?own h h'" using k by (auto simp: s2_frame_def h')
  moreover have "?own q = Some (r', []) \<longleftrightarrow> own q = Some (r', [])" for q r' using fresh by auto
  moreover have "walk (read_pte (dram h')) q is = walk (read_pte (dram h)) q is"
    if "own q = Some (r', [])" "length is = 3" "set is \<subseteq> {..<512}" for q r' "is"
    using L(2) [OF that(1)] that by simp
  ultimately show ?thesis by (intro exI [of _ ?own]) simp
qed


lemma SetPageTableEntry_spec:
  assumes inv: "s2_inv own h" and t: "own t = Some (r, path)" "length path = 2"
    and step: "SetPageTableEntry t ipa pa flags h = (slot, h')"
  shows "s2_frame own own h h' \<and>
    (\<forall>q is. own q = Some (q, []) \<longrightarrow> length is = 3 \<longrightarrow> set is \<subseteq> {..<512} \<longrightarrow>
       walk (read_pte (dram h')) q is =
         (if q = r \<and> is = path @ [table_index 12 ipa] then pa OR flags else walk (read_pte (dram h)) q is))"
proof -
  let ?i = "table_index 12 ipa"
  have tree: "table_tree (read_pte (dram h)) own" and hinv: "heap_inv h" and dom: "dom own \<subseteq> kmm_used h"
    using inv by (simp_all add: s2_inv_def)
  have h': "h' = h\<lparr>dram := write_pte (dram h) t ?i (pa OR flags)\<rparr>"
    using step by (simp add: SetPageTableEntry_def Let_def)
  have m': "dram h' = write_pte (dram h) t ?i (pa OR flags)" by (simp add: h')
  note L = pte_memory.leaf_step [OF tree t table_index_less m']
  have "dram h' x = dram h x" if "\<forall>p\<in>kmm_used h'. \<not> x - p < 4096" for x
  proof -
    have "t \<in> kmm_used h'" using dom t(1) by (auto simp: h')
    then show ?thesis using that by (simp add: m' pte_write_frame table_index_less)
  qed
  then have "s2_frame own own h h'"
    using L(1) inv by (simp add: s2_frame_def s2_inv_def h' map_le_def)
  then show ?thesis using L(2) by auto
qed

text \<open>The state of a task's root: no table yet, or the root of a tree.\<close>

definition mm_ok :: "owner \<Rightarrow> MmContext \<Rightarrow> bool" where
  "mm_ok own mm \<longleftrightarrow> mm_page_table mm = 0 \<or> own (mm_page_table mm) = Some (mm_page_table mm, [])"

lemma MapPage_spec:
  assumes inv: "s2_inv own h" and ok: "mm_ok own mm"
    and step: "MapPage mm ipa page flags h = Inr (slot, mm', h')"
  shows "\<exists>own'. s2_frame own own' h h' \<and> mm_ok own' mm' \<and> mm_page_table mm' \<noteq> 0 \<and>
    (mm_page_table mm \<noteq> 0 \<longrightarrow> mm_page_table mm' = mm_page_table mm) \<and>
    (mm_page_table mm = 0 \<longrightarrow> own (mm_page_table mm') = None) \<and>
    mm_pages mm' = mm_pages mm + 1 \<and>
    (\<forall>q. own' q = Some (q, []) \<longleftrightarrow> own q = Some (q, []) \<or> q = mm_page_table mm') \<and>
    (\<forall>q ipa'. own' q = Some (q, []) \<longrightarrow> s2_lookup (dram h') q ipa' =
       (if q = mm_page_table mm' \<and> s2_path ipa' = s2_path ipa then page OR flags
        else if own q = None then 0 else s2_lookup (dram h) q ipa'))"
proof -
  obtain mm1 h1 where r: "(if mm_page_table mm = 0
            then rbind (kmm_zalloc (ucast PAGE_SIZE) h) (\<lambda>(p, h). Inr (mm\<lparr>mm_page_table := p\<rparr>, h))
            else Inr (mm, h)) = Inr (mm1, h1)"
    and step1: "rbind (CreatePageTable (mm_page_table mm1) 30 ipa h1) (\<lambda>(lv2_table, h).
        rbind (CreatePageTable lv2_table 21 ipa h) (\<lambda>(lv3_table, h).
        let mm = mm1\<lparr>mm_pages := mm_pages mm1 + 1\<rparr>;
            (slot, h) = SetPageTableEntry lv3_table ipa page flags h
        in Inr (slot, mm, h))) = Inr (slot, mm', h')"
    using step unfolding MapPage_def by (elim rbindE) (auto simp: Let_def)
  let ?root = "mm_page_table mm1"
  have root: "\<exists>own1. s2_frame own own1 h h1 \<and> own1 ?root = Some (?root, []) \<and> ?root \<noteq> 0 \<and>
      (mm_page_table mm \<noteq> 0 \<longrightarrow> mm1 = mm) \<and> (mm_page_table mm = 0 \<longrightarrow> own ?root = None) \<and>
      mm_pages mm1 = mm_pages mm \<and>
      (\<forall>q. own1 q = Some (q, []) \<longleftrightarrow> own q = Some (q, []) \<or> q = ?root) \<and>
      (\<forall>q is. own1 q = Some (q, []) \<longrightarrow> length is = 3 \<longrightarrow> set is \<subseteq> {..<512} \<longrightarrow>
         walk (read_pte (dram h1)) q is =
           (if own q = None then 0 else walk (read_pte (dram h)) q is))"
  proof (cases "mm_page_table mm = 0")
    case False
    with r have "mm1 = mm" "h1 = h" by simp_all
    with False ok show ?thesis using s2_frame_refl [OF inv]
      by (intro exI [of _ own]) (auto simp: mm_ok_def)
  next
    case True
    then obtain p where z: "kmm_zalloc 4096 h = Inr (p, h1)" and mm1: "mm1 = mm\<lparr>mm_page_table := p\<rparr>"
      using r by (auto simp: PAGE_SIZE_def rbind_eq_Inr)
    have tree: "table_tree (read_pte (dram h)) own" and hinv: "heap_inv h" and dom: "dom own \<subseteq> kmm_used h"
      using inv by (simp_all add: s2_inv_def)
    note k = kmm_zalloc_page [OF z hinv]
    have "aligned 12 p \<and> p \<noteq> 0" using kmm_used_page [OF heap_inv_layout [OF k(1)], of p] k(3) by simp
    then have p: "aligned 12 p" "p \<noteq> 0" by blast+
    have fresh: "own p = None" using dom k(2) by auto
    have d1: "dram h1 = zero_page (dram h) p" using k(5) by (simp add: zero_page_def)
    note L = pte_memory.root_step [OF tree fresh p d1]
    let ?own = "own(p \<mapsto> (p, []))"
    have "s2_inv ?own h1" using L(1) k(1,3) dom by (auto simp: s2_inv_def)
    moreover have "own \<subseteq>\<^sub>m ?own" using fresh by (auto simp: map_le_def)
    moreover have "dram h1 x = dram h x" if "\<forall>p\<in>kmm_used h1. \<not> x - p < 4096" for x
      using that k(3) by (simp add: d1 zero_page_def)
    ultimately have "s2_frame own ?own h h1" using k by (auto simp: s2_frame_def)
    moreover have "walk (read_pte (dram h1)) q is = (if own q = None then 0 else walk (read_pte (dram h)) q is)"
      if "?own q = Some (q, [])" "length is = 3" "set is \<subseteq> {..<512}" for q "is"
    proof (cases "q = p")
      case True
      then show ?thesis using L(3) [OF that(3)] fresh by simp
    next
      case False
      then have "own q = Some (q, [])" using that(1) by simp
      from L(2) [OF this _ that(3)] that(2) this show ?thesis by simp
    qed
    moreover have "mm_page_table mm1 = p" "mm_pages mm1 = mm_pages mm" using mm1 by simp_all
    ultimately show ?thesis using p fresh True
      by (intro exI [of _ ?own] conjI) simp_all
  qed
  then obtain own1 where o1: "s2_frame own own1 h h1" "own1 ?root = Some (?root, [])" "?root \<noteq> 0"
    "mm_page_table mm \<noteq> 0 \<longrightarrow> mm1 = mm" "mm_page_table mm = 0 \<longrightarrow> own ?root = None" "mm_pages mm1 = mm_pages mm"
    "\<forall>q. own1 q = Some (q, []) \<longleftrightarrow> own q = Some (q, []) \<or> q = ?root"
    "\<forall>q is. own1 q = Some (q, []) \<longrightarrow> length is = 3 \<longrightarrow> set is \<subseteq> {..<512} \<longrightarrow>
         walk (read_pte (dram h1)) q is = (if own q = None then 0 else walk (read_pte (dram h)) q is)" by blast
  obtain lv2 h2 lv3 h3 where c2: "CreatePageTable ?root 30 ipa h1 = Inr (lv2, h2)"
    and c3: "CreatePageTable lv2 21 ipa h2 = Inr (lv3, h3)"
    and c4: "SetPageTableEntry lv3 ipa page flags h3 = (slot, h')"
    and mm': "mm' = mm1\<lparr>mm_pages := mm_pages mm1 + 1\<rparr>"
    using step1 by (auto simp: rbind_eq_Inr Let_def SetPageTableEntry_def)
  have inv1: "s2_inv own1 h1" using o1(1) by (simp add: s2_frame_def)
  obtain own2 where o2: "s2_frame own1 own2 h1 h2" "own2 lv2 = Some (?root, [table_index 30 ipa])"
    "\<forall>q r'. own2 q = Some (r', []) \<longleftrightarrow> own1 q = Some (r', [])"
    "\<forall>q r' is. own1 q = Some (r', []) \<longrightarrow> length is = 3 \<longrightarrow> set is \<subseteq> {..<512} \<longrightarrow>
       walk (read_pte (dram h2)) q is = walk (read_pte (dram h1)) q is"
    using CreatePageTable_spec [OF inv1 o1(2) _ c2] by auto
  have inv2: "s2_inv own2 h2" using o2(1) by (simp add: s2_frame_def)
  obtain own3 where o3: "s2_frame own2 own3 h2 h3"
    "own3 lv3 = Some (?root, [table_index 30 ipa, table_index 21 ipa])"
    "\<forall>q r'. own3 q = Some (r', []) \<longleftrightarrow> own2 q = Some (r', [])"
    "\<forall>q r' is. own2 q = Some (r', []) \<longrightarrow> length is = 3 \<longrightarrow> set is \<subseteq> {..<512} \<longrightarrow>
       walk (read_pte (dram h3)) q is = walk (read_pte (dram h2)) q is"
    using CreatePageTable_spec [OF inv2 o2(2) _ c3] by auto
  have inv3: "s2_inv own3 h3" using o3(1) by (simp add: s2_frame_def)
  note o4 = SetPageTableEntry_spec [OF inv3 o3(2) _ c4, simplified]
  have "s2_frame own own3 h h'"
    using o1(1) o2(1) o3(1) o4 by (blast intro: s2_frame_trans)
  moreover have "s2_lookup (dram h') q ipa' = (if q = ?root \<and> s2_path ipa' = s2_path ipa then page OR flags
        else if own q = None then 0 else s2_lookup (dram h) q ipa')"
    if "own3 q = Some (q, [])" for q ipa'
  proof -
    have q: "own2 q = Some (q, [])" "own1 q = Some (q, [])" using that o2(3) o3(3) by simp_all
    note b = s2_path_bound [of ipa']
    have "s2_lookup (dram h') q ipa' = (if q = ?root \<and> s2_path ipa' = s2_path ipa then page OR flags
        else walk (read_pte (dram h3)) q (s2_path ipa'))"
      using o4 that b unfolding s2_lookup_def by (simp add: s2_path_def [of ipa])
    then show ?thesis
      using o3(4) [rule_format, OF q(1) b(2,1)] o2(4) [rule_format, OF q(2) b(2,1)]
        o1(8) [rule_format, OF q(2) b(2,1)] by (simp add: s2_lookup_def)
  qed
  moreover have "own3 q = Some (q, []) \<longleftrightarrow> own q = Some (q, []) \<or> q = mm_page_table mm'" for q
    using o1(7) o2(3) o3(3) mm' by simp
  moreover have "mm_page_table mm' = ?root" "mm_pages mm' = mm_pages mm + 1" using mm' o1(6) by simp_all
  moreover have "mm_ok own3 mm'" using o1(7) o2(3) o3(3) mm' by (simp add: mm_ok_def)
  moreover have "mm_page_table mm \<noteq> 0 \<longrightarrow> ?root = mm_page_table mm" using o1(4) by blast
  ultimately show ?thesis using o1(3,5) by (intro exI [of _ own3] conjI) simp_all
qed

section \<open>Isolation of guest memory\<close>

definition user_region :: "heap \<Rightarrow> u64 set" where
  "user_region h = page_at (kUserStart h) ` {..<524288}"

text \<open>
  No two translations, of one guest or of two, reach the same page of guest memory, and
  what is mapped is allocated.
\<close>

definition guest_isolated :: "owner \<Rightarrow> heap \<Rightarrow> bool" where
  "guest_isolated own h \<longleftrightarrow>
     (\<forall>q a. own q = Some (q, []) \<longrightarrow> s2_lookup (dram h) q a AND PAGE_MASK \<in> user_region h \<longrightarrow>
        s2_lookup (dram h) q a AND PAGE_MASK \<in> umm_used h) \<and>
     (\<forall>q a q' a'. own q = Some (q, []) \<longrightarrow> own q' = Some (q', []) \<longrightarrow>
        s2_lookup (dram h) q a AND PAGE_MASK \<in> user_region h \<longrightarrow>
        s2_lookup (dram h) q a AND PAGE_MASK = s2_lookup (dram h) q' a' AND PAGE_MASK \<longrightarrow>
        q = q' \<and> s2_path a = s2_path a')"

lemma table_index_bits:
  "table_index s a = table_index s b \<longleftrightarrow> (\<forall>k<9. bit a (s + k) \<longleftrightarrow> bit b (s + k))"
proof -
  have m: "push_bit 9 1 - 1 = (mask 9 :: u64)" by (simp add: mask_eq_exp_minus_1)
  have "table_index s a = table_index s b \<longleftrightarrow>
      take_bit 9 (drop_bit s a) = take_bit 9 (drop_bit s b)"
    unfolding table_index_def m take_bit_eq_mask [symmetric] by (simp only: word_unat_eq_iff)
  also have "\<dots> \<longleftrightarrow> (\<forall>k<9. bit a (s + k) \<longleftrightarrow> bit b (s + k))"
  proof
    assume eq: "take_bit 9 (drop_bit s a) = take_bit 9 (drop_bit s b)"
    show "\<forall>k<9. bit a (s + k) \<longleftrightarrow> bit b (s + k)"
    proof (intro allI impI)
      fix k :: nat assume "k < 9"
      then show "bit a (s + k) \<longleftrightarrow> bit b (s + k)"
        using arg_cong [OF eq, of "\<lambda>w. bit w k"] by (simp add: bit_take_bit_iff bit_drop_bit_eq)
    qed
  next
    assume "\<forall>k<9. bit a (s + k) \<longleftrightarrow> bit b (s + k)"
    then show "take_bit 9 (drop_bit s a) = take_bit 9 (drop_bit s b)"
      by (intro bit_word_eqI) (auto simp: bit_take_bit_iff bit_drop_bit_eq)
  qed
  finally show ?thesis .
qed

text \<open>Two addresses have the same path exactly when bits 12 to 38 agree.\<close>

lemma s2_path_bits: "s2_path a = s2_path b \<longleftrightarrow> (\<forall>k. 12 \<le> k \<and> k < 39 \<longrightarrow> bit a k = bit b k)"
proof -
  have "s2_path a = s2_path b \<longleftrightarrow>
     (\<forall>k<9. bit a (30 + k) = bit b (30 + k)) \<and> (\<forall>k<9. bit a (21 + k) = bit b (21 + k)) \<and>
     (\<forall>k<9. bit a (12 + k) = bit b (12 + k))"
    by (simp add: s2_path_def table_index_bits)
  also have "\<dots> \<longleftrightarrow> (\<forall>k. 12 \<le> k \<and> k < 39 \<longrightarrow> bit a k = bit b k)" (is "?l \<longleftrightarrow> ?r")
  proof
    assume l: ?l
    show ?r
    proof (intro allI impI)
      fix k :: nat
      assume k: "12 \<le> k \<and> k < 39"
      consider "k < 21" | "21 \<le> k" "k < 30" | "30 \<le> k" by linarith
      then show "bit a k = bit b k"
        using l [THEN conjunct1, rule_format, of "k - 30"] l [THEN conjunct2, THEN conjunct1, rule_format, of "k - 21"]
          l [THEN conjunct2, THEN conjunct2, rule_format, of "k - 12"] k by cases auto
    qed
  qed auto
  finally show ?thesis .
qed

lemma s2_path_page [simp]: "s2_path (a AND PAGE_MASK) = s2_path a"
proof -
  have m: "PAGE_MASK = NOT (mask 12)" by (simp add: PAGE_MASK_def mask_eq_exp_minus_1)
  show ?thesis unfolding s2_path_bits m by (auto simp: bit_and_iff bit_not_iff bit_mask_iff)
qed

lemma user_page_region: "umm_used h \<subseteq> user_region h"
  by (auto simp: umm_used_def user_region_def)

lemma user_region_nonzero: "layout_ok h \<Longrightarrow> 0 \<notin> user_region h"
proof
  assume l: "layout_ok h" and "0 \<in> user_region h"
  then obtain i where "i < 524288" "page_at (kUserStart h) i = 0" by (auto simp: user_region_def)
  then show False using page_at_nonzero(1) [of "kUserStart h" 524288 i] layout_user [OF l] by simp
qed

lemma isolated_MapPage:
  assumes iso: "guest_isolated own h" and inv: "s2_inv own h" and ok: "mm_ok own mm"
    and step: "MapPage mm ipa page flags h = Inr (slot, mm', h')"
    and page: "aligned 12 page" and flags: "\<forall>k\<ge>12. \<not> bit flags k"
    and unmapped: "page \<in> user_region h \<Longrightarrow> page \<in> umm_used h"
      "\<And>q a. page \<in> user_region h \<Longrightarrow> own q = Some (q, []) \<Longrightarrow> s2_lookup (dram h) q a AND PAGE_MASK \<noteq> page"
  shows "\<exists>own'. s2_frame own own' h h' \<and> mm_ok own' mm' \<and> guest_isolated own' h' \<and>
    (mm_page_table mm \<noteq> 0 \<longrightarrow> mm_page_table mm' = mm_page_table mm) \<and>
    own' (mm_page_table mm') = Some (mm_page_table mm', []) \<and> mm_pages mm' = mm_pages mm + 1 \<and>
    s2_lookup (dram h') (mm_page_table mm') ipa = page OR flags \<and> mm_page_table mm' \<noteq> 0 \<and>
    (mm_page_table mm = 0 \<longrightarrow> own (mm_page_table mm') = None) \<and>
    (\<forall>a. s2_lookup (dram h') (mm_page_table mm') a = (if s2_path a = s2_path ipa then page OR flags
       else if mm_page_table mm = 0 then 0 else s2_lookup (dram h) (mm_page_table mm) a)) \<and>
    (\<forall>q a. own q = Some (q, []) \<longrightarrow> q \<noteq> mm_page_table mm' \<longrightarrow> s2_lookup (dram h') q a = s2_lookup (dram h) q a)"
proof -
  obtain own' where o: "s2_frame own own' h h'" "mm_ok own' mm'" "mm_page_table mm' \<noteq> 0"
    "mm_page_table mm \<noteq> 0 \<longrightarrow> mm_page_table mm' = mm_page_table mm"
    "mm_page_table mm = 0 \<longrightarrow> own (mm_page_table mm') = None" "mm_pages mm' = mm_pages mm + 1"
    "\<forall>q. own' q = Some (q, []) \<longleftrightarrow> own q = Some (q, []) \<or> q = mm_page_table mm'"
    "\<forall>q ipa'. own' q = Some (q, []) \<longrightarrow> s2_lookup (dram h') q ipa' =
       (if q = mm_page_table mm' \<and> s2_path ipa' = s2_path ipa then page OR flags
        else if own q = None then 0 else s2_lookup (dram h) q ipa')"
    using MapPage_spec [OF inv ok step] by blast
  have reg: "user_region h' = user_region h" and used: "umm_used h' = umm_used h"
    using o(1) by (simp_all add: s2_frame_def user_region_def)
  have root: "own' (mm_page_table mm') = Some (mm_page_table mm', [])" using o(7) by simp
  have new: "(page OR flags) AND PAGE_MASK = page" by (rule mask_page_entry [OF page flags])
  have zero: "(0 :: u64) \<notin> user_region h"
    using inv by (intro user_region_nonzero heap_inv_layout) (simp add: s2_inv_def)
  define here where "here q a \<longleftrightarrow> q = mm_page_table mm' \<and> s2_path a = s2_path ipa" for q a
  have look: "(here q a \<and> s2_lookup (dram h') q a AND PAGE_MASK = page) \<or>
      (\<not> here q a \<and> own q = Some (q, []) \<and> s2_lookup (dram h') q a = s2_lookup (dram h) q a) \<or>
      (\<not> here q a \<and> own q = None \<and> s2_lookup (dram h') q a = 0)"
    if "own' q = Some (q, [])" for q a
  proof (cases "own q = Some (q, [])")
    case True
    have e: "s2_lookup (dram h') q a = (if here q a then page OR flags else s2_lookup (dram h) q a)"
      using o(8) [rule_format, OF that, of a] True unfolding here_def by simp
    show ?thesis using e True new by (cases "here q a") simp_all
  next
    case False
    then have "q = mm_page_table mm'" using o(7) that by blast
    then have n: "own q = None" using False o(4,5) ok unfolding mm_ok_def by metis
    have e: "s2_lookup (dram h') q a = (if here q a then page OR flags else 0)"
      using o(8) [rule_format, OF that, of a] n unfolding here_def by simp
    show ?thesis using e n new by (cases "here q a") simp_all
  qed
  have "guest_isolated own' h'"
    unfolding guest_isolated_def reg used
  proof (intro conjI allI impI)
    fix q a
    assume q: "own' q = Some (q, [])" and r: "s2_lookup (dram h') q a AND PAGE_MASK \<in> user_region h"
    show "s2_lookup (dram h') q a AND PAGE_MASK \<in> umm_used h"
      using look [OF q, of a] r unmapped(1) zero iso unfolding guest_isolated_def by auto
  next
    fix q a q' a'
    assume a: "own' q = Some (q, [])" "own' q' = Some (q', [])"
      "s2_lookup (dram h') q a AND PAGE_MASK \<in> user_region h"
      "s2_lookup (dram h') q a AND PAGE_MASK = s2_lookup (dram h') q' a' AND PAGE_MASK"
    have "q = q' \<and> s2_path a = s2_path a'"
    proof (cases "here q a")
      case True
      then have v: "s2_lookup (dram h') q a AND PAGE_MASK = page" using look [OF a(1), of a] by blast
      have "here q' a'"
      proof (rule ccontr)
        assume "\<not> here q' a'"
        then have "own q' = Some (q', []) \<and> s2_lookup (dram h') q' a' = s2_lookup (dram h) q' a' \<or>
            s2_lookup (dram h') q' a' = 0" using look [OF a(2), of a'] by blast
        then show False using a(3,4) v zero unmapped(2) [of q' a'] by auto
      qed
      with True show ?thesis by (simp add: here_def)
    next
      case False
      have old: "own q = Some (q, [])" "s2_lookup (dram h') q a = s2_lookup (dram h) q a"
        using look [OF a(1), of a] False a(3) zero by auto
      have "\<not> here q' a'"
      proof
        assume "here q' a'"
        then have "s2_lookup (dram h') q' a' AND PAGE_MASK = page" using look [OF a(2), of a'] by blast
        then show False using a(3,4) old unmapped(2) [of q a] by simp
      qed
      then have old': "own q' = Some (q', [])" "s2_lookup (dram h') q' a' = s2_lookup (dram h) q' a'"
        using look [OF a(2), of a'] a(3,4) zero by auto
      show ?thesis using iso old old' a(3,4) unfolding guest_isolated_def by metis
    qed
    then show "q = q'" "s2_path a = s2_path a'" by blast+
  qed
  moreover have "s2_lookup (dram h') (mm_page_table mm') ipa = page OR flags"
    using o(8) root by simp
  moreover have "s2_lookup (dram h') (mm_page_table mm') a = (if s2_path a = s2_path ipa then page OR flags
       else if mm_page_table mm = 0 then 0 else s2_lookup (dram h) (mm_page_table mm) a)" for a
  proof (cases "mm_page_table mm = 0")
    case True
    then show ?thesis using o(5) o(8) [rule_format, OF root, of a] by simp
  next
    case False
    then show ?thesis using o(4) ok o(8) [rule_format, OF root, of a] by (simp add: mm_ok_def)
  qed
  moreover have "s2_lookup (dram h') q a = s2_lookup (dram h) q a"
    if "own q = Some (q, [])" "q \<noteq> mm_page_table mm'" for q a
    using o(7,8) that by simp
  ultimately show ?thesis using o(1-6) root by blast
qed


lemma aligned_pages_disjoint:
  assumes "aligned 12 p" "aligned 12 q" "p \<noteq> q" "x - p < 4096"
  shows "\<not> x - q < (4096 :: u64)"
proof -
  have "unat (x - p) < 2 ^ 12" using assms(4) by (simp add: word_less_nat_alt)
  from aligned_disjoint [OF _ assms(2,1) assms(3) [symmetric] this]
  show ?thesis by (simp add: word_less_nat_alt not_less)
qed

lemma tree_same:
  assumes tree: "table_tree ent own"
    and same: "\<And>p j. own p \<noteq> None \<Longrightarrow> j < 512 \<Longrightarrow> ent' p j = ent p j"
  shows "table_tree ent' own"
proof -
  have "aligned 12 p \<and> p \<noteq> 0 \<and> length path \<le> 2 \<and> set path \<subseteq> {..<512} \<and> (path = [] \<longrightarrow> p = r) \<and>
        (path \<noteq> [] \<longrightarrow> (\<exists>q. own q = Some (r, butlast path) \<and> ent' q (last path) \<noteq> 0 \<and>
            ent' q (last path) AND PAGE_MASK = p)) \<and>
        (length path < 2 \<longrightarrow> (\<forall>j<512. ent' p j \<noteq> 0 \<longrightarrow>
            own (ent' p j AND PAGE_MASK) = Some (r, path @ [j])))"
    if p: "own p = Some (r, path)" for p r path
  proof -
    note d = table_treeD [OF tree p]
    have parent: "\<exists>q. own q = Some (r, butlast path) \<and> ent' q (last path) \<noteq> 0 \<and>
            ent' q (last path) AND PAGE_MASK = p" if ne: "path \<noteq> []"
    proof -
      obtain q where q: "own q = Some (r, butlast path)" "ent q (last path) \<noteq> 0"
        "ent q (last path) AND PAGE_MASK = p" using d(6) ne by blast
      have "last path < 512" using d(5) ne last_in_set by blast
      then show ?thesis using same q by (intro exI [of _ q]) auto
    qed
    have "own (ent' p j AND PAGE_MASK) = Some (r, path @ [j])"
      if "length path < 2" "j < 512" "ent' p j \<noteq> 0" for j
      using d(7) that same [of p j] p by simp
    then show ?thesis using d(1-5) parent by blast
  qed
  then show ?thesis unfolding table_tree_def by blast
qed

text \<open>Taking a guest page touches no table and no mapping.\<close>

lemma umm_zalloc_s2:
  assumes inv: "s2_inv own h" and iso: "guest_isolated own h" and z: "umm_zalloc 4096 h = Inr (p, h')"
  shows "s2_inv own h'" "guest_isolated own h'" "p \<in> umm_used h'" "aligned 12 p"
    and "own q = Some (q, []) \<Longrightarrow> s2_lookup (dram h') q a = s2_lookup (dram h) q a"
    and "own q = Some (q, []) \<Longrightarrow> s2_lookup (dram h') q a AND PAGE_MASK \<noteq> p"
    and "\<not> x - p < 4096 \<Longrightarrow> dram h' x = dram h x" and "x - p < 4096 \<Longrightarrow> dram h' x = 0"
    and "umm_used h \<subseteq> umm_used h'" "kmm_used h' = kmm_used h" "p \<notin> umm_used h"
proof -
  have hinv: "heap_inv h" and tree: "table_tree (read_pte (dram h)) own" and dom: "dom own \<subseteq> kmm_used h"
    using inv by (simp_all add: s2_inv_def)
  note u = umm_zalloc_page [OF z hinv]
  have l: "layout_ok h'" using u(1) by (rule heap_inv_layout)
  show pu: "p \<in> umm_used h'" and "umm_used h \<subseteq> umm_used h'" using u(3) by auto
  show ap: "aligned 12 p" using umm_used_page [OF l pu] by simp
  show "kmm_used h' = kmm_used h" "p \<notin> umm_used h" by (rule u(4), rule u(2))
  have d: "dram h' = zero_page (dram h) p" using u(5) by (simp add: zero_page_def)
  have reg: "user_region h' = user_region h" using u(7) by (simp add: user_region_def)
  have same: "read_pte (dram h') q j = read_pte (dram h) q j" if "own q \<noteq> None" "j < 512" for q j
  proof -
    have "q \<in> kmm_used h'" using dom that(1) u(4) by auto
    then have "q \<noteq> p" using regions_disjoint [OF l _ pu] by blast
    moreover have "aligned 12 q" using that(1) table_treeD(1) [OF tree] by fastforce
    ultimately show ?thesis using ap that(2) by (simp add: d read_zero_page)
  qed
  show "s2_inv own h'" using tree_same [OF tree same] u(1,4) dom by (simp add: s2_inv_def)
  have look: "s2_lookup (dram h') q a = s2_lookup (dram h) q a" if "own q = Some (q, [])" for q a
    unfolding s2_lookup_def using that by (intro walk_same [OF tree same]) auto
  then show "own q = Some (q, []) \<Longrightarrow> s2_lookup (dram h') q a = s2_lookup (dram h) q a" .
  show "own q = Some (q, []) \<Longrightarrow> s2_lookup (dram h') q a AND PAGE_MASK \<noteq> p"
  proof
    assume q: "own q = Some (q, [])" and e: "s2_lookup (dram h') q a AND PAGE_MASK = p"
    have "p \<in> user_region h" using pu user_page_region [of h'] reg by blast
    with q e have "p \<in> umm_used h" using iso look [OF q] unfolding guest_isolated_def by metis
    then show False using u(2) by contradiction
  qed
  show "guest_isolated own h'"
  proof -
    have "umm_used h \<subseteq> umm_used h'" using u(3) by blast
    with iso show ?thesis unfolding guest_isolated_def reg by (simp add: look subset_iff) blast
  qed
  show "\<not> x - p < 4096 \<Longrightarrow> dram h' x = dram h x" "x - p < 4096 \<Longrightarrow> dram h' x = 0"
    using u(5) by simp_all
qed

section \<open>Enough free pages\<close>

lemma kmm_used_card: "card (kmm_used h) = card {i. i < HEAP_PAGES \<and> kernelHeapMemMap h i}"
  unfolding kmm_used_def
proof (rule card_image, rule inj_onI)
  fix i j
  assume "i \<in> {i. i < HEAP_PAGES \<and> kernelHeapMemMap h i}" "j \<in> {i. i < HEAP_PAGES \<and> kernelHeapMemMap h i}"
    "page_at (kHeapStart h) i = page_at (kHeapStart h) j"
  then show "i = j" using page_at_inj [of i j "kHeapStart h"] by (simp add: HEAP_PAGES_def)
qed

lemma kmm_used_finite: "finite (kmm_used h)"
  by (simp add: kmm_used_def)

lemma kmm_zalloc_total:
  assumes "heap_inv h" "card (kmm_used h) < HEAP_PAGES"
  obtains p h' where "kmm_zalloc 4096 h = Inr (p, h')" "heap_inv h'"
    "card (kmm_used h') = Suc (card (kmm_used h))"
proof -
  have "\<exists>i<HEAP_PAGES. \<not> kernelHeapMemMap h i"
  proof (rule ccontr)
    assume "\<not> ?thesis"
    then have "{i. i < HEAP_PAGES \<and> kernelHeapMemMap h i} = {..<HEAP_PAGES}" by auto
    then show False using assms(2) by (simp add: kmm_used_card)
  qed
  then obtain i where "first_index (\<lambda>i. \<not> kernelHeapMemMap h i) 0 HEAP_PAGES = Some i"
    using first_index_None [of "\<lambda>i. \<not> kernelHeapMemMap h i" 0 HEAP_PAGES]
    by (cases "first_index (\<lambda>i. \<not> kernelHeapMemMap h i) 0 HEAP_PAGES") auto
  then obtain p h' where z: "kmm_zalloc 4096 h = Inr (p, h')"
    by (simp add: kmm_zalloc_def kmm_malloc_def)
  note k = kmm_zalloc_page [OF z assms(1)]
  have "card (kmm_used h') = Suc (card (kmm_used h))"
    using k(2,3) kmm_used_finite by simp
  then show ?thesis using that z k(1) by blast
qed

lemma CreatePageTable_total:
  assumes "heap_inv h" "card (kmm_used h) < HEAP_PAGES"
  obtains t' h' where "CreatePageTable t shift ipa h = Inr (t', h')" "heap_inv h'"
    "card (kmm_used h') \<le> Suc (card (kmm_used h))"
proof (cases "read_pte (dram h) t (table_index shift ipa) = 0")
  case True
  obtain p h1 where "kmm_zalloc 4096 h = Inr (p, h1)" "heap_inv h1"
    "card (kmm_used h1) = Suc (card (kmm_used h))" by (rule kmm_zalloc_total [OF assms])
  with True that show ?thesis by (simp add: CreatePageTable_def PAGE_SIZE_def)
next
  case False
  with assms that show ?thesis by (simp add: CreatePageTable_def)
qed

lemma MapPage_total:
  assumes "heap_inv h" "card (kmm_used h) + 3 \<le> HEAP_PAGES"
  obtains slot mm' h' where "MapPage mm ipa page flags h = Inr (slot, mm', h')"
    "heap_inv h'" "card (kmm_used h') \<le> card (kmm_used h) + 3"
proof -
  obtain mm1 h1 where r: "(if mm_page_table mm = 0
            then rbind (kmm_zalloc (ucast PAGE_SIZE) h) (\<lambda>(p, h). Inr (mm\<lparr>mm_page_table := p\<rparr>, h))
            else Inr (mm, h)) = Inr (mm1, h1)" "heap_inv h1" "card (kmm_used h1) \<le> Suc (card (kmm_used h))"
  proof (cases "mm_page_table mm = 0")
    case True
    have c: "card (kmm_used h) < HEAP_PAGES" using assms(2) by linarith
    obtain p h' where "kmm_zalloc 4096 h = Inr (p, h')" "heap_inv h'"
      "card (kmm_used h') = Suc (card (kmm_used h))" by (rule kmm_zalloc_total [OF assms(1) c])
    with True that show ?thesis by (simp add: PAGE_SIZE_def)
  next
    case False
    with assms(1) that show ?thesis by simp
  qed
  have c1: "card (kmm_used h1) < HEAP_PAGES" using r(3) assms(2) by linarith
  obtain t2 h2 where c2: "CreatePageTable (mm_page_table mm1) 30 ipa h1 = Inr (t2, h2)" "heap_inv h2"
    "card (kmm_used h2) \<le> Suc (card (kmm_used h1))" by (rule CreatePageTable_total [OF r(2) c1])
  have c2': "card (kmm_used h2) < HEAP_PAGES" using c2(3) r(3) assms(2) by linarith
  obtain t3 h3 where c3: "CreatePageTable t2 21 ipa h2 = Inr (t3, h3)" "heap_inv h3"
    "card (kmm_used h3) \<le> Suc (card (kmm_used h2))" by (rule CreatePageTable_total [OF c2(2) c2'])
  show ?thesis
    using that c3(3) c2(3) r(3) unfolding MapPage_def r(1)
    by (simp add: c2(1) c3(1) c3(2) Let_def SetPageTableEntry_def)
qed


lemma MapPage_ex:
  assumes "heap_inv h" "kmm_used h = {}"
  shows "\<exists>slot mm' h'. MapPage mm ipa page flags h = Inr (slot, mm', h')"
proof -
  have "card (kmm_used h) + 3 \<le> HEAP_PAGES" using assms(2) by (simp add: HEAP_PAGES_def)
  from MapPage_total [OF assms(1) this] show ?thesis by metis
qed

lemma guest_page_not_kernel:
  assumes "layout_ok h" "p \<in> umm_used h" "k \<in> kmm_used h" "x - p < 4096"
  shows "\<not> x - k < 4096"
proof -
  have "aligned 12 p" "aligned 12 k"
    using umm_used_page [OF assms(1,2)] kmm_used_page [OF assms(1,3)] by simp_all
  moreover have "p \<noteq> k" using regions_disjoint [OF assms(1,3,2)] by blast
  ultimately show ?thesis using assms(4) by (rule aligned_pages_disjoint)
qed

lemma kStage2PteDram_low: "\<forall>k\<ge>12. \<not> bit kStage2PteDram k"
proof -
  have "kStage2PteDram = mask 11" by (simp add: kStage2PteDram_def mask_eq_exp_minus_1)
  moreover have "\<not> bit (mask 11 :: u64) k" if "12 \<le> k" for k :: nat
    using that unfolding bit_mask_iff by simp
  ultimately show ?thesis by metis
qed

text \<open>Mapping a guest page that was just taken, in either of the two ways of the code.\<close>

lemma new_guest_page:
  assumes inv: "s2_inv own h" and iso: "guest_isolated own h" and ok: "mm_ok own mm"
    and z: "umm_zalloc 4096 h = Inr (page, h1)" and step: "MapPage mm ipa page kStage2PteDram h1 = Inr (slot, mm', h')"
  shows "\<exists>own'. s2_inv own' h' \<and> guest_isolated own' h' \<and> mm_ok own' mm' \<and> own \<subseteq>\<^sub>m own' \<and>
    own' (mm_page_table mm') = Some (mm_page_table mm', []) \<and>
    (mm_page_table mm \<noteq> 0 \<longrightarrow> mm_page_table mm' = mm_page_table mm) \<and>
    mm_pages mm' = mm_pages mm + 1 \<and>
    s2_lookup (dram h') (mm_page_table mm') ipa = page OR kStage2PteDram \<and>
    page \<notin> umm_used h \<and> umm_used h' = insert page (umm_used h) \<and>
    (\<forall>x. x - page < 4096 \<longrightarrow> dram h' x = 0) \<and>
    (\<forall>p\<in>umm_used h. \<forall>x. x - p < 4096 \<longrightarrow> dram h' x = dram h x) \<and>
    user_region h' = user_region h \<and> kmm_used h \<subseteq> kmm_used h' \<and> mm_page_table mm' \<noteq> 0 \<and>
    (mm_page_table mm = 0 \<longrightarrow> own (mm_page_table mm') = None) \<and>
    (\<forall>q a. own q = Some (q, []) \<longrightarrow> q \<noteq> mm_page_table mm' \<longrightarrow> s2_lookup (dram h') q a = s2_lookup (dram h) q a)"
proof -
  note u = umm_zalloc_s2 [OF inv iso z]
  have hinv: "heap_inv h" using inv by (simp add: s2_inv_def)
  have un: "umm_used h1 = insert page (umm_used h)" using umm_zalloc_page(3) [OF z hinv] .
  obtain own' where o: "s2_frame own own' h1 h'" "mm_ok own' mm'" "guest_isolated own' h'"
    "mm_page_table mm \<noteq> 0 \<longrightarrow> mm_page_table mm' = mm_page_table mm"
    "own' (mm_page_table mm') = Some (mm_page_table mm', [])" "mm_pages mm' = mm_pages mm + 1"
    "s2_lookup (dram h') (mm_page_table mm') ipa = page OR kStage2PteDram"
    "mm_page_table mm' \<noteq> 0" "mm_page_table mm = 0 \<longrightarrow> own (mm_page_table mm') = None"
    "\<forall>q a. own q = Some (q, []) \<longrightarrow> q \<noteq> mm_page_table mm' \<longrightarrow> s2_lookup (dram h') q a = s2_lookup (dram h1) q a"
    using isolated_MapPage [OF u(2,1) ok step u(4) kStage2PteDram_low] u(3,6) by blast
  have region: "user_region h' = user_region h"
    using o(1) umm_zalloc_page(7) [OF z hinv] by (simp add: s2_frame_def user_region_def)
  have inv': "s2_inv own' h'" and used: "umm_used h' = umm_used h1" and
    frame: "\<And>x. (\<And>p. p \<in> kmm_used h' \<Longrightarrow> \<not> x - p < 4096) \<Longrightarrow> dram h' x = dram h1 x"
    and le: "own \<subseteq>\<^sub>m own'"
    using o(1) by (auto simp: s2_frame_def)
  have l: "layout_ok h'" using inv' by (simp add: s2_inv_def heap_inv_layout)
  have keep: "dram h' x = dram h1 x" if "p \<in> umm_used h1" "x - p < 4096" for p x
    using frame guest_page_not_kernel [OF l, of p _ x] that used by blast
  have "dram h' x = 0" if "x - page < 4096" for x
    using keep [of page x] u(8) [OF that] that un by simp
  moreover have "dram h' x = dram h x" if p: "p \<in> umm_used h" "x - p < 4096" for p x
  proof -
    have "page \<noteq> p" using p(1) u(11) by blast
    moreover have "aligned 12 p" using umm_used_page [OF heap_inv_layout [OF hinv] p(1)] by simp
    ultimately have "\<not> x - page < 4096" using aligned_pages_disjoint [of p page x] u(4) p(2) by simp
    then show ?thesis using keep [of p x] p un u(7) by simp
  qed
  moreover have "kmm_used h \<subseteq> kmm_used h'" using o(1) u(10) by (simp add: s2_frame_def)
  ultimately show ?thesis using o inv' le used un u(5,11) region by (intro exI [of _ own']) simp
qed

section \<open>The tables at boot\<close>

lemma s2_inv_empty: "heap_inv h \<Longrightarrow> s2_inv (\<lambda>_. None) h \<and> guest_isolated (\<lambda>_. None) h"
  by (simp add: s2_inv_def table_tree_def guest_isolated_def)

abbreviation new_mm :: MmContext where
  "new_mm \<equiv> \<lparr>mm_page_table = 0, mm_pages = 0\<rparr>"

lemma demo_kmm_used: "kmm_used demo_heap = {}"
  by (simp add: kmm_used_def heap_boot_def)

section \<open>Properties\<close>

text \<open>
  C8. \<open>MapPage\<close> makes the hardware walk find the descriptor \<open>page OR flags\<close> at the address, and
  changes the translation of no other page of this guest and of no page of any other guest; the
  tables stay a forest of zero-initialised kernel pages, and the page counter goes up by one.
\<close>

theorem MapPage_lookup:
  assumes "s2_inv own h" and "mm_ok own mm" and "MapPage mm ipa page flags h = Inr (slot, mm', h')"
  shows "\<exists>own'. s2_inv own' h' \<and> mm_ok own' mm' \<and> own \<subseteq>\<^sub>m own' \<and> mm_pages mm' = mm_pages mm + 1 \<and>
    (mm_page_table mm \<noteq> 0 \<longrightarrow> mm_page_table mm' = mm_page_table mm) \<and>
    s2_lookup (dram h') (mm_page_table mm') ipa = page OR flags \<and>
    (\<forall>q a. own q = Some (q, []) \<longrightarrow> q \<noteq> mm_page_table mm' \<or> s2_path a \<noteq> s2_path ipa \<longrightarrow>
       s2_lookup (dram h') q a = s2_lookup (dram h) q a)"
proof -
  obtain own' where o: "s2_frame own own' h h'" "mm_ok own' mm'"
    "mm_page_table mm \<noteq> 0 \<longrightarrow> mm_page_table mm' = mm_page_table mm" "mm_pages mm' = mm_pages mm + 1"
    "\<forall>q. own' q = Some (q, []) \<longleftrightarrow> own q = Some (q, []) \<or> q = mm_page_table mm'"
    "\<forall>q ipa'. own' q = Some (q, []) \<longrightarrow> s2_lookup (dram h') q ipa' =
       (if q = mm_page_table mm' \<and> s2_path ipa' = s2_path ipa then page OR flags
        else if own q = None then 0 else s2_lookup (dram h) q ipa')"
    using MapPage_spec [OF assms] by blast
  have "s2_lookup (dram h') (mm_page_table mm') ipa = page OR flags" using o(5,6) by simp
  moreover have "s2_lookup (dram h') q a = s2_lookup (dram h) q a"
    if "own q = Some (q, [])" "q \<noteq> mm_page_table mm' \<or> s2_path a \<noteq> s2_path ipa" for q a
    using o(5,6) that by auto
  ultimately show ?thesis using o(1-4) unfolding s2_frame_def by blast
qed

theorem MapPage_lookup_witness:
  "\<exists>slot mm' h'. MapPage new_mm 0x40000000 0x48100000 kStage2PteDram demo_heap = Inr (slot, mm', h') \<and>
     s2_lookup (dram h') (mm_page_table mm') 0x40000000 = 0x48100000 OR kStage2PteDram"
proof -
  obtain slot mm' h' where m: "MapPage new_mm 0x40000000 0x48100000 kStage2PteDram demo_heap = Inr (slot, mm', h')"
    using MapPage_ex [OF demo_heap_inv demo_kmm_used] by blast
  have "s2_inv (\<lambda>_. None) demo_heap" using s2_inv_empty [OF demo_heap_inv] by blast
  from MapPage_lookup [OF this _ m] m show ?thesis by (auto simp: mm_ok_def)
qed

text \<open>
  C3. Isolation: allocating and mapping guest pages (\<open>PageMap\<close>) keeps the invariant that no two
  translations, of the same or of different guests, reach the same page of guest memory; the new
  page is zeroed, so nothing of another guest shows in it, and the contents of all pages mapped
  before are unchanged.
\<close>

theorem PageMap_isolated:
  assumes "s2_inv own h" and "guest_isolated own h" and "mm_ok own mm"
    and "PageMap mm ipa h = Inr (page, mm', h')"
  shows "\<exists>own'. s2_inv own' h' \<and> guest_isolated own' h' \<and> mm_ok own' mm' \<and>
    s2_lookup (dram h') (mm_page_table mm') ipa = page OR kStage2PteDram \<and>
    page \<notin> umm_used h \<and> (\<forall>x. x - page < 4096 \<longrightarrow> dram h' x = 0) \<and>
    (\<forall>p\<in>umm_used h. \<forall>x. x - p < 4096 \<longrightarrow> dram h' x = dram h x)"
proof -
  obtain h1 slot where "umm_zalloc 4096 h = Inr (page, h1)"
    "MapPage mm ipa page kStage2PteDram h1 = Inr (slot, mm', h')"
    using assms(4) by (auto simp: PageMap_def PageAllocate_def MapPageAccessible_def PAGE_SIZE_def rbind_eq_Inr)
  from new_guest_page [OF assms(1-3) this] show ?thesis by blast
qed

theorem PageMap_isolated_witness:
  "\<exists>own mm' h'. PageMap new_mm 0x40000000 demo_heap = Inr (0x48100000, mm', h') \<and> guest_isolated own h'"
proof -
  obtain h1 where z: "umm_zalloc 4096 demo_heap = Inr (0x48100000, h1)"
    using umm_malloc_first [of demo_heap] by (simp add: umm_zalloc_def heap_boot_def)
  have "heap_inv h1" using umm_zalloc_page(1) [OF z demo_heap_inv] .
  moreover have "kmm_used h1 = {}"
    using umm_zalloc_page(4) [OF z demo_heap_inv] demo_kmm_used by simp
  ultimately obtain slot mm' h' where "MapPage new_mm 0x40000000 0x48100000 kStage2PteDram h1 = Inr (slot, mm', h')"
    using MapPage_ex by blast
  with z have p: "PageMap new_mm 0x40000000 demo_heap = Inr (0x48100000, mm', h')"
    by (simp add: PageMap_def PageAllocate_def MapPageAccessible_def PAGE_SIZE_def)
  have "s2_inv (\<lambda>_. None) demo_heap" "guest_isolated (\<lambda>_. None) demo_heap"
    using s2_inv_empty [OF demo_heap_inv] by blast+
  from PageMap_isolated [OF this _ p] p show ?thesis by (auto simp: mm_ok_def)
qed

text \<open>
  C34. Mapping a page does not fail while three kernel heap pages are free, whatever the address,
  and it never takes more than three.
\<close>

theorem MapPage_enough_memory:
  assumes "heap_inv h" and "card (kmm_used h) + 3 \<le> HEAP_PAGES"
  shows "returns (MapPage mm ipa page flags h) \<and>
    (\<forall>slot mm' h'. MapPage mm ipa page flags h = Inr (slot, mm', h') \<longrightarrow>
       heap_inv h' \<and> card (kmm_used h') \<le> card (kmm_used h) + 3)"
  using MapPage_total [OF assms, of mm ipa page flags] by (metis Inr_inject Pair_inject returns_simps(1))

theorem MapPage_enough_memory_witness: "returns (MapPage new_mm 0 0x48100000 kStage2PteDram demo_heap)"
  using MapPage_enough_memory [OF demo_heap_inv] demo_kmm_used by (simp add: HEAP_PAGES_def)

end
