(* ===== verification/EvSched.thy ===== *)
theory EvSched
  imports EvStage2
begin

text \<open>
  The scheduler (kernel/sched/sched_core.cc, sched_task_context.cc, sched_task_console.cc): a
  table of eight tasks, round robin by counters that are recharged when all are spent. A task
  pointer is its index in the table.
\<close>

section \<open>State\<close>

definition kNrTasks :: nat where "kNrTasks = 8"

record sched =
  tsks :: "Tcb option list"
  cur_tsk :: nat
  count_tsks :: nat
  console_forwarded_pid :: u8

text \<open>The static instance before \<open>Init\<close>, and after it.\<close>

definition Sched_instance :: sched where
  "Sched_instance = \<lparr>tsks = replicate kNrTasks None, cur_tsk = 0, count_tsks = 0, console_forwarded_pid = 1\<rparr>"

definition Sched_Init :: "sched \<Rightarrow> sched" where
  "Sched_Init s = s\<lparr>tsks := (tsks s)[0 := Some kInitTask], cur_tsk := 0, count_tsks := 1\<rparr>"

definition task_of :: "sched \<Rightarrow> nat \<Rightarrow> Tcb res" where
  "task_of s i = rbind (arr_get (tsks s) i) (\<lambda>t. case t of None \<Rightarrow> Inl NullDeref | Some t \<Rightarrow> Inr t)"

definition set_task :: "nat \<Rightarrow> Tcb \<Rightarrow> sched \<Rightarrow> sched" where
  "set_task i t s = s\<lparr>tsks := (tsks s)[i := Some t]\<rparr>"

section \<open>Tasks\<close>

definition AddTask :: "Tcb \<Rightarrow> sched \<Rightarrow> (nat \<times> sched) res" where
  "AddTask tsk s =
     (let pid = count_tsks s
      in rbind (arr_set (tsks s) pid (Some (tsk\<lparr>tcb_pid := int pid\<rparr>)))
           (\<lambda>ts. Inr (pid, s\<lparr>tsks := ts, count_tsks := count_tsks s + 1\<rparr>)))"

text \<open>\<open>None\<close> is the null pointer.\<close>

definition GetTask :: "int \<Rightarrow> sched \<Rightarrow> nat option res" where
  "GetTask pid s =
     (if pid \<ge> int (count_tsks s) then Inr None
      else if pid < 0 then Inl OutOfBounds
      else rbind (arr_get (tsks s) (nat pid)) (\<lambda>t. Inr (map_option (\<lambda>_. nat pid) t)))"

text \<open>The init task is a static object, not a page: there is no frame above it.\<close>

definition GetVCpuRegs :: "nat \<Rightarrow> sched \<Rightarrow> VCpuContext res" where
  "GetVCpuRegs i s = (if i = 0 then Inl OutOfBounds else rbind (task_of s i) (\<lambda>t. Inr (tcb_vcpu t)))"

definition IncrementCurrentTaskPc :: "int \<Rightarrow> sched \<Rightarrow> sched res" where
  "IncrementCurrentTaskPc offset s =
     rbind (GetVCpuRegs (cur_tsk s) s) (\<lambda>regs.
     rbind (task_of s (cur_tsk s)) (\<lambda>t.
       Inr (set_task (cur_tsk s) (t\<lparr>tcb_vcpu := regs\<lparr>vc_pc := vc_pc regs + of_int offset\<rparr>\<rparr>) s)))"

definition ConsoleSwitchTo :: "u8 \<Rightarrow> sched \<Rightarrow> sched" where
  "ConsoleSwitchTo pid s = s\<lparr>console_forwarded_pid := pid\<rparr>"

definition GetCurrentPidUsingConsole :: "sched \<Rightarrow> u8" where
  "GetCurrentPidUsingConsole s = console_forwarded_pid s"

text \<open>The table of names; the second entry is two literals without a comma between them.\<close>

definition kTaskStateNames :: "string list" where
  "kTaskStateNames = [''RUNNING'', ''WAITTING'' @ ''ZOMBIE'', ''DEAD'']"

definition state_number :: "TaskState \<Rightarrow> nat" where
  "state_number st = (case st of RUNNING \<Rightarrow> 0 | WAITTING \<Rightarrow> 1 | ZOMBIE \<Rightarrow> 2 | DEAD \<Rightarrow> 3)"

definition state_name :: "TaskState \<Rightarrow> string res" where
  "state_name st = arr_get kTaskStateNames (state_number st)"

section \<open>Choosing the next task\<close>

text \<open>The comparison is on \<open>long\<close>, the copy in \<open>c\<close> is an \<open>int\<close>.\<close>

fun sched_scan :: "Tcb option list \<Rightarrow> nat \<Rightarrow> int \<Rightarrow> nat \<Rightarrow> int \<times> nat" where
  "sched_scan [] i c next = (c, next)"
| "sched_scan (t # ts) i c next =
     (case t of
        Some task \<Rightarrow>
          if tcb_state task = RUNNING \<and> tcb_counter task > c
          then sched_scan ts (Suc i) (signed_take_bit 31 (tcb_counter task)) i
          else sched_scan ts (Suc i) c next
      | None \<Rightarrow> sched_scan ts (Suc i) c next)"

definition recharge_task :: "Tcb \<Rightarrow> Tcb" where
  "recharge_task task = task\<lparr>tcb_counter := drop_bit 1 (tcb_counter task) + tcb_priority task\<rparr>"

definition recharge :: "Tcb option list \<Rightarrow> Tcb option list" where
  "recharge ts = map (map_option recharge_task) ts"

partial_function (option) sched_loop :: "Tcb option list \<Rightarrow> (nat \<times> Tcb option list) option" where
  "sched_loop ts =
     (let (c, next) = sched_scan ts 0 (- 1) 0
      in if c \<noteq> 0 then Some (next, ts) else sched_loop (recharge ts))"

text \<open>\<open>SchedContextSwitch\<close> stores the callee-saved registers and loads the next task's.\<close>

definition SchedContextSwitch :: "Tcb \<Rightarrow> Tcb \<Rightarrow> cpu \<Rightarrow> Tcb \<times> cpu" where
  "SchedContextSwitch prev next c =
     (prev\<lparr>tcb_cpu_context := cpu_context c\<rparr>, c\<lparr>cpu_context := tcb_cpu_context next\<rparr>)"

definition SwitchTaskTo :: "nat \<Rightarrow> sched \<times> cpu \<Rightarrow> (sched \<times> cpu) res" where
  "SwitchTaskTo next = (\<lambda>(s, c).
     if cur_tsk s = next then Inr (s, c)
     else rbind (task_of s (cur_tsk s)) (\<lambda>prev_t.
          rbind (task_of s next) (\<lambda>next_t.
          let (prev_t', c') = SchedContextSwitch prev_t next_t c
          in Inr (set_task (cur_tsk s) prev_t' (s\<lparr>cur_tsk := next\<rparr>), c'))))"

definition ScheduleInternal :: "sched \<times> cpu \<Rightarrow> (sched \<times> cpu) res" where
  "ScheduleInternal = (\<lambda>(s, c).
     if length (tsks s) < count_tsks s then Inl OutOfBounds
     else case sched_loop (take (count_tsks s) (tsks s)) of
       None \<Rightarrow> Inl Diverge
     | Some (next, ts) \<Rightarrow> SwitchTaskTo next (s\<lparr>tsks := ts @ drop (count_tsks s) (tsks s)\<rparr>, c))"

definition Schedule :: "sched \<times> cpu \<Rightarrow> (sched \<times> cpu) res" where
  "Schedule = (\<lambda>(s, c).
     rbind (task_of s (cur_tsk s)) (\<lambda>t.
       ScheduleInternal (set_task (cur_tsk s) (t\<lparr>tcb_counter := 0\<rparr>) s, c)))"

definition SchedTimerHandler :: "sched \<times> cpu \<Rightarrow> (sched \<times> cpu) res" where
  "SchedTimerHandler = (\<lambda>(s, c).
     rbind (task_of s (cur_tsk s)) (\<lambda>t.
       let t' = t\<lparr>tcb_counter := tcb_counter t - 1\<rparr>
       in if tcb_counter t' > 0 then Inr (set_task (cur_tsk s) t' s, c)
          else ScheduleInternal (set_task (cur_tsk s) (t'\<lparr>tcb_counter := 0\<rparr>) s, c)))"

definition ExitTask :: "nat \<Rightarrow> sched \<times> cpu \<Rightarrow> (sched \<times> cpu) res" where
  "ExitTask i = (\<lambda>(s, c).
     if i < count_tsks s
     then rbind (task_of s i) (\<lambda>t. Schedule (set_task i (t\<lparr>tcb_state := ZOMBIE\<rparr>) s, c))
     else Schedule (s, c))"

section \<open>Invariant\<close>

definition task_ok :: "nat \<Rightarrow> Tcb \<Rightarrow> bool" where
  "task_ok i t \<longleftrightarrow> tcb_pid t = int i \<and> 1 \<le> tcb_priority t \<and> tcb_priority t \<le> 2 ^ 29 \<and>
     0 \<le> tcb_counter t \<and> tcb_counter t \<le> 2 * tcb_priority t"

definition sched_inv :: "sched \<Rightarrow> bool" where
  "sched_inv s \<longleftrightarrow> length (tsks s) = kNrTasks \<and> 1 \<le> count_tsks s \<and> count_tsks s \<le> kNrTasks \<and>
     cur_tsk s < count_tsks s \<and>
     (\<forall>i<count_tsks s. \<exists>t. tsks s ! i = Some t \<and> task_ok i t)"

definition runnable :: "Tcb option \<Rightarrow> bool" where
  "runnable t \<longleftrightarrow> (\<exists>task. t = Some task \<and> tcb_state task = RUNNING)"

definition counter_of :: "Tcb option \<Rightarrow> int" where
  "counter_of t = (case t of None \<Rightarrow> 0 | Some task \<Rightarrow> tcb_counter task)"

lemma signed_take_bit_small: "0 \<le> (x :: int) \<Longrightarrow> x < 2 ^ 31 \<Longrightarrow> signed_take_bit 31 x = x"
  by (simp add: signed_take_bit_int_eq_self_iff)

lemma sched_scan_spec:
  assumes "\<forall>t \<in> set ts. 0 \<le> counter_of t \<and> counter_of t < 2 ^ 31" and "sched_scan ts i c n = (c', n')"
  shows "c \<le> c' \<and> (\<forall>t \<in> set ts. runnable t \<longrightarrow> counter_of t \<le> c') \<and>
    (c' = c \<and> n' = n \<or> c < c' \<and> (\<exists>k<length ts. n' = i + k \<and> runnable (ts ! k) \<and> counter_of (ts ! k) = c'))"
  using assms
proof (induction ts arbitrary: i c n)
  case Nil
  then show ?case by simp
next
  case (Cons t ts)
  let ?b = "runnable t \<and> c < counter_of t"
  have step: "sched_scan (t # ts) i c n =
      (if ?b then sched_scan ts (Suc i) (counter_of t) i else sched_scan ts (Suc i) c n)"
    using Cons.prems(1) by (auto simp: runnable_def counter_of_def signed_take_bit_small split: option.splits)
  show ?case
  proof (cases ?b)
    case True
    then have "sched_scan ts (Suc i) (counter_of t) i = (c', n')" using Cons.prems(2) step by simp
    from Cons.IH [OF _ this] Cons.prems(1) have ih: "counter_of t \<le> c'"
      "\<forall>t \<in> set ts. runnable t \<longrightarrow> counter_of t \<le> c'"
      "c' = counter_of t \<and> n' = i \<or> (\<exists>k<length ts. n' = Suc i + k \<and> runnable (ts ! k) \<and> counter_of (ts ! k) = c')"
      by auto
    from ih(3) have "\<exists>k<length (t # ts). n' = i + k \<and> runnable ((t # ts) ! k) \<and> counter_of ((t # ts) ! k) = c'"
    proof
      assume "c' = counter_of t \<and> n' = i"
      then show ?thesis using True by (intro exI [of _ 0]) simp
    next
      assume "\<exists>k<length ts. n' = Suc i + k \<and> runnable (ts ! k) \<and> counter_of (ts ! k) = c'"
      then obtain k where "k < length ts" "n' = Suc i + k" "runnable (ts ! k)" "counter_of (ts ! k) = c'" by blast
      then show ?thesis by (intro exI [of _ "Suc k"]) simp
    qed
    with ih True show ?thesis by auto
  next
    case False
    have "sched_scan ts (Suc i) c n = (c', n')"
      using Cons.prems(2) unfolding step if_not_P [OF False] .
    from Cons.IH [OF _ this] Cons.prems(1) have ih: "c \<le> c'"
      "\<forall>t \<in> set ts. runnable t \<longrightarrow> counter_of t \<le> c'"
      "c' = c \<and> n' = n \<or> c < c' \<and> (\<exists>k<length ts. n' = Suc i + k \<and> runnable (ts ! k) \<and> counter_of (ts ! k) = c')"
      by auto
    from ih(3) have "c' = c \<and> n' = n \<or> c < c' \<and>
       (\<exists>k<length (t # ts). n' = i + k \<and> runnable ((t # ts) ! k) \<and> counter_of ((t # ts) ! k) = c')"
    proof
      assume "c < c' \<and> (\<exists>k<length ts. n' = Suc i + k \<and> runnable (ts ! k) \<and> counter_of (ts ! k) = c')"
      then obtain k where "c < c'" "k < length ts" "n' = Suc i + k" "runnable (ts ! k)" "counter_of (ts ! k) = c'" by blast
      then show ?thesis by (intro disjI2 conjI exI [of _ "Suc k"]) simp_all
    qed simp
    with ih False show ?thesis by auto
  qed
qed


text \<open>The table of a well-formed scheduler, as the scan sees it.\<close>

definition tasks_ok :: "Tcb option list \<Rightarrow> bool" where
  "tasks_ok ts \<longleftrightarrow> (\<forall>i<length ts. \<exists>t. ts ! i = Some t \<and> task_ok i t)"

lemma tasks_ok_counter: "tasks_ok ts \<Longrightarrow> t \<in> set ts \<Longrightarrow> 0 \<le> counter_of t \<and> counter_of t < 2 ^ 31"
  unfolding in_set_conv_nth tasks_ok_def by (fastforce simp: counter_of_def task_ok_def)

lemma recharge_ok: "tasks_ok ts \<Longrightarrow> tasks_ok (recharge ts)"
  unfolding tasks_ok_def recharge_def
  by (fastforce simp: recharge_task_def task_ok_def drop_bit_eq_div)

lemma length_recharge [simp]: "length (recharge ts) = length ts"
  by (simp add: recharge_def)

lemma recharge_nth: "i < length ts \<Longrightarrow> recharge ts ! i = map_option recharge_task (ts ! i)"
  by (simp add: recharge_def)

lemma runnable_recharge [simp]: "runnable (map_option recharge_task t) = runnable t"
  by (cases t) (simp_all add: runnable_def recharge_task_def)

lemma recharge_positive:
  assumes "tasks_ok ts" "i < length ts"
  shows "1 \<le> counter_of (recharge ts ! i)"
proof -
  obtain t where t: "ts ! i = Some t" "task_ok i t" using assms by (auto simp: tasks_ok_def)
  have "counter_of (recharge ts ! i) = drop_bit 1 (tcb_counter t) + tcb_priority t"
    using t(1) assms(2) by (simp add: recharge_nth counter_of_def recharge_task_def)
  moreover have "0 \<le> drop_bit 1 (tcb_counter t)" "1 \<le> tcb_priority t" using t(2) by (simp_all add: task_ok_def)
  ultimately show ?thesis by linarith
qed

text \<open>
  The choice: the first pass decides unless every runnable task is spent, in which case the
  recharged table decides. So the loop ends after at most two rounds.
\<close>

definition chosen :: "Tcb option list \<Rightarrow> nat \<Rightarrow> bool" where
  "chosen ts i \<longleftrightarrow> i < length ts \<and> runnable (ts ! i) \<and> 1 \<le> counter_of (ts ! i) \<and>
     (\<forall>j<length ts. runnable (ts ! j) \<longrightarrow> counter_of (ts ! j) \<le> counter_of (ts ! i))"

lemma scan_choice:
  assumes "tasks_ok ts" and "sched_scan ts 0 (- 1) 0 = (c, n)"
  shows "(\<exists>i<length ts. runnable (ts ! i) \<and> 1 \<le> counter_of (ts ! i)) \<Longrightarrow> 1 \<le> c \<and> chosen ts n"
    and "(\<exists>i<length ts. runnable (ts ! i)) \<Longrightarrow>
      \<forall>i<length ts. runnable (ts ! i) \<longrightarrow> counter_of (ts ! i) = 0 \<Longrightarrow> c = 0"
    and "\<forall>i<length ts. \<not> runnable (ts ! i) \<Longrightarrow> c = - 1 \<and> n = 0"
proof -
  have b: "\<forall>t \<in> set ts. 0 \<le> counter_of t \<and> counter_of t < 2 ^ 31" using tasks_ok_counter [OF assms(1)] by blast
  note sp = sched_scan_spec [OF b assms(2)]
  then have max: "\<And>i. i < length ts \<Longrightarrow> runnable (ts ! i) \<Longrightarrow> counter_of (ts ! i) \<le> c" by simp
  have pos: "\<And>i. i < length ts \<Longrightarrow> 0 \<le> counter_of (ts ! i)" using b by simp
  show "1 \<le> c \<and> chosen ts n" if "\<exists>i<length ts. runnable (ts ! i) \<and> 1 \<le> counter_of (ts ! i)"
  proof -
    from that obtain i where "i < length ts" "runnable (ts ! i)" "1 \<le> counter_of (ts ! i)" by blast
    with max [of i] have "1 \<le> c" by linarith
    moreover from this sp have "n < length ts \<and> runnable (ts ! n) \<and> counter_of (ts ! n) = c" by auto
    ultimately show ?thesis using max by (simp add: chosen_def)
  qed
  show "c = 0" if "\<exists>i<length ts. runnable (ts ! i)"
    "\<forall>i<length ts. runnable (ts ! i) \<longrightarrow> counter_of (ts ! i) = 0"
  proof -
    from that obtain i where "i < length ts" "runnable (ts ! i)" "counter_of (ts ! i) = 0" by blast
    with max [of i] have "0 \<le> c" by simp
    with sp obtain k where "k < length ts" "runnable (ts ! k)" "counter_of (ts ! k) = c" by auto
    then show ?thesis using that(2) by auto
  qed
  show "c = - 1 \<and> n = 0" if "\<forall>i<length ts. \<not> runnable (ts ! i)" using sp that by auto
qed

lemma sched_loop_spec:
  assumes ok: "tasks_ok ts" and ne: "ts \<noteq> []"
  shows "\<exists>n ts'. sched_loop ts = Some (n, ts') \<and> n < length ts' \<and> tasks_ok ts' \<and>
    (ts' = ts \<or> ts' = recharge ts \<and> (\<forall>i<length ts. runnable (ts ! i) \<longrightarrow> counter_of (ts ! i) = 0)) \<and>
    (if \<exists>i<length ts. runnable (ts ! i) then chosen ts' n else n = 0 \<and> ts' = ts)"
proof -
  obtain c n where sc: "sched_scan ts 0 (- 1) 0 = (c, n)" by (cases "sched_scan ts 0 (- 1) 0")
  note ch = scan_choice [OF ok sc]
  consider (pos) "\<exists>i<length ts. runnable (ts ! i) \<and> 1 \<le> counter_of (ts ! i)"
    | (none) "\<forall>i<length ts. \<not> runnable (ts ! i)"
    | (spent) "\<exists>i<length ts. runnable (ts ! i)" "\<forall>i<length ts. runnable (ts ! i) \<longrightarrow> counter_of (ts ! i) = 0"
  proof (cases "\<exists>i<length ts. runnable (ts ! i) \<and> 1 \<le> counter_of (ts ! i)")
    case False
    have "counter_of (ts ! i) = 0" if "i < length ts" "runnable (ts ! i)" for i
    proof -
      have "0 \<le> counter_of (ts ! i)" using tasks_ok_counter [OF ok] that(1) by simp
      then show ?thesis using False that by force
    qed
    then show ?thesis using that(2,3) by blast
  qed (use that in blast)
  then show ?thesis
  proof cases
    case pos
    then have "1 \<le> c \<and> chosen ts n" by (rule ch(1))
    moreover from this have "sched_loop ts = Some (n, ts)" by (subst sched_loop.simps) (simp add: sc)
    ultimately show ?thesis using pos ok by (auto simp: chosen_def)
  next
    case none
    then have "c = - 1 \<and> n = 0" by (rule ch(3))
    moreover from this have "sched_loop ts = Some (n, ts)" by (subst sched_loop.simps) (simp add: sc)
    ultimately show ?thesis using none ok ne by auto
  next
    case spent
    then have "c = 0" by (rule ch(2))
    then have again: "sched_loop ts = sched_loop (recharge ts)" by (subst sched_loop.simps) (simp add: sc)
    obtain c' n' where sc': "sched_scan (recharge ts) 0 (- 1) 0 = (c', n')"
      by (cases "sched_scan (recharge ts) 0 (- 1) 0")
    have "\<exists>i<length (recharge ts). runnable (recharge ts ! i) \<and> 1 \<le> counter_of (recharge ts ! i)"
      using spent(1) recharge_positive [OF ok] by (auto simp: recharge_nth)
    then have "1 \<le> c' \<and> chosen (recharge ts) n'" by (rule scan_choice(1) [OF recharge_ok [OF ok] sc'])
    moreover from this have "sched_loop (recharge ts) = Some (n', recharge ts)"
      by (subst sched_loop.simps) (simp add: sc')
    ultimately show ?thesis using spent again recharge_ok [OF ok] by (auto simp: chosen_def)
  qed
qed


section \<open>The operations keep the invariant\<close>

definition active :: "sched \<Rightarrow> Tcb option list" where
  "active s = take (count_tsks s) (tsks s)"

lemma sched_inv_active: "sched_inv s \<Longrightarrow> tasks_ok (active s) \<and> length (active s) = count_tsks s \<and> active s \<noteq> []"
  by (auto simp: sched_inv_def active_def tasks_ok_def)

lemma active_nth: "i < count_tsks s \<Longrightarrow> active s ! i = tsks s ! i"
  by (simp add: active_def)

text \<open>Scheduling changes a task only in its counter and its saved kernel registers.\<close>

definition same_task :: "Tcb option \<Rightarrow> Tcb option \<Rightarrow> bool" where
  "same_task t t' \<longleftrightarrow>
     (\<exists>n ctx. t' = map_option (\<lambda>t. t\<lparr>tcb_counter := n, tcb_cpu_context := ctx\<rparr>) t)"

lemma same_task_refl [simp]: "same_task t t"
proof (cases t)
  case (Some task)
  then show ?thesis unfolding same_task_def
    by (intro exI [of _ "tcb_counter task"] exI [of _ "tcb_cpu_context task"]) simp
qed (simp add: same_task_def)

lemma same_task_trans: "same_task t t' \<Longrightarrow> same_task t' t'' \<Longrightarrow> same_task t t''"
  by (cases t) (force simp: same_task_def)+

lemma same_task_runnable: "same_task t t' \<Longrightarrow> runnable t' = runnable t"
  by (cases t) (auto simp: same_task_def runnable_def)

lemma same_task_recharge: "same_task t (map_option recharge_task t)"
proof (cases t)
  case (Some task)
  then show ?thesis unfolding same_task_def
    by (intro exI [of _ "tcb_counter (recharge_task task)"] exI [of _ "tcb_cpu_context task"])
       (simp add: recharge_task_def)
qed (simp add: same_task_def)

definition same_sched :: "sched \<Rightarrow> sched \<Rightarrow> bool" where
  "same_sched s s' \<longleftrightarrow> count_tsks s' = count_tsks s \<and> length (tsks s') = length (tsks s) \<and>
     console_forwarded_pid s' = console_forwarded_pid s \<and>
     (\<forall>i<length (tsks s). same_task (tsks s ! i) (tsks s' ! i))"

lemma same_sched_trans: "same_sched s s' \<Longrightarrow> same_sched s' s'' \<Longrightarrow> same_sched s s''"
  unfolding same_sched_def using same_task_trans by metis

lemma task_of_ok: "sched_inv s \<Longrightarrow> i < count_tsks s \<Longrightarrow> \<exists>t. task_of s i = Inr t \<and> tsks s ! i = Some t \<and> task_ok i t"
  by (fastforce simp: sched_inv_def task_of_def)

lemma SwitchTaskTo_spec:
  assumes inv: "sched_inv s" and n: "n < count_tsks s"
  shows "\<exists>s' c'. SwitchTaskTo n (s, c) = Inr (s', c') \<and> sched_inv s' \<and> cur_tsk s' = n \<and> same_sched s s' \<and>
    (\<forall>i<count_tsks s. counter_of (tsks s' ! i) = counter_of (tsks s ! i)) \<and>
    (n = cur_tsk s \<longrightarrow> c' = c \<and> s' = s) \<and>
    (n \<noteq> cur_tsk s \<longrightarrow> (\<exists>p t p'. tsks s ! cur_tsk s = Some p \<and> tsks s ! n = Some t \<and>
       tsks s' ! cur_tsk s = Some p' \<and> tcb_cpu_context p' = cpu_context c \<and>
       c' = c\<lparr>cpu_context := tcb_cpu_context t\<rparr>))"
proof (cases "cur_tsk s = n")
  case True
  with inv show ?thesis by (simp add: SwitchTaskTo_def same_sched_def)
next
  case False
  have cur: "cur_tsk s < count_tsks s" using inv by (simp add: sched_inv_def)
  obtain p where p: "task_of s (cur_tsk s) = Inr p" "tsks s ! cur_tsk s = Some p" "task_ok (cur_tsk s) p"
    using task_of_ok [OF inv cur] by blast
  obtain t where t: "task_of s n = Inr t" "tsks s ! n = Some t" using task_of_ok [OF inv n] by blast
  let ?p = "p\<lparr>tcb_cpu_context := cpu_context c\<rparr>"
  let ?s = "set_task (cur_tsk s) ?p (s\<lparr>cur_tsk := n\<rparr>)"
  have r: "SwitchTaskTo n (s, c) = Inr (?s, c\<lparr>cpu_context := tcb_cpu_context t\<rparr>)"
    using False p(1) t(1) by (simp add: SwitchTaskTo_def SchedContextSwitch_def)
  have len: "cur_tsk s < length (tsks s)" using inv by (simp add: sched_inv_def)
  have "task_ok (cur_tsk s) ?p" using p(3) by (simp add: task_ok_def)
  then have "sched_inv ?s"
    using inv n len by (auto simp: sched_inv_def set_task_def nth_list_update)
  moreover have "same_task (Some p) (Some ?p)"
    unfolding same_task_def by (intro exI [of _ "tcb_counter p"] exI [of _ "cpu_context c"]) simp
  then have "same_task (tsks s ! i) (tsks ?s ! i)" if "i < length (tsks s)" for i
    using p(2) that by (cases "i = cur_tsk s") (simp_all add: set_task_def)
  then have "same_sched s ?s" by (simp add: same_sched_def set_task_def)
  moreover have "counter_of (tsks ?s ! i) = counter_of (tsks s ! i)" for i
    using p(2) len by (cases "i = cur_tsk s") (simp_all add: set_task_def counter_of_def)
  ultimately show ?thesis using r False p(2) t(2) len
    by (intro exI [of _ ?s] exI [of _ "c\<lparr>cpu_context := tcb_cpu_context t\<rparr>"]) (simp add: set_task_def)
qed

lemma ScheduleInternal_spec:
  assumes inv: "sched_inv s"
  shows "\<exists>s' c'. ScheduleInternal (s, c) = Inr (s', c') \<and> sched_inv s' \<and> same_sched s s' \<and>
    (if \<exists>i<count_tsks s. runnable (tsks s ! i) then chosen (active s') (cur_tsk s') else cur_tsk s' = 0) \<and>
    ((\<forall>i<count_tsks s. counter_of (tsks s' ! i) = counter_of (tsks s ! i)) \<or>
     (\<forall>i<count_tsks s. runnable (tsks s ! i) \<longrightarrow> counter_of (tsks s ! i) = 0) \<and>
     (\<forall>i<count_tsks s. 1 \<le> counter_of (tsks s' ! i)))"
proof -
  let ?ts = "active s"
  have ok: "tasks_ok ?ts" and len: "length ?ts = count_tsks s" and ne: "?ts \<noteq> []"
    using sched_inv_active [OF inv] by blast+
  have le: "count_tsks s \<le> length (tsks s)" using inv by (simp add: sched_inv_def)
  obtain n ts' where lp: "sched_loop ?ts = Some (n, ts')" "n < length ts'" "tasks_ok ts'"
    "ts' = ?ts \<or> ts' = recharge ?ts \<and> (\<forall>i<length ?ts. runnable (?ts ! i) \<longrightarrow> counter_of (?ts ! i) = 0)"
    "if \<exists>i<length ?ts. runnable (?ts ! i) then chosen ts' n else n = 0 \<and> ts' = ?ts"
    using sched_loop_spec [OF ok ne] by blast
  have len': "length ts' = count_tsks s" using lp(4) len by auto
  let ?s = "s\<lparr>tsks := ts' @ drop (count_tsks s) (tsks s)\<rparr>"
  have nth: "tsks ?s ! i = ts' ! i" if "i < count_tsks s" for i using that len' by (simp add: nth_append)
  have inv1: "sched_inv ?s"
    using inv lp(3) len' unfolding sched_inv_def tasks_ok_def by (auto simp: nth_append)
  have same1: "same_sched s ?s"
  proof -
    have "same_task (tsks s ! i) (tsks ?s ! i)" if "i < length (tsks s)" for i
    proof (cases "i < count_tsks s")
      case True
      then show ?thesis using lp(4) len nth active_nth [OF True] same_task_recharge
        by (metis recharge_nth same_task_refl)
    next
      case False
      then have "tsks ?s ! i = tsks s ! i" using that len' by (simp add: nth_append)
      then show ?thesis by simp
    qed
    then show ?thesis using le len' by (simp add: same_sched_def)
  qed
  have n: "n < count_tsks ?s" using lp(2) len' by simp
  obtain s' c' where sw: "SwitchTaskTo n (?s, c) = Inr (s', c')" "sched_inv s'" "cur_tsk s' = n"
    "same_sched ?s s'" "\<forall>i<count_tsks ?s. counter_of (tsks s' ! i) = counter_of (tsks ?s ! i)"
    using SwitchTaskTo_spec [OF inv1 n] by blast
  have r: "ScheduleInternal (s, c) = Inr (s', c')"
    using lp(1) sw(1) le by (simp add: ScheduleInternal_def active_def)
  have same: "same_sched s s'" by (rule same_sched_trans [OF same1 sw(4)])
  have cnt: "count_tsks s' = count_tsks s" using same by (simp add: same_sched_def)
  have ctr: "counter_of (tsks s' ! i) = counter_of (ts' ! i)" if "i < count_tsks s" for i
    using sw(5) that nth by simp
  have run: "runnable (tsks s' ! i) = runnable (ts' ! i)" if "i < count_tsks s" for i
  proof -
    have "i < length (tsks ?s)" using that le len' by simp
    then have "same_task (tsks ?s ! i) (tsks s' ! i)" using sw(4) unfolding same_sched_def by blast
    then show ?thesis using same_task_runnable nth [OF that] by metis
  qed
  have run0: "runnable (ts' ! i) = runnable (tsks s ! i)" if "i < count_tsks s" for i
    using lp(4) len that by (auto simp: recharge_nth active_nth)
  have "if \<exists>i<count_tsks s. runnable (tsks s ! i) then chosen (active s') (cur_tsk s') else cur_tsk s' = 0"
  proof (cases "\<exists>i<count_tsks s. runnable (tsks s ! i)")
    case True
    then have "chosen ts' n" using lp(5) len active_nth by (metis (full_types))
    then have "chosen (active s') n"
      unfolding chosen_def using ctr run cnt len' sched_inv_active [OF sw(2)] by (simp add: active_nth)
    then show ?thesis using True sw(3) by simp
  next
    case False
    then have "n = 0" using lp(5) len active_nth by (metis (full_types))
    then show ?thesis unfolding if_not_P [OF False] using sw(3) by simp
  qed
  moreover have "(\<forall>i<count_tsks s. counter_of (tsks s' ! i) = counter_of (tsks s ! i)) \<or>
     (\<forall>i<count_tsks s. runnable (tsks s ! i) \<longrightarrow> counter_of (tsks s ! i) = 0) \<and>
     (\<forall>i<count_tsks s. 1 \<le> counter_of (tsks s' ! i))"
    using lp(4)
  proof
    assume "ts' = ?ts"
    then show ?thesis using ctr active_nth by simp
  next
    assume a: "ts' = recharge ?ts \<and> (\<forall>i<length ?ts. runnable (?ts ! i) \<longrightarrow> counter_of (?ts ! i) = 0)"
    have "1 \<le> counter_of (tsks s' ! i)" if "i < count_tsks s" for i
      using ctr [OF that] recharge_positive [OF ok] a that len by simp
    moreover have "counter_of (tsks s ! i) = 0" if "i < count_tsks s" "runnable (tsks s ! i)" for i
      using a that len active_nth [OF that(1)] by metis
    ultimately show ?thesis by blast
  qed
  ultimately show ?thesis using r sw(2) same by blast
qed


text \<open>Writing the state or the counter of one task.\<close>

lemma set_task_inv:
  assumes "sched_inv s" "i < count_tsks s" "task_ok i t"
  shows "sched_inv (set_task i t s)"
  using assms by (auto simp: sched_inv_def set_task_def nth_list_update)

lemma sched_inv_length: "sched_inv s \<Longrightarrow> count_tsks s \<le> length (tsks s)"
  by (simp add: sched_inv_def)

lemma spent_ok: "task_ok i t \<Longrightarrow> task_ok i (t\<lparr>tcb_counter := 0\<rparr>)"
  by (simp add: task_ok_def)

lemma Schedule_spec:
  assumes inv: "sched_inv s"
  shows "\<exists>s' c'. Schedule (s, c) = Inr (s', c') \<and> sched_inv s' \<and> same_sched s s' \<and>
    (if \<exists>i<count_tsks s. runnable (tsks s ! i) then chosen (active s') (cur_tsk s') else cur_tsk s' = 0) \<and>
    ((\<forall>i<count_tsks s. counter_of (tsks s' ! i) = (if i = cur_tsk s then 0 else counter_of (tsks s ! i))) \<or>
     (\<forall>i<count_tsks s. i \<noteq> cur_tsk s \<longrightarrow> runnable (tsks s ! i) \<longrightarrow> counter_of (tsks s ! i) = 0) \<and>
     (\<forall>i<count_tsks s. 1 \<le> counter_of (tsks s' ! i)))"
proof -
  have cur: "cur_tsk s < count_tsks s" using inv by (simp add: sched_inv_def)
  obtain t where t: "task_of s (cur_tsk s) = Inr t" "tsks s ! cur_tsk s = Some t" "task_ok (cur_tsk s) t"
    using task_of_ok [OF inv cur] by blast
  let ?s = "set_task (cur_tsk s) (t\<lparr>tcb_counter := 0\<rparr>) s"
  have inv1: "sched_inv ?s" using set_task_inv [OF inv cur spent_ok [OF t(3)]] .
  have len: "cur_tsk s < length (tsks s)" using cur sched_inv_length [OF inv] by linarith
  have cnt: "count_tsks ?s = count_tsks s" "cur_tsk ?s = cur_tsk s" by (simp_all add: set_task_def)
  have nth: "tsks ?s ! i = (if i = cur_tsk s then Some (t\<lparr>tcb_counter := 0\<rparr>) else tsks s ! i)" for i
    using len by (simp add: set_task_def)
  have run: "runnable (tsks ?s ! i) = runnable (tsks s ! i)" for i
    unfolding nth using t(2) by (simp add: runnable_def)
  have ctr: "counter_of (tsks ?s ! i) = (if i = cur_tsk s then 0 else counter_of (tsks s ! i))" for i
    unfolding nth by (simp add: counter_of_def)
  have "same_task (Some t) (Some (t\<lparr>tcb_counter := 0\<rparr>))"
    unfolding same_task_def by (intro exI [of _ 0] exI [of _ "tcb_cpu_context t"]) simp
  then have "same_task (tsks s ! i) (tsks ?s ! i)" for i unfolding nth using t(2) by simp
  then have same: "same_sched s ?s" by (simp add: same_sched_def set_task_def)
  have e: "Schedule (s, c) = ScheduleInternal (?s, c)" using t(1) by (simp add: Schedule_def)
  obtain s' c' where s': "ScheduleInternal (?s, c) = Inr (s', c')" "sched_inv s'" "same_sched ?s s'"
    "if \<exists>i<count_tsks s. runnable (tsks s ! i) then chosen (active s') (cur_tsk s') else cur_tsk s' = 0"
    "(\<forall>i<count_tsks s. counter_of (tsks s' ! i) = (if i = cur_tsk s then 0 else counter_of (tsks s ! i))) \<or>
     (\<forall>i<count_tsks s. runnable (tsks s ! i) \<longrightarrow> (if i = cur_tsk s then 0 else counter_of (tsks s ! i)) = 0) \<and>
     (\<forall>i<count_tsks s. 1 \<le> counter_of (tsks s' ! i))"
    using ScheduleInternal_spec [OF inv1, of c] unfolding run ctr cnt by blast
  have "same_sched s s'" by (rule same_sched_trans [OF same s'(3)])
  with s' show ?thesis unfolding e by (intro exI [of _ s'] exI [of _ c'] conjI) auto
qed

lemma SchedTimerHandler_spec:
  assumes inv: "sched_inv s"
  shows "\<exists>s' c'. SchedTimerHandler (s, c) = Inr (s', c') \<and> sched_inv s' \<and> same_sched s s' \<and>
    (1 < counter_of (tsks s ! cur_tsk s) \<longrightarrow> cur_tsk s' = cur_tsk s \<and> c' = c \<and>
       counter_of (tsks s' ! cur_tsk s) = counter_of (tsks s ! cur_tsk s) - 1) \<and>
    (\<not> 1 < counter_of (tsks s ! cur_tsk s) \<longrightarrow> SchedTimerHandler (s, c) = Schedule (s, c))"
proof -
  have cur: "cur_tsk s < count_tsks s" using inv by (simp add: sched_inv_def)
  obtain t where t: "task_of s (cur_tsk s) = Inr t" "tsks s ! cur_tsk s = Some t" "task_ok (cur_tsk s) t"
    using task_of_ok [OF inv cur] by blast
  have len: "cur_tsk s < length (tsks s)" using cur sched_inv_length [OF inv] by linarith
  show ?thesis
  proof (cases "1 < tcb_counter t")
    case True
    let ?t = "t\<lparr>tcb_counter := tcb_counter t - 1\<rparr>"
    let ?s = "set_task (cur_tsk s) ?t s"
    have "SchedTimerHandler (s, c) = Inr (?s, c)"
      using t(1) True by (simp add: SchedTimerHandler_def)
    moreover have "task_ok (cur_tsk s) ?t" using t(3) True by (simp add: task_ok_def)
    then have "sched_inv ?s" by (rule set_task_inv [OF inv cur])
    moreover have "same_task (Some t) (Some ?t)"
      unfolding same_task_def by (intro exI [of _ "tcb_counter t - 1"] exI [of _ "tcb_cpu_context t"]) simp
    then have "same_task (tsks s ! i) (tsks ?s ! i)" for i
      using t(2) len by (cases "i = cur_tsk s") (simp_all add: set_task_def)
    then have "same_sched s ?s" by (simp add: same_sched_def set_task_def)
    ultimately show ?thesis using True t(2) len by (simp add: set_task_def counter_of_def)
  next
    case False
    then have "SchedTimerHandler (s, c) = Schedule (s, c)"
      using t(1) by (simp add: SchedTimerHandler_def Schedule_def)
    then show ?thesis using Schedule_spec [OF inv, of c] t(2) False by (fastforce simp: counter_of_def)
  qed
qed

lemma sched_inv_Init: "sched_inv (Sched_Init Sched_instance)"
  by (simp add: sched_inv_def Sched_Init_def Sched_instance_def kNrTasks_def task_ok_def kInitTask_def zero_Tcb_def)

lemma AddTask_spec:
  assumes "sched_inv s" "1 \<le> tcb_priority t" "tcb_priority t \<le> 2 ^ 29"
    "0 \<le> tcb_counter t" "tcb_counter t \<le> 2 * tcb_priority t"
  shows "count_tsks s < 8 \<Longrightarrow> \<exists>s'. AddTask t s = Inr (count_tsks s, s') \<and> sched_inv s' \<and>
      count_tsks s' = Suc (count_tsks s) \<and> cur_tsk s' = cur_tsk s \<and>
      tsks s' ! count_tsks s = Some (t\<lparr>tcb_pid := int (count_tsks s)\<rparr>) \<and>
      (\<forall>i. i \<noteq> count_tsks s \<longrightarrow> tsks s' ! i = tsks s ! i)"
    and "\<not> count_tsks s < 8 \<Longrightarrow> AddTask t s = Inl OutOfBounds"
proof -
  have len: "length (tsks s) = 8" using assms(1) by (simp add: sched_inv_def kNrTasks_def)
  show "count_tsks s < 8 \<Longrightarrow> \<exists>s'. AddTask t s = Inr (count_tsks s, s') \<and> sched_inv s' \<and>
      count_tsks s' = Suc (count_tsks s) \<and> cur_tsk s' = cur_tsk s \<and>
      tsks s' ! count_tsks s = Some (t\<lparr>tcb_pid := int (count_tsks s)\<rparr>) \<and>
      (\<forall>i. i \<noteq> count_tsks s \<longrightarrow> tsks s' ! i = tsks s ! i)"
    using assms len by (auto simp: AddTask_def Let_def sched_inv_def kNrTasks_def nth_list_update
        task_ok_def less_Suc_eq)
  show "\<not> count_tsks s < 8 \<Longrightarrow> AddTask t s = Inl OutOfBounds"
    using len by (simp add: AddTask_def)
qed

section \<open>No starvation\<close>

text \<open>The loop of \<open>KernelMain\<close>, and any run of tasks that give up the CPU: n calls of \<open>Schedule\<close>.\<close>

fun schedules :: "nat \<Rightarrow> sched \<times> cpu \<Rightarrow> (sched \<times> cpu) res" where
  "schedules 0 sc = Inr sc"
| "schedules (Suc n) sc = rbind (Schedule sc) (schedules n)"

definition waiting :: "sched \<Rightarrow> nat set" where
  "waiting s = {i. i < count_tsks s \<and> i \<noteq> cur_tsk s \<and> runnable (tsks s ! i) \<and> 1 \<le> counter_of (tsks s ! i)}"

lemma waiting_finite: "finite (waiting s)" "sched_inv s \<Longrightarrow> card (waiting s) < count_tsks s"
proof -
  show fin: "finite (waiting s)" by (simp add: waiting_def)
  assume "sched_inv s"
  then have "cur_tsk s < count_tsks s" by (simp add: sched_inv_def)
  then have "waiting s \<subset> {..<count_tsks s}" by (auto simp: waiting_def)
  then have "card (waiting s) < card {..<count_tsks s}" by (rule psubset_card_mono [OF finite_lessThan])
  then show "card (waiting s) < count_tsks s" by simp
qed

lemma same_sched_run:
  "\<lbrakk>sched_inv s; same_sched s s'; i < count_tsks s\<rbrakk> \<Longrightarrow> runnable (tsks s' ! i) = runnable (tsks s ! i)"
  using sched_inv_length [of s] same_task_runnable unfolding same_sched_def by (meson less_le_trans)

lemma Schedule_waiting:
  assumes inv: "sched_inv s" and t: "t < count_tsks s" "runnable (tsks s ! t)"
    and step: "Schedule (s, c) = Inr (s', c')"
  shows "waiting s \<noteq> {} \<Longrightarrow> cur_tsk s' \<in> waiting s \<and> waiting s' = waiting s - {cur_tsk s'}"
    and "waiting s = {} \<Longrightarrow> t = cur_tsk s' \<or> t \<in> waiting s'"
    and "sched_inv s'" and "same_sched s s'"
proof -
  have ex: "\<exists>i<count_tsks s. runnable (tsks s ! i)" using t by blast
  have sp: "sched_inv s'" "same_sched s s'" "chosen (active s') (cur_tsk s')"
    "(\<forall>i<count_tsks s. counter_of (tsks s' ! i) = (if i = cur_tsk s then 0 else counter_of (tsks s ! i))) \<or>
     (\<forall>i<count_tsks s. i \<noteq> cur_tsk s \<longrightarrow> runnable (tsks s ! i) \<longrightarrow> counter_of (tsks s ! i) = 0) \<and>
     (\<forall>i<count_tsks s. 1 \<le> counter_of (tsks s' ! i))"
    using Schedule_spec [OF inv, of c] unfolding step if_P [OF ex] by blast+
  show "sched_inv s'" "same_sched s s'" by (rule sp(1), rule sp(2))
  have cnt: "count_tsks s' = count_tsks s" using sp(2) by (simp add: same_sched_def)
  have run: "runnable (tsks s' ! i) = runnable (tsks s ! i)" if "i < count_tsks s" for i
    using same_sched_run [OF inv sp(2) that] .
  have len: "length (active s') = count_tsks s" using sched_inv_active [OF sp(1)] cnt by simp
  have ch: "cur_tsk s' < count_tsks s" "runnable (tsks s ! cur_tsk s')" "1 \<le> counter_of (tsks s' ! cur_tsk s')"
    using sp(3) run cnt unfolding chosen_def len by (metis active_nth)+
  show "cur_tsk s' \<in> waiting s \<and> waiting s' = waiting s - {cur_tsk s'}" if ne: "waiting s \<noteq> {}"
  proof -
    obtain i where "i < count_tsks s" "i \<noteq> cur_tsk s" "runnable (tsks s ! i)" "1 \<le> counter_of (tsks s ! i)"
      using ne by (auto simp: waiting_def)
    then have ctr: "\<forall>i<count_tsks s. counter_of (tsks s' ! i) = (if i = cur_tsk s then 0 else counter_of (tsks s ! i))"
      using sp(4) by force
    then have "cur_tsk s' \<noteq> cur_tsk s" using ch by force
    then have "cur_tsk s' \<in> waiting s" using ch ctr by (simp add: waiting_def)
    moreover have "waiting s' = waiting s - {cur_tsk s'}"
      using ctr run cnt unfolding waiting_def by (auto split: if_splits)
    ultimately show ?thesis by simp
  qed
  show "t = cur_tsk s' \<or> t \<in> waiting s'" if e: "waiting s = {}"
  proof -
    have "\<not> (\<forall>i<count_tsks s. counter_of (tsks s' ! i) = (if i = cur_tsk s then 0 else counter_of (tsks s ! i)))"
    proof
      assume a: "\<forall>i<count_tsks s. counter_of (tsks s' ! i) = (if i = cur_tsk s then 0 else counter_of (tsks s ! i))"
      then have "cur_tsk s' \<noteq> cur_tsk s" "1 \<le> counter_of (tsks s ! cur_tsk s')" using ch by (force split: if_splits)+
      then have "cur_tsk s' \<in> waiting s" using ch by (simp add: waiting_def)
      then show False using e by simp
    qed
    then have "1 \<le> counter_of (tsks s' ! t)" using sp(4) t(1) by blast
    then show ?thesis using t run cnt by (auto simp: waiting_def)
  qed
qed

lemma waiting_served:
  assumes "sched_inv s" "t \<in> waiting s"
  shows "\<exists>k s' c'. 1 \<le> k \<and> k \<le> card (waiting s) \<and> schedules k (s, c) = Inr (s', c') \<and> cur_tsk s' = t"
  using assms
proof (induction "card (waiting s)" arbitrary: s c)
  case 0
  then show ?case using waiting_finite(1) by auto
next
  case (Suc n)
  have t: "t < count_tsks s" "runnable (tsks s ! t)" using Suc.prems(2) by (simp_all add: waiting_def)
  obtain s1 c1 where s1: "Schedule (s, c) = Inr (s1, c1)" using Schedule_spec [OF Suc.prems(1), of c] by blast
  note w = Schedule_waiting [OF Suc.prems(1) t s1]
  have w1: "cur_tsk s1 \<in> waiting s" "waiting s1 = waiting s - {cur_tsk s1}" using w(1) Suc.prems(2) by auto
  show ?case
  proof (cases "cur_tsk s1 = t")
    case True
    then show ?thesis using s1 Suc.hyps(2) by (intro exI [of _ 1]) simp
  next
    case False
    have card: "n = card (waiting s1)" using w1 Suc.hyps(2) waiting_finite(1) by simp
    have "t \<in> waiting s1" using w1 False Suc.prems(2) by simp
    from Suc.hyps(1) [OF card w(3) this, of c1] obtain k s' c' where
      "1 \<le> k" "k \<le> n" "schedules k (s1, c1) = Inr (s', c')" "cur_tsk s' = t" using card by auto
    then show ?thesis using s1 Suc.hyps(2) by (intro exI [of _ "Suc k"]) simp
  qed
qed

lemma runnable_served:
  assumes "sched_inv s" "t < count_tsks s" "runnable (tsks s ! t)"
  shows "\<exists>k s' c'. 1 \<le> k \<and> k \<le> card (waiting s) + count_tsks s \<and>
    schedules k (s, c) = Inr (s', c') \<and> cur_tsk s' = t"
  using assms
proof (induction "card (waiting s)" arbitrary: s c)
  case 0
  then have e: "waiting s = {}" using waiting_finite(1) by simp
  obtain s1 c1 where s1: "Schedule (s, c) = Inr (s1, c1)" using Schedule_spec [OF 0(2), of c] by blast
  note w = Schedule_waiting [OF 0(2-4) s1]
  have cnt: "count_tsks s1 = count_tsks s" using w(4) by (simp add: same_sched_def)
  show ?case
  proof (cases "cur_tsk s1 = t")
    case True
    then show ?thesis using s1 0(3) by (intro exI [of _ 1]) simp
  next
    case False
    then have "t \<in> waiting s1" using w(2) e by auto
    then obtain k s' c' where "1 \<le> k" "k \<le> card (waiting s1)" "schedules k (s1, c1) = Inr (s', c')" "cur_tsk s' = t"
      using waiting_served [OF w(3)] by blast
    then show ?thesis using s1 waiting_finite(2) [OF w(3)] cnt by (intro exI [of _ "Suc k"]) simp
  qed
next
  case (Suc n)
  obtain s1 c1 where s1: "Schedule (s, c) = Inr (s1, c1)" using Schedule_spec [OF Suc.prems(1), of c] by blast
  note w = Schedule_waiting [OF Suc.prems s1]
  have cnt: "count_tsks s1 = count_tsks s" using w(4) by (simp add: same_sched_def)
  have ne: "waiting s \<noteq> {}" using Suc.hyps(2) by auto
  have w1: "cur_tsk s1 \<in> waiting s" "waiting s1 = waiting s - {cur_tsk s1}" using w(1) ne by auto
  have card: "n = card (waiting s1)" using w1 Suc.hyps(2) waiting_finite(1) by simp
  show ?case
  proof (cases "cur_tsk s1 = t")
    case True
    then show ?thesis using s1 Suc.hyps(2) by (intro exI [of _ 1]) simp
  next
    case False
    have "runnable (tsks s1 ! t)" using same_sched_run [OF Suc.prems(1) w(4)] Suc.prems by simp
    from Suc.hyps(1) [OF card w(3) _ this, of c1] obtain k s' c' where
      "1 \<le> k" "k \<le> card (waiting s1) + count_tsks s" "schedules k (s1, c1) = Inr (s', c')" "cur_tsk s' = t"
      using cnt Suc.prems(2) by auto
    then show ?thesis using s1 Suc.hyps(2) card by (intro exI [of _ "Suc k"]) simp
  qed
qed

section \<open>Properties\<close>

abbreviation zero_cpu :: cpu where
  "zero_cpu \<equiv> \<lparr>cpu_sysregs = (\<lambda>_. 0), vttbr_el2 = 0, hcr_el2 = 0, cpu_context = zero_CpuContext\<rparr>"



text \<open>
  C11. No starvation: with n tasks in the table, every running task has the CPU after fewer than 2 n
  calls of \<open>Schedule\<close>. This includes the init task: the scan starts at index 0, it does not skip it.
\<close>

theorem Schedule_no_starvation:
  assumes "sched_inv s" and "t < count_tsks s" and "runnable (tsks s ! t)"
  shows "\<exists>k s' c'. 1 \<le> k \<and> k < 2 * count_tsks s \<and> schedules k (s, c) = Inr (s', c') \<and> cur_tsk s' = t"
  using runnable_served [OF assms, of c] waiting_finite(2) [OF assms(1)]
  by (metis add_less_mono1 le_less_trans mult_2)

theorem Schedule_no_starvation_witness:
  "\<exists>k s' c'. schedules k (Sched_Init Sched_instance, zero_cpu) = Inr (s', c') \<and> cur_tsk s' = 0"
  using Schedule_no_starvation [OF sched_inv_Init, of 0 zero_cpu]
  by (auto simp: Sched_Init_def Sched_instance_def kNrTasks_def runnable_def kInitTask_def zero_Tcb_def)

text \<open>
  C31. The timer tick takes one unit from the running task and switches only when its slice is
  used up, in which case it does what \<open>Schedule\<close> does.
\<close>

theorem SchedTimerHandler_slice:
  assumes "sched_inv s"
  shows "\<exists>s' c'. SchedTimerHandler (s, c) = Inr (s', c') \<and> sched_inv s' \<and> same_sched s s' \<and>
    (if 1 < counter_of (tsks s ! cur_tsk s)
     then cur_tsk s' = cur_tsk s \<and> c' = c \<and> counter_of (tsks s' ! cur_tsk s) = counter_of (tsks s ! cur_tsk s) - 1
     else Inr (s', c') = Schedule (s, c))"
  using SchedTimerHandler_spec [OF assms, of c] by (metis (no_types, lifting))

theorem SchedTimerHandler_slice_witness: "returns (SchedTimerHandler (Sched_Init Sched_instance, zero_cpu))"
  using SchedTimerHandler_slice [OF sched_inv_Init, of zero_cpu] by (auto simp: returns_iff)

text \<open>
  The table has eight slots and \<open>AddTask\<close> does not check: the first tasks get their index as
  PID and the others are left alone, a ninth task is written past the end of the table.
\<close>

theorem AddTask_bounds:
  assumes "sched_inv s" and "1 \<le> tcb_priority t" and "tcb_priority t \<le> 2 ^ 29"
    and "tcb_counter t = tcb_priority t"
  shows "if count_tsks s < 8
    then \<exists>s'. AddTask t s = Inr (count_tsks s, s') \<and> sched_inv s' \<and>
      tsks s' ! count_tsks s = Some (t\<lparr>tcb_pid := int (count_tsks s)\<rparr>) \<and>
      (\<forall>i<count_tsks s. tsks s' ! i = tsks s ! i)
    else AddTask t s = Inl OutOfBounds"
  using AddTask_spec [OF assms(1-3)] assms(2,4) by auto

theorem AddTask_bounds_witness:
  "\<exists>s'. AddTask (kInitTask\<lparr>tcb_counter := 1\<rparr>) (Sched_Init Sched_instance) = Inr (1, s') \<and> sched_inv s'"
  using AddTask_bounds [OF sched_inv_Init, of "kInitTask\<lparr>tcb_counter := 1\<rparr>"]
  by (auto simp: Sched_Init_def kInitTask_def)

text \<open>
  The name table lacks a comma: only running tasks are listed under their own name, a waiting
  task is listed as the joined text, a zombie as dead, and the name of a dead task is read past the
  end of the table.
\<close>

theorem state_name_table:
  "state_name st =
    (case st of RUNNING \<Rightarrow> Inr ''RUNNING'' | WAITTING \<Rightarrow> Inr ''WAITTINGZOMBIE''
     | ZOMBIE \<Rightarrow> Inr ''DEAD'' | DEAD \<Rightarrow> Inl OutOfBounds)"
  by (cases st) (simp_all add: state_name_def kTaskStateNames_def state_number_def)

end
