(* ===== verification/EvVirtio.thy ===== *)
theory EvVirtio
  imports EvQueue
begin

text \<open>
  The devices a guest sees: the virtual interrupt distributor (platforms/virtio/virtio_gic.cc)
  and the virtual serial port (virtio_pl011_uart.cc).
\<close>

section \<open>Interrupt distributor\<close>

record vgic =
  GICD_CTLR :: u32
  GICD_TYPER :: u32
  GICD_IIDR :: u32
  GICD_IGROUPR :: "u32 list"
  GICD_ISENABLER :: "u32 list"
  GICD_ICENABLER :: "u32 list"
  GICD_ISPENDR :: "u32 list"
  GICD_ICPENDR :: "u32 list"
  GICD_ISACTIVER :: "u32 list"
  GICD_ICACTIVER :: "u32 list"
  GICD_IPRIORITYR :: "u32 list"
  GICD_ITARGETSR :: "u32 list"
  GICD_ICFGR :: "u32 list"
  GICD_NSACR :: "u32 list"
  GICD_SGIR :: u32
  GICD_CPENDSGIR :: "u32 list"
  GICD_SPENDSGIR :: "u32 list"

definition VirtioGic_new :: vgic where
  "VirtioGic_new = \<lparr>GICD_CTLR = 0, GICD_TYPER = 0, GICD_IIDR = 0,
     GICD_IGROUPR = replicate 32 0, GICD_ISENABLER = replicate 32 0,
     GICD_ICENABLER = replicate 32 0, GICD_ISPENDR = replicate 32 0,
     GICD_ICPENDR = replicate 32 0, GICD_ISACTIVER = replicate 32 0,
     GICD_ICACTIVER = replicate 32 0, GICD_IPRIORITYR = replicate 255 0,
     GICD_ITARGETSR = replicate 255 0, GICD_ICFGR = replicate 64 0,
     GICD_NSACR = replicate 64 0, GICD_SGIR = 0, GICD_CPENDSGIR = replicate 4 0,
     GICD_SPENDSGIR = replicate 4 0\<rparr>"

text \<open>An index past the end of one of the arrays is out of bounds. The loop over the bits written
  to ISENABLER only logs.\<close>

definition VirtioGic_Read :: "u16 \<Rightarrow> vgic \<Rightarrow> u32 res" where
  "VirtioGic_Read addr r =
    (let a = unat addr in
     if a = 0x000 then Inr (GICD_CTLR r)
     else if a = 0x004 then Inr (GICD_TYPER r)
     else if a = 0x008 then Inr (GICD_IIDR r)
     else if 0x80 \<le> a \<and> a < 0x100 then arr_get (GICD_IGROUPR r) (unat (drop_bit 2 (addr AND 0xff)))
     else if a < 0x180 then arr_get (GICD_ISENABLER r) (unat (drop_bit 2 (addr AND 0xff)))
     else if a < 0x200 then arr_get (GICD_ICENABLER r) (unat (drop_bit 2 (addr AND 0xff)))
     else if a < 0x280 then arr_get (GICD_ISPENDR r) (unat (drop_bit 2 (addr AND 0xff)))
     else if a < 0x300 then arr_get (GICD_ICPENDR r) (unat (drop_bit 2 (addr AND 0xff)))
     else if a < 0x380 then arr_get (GICD_ISACTIVER r) (unat (drop_bit 2 (addr AND 0xff)))
     else if a < 0x400 then arr_get (GICD_ICACTIVER r) (unat (drop_bit 2 (addr AND 0xff)))
     else if a < 0x7fc then arr_get (GICD_IPRIORITYR r) (unat (drop_bit 2 (addr AND 0x3ff)))
     else if 0x800 \<le> a \<and> a < 0xbfc then arr_get (GICD_ITARGETSR r) (unat (drop_bit 2 (addr AND 0x3ff)))
     else if 0xc00 \<le> a \<and> a < 0xd00 then arr_get (GICD_ICFGR r) (unat (drop_bit 2 (addr AND 0xff)))
     else if 0xe00 \<le> a \<and> a < 0xf00 then arr_get (GICD_NSACR r) (unat (drop_bit 2 (addr AND 0xff)))
     else if a = 0xf00 then Inr (GICD_SGIR r)
     else if 0xf10 \<le> a \<and> a < 0xf20 then arr_get (GICD_CPENDSGIR r) (unat (drop_bit 2 (addr AND 0xf)))
     else if 0xf20 \<le> a \<and> a < 0xf30 then arr_get (GICD_SPENDSGIR r) (unat (drop_bit 2 (addr AND 0xf)))
     else if a = 0xfe8 then Inr 0x20
     else Inr 0)"

definition VirtioGic_Write :: "u32 \<Rightarrow> u32 \<Rightarrow> vgic \<Rightarrow> vgic res" where
  "VirtioGic_Write addr data r =
    (let a = unat addr in
     if a = 0x000 then Inr (r\<lparr>GICD_CTLR := data\<rparr>)
     else if a = 0x004 then Inr (r\<lparr>GICD_TYPER := data\<rparr>)
     else if a = 0x008 then Inr (r\<lparr>GICD_IIDR := data\<rparr>)
     else if 0x80 \<le> a \<and> a < 0x100 then rbind (arr_set (GICD_IGROUPR r) (unat (drop_bit 2 (addr AND 0xff))) data) (\<lambda>v. Inr (r\<lparr>GICD_IGROUPR := v\<rparr>))
     else if a < 0x180 then rbind (arr_set (GICD_ISENABLER r) (unat (drop_bit 2 (addr AND 0xff))) data) (\<lambda>v. Inr (r\<lparr>GICD_ISENABLER := v\<rparr>))
     else if a < 0x200 then rbind (arr_set (GICD_ICENABLER r) (unat (drop_bit 2 (addr AND 0xff))) data) (\<lambda>v. Inr (r\<lparr>GICD_ICENABLER := v\<rparr>))
     else if a < 0x280 then rbind (arr_set (GICD_ISPENDR r) (unat (drop_bit 2 (addr AND 0xff))) data) (\<lambda>v. Inr (r\<lparr>GICD_ISPENDR := v\<rparr>))
     else if a < 0x300 then rbind (arr_set (GICD_ICPENDR r) (unat (drop_bit 2 (addr AND 0xff))) data) (\<lambda>v. Inr (r\<lparr>GICD_ICPENDR := v\<rparr>))
     else if a < 0x380 then rbind (arr_set (GICD_ISACTIVER r) (unat (drop_bit 2 (addr AND 0xff))) data) (\<lambda>v. Inr (r\<lparr>GICD_ISACTIVER := v\<rparr>))
     else if a < 0x400 then rbind (arr_set (GICD_ICACTIVER r) (unat (drop_bit 2 (addr AND 0xff))) data) (\<lambda>v. Inr (r\<lparr>GICD_ICACTIVER := v\<rparr>))
     else if a < 0x7fc then rbind (arr_set (GICD_IPRIORITYR r) (unat (drop_bit 2 (addr AND 0x3ff))) data) (\<lambda>v. Inr (r\<lparr>GICD_IPRIORITYR := v\<rparr>))
     else if 0x800 \<le> a \<and> a < 0xbfc then rbind (arr_set (GICD_ITARGETSR r) (unat (drop_bit 2 (addr AND 0x3ff))) data) (\<lambda>v. Inr (r\<lparr>GICD_ITARGETSR := v\<rparr>))
     else if 0xc00 \<le> a \<and> a < 0xd00 then rbind (arr_set (GICD_ICFGR r) (unat (drop_bit 2 (addr AND 0xff))) data) (\<lambda>v. Inr (r\<lparr>GICD_ICFGR := v\<rparr>))
     else if 0xe00 \<le> a \<and> a < 0xf00 then rbind (arr_set (GICD_NSACR r) (unat (drop_bit 2 (addr AND 0xff))) data) (\<lambda>v. Inr (r\<lparr>GICD_NSACR := v\<rparr>))
     else if a = 0xf00 then Inr (r\<lparr>GICD_SGIR := data\<rparr>)
     else if 0xf10 \<le> a \<and> a < 0xf20 then rbind (arr_set (GICD_CPENDSGIR r) (unat (drop_bit 2 (addr AND 0xf))) data) (\<lambda>v. Inr (r\<lparr>GICD_CPENDSGIR := v\<rparr>))
     else if 0xf20 \<le> a \<and> a < 0xf30 then rbind (arr_set (GICD_SPENDSGIR r) (unat (drop_bit 2 (addr AND 0xf))) data) (\<lambda>v. Inr (r\<lparr>GICD_SPENDSGIR := v\<rparr>))
     else Inr r)"

text \<open>The abstract view: seventeen banks of registers, and the slot an address decodes to.\<close>

definition vgic_bank :: "vgic \<Rightarrow> nat \<Rightarrow> u32 list" where
  "vgic_bank r b =
    (if b = 0 then [GICD_CTLR r]
   else if b = 1 then [GICD_TYPER r]
   else if b = 2 then [GICD_IIDR r]
   else if b = 3 then GICD_IGROUPR r
   else if b = 4 then GICD_ISENABLER r
   else if b = 5 then GICD_ICENABLER r
   else if b = 6 then GICD_ISPENDR r
   else if b = 7 then GICD_ICPENDR r
   else if b = 8 then GICD_ISACTIVER r
   else if b = 9 then GICD_ICACTIVER r
   else if b = 10 then GICD_IPRIORITYR r
   else if b = 11 then GICD_ITARGETSR r
   else if b = 12 then GICD_ICFGR r
   else if b = 13 then GICD_NSACR r
   else if b = 14 then [GICD_SGIR r]
   else if b = 15 then GICD_CPENDSGIR r
   else if b = 16 then GICD_SPENDSGIR r
   else [])"

definition vgic_sizes :: "nat list" where
  "vgic_sizes = [1, 1, 1, 32, 32, 32, 32, 32, 32, 32, 255, 255, 64, 64, 1, 4, 4]"

definition vgic_ok :: "vgic \<Rightarrow> bool" where
  "vgic_ok r \<longleftrightarrow> map (length \<circ> vgic_bank r) [0..<17] = vgic_sizes"

definition vgic_slot :: "nat \<Rightarrow> (nat \<times> nat) option" where
  "vgic_slot a =
    (if a = 0x000 then Some (0, 0)
     else if a = 0x004 then Some (1, 0)
     else if a = 0x008 then Some (2, 0)
     else if 0x80 \<le> a \<and> a < 0x100 then Some (3, a mod 256 div 4)
     else if a < 0x180 then Some (4, a mod 256 div 4)
     else if a < 0x200 then Some (5, a mod 256 div 4)
     else if a < 0x280 then Some (6, a mod 256 div 4)
     else if a < 0x300 then Some (7, a mod 256 div 4)
     else if a < 0x380 then Some (8, a mod 256 div 4)
     else if a < 0x400 then Some (9, a mod 256 div 4)
     else if a < 0x7fc then Some (10, a mod 1024 div 4)
     else if 0x800 \<le> a \<and> a < 0xbfc then Some (11, a mod 1024 div 4)
     else if 0xc00 \<le> a \<and> a < 0xd00 then Some (12, a mod 256 div 4)
     else if 0xe00 \<le> a \<and> a < 0xf00 then Some (13, a mod 256 div 4)
     else if a = 0xf00 then Some (14, 0)
     else if 0xf10 \<le> a \<and> a < 0xf20 then Some (15, a mod 16 div 4)
     else if 0xf20 \<le> a \<and> a < 0xf30 then Some (16, a mod 16 div 4)
     else None)"


lemma unat_and_mask: "unat (a AND (mask n :: 'a::len word)) = unat a mod 2 ^ n"
  by (simp add: unsigned_take_bit_eq flip: take_bit_eq_mask) (simp add: take_bit_eq_mod)

lemma slot_index:
  fixes a :: "'a::len word"
  assumes "m = mask n"
  shows "unat (drop_bit 2 (a AND m)) = unat a mod 2 ^ n div 4"
proof -
  have "unat a mod 2 ^ n < 2 ^ LENGTH('a)"
    using mod_less_eq_dividend [of "unat a" "2 ^ n"] unsigned_less [of a, where ?'a = nat] by linarith
  then show ?thesis
    unfolding assms(1) unsigned_drop_bit_eq unat_and_mask
    by (simp add: drop_bit_eq_div take_bit_nat_eq_self)
qed

lemma vgic_index:
  fixes a :: u16 and b :: u32
  shows "unat (drop_bit 2 (a AND 0xff)) = unat a mod 256 div 4"
    "unat (drop_bit 2 (a AND 0x3ff)) = unat a mod 1024 div 4"
    "unat (drop_bit 2 (a AND 0xf)) = unat a mod 16 div 4"
    "unat (drop_bit 2 (b AND 0xff)) = unat b mod 256 div 4"
    "unat (drop_bit 2 (b AND 0x3ff)) = unat b mod 1024 div 4"
    "unat (drop_bit 2 (b AND 0xf)) = unat b mod 16 div 4"
  using slot_index [of "0xff" 8 a] slot_index [of "0x3ff" 10 a] slot_index [of "0xf" 4 a]
    slot_index [of "0xff" 8 b] slot_index [of "0x3ff" 10 b] slot_index [of "0xf" 4 b]
  by (simp_all add: mask_eq_exp_minus_1)

lemma if_case_cong:
  "x = case_option n g a \<Longrightarrow> y = case_option n g b \<Longrightarrow>
   (if P then x else y) = case_option n g (if P then a else b)"
  by simp

lemma VirtioGic_Read_slot:
  "VirtioGic_Read addr r =
    (case vgic_slot (unat addr) of
       None \<Rightarrow> Inr (if unat addr = 0xfe8 then 0x20 else 0)
     | Some (b, i) \<Rightarrow> arr_get (vgic_bank r b) i)"
  unfolding Let_def VirtioGic_Read_def vgic_slot_def vgic_index
  by ((rule if_case_cong)+, simp_all only: option.case prod.case) (simp_all add: vgic_bank_def)

text \<open>Storing a bank back.\<close>

definition vgic_put :: "nat \<Rightarrow> u32 list \<Rightarrow> vgic \<Rightarrow> vgic" where
  "vgic_put b v r =
    (if b = 0 then r\<lparr>GICD_CTLR := hd v\<rparr>
   else if b = 1 then r\<lparr>GICD_TYPER := hd v\<rparr>
   else if b = 2 then r\<lparr>GICD_IIDR := hd v\<rparr>
   else if b = 3 then r\<lparr>GICD_IGROUPR := v\<rparr>
   else if b = 4 then r\<lparr>GICD_ISENABLER := v\<rparr>
   else if b = 5 then r\<lparr>GICD_ICENABLER := v\<rparr>
   else if b = 6 then r\<lparr>GICD_ISPENDR := v\<rparr>
   else if b = 7 then r\<lparr>GICD_ICPENDR := v\<rparr>
   else if b = 8 then r\<lparr>GICD_ISACTIVER := v\<rparr>
   else if b = 9 then r\<lparr>GICD_ICACTIVER := v\<rparr>
   else if b = 10 then r\<lparr>GICD_IPRIORITYR := v\<rparr>
   else if b = 11 then r\<lparr>GICD_ITARGETSR := v\<rparr>
   else if b = 12 then r\<lparr>GICD_ICFGR := v\<rparr>
   else if b = 13 then r\<lparr>GICD_NSACR := v\<rparr>
   else if b = 14 then r\<lparr>GICD_SGIR := hd v\<rparr>
   else if b = 15 then r\<lparr>GICD_CPENDSGIR := v\<rparr>
   else if b = 16 then r\<lparr>GICD_SPENDSGIR := v\<rparr>
   else r)"

lemma VirtioGic_Write_slot:
  "VirtioGic_Write addr data r =
    (case vgic_slot (unat addr) of
       None \<Rightarrow> Inr r
     | Some (b, i) \<Rightarrow> rbind (arr_set (vgic_bank r b) i data) (\<lambda>v. Inr (vgic_put b v r)))"
  unfolding Let_def VirtioGic_Write_def vgic_slot_def vgic_index
  by ((rule if_case_cong)+, simp_all only: option.case prod.case)
       (simp_all add: vgic_bank_def vgic_put_def)

lemma vgic_bank_put:
  assumes "b < 17" "length v = length (vgic_bank r b)"
  shows "vgic_bank (vgic_put b v r) b' = (if b' = b then v else vgic_bank r b')"
proof -
  have single: "length v = Suc 0 \<Longrightarrow> [hd v] = v" by (cases v) auto
  have "b \<in> {0, 1, 2, 3, 4, 5, 6, 7, 8, 9, 10, 11, 12, 13, 14, 15, 16}" using assms(1) by (simp, presburger)
  then show ?thesis using assms(2) single
    by (elim insertE emptyE) (simp_all add: vgic_bank_def vgic_put_def)
qed


lemma vgic_bank_length: "vgic_ok r \<Longrightarrow> b < 17 \<Longrightarrow> length (vgic_bank r b) = vgic_sizes ! b"
proof -
  assume ok: "vgic_ok r" and b: "b < 17"
  have "map (length \<circ> vgic_bank r) [0..<17] ! b = vgic_sizes ! b" using ok by (simp add: vgic_ok_def)
  moreover have "map (length \<circ> vgic_bank r) [0..<17] ! b = length (vgic_bank r b)" using b by simp
  ultimately show ?thesis by simp
qed

lemma if_Some_elim: "(if P then Some x else y) = Some z \<Longrightarrow> (x = z \<Longrightarrow> R) \<Longrightarrow> (y = Some z \<Longrightarrow> R) \<Longrightarrow> R"
  by (cases P) auto

lemma vgic_slot_bank: "vgic_slot a = Some (b, i) \<Longrightarrow> b < 17"
  unfolding vgic_slot_def by (elim if_Some_elim) simp_all

text \<open>The slots below 0x400, range by range.\<close>

lemma vgic_slot_ranges:
  shows "a < 0x80 \<Longrightarrow> vgic_slot a = Some (if a = 0 then (0, 0) else if a = 4 then (1, 0)
      else if a = 8 then (2, 0) else (4, a div 4))"
    and "0x80 \<le> a \<Longrightarrow> a < 0x100 \<Longrightarrow> vgic_slot a = Some (3, a mod 256 div 4)"
    and "0x100 \<le> a \<Longrightarrow> a < 0x180 \<Longrightarrow> vgic_slot a = Some (4, a mod 256 div 4)"
    and "0x180 \<le> a \<Longrightarrow> a < 0x200 \<Longrightarrow> vgic_slot a = Some (5, a mod 256 div 4)"
    and "0x200 \<le> a \<Longrightarrow> a < 0x280 \<Longrightarrow> vgic_slot a = Some (6, a mod 256 div 4)"
    and "0x280 \<le> a \<Longrightarrow> a < 0x300 \<Longrightarrow> vgic_slot a = Some (7, a mod 256 div 4)"
    and "0x300 \<le> a \<Longrightarrow> a < 0x380 \<Longrightarrow> vgic_slot a = Some (8, a mod 256 div 4)"
    and "0x380 \<le> a \<Longrightarrow> a < 0x400 \<Longrightarrow> vgic_slot a = Some (9, a mod 256 div 4)"
  by (simp_all add: vgic_slot_def)

lemma vgic_slot_ranges_high:
  shows "0x400 \<le> a \<Longrightarrow> a < 0x7fc \<Longrightarrow> vgic_slot a = Some (10, a mod 1024 div 4)"
    and "0x7fc \<le> a \<Longrightarrow> a < 0x800 \<Longrightarrow> vgic_slot a = None"
    and "0x800 \<le> a \<Longrightarrow> a < 0xbfc \<Longrightarrow> vgic_slot a = Some (11, a mod 1024 div 4)"
    and "0xbfc \<le> a \<Longrightarrow> a < 0xc00 \<Longrightarrow> vgic_slot a = None"
    and "0xc00 \<le> a \<Longrightarrow> a < 0xd00 \<Longrightarrow> vgic_slot a = Some (12, a mod 256 div 4)"
    and "0xd00 \<le> a \<Longrightarrow> a < 0xe00 \<Longrightarrow> vgic_slot a = None"
    and "0xe00 \<le> a \<Longrightarrow> a < 0xf00 \<Longrightarrow> vgic_slot a = Some (13, a mod 256 div 4)"
    and "0xf00 \<le> a \<Longrightarrow> a < 0xf01 \<Longrightarrow> vgic_slot a = Some (14, 0)"
    and "0xf01 \<le> a \<Longrightarrow> a < 0xf10 \<Longrightarrow> vgic_slot a = None"
    and "0xf10 \<le> a \<Longrightarrow> a < 0xf20 \<Longrightarrow> vgic_slot a = Some (15, a mod 16 div 4)"
    and "0xf20 \<le> a \<Longrightarrow> a < 0xf30 \<Longrightarrow> vgic_slot a = Some (16, a mod 16 div 4)"
    and "0xf30 \<le> a \<Longrightarrow> vgic_slot a = None"
  by (simp_all add: vgic_slot_def)

lemma vgic_slot_high:
  assumes "0x400 \<le> a" "vgic_slot a = Some (b, i)"
  shows "i < vgic_sizes ! b"
proof -
  note r = vgic_slot_ranges_high
  consider "0x400 \<le> a" "a < 0x7fc" | "0x7fc \<le> a" "a < 0x800" | "0x800 \<le> a" "a < 0xbfc" | "0xbfc \<le> a" "a < 0xc00" | "0xc00 \<le> a" "a < 0xd00" | "0xd00 \<le> a" "a < 0xe00" | "0xe00 \<le> a" "a < 0xf00" | "0xf00 \<le> a" "a < 0xf01" | "0xf01 \<le> a" "a < 0xf10" | "0xf10 \<le> a" "a < 0xf20" | "0xf20 \<le> a" "a < 0xf30" | "0xf30 \<le> a"
    using assms(1) by (meson not_le)
  then show ?thesis
  proof cases
    case 1
    from r(1) [OF this] assms(2) have bi: "b = 10" "i = a mod 1024 div 4" by simp_all
    have "a mod 1024 = a - 1024" using 1 by (simp add: mod_if)
    then have l: "a mod 1024 div 4 < 255" using 1 by simp
    then show ?thesis unfolding bi by (simp add: vgic_sizes_def)
  next
    case 2
    from r(2) [OF this] assms(2) show ?thesis by simp
  next
    case 3
    from r(3) [OF this] assms(2) have bi: "b = 11" "i = a mod 1024 div 4" by simp_all
    have "a mod 1024 = a - 2048" using 3 by (simp add: mod_if)
    then have l: "a mod 1024 div 4 < 255" using 3 by simp
    then show ?thesis unfolding bi by (simp add: vgic_sizes_def)
  next
    case 4
    from r(4) [OF this] assms(2) show ?thesis by simp
  next
    case 5
    from r(5) [OF this] assms(2) have "b = 12" "i = a mod 256 div 4" by simp_all
    moreover have "a mod 256 div 4 < 64" by simp
    ultimately show ?thesis by (simp add: vgic_sizes_def)
  next
    case 6
    from r(6) [OF this] assms(2) show ?thesis by simp
  next
    case 7
    from r(7) [OF this] assms(2) have "b = 13" "i = a mod 256 div 4" by simp_all
    moreover have "a mod 256 div 4 < 64" by simp
    ultimately show ?thesis by (simp add: vgic_sizes_def)
  next
    case 8
    from r(8) [OF this] assms(2) have "b = 14" "i = 0" by simp_all
    then show ?thesis by (simp add: vgic_sizes_def)
  next
    case 9
    from r(9) [OF this] assms(2) show ?thesis by simp
  next
    case 10
    from r(10) [OF this] assms(2) have "b = 15" "i = a mod 16 div 4" by simp_all
    moreover have "a mod 16 div 4 < 4" by simp
    ultimately show ?thesis by (simp add: vgic_sizes_def)
  next
    case 11
    from r(11) [OF this] assms(2) have "b = 16" "i = a mod 16 div 4" by simp_all
    moreover have "a mod 16 div 4 < 4" by simp
    ultimately show ?thesis by (simp add: vgic_sizes_def)
  next
    case 12
    from r(12) [OF this] assms(2) show ?thesis by simp
  qed
qed

lemma vgic_slot_outside:
  "(case vgic_slot a of None \<Rightarrow> False | Some (b, i) \<Rightarrow> \<not> i < vgic_sizes ! b) \<longleftrightarrow>
    (\<exists>k\<in>{0x80, 0x180, 0x280, 0x380}. k \<le> a \<and> a < k + 0x80)"
proof -
  note r = vgic_slot_ranges
  have half: "a mod 256 div 4 < 32 \<longleftrightarrow> a mod 256 < 128" by (simp add: div_less_iff_less_mult)
  consider "a < 0x80" | "0x80 \<le> a" "a < 0x100" | "0x100 \<le> a" "a < 0x180" | "0x180 \<le> a" "a < 0x200" | "0x200 \<le> a" "a < 0x280" | "0x280 \<le> a" "a < 0x300" | "0x300 \<le> a" "a < 0x380" | "0x380 \<le> a" "a < 0x400" | "0x400 \<le> a"
    by (meson not_le)
  then show ?thesis
  proof cases
    case 1
    then show ?thesis by (simp add: r(1) vgic_sizes_def div_less_iff_less_mult)
  next
    case 2
    then have "a mod 256 = a - 0" by (simp add: mod_if)
    then have m: "a mod 256 \<ge> 128" using 2 by simp
    show ?thesis unfolding r(2) [OF 2] using m 2 by (simp add: vgic_sizes_def half)
  next
    case 3
    then have "a mod 256 = a - 256" by (simp add: mod_if)
    then have m: "a mod 256 < 128" using 3 by simp
    show ?thesis unfolding r(3) [OF 3] using m 3 by (simp add: vgic_sizes_def half)
  next
    case 4
    then have "a mod 256 = a - 256" by (simp add: mod_if)
    then have m: "a mod 256 \<ge> 128" using 4 by simp
    show ?thesis unfolding r(4) [OF 4] using m 4 by (simp add: vgic_sizes_def half)
  next
    case 5
    then have "a mod 256 = a - 512" by (simp add: mod_if)
    then have m: "a mod 256 < 128" using 5 by simp
    show ?thesis unfolding r(5) [OF 5] using m 5 by (simp add: vgic_sizes_def half)
  next
    case 6
    then have "a mod 256 = a - 512" by (simp add: mod_if)
    then have m: "a mod 256 \<ge> 128" using 6 by simp
    show ?thesis unfolding r(6) [OF 6] using m 6 by (simp add: vgic_sizes_def half)
  next
    case 7
    then have "a mod 256 = a - 768" by (simp add: mod_if)
    then have m: "a mod 256 < 128" using 7 by simp
    show ?thesis unfolding r(7) [OF 7] using m 7 by (simp add: vgic_sizes_def half)
  next
    case 8
    then have "a mod 256 = a - 768" by (simp add: mod_if)
    then have m: "a mod 256 \<ge> 128" using 8 by simp
    show ?thesis unfolding r(8) [OF 8] using m 8 by (simp add: vgic_sizes_def half)
  next
    case 9
    then show ?thesis using vgic_slot_high [OF 9] by (auto split: option.splits)
  qed
qed

lemma vgic_ok_new: "vgic_ok VirtioGic_new"
  by (simp add: vgic_ok_def vgic_bank_def VirtioGic_new_def vgic_sizes_def upt_conv_Cons)

section \<open>Serial port\<close>

record vuart =
  UARTDR :: u32
  UARTRSR :: u32
  UARTFR :: u32
  UARTILPR :: u32
  UARTIBRD :: u32
  UARTFBRD :: u32
  UARTLCR_H :: u32
  UARTCR :: u32
  UARTIFLS :: u32
  UARTIMSC :: u32
  UARTRIS :: u32
  UARTMIS :: u32
  UARTICR :: u32
  UARTDMACR :: u32

definition VirtioPl011Uart_new :: vuart where
  "VirtioPl011Uart_new = \<lparr>UARTDR = 0, UARTRSR = 0, UARTFR = 0x90, UARTILPR = 0, UARTIBRD = 0,
     UARTFBRD = 0, UARTLCR_H = 0, UARTCR = 0x300, UARTIFLS = 0x12, UARTIMSC = 0,
     UARTRIS = 0, UARTMIS = 0, UARTICR = 0, UARTDMACR = 0\<rparr>"

text \<open>
  Accesses reach the console of the board: reading the flag register takes a character from the
  input queue, writing the data register appends one to the output queue.
\<close>

definition VirtioPl011Uart_Read :: "u16 \<Rightarrow> vuart \<Rightarrow> queue \<Rightarrow> u32 \<times> vuart \<times> queue" where
  "VirtioPl011Uart_Read addr r in_q =
    (if addr = 0x000 then (UARTDR r, r\<lparr>UARTFR := UARTFR r OR 0x10\<rparr>, in_q)
     else if addr = 0x004 then (UARTRSR r, r, in_q)
     else if addr = 0x018 then
       (if \<not> Queue_Empty in_q
        then let (data, in_q) = Queue_Pop in_q;
                 r = r\<lparr>UARTDR := UARTDR r AND 0xf00\<rparr>;
                 r = r\<lparr>UARTDR := UARTDR r OR (data AND 0xff)\<rparr>;
                 r = r\<lparr>UARTFR := UARTFR r AND NOT 0x10\<rparr>
             in (UARTFR r, r, in_q)
        else (UARTFR r, r, in_q))
     else if addr = 0x020 then (UARTILPR r, r, in_q)
     else if addr = 0x024 then (UARTIBRD r, r, in_q)
     else if addr = 0x028 then (UARTFBRD r, r, in_q)
     else if addr = 0x02C then (UARTLCR_H r, r, in_q)
     else if addr = 0x030 then (UARTCR r, r, in_q)
     else if addr = 0x034 then (UARTIFLS r, r, in_q)
     else if addr = 0x038 then (UARTIMSC r, r, in_q)
     else if addr = 0x03C then (UARTRIS r, r, in_q)
     else if addr = 0x040 then (UARTMIS r, r, in_q)
     else if addr = 0x044 then (UARTICR r, r, in_q)
     else if addr = 0x048 then (UARTDMACR r, r, in_q)
     else if addr = 0xFE0 then (0x11, r, in_q)
     else if addr = 0xFE4 then (0x10, r, in_q)
     else if addr = 0xFE8 then (0x34, r, in_q)
     else if addr = 0xFEC then (0x0, r, in_q)
     else if addr = 0xFF0 then (0xD, r, in_q)
     else if addr = 0xFF4 then (0xF0, r, in_q)
     else if addr = 0xFF8 then (0x05, r, in_q)
     else if addr = 0xFFC then (0xB1, r, in_q)
     else (0, r, in_q))"

definition VirtioPl011Uart_Write :: "u32 \<Rightarrow> u32 \<Rightarrow> vuart \<Rightarrow> queue \<Rightarrow> vuart \<times> queue" where
  "VirtioPl011Uart_Write addr data r out_q =
    (if addr = 0x000 then
       let r = r\<lparr>UARTDR := data AND 0xfff\<rparr>
       in if \<not> Queue_Full out_q then (r, snd (Queue_Push (data AND 0xff) out_q)) else (r, out_q)
     else if addr = 0x004 then (r\<lparr>UARTRSR := data AND 0xf\<rparr>, out_q)
     else if addr = 0x018 then (r\<lparr>UARTFR := data AND 0x1ff\<rparr>, out_q)
     else if addr = 0x020 then (r\<lparr>UARTILPR := data AND 0xff\<rparr>, out_q)
     else if addr = 0x024 then (r\<lparr>UARTIBRD := data AND 0xffff\<rparr>, out_q)
     else if addr = 0x028 then (r\<lparr>UARTFBRD := data AND 0x3f\<rparr>, out_q)
     else if addr = 0x02C then (r\<lparr>UARTLCR_H := data AND 0xff\<rparr>, out_q)
     else if addr = 0x030 then (r\<lparr>UARTCR := data AND 0xffff\<rparr>, out_q)
     else if addr = 0x034 then (r\<lparr>UARTIFLS := data AND 0x3f\<rparr>, out_q)
     else if addr = 0x038 then (r\<lparr>UARTIMSC := data AND 0x7ff\<rparr>, out_q)
     else if addr = 0x03C then (r\<lparr>UARTRIS := data AND 0x7ff\<rparr>, out_q)
     else if addr = 0x040 then (r\<lparr>UARTMIS := data AND 0x7ff\<rparr>, out_q)
     else if addr = 0x044 then (r\<lparr>UARTICR := data AND 0x7ff\<rparr>, out_q)
     else if addr = 0x048 then (r\<lparr>UARTDMACR := data AND 0x7\<rparr>, out_q)
     else (r, out_q))"

lemma uart_read_flags:
  "VirtioPl011Uart_Read 0x018 r q =
    (if Queue_Empty q then (UARTFR r, r, q)
     else (UARTFR r AND NOT 0x10,
           r\<lparr>UARTDR := (UARTDR r AND 0xf00) OR (fst (Queue_Pop q) AND 0xff), UARTFR := UARTFR r AND NOT 0x10\<rparr>,
           snd (Queue_Pop q)))"
  by (simp add: VirtioPl011Uart_Read_def Let_def split: prod.splits)

lemma uart_read_data: "VirtioPl011Uart_Read 0x000 r q = (UARTDR r, r\<lparr>UARTFR := UARTFR r OR 0x10\<rparr>, q)"
  by (simp add: VirtioPl011Uart_Read_def)

lemma and_ff_field: "((x AND 0xf00) OR (c AND 0xff)) AND 0xff = (c AND 0xff :: u32)"
  by (simp add: bit.conj_disj_distrib2 and.assoc)

lemma rxfe_bits: "bit (x AND NOT (0x10 :: u32)) 4 = False" "bit (x OR (0x10 :: u32)) 4 = True"
proof -
  have e: "(0x10 :: u32) = push_bit 4 1" by simp
  show "bit (x AND NOT (0x10 :: u32)) 4 = False" "bit (x OR (0x10 :: u32)) 4 = True"
    unfolding e by (simp_all only: bit_and_iff bit_or_iff bit_not_iff bit_push_bit_iff) simp_all
qed

text \<open>
  C20. The virtual distributor is a register file: every address decodes to one slot or to none,
  reads and writes of a slot are those of an array of words, and an access outside decodes to
  nothing. The only accesses that fault are those whose index leaves its array.
\<close>

theorem vgic_register_file:
  assumes "vgic_ok r"
  shows "case vgic_slot (unat addr) of
      None \<Rightarrow> VirtioGic_Read addr r = Inr (if addr = 0xfe8 then 0x20 else 0) \<and>
              VirtioGic_Write (ucast addr) data r = Inr r
    | Some (b, i) \<Rightarrow>
        if i < vgic_sizes ! b
        then VirtioGic_Read addr r = Inr (vgic_bank r b ! i) \<and>
          (\<exists>r'. VirtioGic_Write (ucast addr) data r = Inr r' \<and> vgic_ok r' \<and>
             vgic_bank r' = (vgic_bank r)(b := (vgic_bank r b)[i := data]))
        else VirtioGic_Read addr r = Inl OutOfBounds \<and> VirtioGic_Write (ucast addr) data r = Inl OutOfBounds"
proof -
  have u: "unat (ucast addr :: u32) = unat addr"
    using unsigned_less [of addr, where ?'a = nat] by (simp add: unsigned_ucast_eq take_bit_nat_eq_self)
  have fe8: "unat addr = 0xfe8 \<longleftrightarrow> addr = 0xfe8" by (simp add: word_unat_eq_iff)
  show ?thesis
  proof (cases "vgic_slot (unat addr)")
    case None
    then show ?thesis by (simp add: VirtioGic_Read_slot VirtioGic_Write_slot u fe8)
  next
    case (Some bi)
    then obtain b i where bi: "vgic_slot (unat addr) = Some (b, i)" by (cases bi) simp
    have b: "b < 17" using vgic_slot_bank [OF bi] .
    have len: "length (vgic_bank r b) = vgic_sizes ! b" using vgic_bank_length [OF assms b] .
    show ?thesis
    proof (cases "i < vgic_sizes ! b")
      case True
      let ?r = "vgic_put b ((vgic_bank r b)[i := data]) r"
      have bank: "vgic_bank ?r = (vgic_bank r)(b := (vgic_bank r b)[i := data])"
        using vgic_bank_put [OF b, of "(vgic_bank r b)[i := data]" r] by auto
      have "length (vgic_bank ?r c) = length (vgic_bank r c)" for c by (simp add: bank)
      then have "vgic_ok ?r" using assms by (simp add: vgic_ok_def comp_def)
      then show ?thesis using True len bank by (simp add: bi VirtioGic_Read_slot VirtioGic_Write_slot u)
    next
      case False
      then show ?thesis using len by (simp add: bi VirtioGic_Read_slot VirtioGic_Write_slot u)
    qed
  qed
qed

theorem vgic_register_file_witness:
  "VirtioGic_Read 0x180 VirtioGic_new = Inl OutOfBounds \<and> VirtioGic_Read 0x100 VirtioGic_new = Inr 0"
  using vgic_register_file [OF vgic_ok_new, where addr = "0x180" and data = 0] vgic_register_file [OF vgic_ok_new, where addr = "0x100" and data = 0]
  by (simp add: vgic_slot_def vgic_sizes_def vgic_bank_def VirtioGic_new_def)

text \<open>
  C37. Exactly the upper halves of four of the ranges fault: the code divides ranges of 128 bytes
  by the low eight address bits, so a guest read of 0x80 to 0xff, 0x180 to 0x1ff, 0x280 to 0x2ff or
  0x380 to 0x3ff uses an index from 32 to 63 in an array of 32 words.
\<close>

theorem vgic_out_of_bounds:
  assumes "vgic_ok r"
  shows "VirtioGic_Read addr r = Inl OutOfBounds \<longleftrightarrow>
    (\<exists>k\<in>{0x80, 0x180, 0x280, 0x380 :: nat}. k \<le> unat addr \<and> unat addr < k + 0x80)"
proof -
  have "VirtioGic_Read addr r = Inl OutOfBounds \<longleftrightarrow>
      (\<exists>b i. vgic_slot (unat addr) = Some (b, i) \<and> \<not> i < vgic_sizes ! b)"
    using vgic_bank_length [OF assms vgic_slot_bank]
    by (auto simp: VirtioGic_Read_slot arr_get_def split: option.splits)
  also have "\<dots> \<longleftrightarrow> (case vgic_slot (unat addr) of None \<Rightarrow> False | Some (b, i) \<Rightarrow> \<not> i < vgic_sizes ! b)"
    by (auto split: option.splits)
  also have "\<dots> \<longleftrightarrow> (\<exists>k\<in>{0x80, 0x180, 0x280, 0x380 :: nat}. k \<le> unat addr \<and> unat addr < k + 0x80)"
    by (rule vgic_slot_outside)
  finally show ?thesis .
qed

theorem vgic_out_of_bounds_witness: "VirtioGic_Read 0x3c0 VirtioGic_new = Inl OutOfBounds"
  using vgic_out_of_bounds [OF vgic_ok_new, where addr = "0x3c0"] by simp


text \<open>
  C21. Receiving: while the input queue is not empty, a read of the flag register reports data
  (bit 4, "receive FIFO empty", is clear), takes the front of the queue, and the following read of
  the data register returns that byte in its low eight bits and marks the FIFO empty. Each further
  read of the flag register takes one more character: two in a row lose the first.
\<close>

theorem uart_receive:
  assumes "queue_inv q" and "queue_list q = c # cs"
  shows "\<exists>fr r1 q1. VirtioPl011Uart_Read 0x018 r q = (fr, r1, q1) \<and> \<not> bit fr 4 \<and>
    queue_inv q1 \<and> queue_list q1 = cs \<and>
    (\<exists>d r2. VirtioPl011Uart_Read 0x000 r1 q1 = (d, r2, q1) \<and> d AND 0xff = c AND 0xff \<and> bit (UARTFR r2) 4) \<and>
    (\<forall>c' cs'. cs = c' # cs' \<longrightarrow>
      (\<exists>fr2 r3 q2. VirtioPl011Uart_Read 0x018 r1 q1 = (fr2, r3, q2) \<and> queue_list q2 = cs' \<and>
         fst (VirtioPl011Uart_Read 0x000 r3 q2) AND 0xff = c' AND 0xff))"
proof -
  have pop: "\<not> Queue_Empty p \<and> fst (Queue_Pop p) = x \<and> queue_list (snd (Queue_Pop p)) = xs \<and> queue_inv (snd (Queue_Pop p))"
    if "queue_inv p" "queue_list p = x # xs" for p x xs
    using ring.pop_spec [OF that(1)] ring.empty_iff [OF that(1)] ring.inv_pop [OF that(1)] that(2) by simp
  note p = pop [OF assms]
  have "\<exists>fr2 r3 q2. VirtioPl011Uart_Read 0x018 r1 (snd (Queue_Pop q)) = (fr2, r3, q2) \<and> queue_list q2 = cs' \<and>
         fst (VirtioPl011Uart_Read 0x000 r3 q2) AND 0xff = c' AND 0xff" if "cs = c' # cs'" for c' cs' r1
    using pop [of "snd (Queue_Pop q)" c' cs'] p that
    by (simp add: uart_read_flags uart_read_data and_ff_field)
  moreover have "\<not> bit (UARTFR r AND NOT 0x10) 4" "\<And>x :: u32. bit (x OR 0x10) 4"
    using rxfe_bits by simp_all
  ultimately show ?thesis using p by (simp add: uart_read_flags uart_read_data and_ff_field)
qed

theorem uart_receive_witness:
  "bit (fst (VirtioPl011Uart_Read 0x018 VirtioPl011Uart_new (snd (Queue_Push 65 (Queue_new (\<lambda>_. 0)))))) 4 = False"
proof -
  let ?q = "snd (Queue_Push 65 (Queue_new (\<lambda>_. 0)))"
  have "\<not> Queue_Full (Queue_new (\<lambda>_. 0))" by (simp add: Queue_Full_def Queue_new_def kMaxSize_def)
  then have "queue_list ?q = [65]" "queue_inv ?q"
    using queue_list_Push [OF queue_inv_new(1)] queue_inv_Push [OF queue_inv_new(1)] by (simp_all add: queue_inv_new(2))
  from uart_receive [OF this(2,1), of VirtioPl011Uart_new] show ?thesis by auto
qed

text \<open>
  C22. Sending: a write to the data register appends its low byte to the output queue, or drops it
  when 1023 bytes are waiting; no other register write touches the queue.
\<close>

theorem uart_transmit:
  assumes "queue_inv q"
  shows "queue_inv (snd (VirtioPl011Uart_Write addr data r q)) \<and>
    queue_list (snd (VirtioPl011Uart_Write addr data r q)) =
      (if addr = 0 \<and> length (queue_list q) < 1023 then queue_list q @ [data AND 0xff] else queue_list q)"
proof (cases "addr = 0")
  case True
  then show ?thesis
    using ring.push_spec [OF assms, of "data AND 0xff"] ring.inv_push [OF assms, of "data AND 0xff"] ring.cap_bound [OF assms]
      ring.full_iff [OF assms] assms
    by (auto simp: VirtioPl011Uart_Write_def Let_def)
next
  case False
  then have "snd (VirtioPl011Uart_Write addr data r q) = q" by (simp add: VirtioPl011Uart_Write_def)
  then show ?thesis using False assms by simp
qed

theorem uart_transmit_witness:
  "queue_list (snd (VirtioPl011Uart_Write 0 0x141 VirtioPl011Uart_new (Queue_new (\<lambda>_. 0)))) = [0x41]"
  using uart_transmit [OF queue_inv_new(1), of 0 "0x141" VirtioPl011Uart_new "\<lambda>_. 0"] by (simp add: queue_inv_new(2))

end
