(* ===== verification/EvBoard.thy ===== *)
theory EvBoard
  imports EvVirtio EvSched
begin

text \<open>
  The board of a platform (platforms/board.h, qemu/board_qemu.cc, bcm2711/board_bcm2711.cc,
  platform.cc): the console queues, the dispatch of trapped accesses to the virtual devices, and
  the device part of a guest's address space.
\<close>

section \<open>State and memory map\<close>

text \<open>The build selects one of these (BOARD and TEST_GUEST of the build files).\<close>

datatype platform = Qemu | Bcm2711 | Bcm2711_NuttX

text \<open>platforms/qemu/peripheral.h and platforms/bcm2711/peripheral.h\<close>

definition GIC_V2_DISTRIBUTOR_BASE :: "platform \<Rightarrow> u64" where
  "GIC_V2_DISTRIBUTOR_BASE p = (if p = Qemu then 0x08000000 else 0xFF841000)"

definition GIC_V2_CPU_INTERFACE_BASE :: "platform \<Rightarrow> u64" where
  "GIC_V2_CPU_INTERFACE_BASE p = (if p = Qemu then 0x08010000 else 0xFF842000)"

definition GIC_V2_VIRTUAL_CPU_BASE :: "platform \<Rightarrow> u64" where
  "GIC_V2_VIRTUAL_CPU_BASE p = (if p = Qemu then 0x08040000 else 0xFF846000)"

definition UART0_BASE :: "platform \<Rightarrow> u64" where
  "UART0_BASE p = (if p = Qemu then 0x09000000 else 0xFE201000)"

text \<open>There is one board object for all guests.\<close>

record board =
  console_in :: queue
  console_out :: queue
  virtio_uart :: vuart
  virtio_gic :: vgic

section \<open>Initialisation\<close>

definition Queue_alloc :: "heap \<Rightarrow> (queue \<times> heap) res" where
  "Queue_alloc h =
     rbind (operator_new 16 h) (\<lambda>(_, h).
     rbind (kmm_malloc 1024 h) (\<lambda>(buff, h).
       Inr (Queue_new (\<lambda>i. load_le 4 (dram h) (buff + of_nat (4 * i))), h)))"

definition Board_Init :: "board \<Rightarrow> heap \<Rightarrow> (board \<times> heap) res" where
  "Board_Init b h =
     rbind (operator_new 16 h) (\<lambda>(_, h).
     rbind (Queue_alloc h) (\<lambda>(q_in, h).
     rbind (Queue_alloc h) (\<lambda>(q_out, h).
       Inr (b\<lparr>console_in := q_in, console_out := q_out\<rparr>, h))))"

text \<open>\<open>for (pa = start; pa < end; pa += PAGE_SIZE)\<close>\<close>

definition device_pages :: "u64 \<Rightarrow> u64 \<Rightarrow> u64 list" where
  "device_pages start end' =
     map (\<lambda>i. start + of_nat (i * 4096)) [0..<(unat end' - unat start + 4095) div 4096]"

fun MapDevices :: "(u64 \<Rightarrow> u64) \<Rightarrow> bool \<Rightarrow> u64 list \<Rightarrow> MmContext \<times> heap \<Rightarrow> (MmContext \<times> heap) res" where
  "MapDevices va acc [] mh = Inr mh"
| "MapDevices va acc (pa # pas) mh =
     rbind (MapNewDevicePage (fst mh) (va pa) pa acc (snd mh)) (MapDevices va acc pas)"

definition BoardQemu_Init :: "board \<Rightarrow> MmContext \<Rightarrow> heap \<Rightarrow> (board \<times> MmContext \<times> heap) res" where
  "BoardQemu_Init b mm h =
     rbind (Board_Init b h) (\<lambda>(b, h).
     rbind (MapDevices (\<lambda>pa. pa) False
        (device_pages (GIC_V2_DISTRIBUTOR_BASE Qemu) (GIC_V2_CPU_INTERFACE_BASE Qemu)) (mm, h)) (\<lambda>mh.
     rbind (MapDevices (\<lambda>pa. pa - 0x30000) True
        (device_pages (GIC_V2_VIRTUAL_CPU_BASE Qemu) (GIC_V2_VIRTUAL_CPU_BASE Qemu + 0x2000)) mh) (\<lambda>mh.
     rbind (MapDevices (\<lambda>pa. pa) False
        (device_pages (UART0_BASE Qemu) (UART0_BASE Qemu + 0x1000)) mh) (\<lambda>(mm, h).
       Inr (b, mm, h)))))"

definition BoardBcm2711_Init :: "bool \<Rightarrow> board \<Rightarrow> MmContext \<Rightarrow> heap \<Rightarrow> (board \<times> MmContext \<times> heap) res" where
  "BoardBcm2711_Init nuttx b mm h =
     rbind (Board_Init b h) (\<lambda>(b, h).
     rbind (MapDevices (\<lambda>pa. if nuttx then 0x08000000 OR (pa AND 0xfff) else pa) False
        (device_pages (GIC_V2_DISTRIBUTOR_BASE Bcm2711) (GIC_V2_CPU_INTERFACE_BASE Bcm2711)) (mm, h)) (\<lambda>mh.
     rbind (MapDevices (\<lambda>pa. if nuttx then (0x08010000 OR (pa AND 0xffff)) - 0x6000 else pa) True
        (device_pages (GIC_V2_VIRTUAL_CPU_BASE Bcm2711) (GIC_V2_VIRTUAL_CPU_BASE Bcm2711 + 0x2000)) mh) (\<lambda>mh.
     rbind (MapDevices (\<lambda>pa. if nuttx then 0x09000000 OR (pa AND 0x00000fff) else pa) False
        (device_pages (UART0_BASE Bcm2711) (UART0_BASE Bcm2711 + 0x1000)) mh) (\<lambda>(mm, h).
       Inr (b, mm, h)))))"

text \<open>\<open>GetPlatformBoard\<close> and the virtual call of \<open>Init\<close>.\<close>

definition board_Init :: "platform \<Rightarrow> board \<Rightarrow> MmContext \<Rightarrow> heap \<Rightarrow> (board \<times> MmContext \<times> heap) res" where
  "board_Init p = (case p of Qemu \<Rightarrow> BoardQemu_Init | Bcm2711 \<Rightarrow> BoardBcm2711_Init False
     | Bcm2711_NuttX \<Rightarrow> BoardBcm2711_Init True)"

section \<open>Trapped accesses\<close>

definition uart_window :: "platform \<Rightarrow> u32" where
  "uart_window p = (if p = Bcm2711_NuttX then 0x09000000 else ucast (UART0_BASE p))"

definition gic_window :: "platform \<Rightarrow> u32" where
  "gic_window p = (if p = Bcm2711_NuttX then 0x08000000 else ucast (GIC_V2_DISTRIBUTOR_BASE p))"

definition MmioRead :: "platform \<Rightarrow> u64 \<Rightarrow> board \<Rightarrow> (u64 \<times> board) res" where
  "MmioRead p addr b =
     (let base_addr = ucast (addr AND 0xFFFFF000) :: u32
      in if base_addr = uart_window p
         then let (v, r, q) = VirtioPl011Uart_Read (ucast (addr AND 0xFFF)) (virtio_uart b) (console_in b)
              in Inr (ucast v, b\<lparr>virtio_uart := r, console_in := q\<rparr>)
         else if base_addr = gic_window p
         then rbind (VirtioGic_Read (ucast (addr AND 0xFFF)) (virtio_gic b)) (\<lambda>v. Inr (ucast v, b))
         else Inr (0, b))"

definition MmioWrite :: "platform \<Rightarrow> u64 \<Rightarrow> u64 \<Rightarrow> board \<Rightarrow> board res" where
  "MmioWrite p addr val b =
     (let base_addr = ucast (addr AND 0xFFFFF000) :: u32
      in if base_addr = uart_window p
         then let (r, q) = VirtioPl011Uart_Write (ucast (addr AND 0xFFF)) (ucast val) (virtio_uart b) (console_out b)
              in Inr (b\<lparr>virtio_uart := r, console_out := q\<rparr>)
         else if base_addr = gic_window p
         then rbind (VirtioGic_Write (ucast (addr AND 0xFFF)) (ucast val) (virtio_gic b))
                (\<lambda>r. Inr (b\<lparr>virtio_gic := r\<rparr>))
         else if p = Qemu then Inr b else Inl Panic)"

text \<open>\<open>Board::VmEnter\<close> and the queries of the pending flags; \<open>VmLeave\<close> does nothing.\<close>

definition Board_VmEnter :: "board \<Rightarrow> Tcb \<Rightarrow> Tcb" where
  "Board_VmEnter b t =
     (if \<not> Queue_Empty (console_in b)
      then t\<lparr>tcb_stat := (tcb_stat t)\<lparr>irq_pending := True\<rparr>\<rparr>
      else t\<lparr>tcb_stat := (tcb_stat t)\<lparr>irq_pending := False\<rparr>\<rparr>)"

definition IsIrqAsserted :: "Tcb \<Rightarrow> bool" where
  "IsIrqAsserted t = irq_pending (tcb_stat t)"

definition IsFiqAsserted :: "Tcb \<Rightarrow> bool" where
  "IsFiqAsserted t = fiq_pending (tcb_stat t)"

section \<open>Invariant\<close>

definition board_ok :: "board \<Rightarrow> bool" where
  "board_ok b \<longleftrightarrow> queue_inv (console_in b) \<and> queue_inv (console_out b) \<and> vgic_ok (virtio_gic b)"

lemma uart_read_inv: "queue_inv q \<Longrightarrow> VirtioPl011Uart_Read a r q = (v, r', q') \<Longrightarrow> queue_inv q'"
  using queue_inv_Pop [of q]
  by (auto simp: VirtioPl011Uart_Read_def Let_def split: if_splits prod.splits)

lemma uart_write_inv: "queue_inv q \<Longrightarrow> VirtioPl011Uart_Write a d r q = (r', q') \<Longrightarrow> queue_inv q'"
  using queue_inv_Push [of q "d AND 0xff"]
  by (auto simp: VirtioPl011Uart_Write_def Let_def split: if_splits)

lemma vgic_write_ok: "vgic_ok r \<Longrightarrow> VirtioGic_Write a d r = Inr r' \<Longrightarrow> vgic_ok r'"
proof -
  assume ok: "vgic_ok r" and w: "VirtioGic_Write a d r = Inr r'"
  show ?thesis
  proof (cases "vgic_slot (unat a)")
    case None
    then show ?thesis using ok w by (simp add: VirtioGic_Write_slot)
  next
    case (Some bi)
    then obtain b i where bi: "vgic_slot (unat a) = Some (b, i)" by (cases bi) simp
    have r': "r' = vgic_put b ((vgic_bank r b)[i := d]) r" using w bi
      by (auto simp: VirtioGic_Write_slot rbind_eq_Inr arr_set_eq_Inr)
    have "vgic_bank r' c = (if c = b then (vgic_bank r b)[i := d] else vgic_bank r c)" for c
      unfolding r' using vgic_bank_put [OF vgic_slot_bank [OF bi], of "(vgic_bank r b)[i := d]" r c] by simp
    then have "length (vgic_bank r' c) = length (vgic_bank r c)" for c by simp
    then show ?thesis using ok by (simp add: vgic_ok_def comp_def)
  qed
qed

lemma MmioRead_ok: "board_ok b \<Longrightarrow> MmioRead p a b = Inr (v, b') \<Longrightarrow> board_ok b'"
  using uart_read_inv
  by (fastforce simp: MmioRead_def board_ok_def Let_def rbind_eq_Inr split: if_splits prod.splits)

lemma MmioWrite_ok: "board_ok b \<Longrightarrow> MmioWrite p a v b = Inr b' \<Longrightarrow> board_ok b'"
  using uart_write_inv vgic_write_ok
  by (fastforce simp: MmioWrite_def board_ok_def Let_def rbind_eq_Inr split: if_splits prod.splits)


section \<open>The device part of the address space\<close>

definition mm_lookup :: "heap \<Rightarrow> MmContext \<Rightarrow> u64 \<Rightarrow> u64" where
  "mm_lookup h mm a = (if mm_page_table mm = 0 then 0 else s2_lookup (dram h) (mm_page_table mm) a)"

definition device_flags :: "bool \<Rightarrow> u64" where
  "device_flags acc = (if acc then kStage2PteDeviceAccessible else kStage2PteDeviceNotAccessible)"

text \<open>The translation after mapping a list of pages, on top of a translation f.\<close>

fun dev_view :: "(u64 \<Rightarrow> u64) \<Rightarrow> u64 \<Rightarrow> u64 list \<Rightarrow> (u64 \<Rightarrow> u64) \<Rightarrow> u64 \<Rightarrow> u64" where
  "dev_view va fl [] f = f"
| "dev_view va fl (p # ps) f = dev_view va fl ps (\<lambda>a. if s2_path a = s2_path (va p) then p OR fl else f a)"

lemma device_flags_low: "\<forall>k\<ge>12. \<not> bit (device_flags acc) k"
proof -
  have "\<not> bit (mask 11 AND x :: u64) k" if "12 \<le> k" for k :: nat and x
    using that by (simp only: bit_and_iff bit_mask_iff) simp
  moreover have "device_flags acc = mask 11 AND device_flags acc"
    by (simp add: device_flags_def kStage2PteDeviceAccessible_def kStage2PteDeviceNotAccessible_def mask_eq_exp_minus_1)
  ultimately show ?thesis by metis
qed

text \<open>What the steps of board and task creation preserve together.\<close>

definition guests_inv :: "owner \<Rightarrow> heap \<Rightarrow> bool" where
  "guests_inv own h \<longleftrightarrow> s2_inv own h \<and> guest_isolated own h"

definition guests_step :: "owner \<Rightarrow> owner \<Rightarrow> MmContext \<times> heap \<Rightarrow> MmContext \<times> heap \<Rightarrow> bool" where
  "guests_step own own' = (\<lambda>(mm, h) (mm', h').
     guests_inv own' h' \<and> own \<subseteq>\<^sub>m own' \<and> umm_used h \<subseteq> umm_used h' \<and>
     user_region h' = user_region h \<and> kmm_used h \<subseteq> kmm_used h' \<and> mm_ok own' mm' \<and>
     (mm_page_table mm \<noteq> 0 \<longrightarrow> mm_page_table mm' = mm_page_table mm) \<and>
     (mm_page_table mm = 0 \<longrightarrow> mm_page_table mm' = 0 \<or> own (mm_page_table mm') = None) \<and>
     (\<forall>q a. own q = Some (q, []) \<longrightarrow> q \<noteq> mm_page_table mm' \<longrightarrow>
        own' q = Some (q, []) \<and> s2_lookup (dram h') q a = s2_lookup (dram h) q a) \<and>
     (\<forall>p\<in>umm_used h. \<forall>x. x - p < 4096 \<longrightarrow> dram h' x = dram h x))"

lemma guests_root_nonzero: "guests_inv own h \<Longrightarrow> own q = Some (q, []) \<Longrightarrow> q \<noteq> 0"
  by (auto simp: guests_inv_def s2_inv_def dest: table_treeD(2))

lemma map_le_root: "own \<subseteq>\<^sub>m own' \<Longrightarrow> own q = Some x \<Longrightarrow> own' q = Some x"
  by (force simp: map_le_def)

lemma guests_step_trans:
  assumes "guests_inv own1 (snd mh1)" "guests_step own1 own2 mh1 mh2" "guests_step own2 own3 mh2 mh3"
  shows "guests_step own1 own3 mh1 mh3"
proof -
  obtain mm1 h1 mm2 h2 mm3 h3 where mh: "mh1 = (mm1, h1)" "mh2 = (mm2, h2)" "mh3 = (mm3, h3)"
    by (cases mh1, cases mh2, cases mh3) auto
  note a = assms(2) [unfolded mh guests_step_def prod.case] and b = assms(3) [unfolded mh guests_step_def prod.case]
  have le: "own1 \<subseteq>\<^sub>m own2" using a by blast
  have root: "own2 q = Some (q, []) \<and> own3 q = Some (q, []) \<and> s2_lookup (dram h3) q a = s2_lookup (dram h1) q a"
    if q: "own1 q = Some (q, [])" "q \<noteq> mm_page_table mm3" for q a
  proof -
    have nz: "q \<noteq> 0" using guests_root_nonzero [of own1 h1 q] q(1) assms(1) mh(1) by simp
    have "q \<noteq> mm_page_table mm2" using b q(2) nz by metis
    then have "own2 q = Some (q, [])" "s2_lookup (dram h2) q a = s2_lookup (dram h1) q a" using a q(1) by blast+
    then show ?thesis using b q(2) by simp
  qed
  have new: "mm_page_table mm3 = 0 \<or> own1 (mm_page_table mm3) = None" if "mm_page_table mm1 = 0"
  proof (cases "mm_page_table mm2 = 0")
    case True
    then have "mm_page_table mm3 = 0 \<or> own2 (mm_page_table mm3) = None" using b by simp
    then show ?thesis using map_le_root [OF le] by (cases "own1 (mm_page_table mm3)") auto
  next
    case False
    then show ?thesis using a b that by metis
  qed
  have "own1 \<subseteq>\<^sub>m own3" using a b map_le_trans by blast
  moreover have "mm_page_table mm3 = mm_page_table mm1" if "mm_page_table mm1 \<noteq> 0" using a b that by metis
  moreover have "kmm_used h1 \<subseteq> kmm_used h3" using a b by blast
  moreover have "dram h3 x = dram h1 x" if "p \<in> umm_used h1" "x - p < 4096" for p x
  proof -
    have "dram h2 x = dram h1 x" using a that by blast
    moreover have "p \<in> umm_used h2" using a that(1) by blast
    ultimately show ?thesis using b that(2) by simp
  qed
  moreover have "\<forall>q a. own1 q = Some (q, []) \<longrightarrow> q \<noteq> mm_page_table mm3 \<longrightarrow>
      own3 q = Some (q, []) \<and> s2_lookup (dram h3) q a = s2_lookup (dram h1) q a" using root by blast
  moreover have "umm_used h1 \<subseteq> umm_used h3" using a b by blast
  moreover have "guests_inv own3 h3" "user_region h3 = user_region h1" "mm_ok own3 mm3"
    using a b by simp_all
  moreover have "mm_page_table mm1 = 0 \<longrightarrow> mm_page_table mm3 = 0 \<or> own1 (mm_page_table mm3) = None" using new by blast
  ultimately show ?thesis unfolding mh guests_step_def prod.case by blast
qed

lemma kmm_malloc_guests:
  assumes "kmm_malloc sz h = Inr (p, h')" "sz \<noteq> 0" "guests_inv own h" "mm_ok own mm"
  shows "guests_step own own (mm, h) (mm, h')" "dram h' = dram h" "p \<noteq> 0" "p \<in> kmm_used h'"
    "p \<notin> kmm_used h"
proof -
  have hinv: "heap_inv h" using assms(3) by (simp add: guests_inv_def s2_inv_def)
  note k = kmm_malloc_page [OF assms(1,2) hinv]
  have reg: "user_region h' = user_region h" using k(9) by (simp add: user_region_def)
  have "s2_inv own h'" using assms(3) k by (auto simp: guests_inv_def s2_inv_def)
  moreover have "guest_isolated own h' = guest_isolated own h" unfolding guest_isolated_def k(4,5) reg ..
  then have "guest_isolated own h'" using assms(3) by (simp add: guests_inv_def)
  moreover have "kmm_used h \<subseteq> kmm_used h'" using k(3) by blast
  ultimately show "guests_step own own (mm, h) (mm, h')"
    using k(4,5) reg assms(4) by (simp add: guests_step_def guests_inv_def map_le_def)
  show "dram h' = dram h" "p \<in> kmm_used h'" "p \<notin> kmm_used h" using k by simp_all
  show "p \<noteq> 0" using kmm_used_page [OF heap_inv_layout [OF k(1)], of p] k(3) by simp
qed

lemma MapNewDevicePage_spec:
  assumes inv: "guests_inv own h" and ok: "mm_ok own mm"
    and step: "MapNewDevicePage mm ipa page acc h = Inr (mm', h')"
    and page: "aligned 12 page" "page \<notin> user_region h"
  shows "\<exists>own'. guests_step own own' (mm, h) (mm', h') \<and> mm_page_table mm' \<noteq> 0 \<and>
    mm_pages mm' = mm_pages mm + 1 \<and>
    (\<forall>a. mm_lookup h' mm' a = (if s2_path a = s2_path ipa then page OR device_flags acc else mm_lookup h mm a))"
proof -
  have s2: "s2_inv own h" and iso: "guest_isolated own h" using inv by (simp_all add: guests_inv_def)
  obtain slot where m: "MapPage mm (ipa AND PAGE_MASK) page (device_flags acc) h = Inr (slot, mm', h')"
    using step by (auto simp: MapNewDevicePage_def device_flags_def rbind_eq_Inr)
  obtain own' where o: "s2_frame own own' h h'" "mm_ok own' mm'" "guest_isolated own' h'"
    "mm_page_table mm \<noteq> 0 \<longrightarrow> mm_page_table mm' = mm_page_table mm"
    "own' (mm_page_table mm') = Some (mm_page_table mm', [])" "mm_pages mm' = mm_pages mm + 1"
    "mm_page_table mm' \<noteq> 0" "mm_page_table mm = 0 \<longrightarrow> own (mm_page_table mm') = None"
    "\<forall>a. s2_lookup (dram h') (mm_page_table mm') a = (if s2_path a = s2_path ipa then page OR device_flags acc
       else if mm_page_table mm = 0 then 0 else s2_lookup (dram h) (mm_page_table mm) a)"
    "\<forall>q a. own q = Some (q, []) \<longrightarrow> q \<noteq> mm_page_table mm' \<longrightarrow> s2_lookup (dram h') q a = s2_lookup (dram h) q a"
    using isolated_MapPage [OF iso s2 ok m page(1) device_flags_low] page(2) by auto
  have f: "s2_inv own' h'" "own \<subseteq>\<^sub>m own'" "umm_used h' = umm_used h" "user_region h' = user_region h"
    "kmm_used h \<subseteq> kmm_used h'" and fr: "\<And>x. (\<And>p. p \<in> kmm_used h' \<Longrightarrow> \<not> x - p < 4096) \<Longrightarrow> dram h' x = dram h x"
    using o(1) by (auto simp: s2_frame_def user_region_def)
  have l: "layout_ok h'" using f(1) by (simp add: s2_inv_def heap_inv_layout)
  have "dram h' x = dram h x" if "p \<in> umm_used h" "x - p < 4096" for p x
    using fr guest_page_not_kernel [OF l, of p _ x] that f(3) by blast
  moreover have "own' q = Some (q, [])" if "own q = Some (q, [])" for q using map_le_root [OF f(2) that] .
  ultimately have "guests_step own own' (mm, h) (mm', h')"
    using o f by (simp add: guests_step_def guests_inv_def)
  moreover have "mm_lookup h' mm' a = (if s2_path a = s2_path ipa then page OR device_flags acc else mm_lookup h mm a)" for a
    using o(7,9) by (simp add: mm_lookup_def)
  ultimately show ?thesis using o(6,7) by blast
qed

lemma guests_step_refl: "guests_inv own h \<Longrightarrow> mm_ok own mm \<Longrightarrow> guests_step own own (mm, h) (mm, h)"
  by (simp add: guests_step_def map_le_def)

lemma MapDevices_spec:
  assumes "guests_inv own h" "mm_ok own mm" "MapDevices va acc pas (mm, h) = Inr (mm', h')"
    "\<forall>pa\<in>set pas. aligned 12 pa \<and> pa \<notin> user_region h"
  shows "\<exists>own'. guests_step own own' (mm, h) (mm', h') \<and>
    mm_pages mm' = mm_pages mm + of_nat (length pas) \<and>
    mm_lookup h' mm' = dev_view va (device_flags acc) pas (mm_lookup h mm)"
  using assms
proof (induction pas arbitrary: own mm h)
  case Nil
  then show ?case using guests_step_refl by fastforce
next
  case (Cons pa pas)
  obtain mm1 h1 where s1: "MapNewDevicePage mm (va pa) pa acc h = Inr (mm1, h1)"
    and s2: "MapDevices va acc pas (mm1, h1) = Inr (mm', h')"
    using Cons.prems(3) by (auto simp: rbind_eq_Inr)
  obtain own1 where o1: "guests_step own own1 (mm, h) (mm1, h1)" "mm_pages mm1 = mm_pages mm + 1"
    "\<forall>a. mm_lookup h1 mm1 a = (if s2_path a = s2_path (va pa) then pa OR device_flags acc else mm_lookup h mm a)"
    using MapNewDevicePage_spec [OF Cons.prems(1,2) s1] Cons.prems(4) by auto
  have i1: "guests_inv own1 h1" "mm_ok own1 mm1" "user_region h1 = user_region h"
    using o1(1) by (simp_all add: guests_step_def)
  have "\<forall>pa\<in>set pas. aligned 12 pa \<and> pa \<notin> user_region h1" using Cons.prems(4) i1(3) by simp
  from Cons.IH [OF i1(1,2) s2 this] obtain own' where o2: "guests_step own1 own' (mm1, h1) (mm', h')"
    "mm_pages mm' = mm_pages mm1 + of_nat (length pas)"
    "mm_lookup h' mm' = dev_view va (device_flags acc) pas (mm_lookup h1 mm1)" by blast
  have "guests_step own own' (mm, h) (mm', h')"
    using guests_step_trans [OF _ o1(1) o2(1)] Cons.prems(1) by simp
  moreover have "mm_lookup h1 mm1 = (\<lambda>a. if s2_path a = s2_path (va pa) then pa OR device_flags acc else mm_lookup h mm a)"
    using o1(3) by auto
  ultimately show ?case using o2(2,3) o1(2) by (intro exI [of _ own']) simp
qed


lemma operator_new_guests:
  assumes "operator_new n h = Inr (p, h')" "n \<noteq> 0" "guests_inv own h" "mm_ok own mm"
  shows "guests_step own own (mm, h) (mm, h')"
proof -
  have "kmm_malloc n h = Inr (p, h')"
    using assms(1) by (auto simp: operator_new_def rbind_eq_Inr split: if_splits)
  then show ?thesis using kmm_malloc_guests(1) assms(2-) by blast
qed

lemma guests_step_inv: "guests_step own own' mh (mm', h') \<Longrightarrow> guests_inv own' h' \<and> mm_ok own' mm'"
  by (cases mh) (simp add: guests_step_def)

lemma Queue_alloc_spec:
  assumes "Queue_alloc h = Inr (q, h')" "guests_inv own h" "mm_ok own mm"
  shows "guests_step own own (mm, h) (mm, h') \<and> queue_inv q \<and> queue_list q = [] \<and> dram h' = dram h"
proof -
  obtain p h1 p2 where a: "operator_new 16 h = Inr (p, h1)" "kmm_malloc 1024 h1 = Inr (p2, h')"
    and q: "q = Queue_new (\<lambda>i. load_le 4 (dram h') (p2 + of_nat (4 * i)))"
    using assms(1) by (auto simp: Queue_alloc_def rbind_eq_Inr)
  have s1: "guests_step own own (mm, h) (mm, h1)" using operator_new_guests [OF a(1) _ assms(2,3)] by simp
  have "kmm_malloc 16 h = Inr (p, h1)"
    using a(1) by (auto simp: operator_new_def rbind_eq_Inr split: if_splits)
  then have d1: "dram h1 = dram h" using kmm_malloc_guests(2) [OF _ _ assms(2,3)] by simp
  have i1: "guests_inv own h1" using guests_step_inv [OF s1] by blast
  note s2 = kmm_malloc_guests(1,2) [OF a(2) _ i1 assms(3), simplified]
  have "guests_step own own (mm, h) (mm, h')" using guests_step_trans [OF _ s1 s2(1)] assms(2) by simp
  then show ?thesis using s2(2) d1 by (simp add: q queue_inv_new)
qed

lemma Board_Init_spec:
  assumes "Board_Init b h = Inr (b', h')" "guests_inv own h" "mm_ok own mm"
  shows "guests_step own own (mm, h) (mm, h') \<and> dram h' = dram h \<and>
    queue_inv (console_in b') \<and> queue_list (console_in b') = [] \<and>
    queue_inv (console_out b') \<and> queue_list (console_out b') = [] \<and>
    virtio_uart b' = virtio_uart b \<and> virtio_gic b' = virtio_gic b"
proof -
  obtain p h1 qi h2 qo where a: "operator_new 16 h = Inr (p, h1)" "Queue_alloc h1 = Inr (qi, h2)"
    "Queue_alloc h2 = Inr (qo, h')" and b': "b' = b\<lparr>console_in := qi, console_out := qo\<rparr>"
    using assms(1) by (auto simp: Board_Init_def rbind_eq_Inr)
  have s1: "guests_step own own (mm, h) (mm, h1)" using operator_new_guests [OF a(1) _ assms(2,3)] by simp
  have "kmm_malloc 16 h = Inr (p, h1)"
    using a(1) by (auto simp: operator_new_def rbind_eq_Inr split: if_splits)
  then have d1: "dram h1 = dram h" using kmm_malloc_guests(2) [OF _ _ assms(2,3)] by simp
  have i1: "guests_inv own h1" using guests_step_inv [OF s1] by blast
  note s2 = Queue_alloc_spec [OF a(2) i1 assms(3)]
  have i2: "guests_inv own h2" using guests_step_inv s2 by blast
  note s3 = Queue_alloc_spec [OF a(3) i2 assms(3)]
  have "guests_step own own (mm, h) (mm, h2)" using guests_step_trans [OF _ s1] s2 assms(2) by simp
  then have "guests_step own own (mm, h) (mm, h')" using guests_step_trans s3 assms(2) by (metis snd_conv)
  then show ?thesis using s2 s3 d1 by (simp add: b')
qed

section \<open>Page numbers\<close>

lemma s2_path_number:
  assumes "unat a < 2 ^ 39" "unat b < 2 ^ 39"
  shows "s2_path a = s2_path b \<longleftrightarrow> unat a div 4096 = unat b div 4096"
proof -
  have "s2_path a = s2_path b \<longleftrightarrow> drop_bit 12 a = drop_bit 12 b"
  proof
    assume p: "s2_path a = s2_path b"
    have high: "\<not> bit x k" if "unat x < 2 ^ 39" "39 \<le> k" for x :: u64 and k
    proof -
      have "take_bit 39 (unat x) = unat x" using that(1) by (simp add: take_bit_nat_eq_self)
      then have "take_bit 39 x = x" by (simp add: word_unat_eq_iff unsigned_take_bit_eq)
      then show ?thesis using that(2) by (metis bit_take_bit_iff not_le)
    qed
    show "drop_bit 12 a = drop_bit 12 b"
    proof (rule bit_word_eqI)
      fix k assume "k < LENGTH(64)"
      show "bit (drop_bit 12 a) k = bit (drop_bit 12 b) k"
        using p [unfolded s2_path_bits, rule_format, of "12 + k"] high [OF assms(1), of "12 + k"]
          high [OF assms(2), of "12 + k"] by (cases "12 + k < 39") (auto simp: bit_drop_bit_eq)
    qed
  next
    assume d: "drop_bit 12 a = drop_bit 12 b"
    show "s2_path a = s2_path b" unfolding s2_path_bits
    proof (intro allI impI)
      fix k :: nat assume "12 \<le> k \<and> k < 39"
      then show "bit a k = bit b k" using arg_cong [OF d, of "\<lambda>w. bit w (k - 12)"] by (simp add: bit_drop_bit_eq)
    qed
  qed
  also have "\<dots> \<longleftrightarrow> unat a div 4096 = unat b div 4096"
    by (simp add: word_unat_eq_iff drop_bit_eq_div unat_div)
  finally show ?thesis .
qed

lemma dev_view_miss: "\<forall>p\<in>set ps. s2_path a \<noteq> s2_path (va p) \<Longrightarrow> dev_view va fl ps f a = f a"
  by (induction ps arbitrary: f) auto

lemma dev_view_hit:
  "p \<in> set ps \<Longrightarrow> s2_path a = s2_path (va p) \<Longrightarrow> \<forall>p'\<in>set ps. s2_path a = s2_path (va p') \<longrightarrow> p' = p \<Longrightarrow>
   dev_view va fl ps f a = p OR fl"
proof (induction ps arbitrary: f)
  case Nil
  then show ?case by simp
next
  case (Cons q ps)
  show ?case
  proof (cases "\<exists>p'\<in>set ps. s2_path a = s2_path (va p')")
    case True
    then obtain p' where p': "p' \<in> set ps" "s2_path a = s2_path (va p')" by blast
    have "p' = p" by (rule Cons.prems(3) [rule_format, OF _ p'(2)]) (simp add: p'(1))
    then have m: "p \<in> set ps" using p'(1) by (rule subst)
    have "\<forall>p'\<in>set ps. s2_path a = s2_path (va p') \<longrightarrow> p' = p"
      by (intro ballI impI, rule Cons.prems(3) [rule_format]) (simp, assumption)
    from Cons.IH [OF m Cons.prems(2) this] show ?thesis unfolding dev_view.simps .
  next
    case False
    have "p \<notin> set ps" using False Cons.prems(2) by blast
    then have "q = p" using Cons.prems(1) by simp
    have "dev_view va fl ps g a = g a" for g by (rule dev_view_miss) (use False in blast)
    then show ?thesis unfolding dev_view.simps \<open>q = p\<close> using Cons.prems(2) by simp
  qed
qed

text \<open>A run of n pages that starts at page number s, shown to the guest at page number v.\<close>

lemma dev_view_range:
  assumes ps: "ps = map (\<lambda>i. st + of_nat (i * 4096)) [0..<n]"
    and va: "\<And>i. i < n \<Longrightarrow> unat (va (st + of_nat (i * 4096))) = (v + i) * 4096"
    and b: "v + n \<le> 2 ^ 27" "unat a < 2 ^ 39"
  shows "dev_view va fl ps f a =
    (if v \<le> unat a div 4096 \<and> unat a div 4096 < v + n
     then (st + of_nat ((unat a div 4096 - v) * 4096)) OR fl else f a)"
proof -
  have path: "s2_path a = s2_path (va (st + of_nat (i * 4096))) \<longleftrightarrow> unat a div 4096 = v + i" if "i < n" for i
  proof -
    have "(v + i) * 4096 < 2 ^ 39" using that b(1) by simp
    then show ?thesis using s2_path_number [of a "va (st + of_nat (i * 4096))"] va [OF that] b(2) by simp
  qed
  show ?thesis
  proof (cases "v \<le> unat a div 4096 \<and> unat a div 4096 < v + n")
    case True
    let ?i = "unat a div 4096 - v"
    have i: "?i < n" "unat a div 4096 = v + ?i" using True by linarith+
    have "dev_view va fl ps f a = (st + of_nat (?i * 4096)) OR fl"
    proof (rule dev_view_hit)
      show "st + of_nat (?i * 4096) \<in> set ps" unfolding ps using i(1) by auto
      show "s2_path a = s2_path (va (st + of_nat (?i * 4096)))" using path [OF i(1)] i(2) by simp
      show "\<forall>p'\<in>set ps. s2_path a = s2_path (va p') \<longrightarrow> p' = st + of_nat (?i * 4096)"
        unfolding ps using path by auto
    qed
    then show ?thesis using True by simp
  next
    case False
    have "dev_view va fl ps f a = f a"
      by (rule dev_view_miss) (use path False in \<open>auto simp: ps\<close>)
    then show ?thesis using False by auto
  qed
qed

lemma device_run:
  assumes "unat st + n * 4096 < 2 ^ 64" "i < n"
  shows "unat (st + of_nat (i * 4096) :: u64) = unat st + i * 4096"
proof -
  have b: "unat st + i * 4096 < 2 ^ 64" using assms by linarith
  have "unat (of_nat (i * 4096) :: u64) = i * 4096"
    using b by (simp only: unsigned_of_nat) (simp add: take_bit_nat_eq_self)
  then show ?thesis using b by (simp add: unat_word_ariths)
qed

lemma device_run_page:
  assumes "aligned 12 st" "unat st + n * 4096 \<le> 0x40000000" "\<forall>x\<in>R. (0x40000000 :: u64) \<le> x"
  shows "\<forall>pa\<in>set (map (\<lambda>i. st + of_nat (i * 4096)) [0..<n]). aligned 12 pa \<and> pa \<notin> R"
proof -
  have "aligned 12 (st + of_nat (i * 4096)) \<and> st + of_nat (i * 4096) \<notin> R" if i: "i < n" for i
  proof
    have u: "unat (st + of_nat (i * 4096)) = unat st + i * 4096"
      by (rule device_run [OF _ i]) (use assms(2) in simp)
    have "4096 dvd unat st" using assms(1) by (simp add: aligned_dvd)
    then have "4096 dvd unat (st + of_nat (i * 4096))" unfolding u by (rule dvd_add) simp
    then show "aligned 12 (st + of_nat (i * 4096))" by (simp add: aligned_dvd)
    have "unat (st + of_nat (i * 4096)) < 0x40000000" unfolding u using assms(2) i by linarith
    then show "st + of_nat (i * 4096) \<notin> R" using assms(3) by (auto simp: word_le_nat_alt)
  qed
  then show ?thesis by auto
qed

lemma qemu_device_pages:
  "device_pages (GIC_V2_DISTRIBUTOR_BASE Qemu) (GIC_V2_CPU_INTERFACE_BASE Qemu) =
     map (\<lambda>i. 0x08000000 + of_nat (i * 4096)) [0..<16]"
  "device_pages (GIC_V2_VIRTUAL_CPU_BASE Qemu) (GIC_V2_VIRTUAL_CPU_BASE Qemu + 0x2000) =
     map (\<lambda>i. 0x08040000 + of_nat (i * 4096)) [0..<2]"
  "device_pages (UART0_BASE Qemu) (UART0_BASE Qemu + 0x1000) =
     map (\<lambda>i. 0x09000000 + of_nat (i * 4096)) [0..<1]"
  by (simp_all add: device_pages_def GIC_V2_DISTRIBUTOR_BASE_def GIC_V2_CPU_INTERFACE_BASE_def
      GIC_V2_VIRTUAL_CPU_BASE_def UART0_BASE_def)

text \<open>The device part of a QEMU guest's translation, by page number.\<close>

definition qemu_device_view :: "(u64 \<Rightarrow> u64) \<Rightarrow> u64 \<Rightarrow> u64" where
  "qemu_device_view f a =
     (let n = unat a div 4096
      in if n = 0x9000 then of_nat (n * 4096) OR kStage2PteDeviceNotAccessible
         else if 0x8010 \<le> n \<and> n < 0x8012 then of_nat ((n + 0x30) * 4096) OR kStage2PteDeviceAccessible
         else if 0x8000 \<le> n \<and> n < 0x8010 then of_nat (n * 4096) OR kStage2PteDeviceNotAccessible
         else f a)"

lemma of_nat_page_offset: "v \<le> n \<Longrightarrow> of_nat (v * 4096) + of_nat ((n - v) * 4096) = (of_nat (n * 4096) :: u64)"
  by (simp only: of_nat_add [symmetric] add_mult_distrib [symmetric]) simp

lemma qemu_view:
  assumes "unat a < 2 ^ 39"
  shows "dev_view (\<lambda>pa. pa) (device_flags False) (map (\<lambda>i. 0x09000000 + of_nat (i * 4096)) [0..<1])
     (dev_view (\<lambda>pa. pa - 0x30000) (device_flags True) (map (\<lambda>i. 0x08040000 + of_nat (i * 4096)) [0..<2])
     (dev_view (\<lambda>pa. pa) (device_flags False) (map (\<lambda>i. 0x08000000 + of_nat (i * 4096)) [0..<16]) f)) a =
     qemu_device_view f a"
proof -
  define n where "n = unat a div 4096"
  have u1: "unat (0x09000000 + of_nat (i * 4096) :: u64) = (0x9000 + i) * 4096" if "i < 1" for i
    using device_run [of "0x09000000" 1 i] that by simp
  have u2: "unat (0x08040000 + of_nat (i * 4096) - 0x30000 :: u64) = (0x8010 + i) * 4096" if "i < 2" for i
  proof -
    have "(0x08040000 + of_nat (i * 4096) - 0x30000 :: u64) = 0x08010000 + of_nat (i * 4096)" by simp
    then show ?thesis using device_run [of "0x08010000" 2 i] that by simp
  qed
  have u3: "unat (0x08000000 + of_nat (i * 4096) :: u64) = (0x8000 + i) * 4096" if "i < 16" for i
    using device_run [of "0x08000000" 16 i] that by simp
  have r1: "dev_view (\<lambda>pa. pa) fl (map (\<lambda>i. 0x09000000 + of_nat (i * 4096)) [0..<1]) g a =
    (if 0x9000 \<le> n \<and> n < 0x9000 + 1 then (0x09000000 + of_nat ((n - 0x9000) * 4096)) OR fl else g a)" for fl g
    unfolding n_def by (rule dev_view_range [OF refl u1 _ assms]) simp_all
  have r2: "dev_view (\<lambda>pa. pa - 0x30000) fl (map (\<lambda>i. 0x08040000 + of_nat (i * 4096)) [0..<2]) g a =
    (if 0x8010 \<le> n \<and> n < 0x8010 + 2 then (0x08040000 + of_nat ((n - 0x8010) * 4096)) OR fl else g a)" for fl g
    unfolding n_def by (rule dev_view_range [OF refl u2 _ assms]) simp_all
  have r3: "dev_view (\<lambda>pa. pa) fl (map (\<lambda>i. 0x08000000 + of_nat (i * 4096)) [0..<16]) g a =
    (if 0x8000 \<le> n \<and> n < 0x8000 + 16 then (0x08000000 + of_nat ((n - 0x8000) * 4096)) OR fl else g a)" for fl g
    unfolding n_def by (rule dev_view_range [OF refl u3 _ assms]) simp_all
  have o1: "(0x09000000 + of_nat ((n - 0x9000) * 4096) :: u64) = of_nat (n * 4096)" if "0x9000 \<le> n"
    using of_nat_page_offset [OF that] by simp
  have o2: "(0x08040000 + of_nat ((n - 0x8010) * 4096) :: u64) = of_nat ((n + 0x30) * 4096)" if "0x8010 \<le> n"
    using of_nat_page_offset [of "0x8040" "n + 0x30"] that by simp
  have o3: "(0x08000000 + of_nat ((n - 0x8000) * 4096) :: u64) = of_nat (n * 4096)" if "0x8000 \<le> n"
    using of_nat_page_offset [OF that] by simp
  show ?thesis
    unfolding r1 r2 r3 qemu_device_view_def n_def [symmetric] Let_def device_flags_def
    using o1 o2 o3 by (simp add: add.commute)
qed


lemma BoardQemu_Init_spec:
  assumes step: "BoardQemu_Init b mm h = Inr (b', mm', h')" and inv: "guests_inv own h" and ok: "mm_ok own mm"
    and ram: "\<forall>x\<in>user_region h. 0x40000000 \<le> x"
  shows "\<exists>own'. guests_step own own' (mm, h) (mm', h') \<and> mm_pages mm' = mm_pages mm + 19 \<and>
    queue_inv (console_in b') \<and> queue_list (console_in b') = [] \<and>
    queue_inv (console_out b') \<and> queue_list (console_out b') = [] \<and>
    virtio_uart b' = virtio_uart b \<and> virtio_gic b' = virtio_gic b \<and>
    (\<forall>a. unat a < 2 ^ 39 \<longrightarrow> mm_lookup h' mm' a = qemu_device_view (mm_lookup h mm) a)"
proof -
  obtain h0 mm1 h1 mm2 h2 where i: "Board_Init b h = Inr (b', h0)"
    and m1: "MapDevices (\<lambda>pa. pa) False (map (\<lambda>i. 0x08000000 + of_nat (i * 4096)) [0..<16]) (mm, h0) = Inr (mm1, h1)"
    and m2: "MapDevices (\<lambda>pa. pa - 0x30000) True (map (\<lambda>i. 0x08040000 + of_nat (i * 4096)) [0..<2]) (mm1, h1) = Inr (mm2, h2)"
    and m3: "MapDevices (\<lambda>pa. pa) False (map (\<lambda>i. 0x09000000 + of_nat (i * 4096)) [0..<1]) (mm2, h2) = Inr (mm', h')"
    using step unfolding BoardQemu_Init_def qemu_device_pages by (auto simp only: rbind_eq_Inr prod.case split_paired_Ex sum.inject prod.inject)
  note b = Board_Init_spec [OF i inv ok]
  have reg: "guests_inv own' (snd mh') \<and> mm_ok own' (fst mh') \<and> user_region (snd mh') = user_region (snd mh)"
    if "guests_step own own' mh mh'" for own own' mh mh'
    using that by (cases mh; cases mh') (simp add: guests_step_def)
  have low: "aligned 12 (0x08000000 :: u64)" "aligned 12 (0x08040000 :: u64)" "aligned 12 (0x09000000 :: u64)"
    by (simp_all add: aligned_def take_bit_eq_mask mask_eq_exp_minus_1)
  have s0: "guests_step own own (mm, h) (mm, h0)" using b by blast
  note r0 = reg [OF s0, simplified]
  have p1: "\<forall>pa\<in>set (map (\<lambda>i. 0x08000000 + of_nat (i * 4096)) [0..<16]). aligned 12 pa \<and> pa \<notin> user_region h0"
    by (rule device_run_page [OF low(1)]) (use r0 ram in simp_all)
  obtain own1 where s1: "guests_step own own1 (mm, h0) (mm1, h1)" "mm_pages mm1 = mm_pages mm + 16"
    "mm_lookup h1 mm1 = dev_view (\<lambda>pa. pa) (device_flags False) (map (\<lambda>i. 0x08000000 + of_nat (i * 4096)) [0..<16]) (mm_lookup h0 mm)"
    using MapDevices_spec [OF _ _ m1 p1] r0 by force
  note r1 = reg [OF s1(1), simplified]
  have p2: "\<forall>pa\<in>set (map (\<lambda>i. 0x08040000 + of_nat (i * 4096)) [0..<2]). aligned 12 pa \<and> pa \<notin> user_region h1"
    by (rule device_run_page [OF low(2)]) (use r0 r1 ram in simp_all)
  obtain own2 where s2: "guests_step own1 own2 (mm1, h1) (mm2, h2)" "mm_pages mm2 = mm_pages mm1 + 2"
    "mm_lookup h2 mm2 = dev_view (\<lambda>pa. pa - 0x30000) (device_flags True) (map (\<lambda>i. 0x08040000 + of_nat (i * 4096)) [0..<2]) (mm_lookup h1 mm1)"
    using MapDevices_spec [OF _ _ m2 p2] r1 by force
  note r2 = reg [OF s2(1), simplified]
  have p3: "\<forall>pa\<in>set (map (\<lambda>i. 0x09000000 + of_nat (i * 4096)) [0..<1]). aligned 12 pa \<and> pa \<notin> user_region h2"
    by (rule device_run_page [OF low(3)]) (use r0 r1 r2 ram in simp_all)
  obtain own3 where s3: "guests_step own2 own3 (mm2, h2) (mm', h')" "mm_pages mm' = mm_pages mm2 + 1"
    "mm_lookup h' mm' = dev_view (\<lambda>pa. pa) (device_flags False) (map (\<lambda>i. 0x09000000 + of_nat (i * 4096)) [0..<1]) (mm_lookup h2 mm2)"
    using MapDevices_spec [OF _ _ m3 p3] r2 by force
  have st: "guests_step own own3 (mm, h) (mm', h')"
    using guests_step_trans [OF _ guests_step_trans [OF _ guests_step_trans [OF _ s0 s1(1)] s2(1)] s3(1)] inv by simp
  have d0: "dram h0 = dram h" using b by blast
  have l0: "mm_lookup h0 mm = mm_lookup h mm" unfolding mm_lookup_def d0 ..
  have "mm_lookup h' mm' a = qemu_device_view (mm_lookup h mm) a" if "unat a < 2 ^ 39" for a
    unfolding s3(3) s2(3) s1(3) l0 using that by (rule qemu_view)
  then show ?thesis using st b s1(2) s2(2) s3(2) by (intro exI [of _ own3]) simp
qed

lemma MapDevices_total:
  assumes "guests_inv own h" "mm_ok own mm" "card (kmm_used h) + 3 * length pas \<le> HEAP_PAGES"
    "\<forall>pa\<in>set pas. aligned 12 pa \<and> pa \<notin> user_region h"
  shows "\<exists>mm' h'. MapDevices va acc pas (mm, h) = Inr (mm', h') \<and> card (kmm_used h') \<le> card (kmm_used h) + 3 * length pas"
  using assms
proof (induction pas arbitrary: own mm h)
  case Nil
  then show ?case by simp
next
  case (Cons pa pas)
  have hi: "heap_inv h" using Cons.prems(1) by (simp add: guests_inv_def s2_inv_def)
  have c: "card (kmm_used h) + 3 \<le> HEAP_PAGES" using Cons.prems(3) by simp
  obtain slot mm1 h1 where m: "MapPage mm (va pa AND PAGE_MASK) pa (device_flags acc) h = Inr (slot, mm1, h1)"
    "card (kmm_used h1) \<le> card (kmm_used h) + 3" by (rule MapPage_total [OF hi c])
  then have s: "MapNewDevicePage mm (va pa) pa acc h = Inr (mm1, h1)"
    by (simp add: MapNewDevicePage_def device_flags_def split: if_splits)
  obtain own1 where g: "guests_step own own1 (mm, h) (mm1, h1)"
    using MapNewDevicePage_spec [OF Cons.prems(1,2) s] Cons.prems(4) by auto
  have r: "user_region h1 = user_region h" using g by (simp add: guests_step_def)
  have "\<exists>mm' h'. MapDevices va acc pas (mm1, h1) = Inr (mm', h') \<and> card (kmm_used h') \<le> card (kmm_used h1) + 3 * length pas"
    by (rule Cons.IH [of own1]) (use guests_step_inv [OF g] m(2) Cons.prems(3,4) r in simp_all)
  then show ?case using s m(2) by fastforce
qed


lemma kmm_malloc_total:
  assumes "guests_inv own h" "card (kmm_used h) < HEAP_PAGES" "sz \<noteq> 0"
  obtains p h' where "kmm_malloc sz h = Inr (p, h')" "p \<noteq> 0" "guests_inv own h'"
    "card (kmm_used h') = Suc (card (kmm_used h))" "dram h' = dram h" "user_region h' = user_region h"
proof -
  have ok: "mm_ok own new_mm" by (simp add: mm_ok_def)
  have hinv: "heap_inv h" using assms(1) by (simp add: guests_inv_def s2_inv_def)
  obtain q h1 where "kmm_zalloc 4096 h = Inr (q, h1)" using kmm_zalloc_total [OF hinv assms(2)] by metis
  then have "first_index (\<lambda>i. \<not> kernelHeapMemMap h i) 0 HEAP_PAGES \<noteq> None"
    by (auto simp: kmm_zalloc_def kmm_malloc_def rbind_eq_Inr split: option.splits)
  moreover have "\<not> sz < 1" using assms(3) by (simp add: word_less_nat_alt unat_eq_0)
  ultimately obtain p h' where k: "kmm_malloc sz h = Inr (p, h')"
    by (auto simp: kmm_malloc_def)
  note g = kmm_malloc_guests [OF k assms(3,1) ok]
  note pg = kmm_malloc_page [OF k assms(3) hinv]
  have "guests_inv own h'" "user_region h' = user_region h" using g(1) by (simp_all add: guests_step_def)
  then show ?thesis using that [OF k g(3) _ _ g(2)] pg(2,3) kmm_used_finite by simp
qed

lemma operator_new_total:
  assumes "guests_inv own h" "card (kmm_used h) < HEAP_PAGES" "sz \<noteq> 0"
  obtains p h' where "operator_new sz h = Inr (p, h')" "p \<noteq> 0" "guests_inv own h'"
    "card (kmm_used h') = Suc (card (kmm_used h))" "dram h' = dram h" "user_region h' = user_region h"
  by (rule kmm_malloc_total [OF assms]) (simp add: operator_new_def that)

lemma Queue_alloc_total:
  assumes "guests_inv own h" "card (kmm_used h) + 2 \<le> HEAP_PAGES"
  obtains q h' where "Queue_alloc h = Inr (q, h')" "guests_inv own h'"
    "card (kmm_used h') = card (kmm_used h) + 2" "dram h' = dram h" "user_region h' = user_region h"
proof -
  have "card (kmm_used h) < HEAP_PAGES" using assms(2) by linarith
  then obtain p h1 where 1: "operator_new 16 h = Inr (p, h1)" "guests_inv own h1"
    "card (kmm_used h1) = Suc (card (kmm_used h))" "dram h1 = dram h" "user_region h1 = user_region h"
    by (rule operator_new_total [OF assms(1), of 16]) auto
  have "card (kmm_used h1) < HEAP_PAGES" using assms(2) 1(3) by linarith
  then obtain p2 h2 where 2: "kmm_malloc 1024 h1 = Inr (p2, h2)" "guests_inv own h2"
    "card (kmm_used h2) = Suc (card (kmm_used h1))" "dram h2 = dram h1" "user_region h2 = user_region h1"
    by (rule kmm_malloc_total [OF 1(2), of 1024]) auto
  then show ?thesis using that 1 by (simp add: Queue_alloc_def)
qed

lemma Board_Init_total:
  assumes "guests_inv own h" "card (kmm_used h) + 5 \<le> HEAP_PAGES"
  obtains b' h' where "Board_Init b h = Inr (b', h')" "guests_inv own h'"
    "card (kmm_used h') = card (kmm_used h) + 5" "dram h' = dram h" "user_region h' = user_region h"
proof -
  have "card (kmm_used h) < HEAP_PAGES" using assms(2) by linarith
  then obtain p h1 where 1: "operator_new 16 h = Inr (p, h1)" "guests_inv own h1"
    "card (kmm_used h1) = Suc (card (kmm_used h))" "dram h1 = dram h" "user_region h1 = user_region h"
    by (rule operator_new_total [OF assms(1), of 16]) auto
  have "card (kmm_used h1) + 2 \<le> HEAP_PAGES" using assms(2) 1(3) by linarith
  then obtain qi h2 where 2: "Queue_alloc h1 = Inr (qi, h2)" "guests_inv own h2"
    "card (kmm_used h2) = card (kmm_used h1) + 2" "dram h2 = dram h1" "user_region h2 = user_region h1"
    using Queue_alloc_total [OF 1(2)] by metis
  have "card (kmm_used h2) + 2 \<le> HEAP_PAGES" using assms(2) 1(3) 2(3) by linarith
  then obtain qo h3 where 3: "Queue_alloc h2 = Inr (qo, h3)" "guests_inv own h3"
    "card (kmm_used h3) = card (kmm_used h2) + 2" "dram h3 = dram h2" "user_region h3 = user_region h2"
    using Queue_alloc_total [OF 2(2)] by metis
  show ?thesis
  proof (rule that)
    show "Board_Init b h = Inr (b\<lparr>console_in := qi, console_out := qo\<rparr>, h3)"
      using 1 2 3 by (simp add: Board_Init_def)
  qed (use 1 2 3 in simp_all)
qed

lemma BoardQemu_Init_total:
  assumes inv: "guests_inv own h" and ok: "mm_ok own mm" and mem: "card (kmm_used h) + 62 \<le> HEAP_PAGES"
    and ram: "\<forall>x\<in>user_region h. 0x40000000 \<le> x"
  obtains b' mm' h' where "BoardQemu_Init b mm h = Inr (b', mm', h')" "card (kmm_used h') \<le> card (kmm_used h) + 62"
proof -
  have low: "aligned 12 (0x08000000 :: u64)" "aligned 12 (0x08040000 :: u64)" "aligned 12 (0x09000000 :: u64)"
    by (simp_all add: aligned_def take_bit_eq_mask mask_eq_exp_minus_1)
  have c0: "card (kmm_used h) + 5 \<le> HEAP_PAGES" using mem by linarith
  obtain b' h0 where 0: "Board_Init b h = Inr (b', h0)" "guests_inv own h0"
    "card (kmm_used h0) = card (kmm_used h) + 5" "user_region h0 = user_region h"
    using Board_Init_total [OF inv c0] by metis
  let ?p1 = "map (\<lambda>i. 0x08000000 + of_nat (i * 4096)) [0..<16] :: u64 list"
  let ?p2 = "map (\<lambda>i. 0x08040000 + of_nat (i * 4096)) [0..<2] :: u64 list"
  let ?p3 = "map (\<lambda>i. 0x09000000 + of_nat (i * 4096)) [0..<1] :: u64 list"
  have p1: "\<forall>pa\<in>set ?p1. aligned 12 pa \<and> pa \<notin> user_region h0"
    by (rule device_run_page [OF low(1)]) (use 0 ram in simp_all)
  obtain mm1 h1 where 1: "MapDevices (\<lambda>pa. pa) False ?p1 (mm, h0) = Inr (mm1, h1)" "card (kmm_used h1) \<le> card (kmm_used h0) + 48"
    using MapDevices_total [OF 0(2) ok _ p1, where va = "\<lambda>pa. pa" and acc = False] 0(3) mem by auto
  obtain own1 where o1: "guests_step own own1 (mm, h0) (mm1, h1)" using MapDevices_spec [OF 0(2) ok 1(1) p1] by blast
  note g1 = guests_step_inv [OF o1]
  have r1: "user_region h1 = user_region h" using o1 0(4) by (simp add: guests_step_def)
  have p2: "\<forall>pa\<in>set ?p2. aligned 12 pa \<and> pa \<notin> user_region h1"
    by (rule device_run_page [OF low(2)]) (use r1 ram in simp_all)
  obtain mm2 h2 where 2: "MapDevices (\<lambda>pa. pa - 0x30000) True ?p2 (mm1, h1) = Inr (mm2, h2)" "card (kmm_used h2) \<le> card (kmm_used h1) + 6"
    using MapDevices_total [OF _ _ _ p2, of own1 mm1 "\<lambda>pa. pa - 0x30000" True] g1 1(2) 0(3) mem by auto
  obtain own2 where o2: "guests_step own1 own2 (mm1, h1) (mm2, h2)" using MapDevices_spec [OF _ _ 2(1) p2] g1 by blast
  note g2 = guests_step_inv [OF o2]
  have r2: "user_region h2 = user_region h" using o2 r1 by (simp add: guests_step_def)
  have p3: "\<forall>pa\<in>set ?p3. aligned 12 pa \<and> pa \<notin> user_region h2"
    by (rule device_run_page [OF low(3)]) (use r2 ram in simp_all)
  obtain mm3 h3 where 3: "MapDevices (\<lambda>pa. pa) False ?p3 (mm2, h2) = Inr (mm3, h3)" "card (kmm_used h3) \<le> card (kmm_used h2) + 3"
    using MapDevices_total [OF _ _ _ p3, of own2 mm2 "\<lambda>pa. pa" False] g2 2(2) 1(2) 0(3) mem by auto
  have "BoardQemu_Init b mm h = Inr (b', mm3, h3)"
    unfolding BoardQemu_Init_def qemu_device_pages by (simp only: 0(1) 1(1) 2(1) 3(1) rbind_Inr prod.case)
  then show ?thesis using that 0(3) 1(2) 2(2) 3(2) by simp
qed

section \<open>Properties\<close>

text \<open>
  C25. Initialising the QEMU board for a guest succeeds while 62 kernel pages are free. Afterwards
  the guest's address space has the distributor and the serial port trapped, the virtual CPU
  interface in place of the CPU interface, and everything else as before; the console queues are
  empty, guest memory is as isolated as before and no other guest's translation has changed.
\<close>

theorem qemu_board_devices:
  assumes "guests_inv own h" and "mm_ok own mm" and "card (kmm_used h) + 62 \<le> HEAP_PAGES"
    and "\<forall>x\<in>user_region h. 0x40000000 \<le> x"
  shows "\<exists>b' mm' h' own'. board_Init Qemu b mm h = Inr (b', mm', h') \<and>
    (\<forall>a. unat a < 2 ^ 39 \<longrightarrow> mm_lookup h' mm' a = qemu_device_view (mm_lookup h mm) a) \<and>
    mm_pages mm' = mm_pages mm + 19 \<and>
    queue_list (console_in b') = [] \<and> queue_list (console_out b') = [] \<and> guests_step own own' (mm, h) (mm', h')"
proof -
  obtain b' mm' h' where i: "BoardQemu_Init b mm h = Inr (b', mm', h')" by (rule BoardQemu_Init_total [OF assms])
  then have "board_Init Qemu b mm h = Inr (b', mm', h')" by (simp add: board_Init_def)
  with BoardQemu_Init_spec [OF i assms(1,2,4)] show ?thesis by blast
qed

lemma demo_user_region: "\<forall>x\<in>user_region demo_heap. 0x40000000 \<le> x"
proof
  fix x assume "x \<in> user_region demo_heap"
  then obtain i where i: "i < 524288" "x = page_at 0x48100000 i" by (auto simp: user_region_def heap_boot_def)
  have "unat x = 0x48100000 + i * 4096"
    unfolding i(2) page_at_def using device_run [of "0x48100000" 524288 i] i(1) by simp
  then show "0x40000000 \<le> x" by (simp add: word_le_nat_alt)
qed

lemma demo_guests: "guests_inv (\<lambda>_. None) demo_heap" "mm_ok own new_mm"
  using s2_inv_empty [OF demo_heap_inv] by (simp_all add: guests_inv_def mm_ok_def)

abbreviation demo_board :: board where
  "demo_board \<equiv> \<lparr>console_in = Queue_new (\<lambda>_. 0), console_out = Queue_new (\<lambda>_. 0),
     virtio_uart = VirtioPl011Uart_new, virtio_gic = VirtioGic_new\<rparr>"

theorem qemu_board_devices_witness:
  "\<exists>b' mm' h'. board_Init Qemu demo_board new_mm demo_heap = Inr (b', mm', h') \<and>
     mm_lookup h' mm' 0x08010000 = 0x08040000 OR kStage2PteDeviceAccessible \<and> mm_lookup h' mm' 0x40000000 = 0"
proof -
  have c: "card (kmm_used demo_heap) + 62 \<le> HEAP_PAGES" by (simp add: demo_kmm_used HEAP_PAGES_def)
  obtain b' mm' h' where i: "board_Init Qemu demo_board new_mm demo_heap = Inr (b', mm', h')"
    and v: "\<forall>a. unat a < 2 ^ 39 \<longrightarrow> mm_lookup h' mm' a = qemu_device_view (mm_lookup demo_heap new_mm) a"
    using qemu_board_devices [OF demo_guests c demo_user_region, of demo_board] by blast
  show ?thesis using i v [rule_format, of "0x08010000"] v [rule_format, of "0x40000000"]
    by (simp add: qemu_device_view_def mm_lookup_def)
qed

lemma vgic_read_returns:
  assumes "vgic_ok r"
  shows "\<not> returns (VirtioGic_Read addr r) \<longleftrightarrow>
    (\<exists>k\<in>{0x80, 0x180, 0x280, 0x380 :: nat}. k \<le> unat addr \<and> unat addr < k + 0x80)"
proof -
  have "\<not> returns (VirtioGic_Read addr r) \<longleftrightarrow>
      (case vgic_slot (unat addr) of None \<Rightarrow> False | Some (b, i) \<Rightarrow> \<not> i < vgic_sizes ! b)"
    using vgic_bank_length [OF assms vgic_slot_bank]
    by (auto simp: VirtioGic_Read_slot arr_get_def returns_def split: option.splits)
  also note vgic_slot_outside
  finally show ?thesis .
qed

lemma windows_differ: "uart_window p \<noteq> gic_window p"
  by (cases p) (simp_all add: uart_window_def gic_window_def UART0_BASE_def GIC_V2_DISTRIBUTOR_BASE_def)

lemma low_bits_u16: "unat (ucast (a AND 0xFFF :: u64) :: u16) = unat (a AND 0xFFF)"
proof -
  have "a AND 0xFFF = take_bit 12 a" by (simp add: take_bit_eq_mask mask_eq_exp_minus_1)
  then have "unat (a AND 0xFFF) = take_bit 12 (unat a)" by (simp add: unsigned_take_bit_eq)
  then have "unat (a AND 0xFFF) < 2 ^ 12" by (simp only: take_bit_nat_less_exp)
  then show ?thesis by (simp add: unsigned_ucast_eq take_bit_nat_eq_self)
qed



end
