(* ===== verification/EvHyp.thy ===== *)
theory EvHyp
  imports EvBoard
begin

text \<open>
  The hypervisor as a whole: entering and leaving a guest (kernel/vm/vm.cc, sched_task_context.cc,
  sched_virq.cc, sched_task_console.cc), the creation of a task and the load of its image
  (sched_create_task.cc), and the serial line with its command keys (platforms/serial.cc).
\<close>

section \<open>State\<close>

text \<open>
  What a task does when it is switched to again: every task that is not running is suspended
  inside the hypervisor, in a call of \<open>SwitchTaskTo\<close>, or has not run yet.
\<close>

datatype resume = FirstRun | MainLoop | AfterWfx | AfterTick

text \<open>
  The singletons of the code in one record: the heap, the scheduler, the EL2 state of the CPU, the
  board, and the function statics: \<open>is_asserted\<close>, the template of \<open>CreateInitialCpuRegsTemplate\<close>
  (\<open>None\<close> until initialised) and the two flags of the serial interrupt handler. The list register 0
  of the interrupt controller is its only register the modelled code writes at run time, and
  \<open>hv_console\<close> collects what \<open>FlushConsole\<close> prints.
\<close>

record hv =
  hv_heap :: heap
  hv_sched :: sched
  hv_cpu :: cpu
  hv_board :: board
  is_asserted :: bool
  initial_vcpu_regs :: "VCpuSysregs option"
  hypervisor_command_comming :: bool
  hypervisor_command_switch_req :: bool
  hv_gich_lr0 :: u32
  hv_console :: "u32 list"
  hv_resume :: "nat \<Rightarrow> resume"

definition cur :: "hv \<Rightarrow> nat" where
  "cur hv = cur_tsk (hv_sched hv)"

definition current_task :: "hv \<Rightarrow> Tcb res" where
  "current_task hv = task_of (hv_sched hv) (cur hv)"

definition put_task :: "nat \<Rightarrow> Tcb \<Rightarrow> hv \<Rightarrow> hv" where
  "put_task i t hv = hv\<lparr>hv_sched := set_task i t (hv_sched hv)\<rparr>"

section \<open>Virtual interrupts and the stage 2 root\<close>

text \<open>The HCR bits of \<open>CpuEnableVIrqEl1\<close>, \<open>CpuDisableVirqEl1\<close>, \<open>CpuEnableVFiqEl1\<close>, \<open>CpuDisableVFiqEl1\<close>.\<close>

definition CpuEnableVIrqEl1 :: "cpu \<Rightarrow> cpu" where
  "CpuEnableVIrqEl1 c = c\<lparr>hcr_el2 := hcr_el2 c OR 0x80\<rparr>"

definition CpuDisableVirqEl1 :: "cpu \<Rightarrow> cpu" where
  "CpuDisableVirqEl1 c = c\<lparr>hcr_el2 := hcr_el2 c AND NOT 0x80\<rparr>"

definition CpuEnableVFiqEl1 :: "cpu \<Rightarrow> cpu" where
  "CpuEnableVFiqEl1 c = c\<lparr>hcr_el2 := hcr_el2 c OR 0x40\<rparr>"

definition CpuDisableVFiqEl1 :: "cpu \<Rightarrow> cpu" where
  "CpuDisableVFiqEl1 c = c\<lparr>hcr_el2 := hcr_el2 c AND NOT 0x40\<rparr>"

definition SetStage2PageTable :: "u64 \<Rightarrow> u64 \<Rightarrow> cpu \<Rightarrow> cpu" where
  "SetStage2PageTable table pid c = c\<lparr>vttbr_el2 := table OR push_bit 48 (pid AND 0xff)\<rparr>"

definition SetCpuVirtualInterrupt :: "nat \<Rightarrow> hv \<Rightarrow> hv res" where
  "SetCpuVirtualInterrupt i hv = rbind (task_of (hv_sched hv) i) (\<lambda>tsk.
     let hv = (if \<not> is_asserted hv \<and> tcb_board tsk \<and> IsIrqAsserted tsk
               then hv\<lparr>hv_cpu := CpuEnableVIrqEl1 (hv_cpu hv), is_asserted := True\<rparr>
               else if is_asserted hv \<and> tcb_board tsk \<and> \<not> IsIrqAsserted tsk
               then hv\<lparr>hv_cpu := CpuDisableVirqEl1 (hv_cpu hv), is_asserted := False\<rparr>
               else hv)
     in Inr (if tcb_board tsk \<and> IsFiqAsserted tsk
             then put_task i (tsk\<lparr>tcb_stat := (tcb_stat tsk)\<lparr>fiq_pending := False\<rparr>\<rparr>)
                    (hv\<lparr>hv_cpu := CpuEnableVFiqEl1 (hv_cpu hv)\<rparr>)
             else hv\<lparr>hv_cpu := CpuDisableVFiqEl1 (hv_cpu hv)\<rparr>))"

section \<open>Entering and leaving a guest\<close>

definition RunVcpu :: "nat \<Rightarrow> hv \<Rightarrow> hv res" where
  "RunVcpu i hv = rbind (task_of (hv_sched hv) i) (\<lambda>tsk.
     let c = SetStage2PageTable (mm_page_table (tcb_mm tsk)) (of_int (tcb_pid tsk)) (hv_cpu hv);
         c = c\<lparr>cpu_sysregs := CpuRegLoadVCpuSysregs (tcb_vcpu_sysregs tsk) (cpu_sysregs c)\<rparr>
     in SetCpuVirtualInterrupt i (hv\<lparr>hv_cpu := c\<rparr>))"

definition StopVcpu :: "nat \<Rightarrow> hv \<Rightarrow> hv res" where
  "StopVcpu i hv = rbind (task_of (hv_sched hv) i) (\<lambda>tsk.
     Inr (put_task i (tsk\<lparr>tcb_vcpu_sysregs :=
            CpuRegStoreVCpuSysregs (cpu_sysregs (hv_cpu hv)) (tcb_vcpu_sysregs tsk)\<rparr>) hv))"

text \<open>\<open>while (!console->out->Empty())\<close>: what is popped, and the queue at the end.\<close>

partial_function (option) console_drain :: "queue \<Rightarrow> (u32 list \<times> queue) option" where
  "console_drain q =
     (if Queue_Empty q then Some ([], q)
      else Option.bind (console_drain (snd (Queue_Pop q)))
             (\<lambda>(ds, q'). Some ((fst (Queue_Pop q) AND 0xff) # ds, q')))"

definition FlushConsole :: "nat \<Rightarrow> hv \<Rightarrow> hv res" where
  "FlushConsole i hv = rbind (task_of (hv_sched hv) i) (\<lambda>tsk.
     if \<not> tcb_board tsk then Inl NullDeref
     else case console_drain (console_out (hv_board hv)) of
       None \<Rightarrow> Inl Diverge
     | Some (ds, q) \<Rightarrow>
         Inr (hv\<lparr>hv_board := (hv_board hv)\<lparr>console_out := q\<rparr>, hv_console := hv_console hv @ ds\<rparr>))"

definition VmEnter :: "hv \<Rightarrow> hv res" where
  "VmEnter hv = rbind (current_task hv) (\<lambda>next_vcpu.
     let hv = (if tcb_board next_vcpu then put_task (cur hv) (Board_VmEnter (hv_board hv) next_vcpu) hv else hv)
     in rbind (if tcb_pid next_vcpu = uint (GetCurrentPidUsingConsole (hv_sched hv))
               then FlushConsole (cur hv) hv else Inr hv) (\<lambda>hv.
        RunVcpu (cur hv) hv))"

definition VmLeave :: "hv \<Rightarrow> hv res" where
  "VmLeave hv = rbind (current_task hv) (\<lambda>cur_vcpu.
     rbind (if tcb_pid cur_vcpu = uint (GetCurrentPidUsingConsole (hv_sched hv))
            then FlushConsole (cur hv) hv else Inr hv) (\<lambda>hv.
     StopVcpu (cur hv) hv))"

section \<open>Creating a task\<close>

text \<open>The addresses of code the new task's context refers to, chosen by the linker.\<close>

record symbols =
  sym_LoadTaskImage :: u64
  sym_KernelSwitchFromKThread :: u64

definition CreateInitialCpuRegsTemplate :: "Tcb \<Rightarrow> hv \<Rightarrow> Tcb \<times> hv" where
  "CreateInitialCpuRegsTemplate tsk hv =
     (let t = (case initial_vcpu_regs hv of
                 Some t \<Rightarrow> t
               | None \<Rightarrow> let t = CpuRegLoadVCpuAllSysregs (cpu_sysregs (hv_cpu hv)) (\<lambda>_. 0)
                         in t(SCTLR_EL1 := t SCTLR_EL1 AND NOT 1))
      in (tsk\<lparr>tcb_vcpu_sysregs := t\<rparr>, hv\<lparr>initial_vcpu_regs := Some t\<rparr>))"

text \<open>The \<open>VCpuContext\<close> takes 34 words at the top of the page of the block.\<close>

definition CreateTask :: "platform \<Rightarrow> symbols \<Rightarrow> u64 \<Rightarrow> u64 \<Rightarrow> hv \<Rightarrow> (nat \<times> hv) res" where
  "CreateTask p sy loader arg hv =
     rbind (kmm_zalloc (ucast PAGE_SIZE) (hv_heap hv)) (\<lambda>(page, h).
     let hv = hv\<lparr>hv_heap := h\<rparr>;
         tsk = zero_Tcb\<lparr>tcb_name := ''New vCPU'', tcb_state := RUNNING,
                 tcb_cpu_context := zero_CpuContext\<lparr>cc_x19_x28 := sym_LoadTaskImage sy # loader # arg # replicate 7 0\<rparr>,
                 tcb_priority := 1, tcb_counter := 1\<rparr>;
         (tsk, hv) = CreateInitialCpuRegsTemplate tsk hv;
         tsk = tsk\<lparr>tcb_board := True\<rparr>
     in rbind (board_Init p (hv_board hv) (tcb_mm tsk) (hv_heap hv)) (\<lambda>(b, mm, h).
        let tsk = tsk\<lparr>tcb_mm := mm,
              tcb_cpu_context := (tcb_cpu_context tsk)\<lparr>cc_pc := sym_KernelSwitchFromKThread sy,
                 cc_sp := page + ucast PAGE_SIZE - 272\<rparr>\<rparr>
        in rbind (AddTask tsk (hv_sched hv)) (\<lambda>(pid, s).
           Inr (pid, hv\<lparr>hv_board := b, hv_heap := h, hv_sched := s, hv_resume := (hv_resume hv)(pid := FirstRun)\<rparr>))))"

text \<open>
  The image loader is a function pointer of the code: it gets the address space of the new task and
  returns whether it succeeded, the entry point, the stack pointer and the name it gives the task.
\<close>

type_synonym loader = "MmContext \<times> heap \<Rightarrow> (bool \<times> u64 \<times> u64 \<times> string \<times> MmContext \<times> heap) res"

definition LoadTaskImage :: "loader \<Rightarrow> hv \<Rightarrow> hv res" where
  "LoadTaskImage load hv =
     rbind (GetVCpuRegs (cur hv) (hv_sched hv)) (\<lambda>regs.
     rbind (current_task hv) (\<lambda>tsk.
     rbind (load (tcb_mm tsk, hv_heap hv)) (\<lambda>(ok, pc, sp, name, mm, h).
       if \<not> ok then Inl Panic
       else RunVcpu (cur hv) (put_task (cur hv)
              (tsk\<lparr>tcb_name := name, tcb_mm := mm, tcb_vcpu := regs\<lparr>vc_pstate := 0x3c5, vc_pc := pc, vc_sp := sp\<rparr>\<rparr>)
              (hv\<lparr>hv_heap := h\<rparr>)))))"

section \<open>The serial line\<close>

definition NotifyVirqHardware :: "u16 \<Rightarrow> hv \<Rightarrow> hv" where
  "NotifyVirqHardware intid hv = hv\<lparr>hv_gich_lr0 :=
     0x80000000 OR push_bit 28 1 OR push_bit 10 (ucast intid) OR ucast intid\<rparr>"

text \<open>One line of \<open>PrintTasks\<close>; the third to last columns are the statistics.\<close>

type_synonym task_row = "int \<times> string \<times> string \<times> u64 \<times> u64 \<times> u64 \<times> u64 \<times> u64 \<times> u64 \<times> u64 \<times> u64"

definition task_row_of :: "sched \<Rightarrow> nat \<Rightarrow> task_row res" where
  "task_row_of s i =
     rbind (task_of s i) (\<lambda>tsk.
     rbind (GetVCpuRegs i s) (\<lambda>regs.
     rbind (state_name (tcb_state tsk)) (\<lambda>st.
       Inr (tcb_pid tsk, tcb_name tsk, st, vc_pc regs, mm_pages (tcb_mm tsk), page_faults (tcb_stat tsk),
            (0x1000 * mm_pages (tcb_mm tsk)) div 1024, wfx_traps (tcb_stat tsk), hvc_traps (tcb_stat tsk),
            sysreg_traps (tcb_stat tsk), mmios (tcb_stat tsk)))))"

fun task_rows :: "sched \<Rightarrow> nat list \<Rightarrow> task_row list res" where
  "task_rows s [] = Inr []"
| "task_rows s (i # is) = rbind (task_row_of s i) (\<lambda>r. rbind (task_rows s is) (\<lambda>rs. Inr (r # rs)))"

definition PrintTasks :: "sched \<Rightarrow> task_row list res" where
  "PrintTasks s = task_rows s [0..<count_tsks s]"

definition isdigit :: "int \<Rightarrow> bool" where
  "isdigit c \<longleftrightarrow> 48 \<le> c \<and> c \<le> 57"

text \<open>The handler of a received character.\<close>

definition Serial_receive :: "u8 \<Rightarrow> hv \<Rightarrow> hv res" where
  "Serial_receive c hv =
     (if hypervisor_command_comming hv
      then if hypervisor_command_switch_req hv
           then let done' = (\<lambda>hv. Inr (hv\<lparr>hypervisor_command_switch_req := False, hypervisor_command_comming := False\<rparr>))
                in if isdigit (uint c)
                   then let pid = uint c - 48
                        in rbind (GetTask pid (hv_sched hv)) (\<lambda>tsk.
                           case tsk of
                             None \<Rightarrow> done' hv
                           | Some i \<Rightarrow>
                               let hv = hv\<lparr>hv_sched := ConsoleSwitchTo (of_int pid) (hv_sched hv)\<rparr>
                               in rbind (task_of (hv_sched hv) i) (\<lambda>t.
                                  rbind (if tcb_state t = RUNNING then FlushConsole i hv else Inr hv) done'))
                   else done' hv
           else if c = 115 then Inr (hv\<lparr>hypervisor_command_switch_req := True\<rparr>)
           else if c = 108 then rbind (PrintTasks (hv_sched hv)) (\<lambda>_. Inr (hv\<lparr>hypervisor_command_comming := False\<rparr>))
           else Inr hv
      else if c = 63 then Inr (hv\<lparr>hypervisor_command_comming := True\<rparr>)
      else rbind (GetTask (uint (GetCurrentPidUsingConsole (hv_sched hv))) (hv_sched hv)) (\<lambda>tsk.
           case tsk of
             None \<Rightarrow> Inl NullDeref
           | Some i \<Rightarrow>
               rbind (task_of (hv_sched hv) i) (\<lambda>t.
               rbind (if tcb_state t = RUNNING
                      then if tcb_board t
                           then Inr (hv\<lparr>hv_board := (hv_board hv)\<lparr>console_in := snd (Queue_Push (ucast c) (console_in (hv_board hv)))\<rparr>\<rparr>)
                           else Inl NullDeref
                      else Inr hv) (\<lambda>hv.
                 Inr (NotifyVirqHardware 33 hv)))))"

end
