(* ===== verification/EvTrap.thy ===== *)
theory EvTrap
  imports EvHyp
begin

text \<open>
  Traps from a guest (arch/arm64/irq/trap.cc, mm/kmm_trap.cc), the scheduler tick, the loop of
  kernel/kernel_main.cc, and the hypervisor as a step relation.
\<close>

section \<open>Decoding a trap\<close>

definition kEsrEl2EcShift :: nat where "kEsrEl2EcShift = 26"
definition kEsrEl2EcTrapWfx :: u8 where "kEsrEl2EcTrapWfx = 1"
definition kEsrEl2EcTrapFpReg :: u8 where "kEsrEl2EcTrapFpReg = 7"
definition kEsrEl2EcHvc64 :: u8 where "kEsrEl2EcHvc64 = 0x16"
definition kEsrEl2EcTrapSystem :: u8 where "kEsrEl2EcTrapSystem = 0x18"
definition kEsrEl2EcTrapSve :: u8 where "kEsrEl2EcTrapSve = 0x19"
definition kEsrEl2EcDataAboartFromLow :: u8 where "kEsrEl2EcDataAboartFromLow = 0x24"

definition EsrEl2Ec :: "u64 \<Rightarrow> u8" where
  "EsrEl2Ec esr = ucast (drop_bit kEsrEl2EcShift esr AND 0x3f)"

definition data_abort_DFSC :: "u64 \<Rightarrow> u8" where
  "data_abort_DFSC esr = ucast (esr AND 0x3f)"

definition data_abort_SRT :: "u64 \<Rightarrow> u8" where
  "data_abort_SRT esr = ucast (drop_bit 16 esr AND 0x1f)"

definition data_abort_WNR :: "u64 \<Rightarrow> u8" where
  "data_abort_WNR esr = ucast (drop_bit 6 esr AND 1)"

section \<open>System registers\<close>

text \<open>The lines of the \<open>MSR\<close> and \<open>MRS\<close> macros, in order: register, op1, CRn, CRm, op2.\<close>

type_synonym sysreg_line = "sysreg \<times> u8 \<times> u8 \<times> u8 \<times> u8"

definition msr_lines :: "sysreg_line list" where
  "msr_lines = [(ACTLR_EL1, 0, 1, 0, 1), (CSSELR_EL1, 1, 0, 0, 0)]"

definition mrs_lines :: "sysreg_line list" where
  "mrs_lines = [
     (ACTLR_EL1, 0, 1, 0, 1),
     (ID_PFR0_EL1, 0, 0, 1, 0), (ID_PFR1_EL1, 0, 0, 1, 1), (ID_MMFR0_EL1, 0, 0, 1, 4),
     (ID_MMFR1_EL1, 0, 0, 1, 5), (ID_MMFR2_EL1, 0, 0, 1, 6), (ID_MMFR3_EL1, 0, 0, 1, 7),
     (ID_ISAR0_EL1, 0, 0, 2, 0), (ID_ISAR1_EL1, 0, 0, 2, 1), (ID_ISAR2_EL1, 0, 0, 2, 2),
     (ID_ISAR3_EL1, 0, 0, 2, 3), (ID_ISAR4_EL1, 0, 0, 2, 4), (ID_ISAR5_EL1, 0, 0, 2, 5),
     (MVFR0_EL1, 0, 0, 3, 0), (MVFR1_EL1, 0, 0, 3, 1), (MVFR2_EL1, 0, 0, 3, 2),
     (ID_AA64PFR0_EL1, 0, 0, 4, 0), (ID_AA64PFR1_EL1, 0, 0, 4, 1),
     (ID_AA64DFR0_EL1, 0, 0, 5, 0), (ID_AA64DFR1_EL1, 0, 0, 5, 1),
     (ID_AA64ISAR0_EL1, 0, 0, 6, 0), (ID_AA64ISAR1_EL1, 0, 0, 6, 1),
     (ID_AA64MMFR0_EL1, 0, 0, 7, 0), (ID_AA64MMFR1_EL1, 0, 0, 7, 1), (MPIDR_EL1, 0, 0, 7, 3),
     (ID_AA64AFR0_EL1, 0, 0, 5, 4), (ID_AA64AFR1_EL1, 0, 0, 5, 5), (REVIDR_EL1, 0, 0, 0, 6),
     (CCSIDR_EL1, 1, 0, 0, 0), (CLIDR_EL1, 1, 0, 0, 1), (AIDR_EL1, 1, 0, 0, 7),
     (CSSELR_EL1, 2, 0, 0, 0), (CTR_EL0, 3, 0, 0, 1)]"

definition find_line :: "sysreg_line list \<Rightarrow> u8 \<Rightarrow> u8 \<Rightarrow> u8 \<Rightarrow> u8 \<Rightarrow> sysreg option" where
  "find_line ls opc1 crn crm opc2 =
     map_option fst (find (\<lambda>(_, op1, n, m, op2). opc1 = op1 \<and> crn = n \<and> crm = m \<and> opc2 = op2) ls)"

text \<open>The block of task i is updated; the result says whether a line matched.\<close>

definition TrapMcrMrcInstructions ::
  "nat \<Rightarrow> u8 \<Rightarrow> u8 \<Rightarrow> u8 \<Rightarrow> u8 \<Rightarrow> u8 \<Rightarrow> u8 \<Rightarrow> hv \<Rightarrow> (bool \<times> hv) res" where
  "TrapMcrMrcInstructions i opc2 opc1 crn rt crm dir hv =
     rbind (task_of (hv_sched hv) i) (\<lambda>tsk.
     rbind (GetVCpuRegs i (hv_sched hv)) (\<lambda>regs.
     if dir = 0
     then case find_line msr_lines opc1 crn crm opc2 of
            None \<Rightarrow> Inr (False, hv)
          | Some r \<Rightarrow>
              rbind (arr_get (vc_regs regs) (unat rt)) (\<lambda>v.
              let hv = put_task i (tsk\<lparr>tcb_vcpu_sysregs := (tcb_vcpu_sysregs tsk)(r := v)\<rparr>) hv
              in rbind (IncrementCurrentTaskPc 4 (hv_sched hv)) (\<lambda>s. Inr (True, hv\<lparr>hv_sched := s\<rparr>)))
     else case find_line mrs_lines opc1 crn crm opc2 of
            None \<Rightarrow> Inr (False, hv)
          | Some r \<Rightarrow>
              rbind (arr_set (vc_regs regs) (unat rt) (tcb_vcpu_sysregs tsk r)) (\<lambda>rs.
              let hv = put_task i (tsk\<lparr>tcb_vcpu := regs\<lparr>vc_regs := rs\<rparr>\<rparr>) hv
              in rbind (IncrementCurrentTaskPc 4 (hv_sched hv)) (\<lambda>s. Inr (True, hv\<lparr>hv_sched := s\<rparr>)))))"

definition HandleTrapSystem :: "u32 \<Rightarrow> hv \<Rightarrow> hv res" where
  "HandleTrapSystem iss hv =
     (let cond = ucast (drop_bit 20 iss AND 0xf) :: u8;
          opc2 = ucast (drop_bit 17 iss AND 0x7);
          opc1 = ucast (drop_bit 14 iss AND 0x7);
          crn = ucast (drop_bit 10 iss AND 0xf);
          rt = ucast (drop_bit 5 iss AND 0x1f);
          crm = ucast (drop_bit 1 iss AND 0xf);
          dir = ucast (iss AND 0x1)
      in rbind (current_task hv) (\<lambda>tsk.
         let hv = put_task (cur hv) (tsk\<lparr>tcb_stat := (tcb_stat tsk)\<lparr>sysreg_traps := sysreg_traps (tcb_stat tsk) + 1\<rparr>\<rparr>) hv
         in if cond = 2 \<or> cond = 3
            then rbind (TrapMcrMrcInstructions (cur hv) opc2 opc1 crn rt crm dir hv) (\<lambda>(handled, hv).
                   if handled then Inr hv else Inl Panic)
            else Inl Panic))"

section \<open>Memory aborts\<close>

definition HandleMmTrapMemoryAccessFault :: "u64 \<Rightarrow> hv \<Rightarrow> (bool \<times> hv) res" where
  "HandleMmTrapMemoryAccessFault addr hv =
     rbind (current_task hv) (\<lambda>tsk.
     rbind (PageAllocate (hv_heap hv)) (\<lambda>(page, h).
       if page = 0 then Inr (False, hv\<lparr>hv_heap := h\<rparr>)
       else rbind (MapNewPage (tcb_mm tsk) addr page h (hv_cpu hv)) (\<lambda>(mm, h, c).
            Inr (True, put_task (cur hv)
              (tsk\<lparr>tcb_mm := mm, tcb_stat := (tcb_stat tsk)\<lparr>page_faults := page_faults (tcb_stat tsk) + 1\<rparr>\<rparr>)
              (hv\<lparr>hv_heap := h, hv_cpu := c\<rparr>)))))"

definition HandleMmTrapRegisterAccess :: "platform \<Rightarrow> u64 \<Rightarrow> u8 \<Rightarrow> bool \<Rightarrow> hv \<Rightarrow> (bool \<times> hv) res" where
  "HandleMmTrapRegisterAccess p addr srt read hv =
     rbind (current_task hv) (\<lambda>tsk.
     rbind (if tcb_board tsk
            then rbind (GetVCpuRegs (cur hv) (hv_sched hv)) (\<lambda>vcpu.
                 if read
                 then rbind (MmioRead p addr (hv_board hv)) (\<lambda>(v, b).
                      rbind (arr_set (vc_regs vcpu) (unat srt) v) (\<lambda>rs.
                        Inr (put_task (cur hv) (tsk\<lparr>tcb_vcpu := vcpu\<lparr>vc_regs := rs\<rparr>\<rparr>) (hv\<lparr>hv_board := b\<rparr>))))
                 else rbind (arr_get (vc_regs vcpu) (unat srt)) (\<lambda>v.
                      rbind (MmioWrite p addr v (hv_board hv)) (\<lambda>b. Inr (hv\<lparr>hv_board := b\<rparr>))))
            else Inr hv) (\<lambda>hv.
     rbind (IncrementCurrentTaskPc 4 (hv_sched hv)) (\<lambda>s.
     let hv = hv\<lparr>hv_sched := s\<rparr>
     in rbind (current_task hv) (\<lambda>tsk.
        Inr (True, put_task (cur hv) (tsk\<lparr>tcb_stat := (tcb_stat tsk)\<lparr>mmios := mmios (tcb_stat tsk) + 1\<rparr>\<rparr>) hv)))))"

definition HandleTrapMemAbort :: "platform \<Rightarrow> u64 \<Rightarrow> u64 \<Rightarrow> hv \<Rightarrow> (bool \<times> hv) res" where
  "HandleTrapMemAbort p addr esr hv =
     (let dfsc_without_level = drop_bit 2 (data_abort_DFSC esr)
      in if dfsc_without_level = 1 then HandleMmTrapMemoryAccessFault addr hv
         else if dfsc_without_level = 3
         then HandleMmTrapRegisterAccess p addr (data_abort_SRT esr) (data_abort_WNR esr = 0) hv
         else Inr (False, hv))"

section \<open>Switching tasks\<close>

text \<open>
  \<open>Schedule\<close> and the tick may switch to another task. The task that is left then stays suspended in
  the call, and the new current task goes on where it had stopped before. The result of the
  operations from here on says whether the caller goes on: \<open>False\<close> means that the current task has
  changed, and the argument r records the point where the one that was left will resume.
\<close>

definition switch_by :: "(sched \<times> cpu \<Rightarrow> (sched \<times> cpu) res) \<Rightarrow> resume \<Rightarrow> hv \<Rightarrow> (bool \<times> hv) res" where
  "switch_by f r hv =
     rbind (f (hv_sched hv, hv_cpu hv)) (\<lambda>(s, c).
     let hv' = hv\<lparr>hv_sched := s, hv_cpu := c\<rparr>
     in if cur_tsk s = cur hv then Inr (True, hv')
        else Inr (False, hv'\<lparr>hv_resume := (hv_resume hv)(cur hv := r)\<rparr>))"

definition AfterWfx_rest :: "hv \<Rightarrow> hv res" where
  "AfterWfx_rest hv =
     rbind (IncrementCurrentTaskPc 4 (hv_sched hv)) (\<lambda>s.
     let hv = hv\<lparr>hv_sched := s\<rparr>
     in rbind (current_task hv) (\<lambda>tsk.
        Inr (put_task (cur hv) (tsk\<lparr>tcb_stat := (tcb_stat tsk)\<lparr>wfx_traps := wfx_traps (tcb_stat tsk) + 1\<rparr>\<rparr>) hv)))"

definition HandleTrapWfx :: "hv \<Rightarrow> (bool \<times> hv) res" where
  "HandleTrapWfx hv =
     rbind (switch_by Schedule AfterWfx hv) (\<lambda>(here, hv).
       if here then rbind (AfterWfx_rest hv) (\<lambda>hv. Inr (True, hv)) else Inr (False, hv))"

definition TrapHandleLowerElAarch64Sync :: "platform \<Rightarrow> u64 \<Rightarrow> u64 \<Rightarrow> hv \<Rightarrow> (bool \<times> hv) res" where
  "TrapHandleLowerElAarch64Sync p esr far hv =
     (let ec = EsrEl2Ec esr
      in if ec = kEsrEl2EcTrapWfx then HandleTrapWfx hv
         else if ec = kEsrEl2EcTrapFpReg then Inl Panic
         else if ec = kEsrEl2EcHvc64 then Inl Panic
         else if ec = kEsrEl2EcTrapSystem
         then rbind (HandleTrapSystem (ucast (esr AND 0xfffffff)) hv) (\<lambda>hv. Inr (True, hv))
         else if ec = kEsrEl2EcTrapSve then Inl Panic
         else if ec = kEsrEl2EcDataAboartFromLow
         then rbind (HandleTrapMemAbort p far esr hv) (\<lambda>(ok, hv). if ok then Inr (True, hv) else Inl Panic)
         else if unat ec < 61 then Inl Panic else Inl OutOfBounds)"

section \<open>Exception vectors\<close>

text \<open>
  arch/arm64/irq/vectors.S: \<open>enter_hypervisor\<close> saves the registers of the guest in the frame at the
  top of its block and calls \<open>VmLeave\<close>, \<open>leave_hypervisor\<close> calls \<open>VmEnter\<close> and returns to the guest.
  A task that is switched to goes on with what its \<open>resume\<close> point says.
\<close>

definition enter_hypervisor :: "VCpuContext \<Rightarrow> hv \<Rightarrow> hv res" where
  "enter_hypervisor frame hv =
     rbind (current_task hv) (\<lambda>t.
       VmLeave (if cur hv = 0 then hv else put_task (cur hv) (t\<lparr>tcb_vcpu := frame\<rparr>) hv))"

definition resume_task :: "loader \<Rightarrow> hv \<Rightarrow> hv res" where
  "resume_task load hv =
     (case hv_resume hv (cur hv) of
        FirstRun \<Rightarrow> rbind (LoadTaskImage load hv) VmEnter
      | MainLoop \<Rightarrow> Inr hv
      | AfterWfx \<Rightarrow> rbind (AfterWfx_rest hv) VmEnter
      | AfterTick \<Rightarrow> VmEnter hv)"

definition go_on :: "loader \<Rightarrow> (hv \<Rightarrow> hv res) \<Rightarrow> bool \<times> hv \<Rightarrow> hv res" where
  "go_on load rest = (\<lambda>(here, hv). if here then rest hv else resume_task load hv)"

definition lower_el_aarch64_sync :: "platform \<Rightarrow> loader \<Rightarrow> VCpuContext \<Rightarrow> u64 \<Rightarrow> u64 \<Rightarrow> hv \<Rightarrow> hv res" where
  "lower_el_aarch64_sync p load frame esr far hv =
     rbind (enter_hypervisor frame hv) (\<lambda>hv.
     rbind (TrapHandleLowerElAarch64Sync p esr far hv) (go_on load VmEnter))"

text \<open>
  The two interrupts the hypervisor registers, the timer tick of the scheduler and the receipt of a
  character; both entry points, from a guest and from the init task, do the same.
\<close>

datatype irq = Tick | Received u8

definition CpuHandleIrq :: "irq \<Rightarrow> hv \<Rightarrow> (bool \<times> hv) res" where
  "CpuHandleIrq i hv =
     (case i of
        Tick \<Rightarrow> switch_by SchedTimerHandler AfterTick hv
      | Received c \<Rightarrow> rbind (Serial_receive c hv) (\<lambda>hv. Inr (True, hv)))"

definition el_irq :: "loader \<Rightarrow> VCpuContext \<Rightarrow> irq \<Rightarrow> hv \<Rightarrow> hv res" where
  "el_irq load frame i hv =
     rbind (enter_hypervisor frame hv) (\<lambda>hv.
     rbind (CpuHandleIrq i hv) (go_on load VmEnter))"

text \<open>One iteration of the loop of \<open>KernelMain\<close>, which the init task runs.\<close>

definition main_loop_step :: "loader \<Rightarrow> hv \<Rightarrow> hv res" where
  "main_loop_step load hv = rbind (switch_by Schedule MainLoop hv) (go_on load Inr)"

end
