(* ===== verification/EvInv.thy ===== *)
theory EvInv
  imports EvTrap
begin

text \<open>
  The invariant of the whole machine. Every handler either touches one task's block (\<open>touch\<close>) or
  extends one task's address space (\<open>vm_update\<close>), both of which are \<open>vm_step\<close>s: steps that keep the
  invariant and the translations and memory of all other guests.
\<close>

section \<open>Operations on one task\<close>

definition block_same :: "Tcb \<Rightarrow> Tcb \<Rightarrow> bool" where
  "block_same t t' \<longleftrightarrow> tcb_pid t' = tcb_pid t \<and> tcb_priority t' = tcb_priority t \<and> tcb_counter t' = tcb_counter t \<and>
     tcb_state t' = tcb_state t \<and> tcb_mm t' = tcb_mm t \<and> tcb_board t' = tcb_board t \<and>
     length (vc_regs (tcb_vcpu t')) = length (vc_regs (tcb_vcpu t))"

text \<open>Only the block of task i, the board, the console and the CPU change.\<close>

definition touch :: "nat \<Rightarrow> hv \<Rightarrow> hv \<Rightarrow> bool" where
  "touch i hv hv' \<longleftrightarrow> hv_heap hv' = hv_heap hv \<and> cur hv' = cur hv \<and>
     count_tsks (hv_sched hv') = count_tsks (hv_sched hv) \<and>
     length (tsks (hv_sched hv')) = length (tsks (hv_sched hv)) \<and>
     (\<forall>j. j \<noteq> i \<longrightarrow> tsks (hv_sched hv') ! j = tsks (hv_sched hv) ! j) \<and>
     (\<forall>t. tsks (hv_sched hv) ! i = Some t \<longrightarrow> (\<exists>t'. tsks (hv_sched hv') ! i = Some t' \<and> block_same t t')) \<and>
     (board_ok (hv_board hv) \<longrightarrow> board_ok (hv_board hv')) \<and> hv_resume hv' = hv_resume hv"

lemma block_same_refl [simp]: "block_same t t"
  by (simp add: block_same_def)

lemma block_same_trans: "block_same t t' \<Longrightarrow> block_same t' t'' \<Longrightarrow> block_same t t''"
  by (simp add: block_same_def)

lemma touch_refl [simp]: "touch i hv hv"
  by (simp add: touch_def)

lemma touch_trans: "touch i hv hv' \<Longrightarrow> touch i hv' hv'' \<Longrightarrow> touch i hv hv''"
proof -
  assume a: "touch i hv hv'" and b: "touch i hv' hv''"
  have "\<exists>t''. tsks (hv_sched hv'') ! i = Some t'' \<and> block_same t t''" if t: "tsks (hv_sched hv) ! i = Some t" for t
  proof -
    obtain t' where t': "tsks (hv_sched hv') ! i = Some t'" "block_same t t'" using a t unfolding touch_def by blast
    obtain t'' where "tsks (hv_sched hv'') ! i = Some t''" "block_same t' t''" using b t'(1) unfolding touch_def by blast
    then show ?thesis using block_same_trans t'(2) by blast
  qed
  then show ?thesis using a b by (simp add: touch_def)
qed

lemma task_of_Inr: "task_of s i = Inr t \<longleftrightarrow> i < length (tsks s) \<and> tsks s ! i = Some t"
  by (auto simp: task_of_def rbind_eq_Inr arr_get_eq_Inr split: option.splits)

lemma touch_put:
  assumes "task_of (hv_sched hv) i = Inr t" "block_same t t'"
  shows "touch i hv (put_task i t' hv)"
  using assms by (simp add: touch_def put_task_def set_task_def cur_def task_of_Inr)

lemma touch_cpu: "touch i hv (hv\<lparr>hv_cpu := c\<rparr>)" "touch i hv (hv\<lparr>is_asserted := b\<rparr>)"
  by (simp_all add: touch_def cur_def)

lemma touch_board: "(board_ok (hv_board hv) \<longrightarrow> board_ok b) \<Longrightarrow> touch i hv (hv\<lparr>hv_board := b\<rparr>)"
  by (simp add: touch_def cur_def)

lemma IncrementCurrentTaskPc_touch:
  assumes "IncrementCurrentTaskPc n (hv_sched hv) = Inr s"
  shows "touch (cur hv) hv (hv\<lparr>hv_sched := s\<rparr>)"
proof -
  obtain t where t: "task_of (hv_sched hv) (cur hv) = Inr t"
    and s: "s = set_task (cur hv) (t\<lparr>tcb_vcpu := (tcb_vcpu t)\<lparr>vc_pc := vc_pc (tcb_vcpu t) + of_int n\<rparr>\<rparr>) (hv_sched hv)"
    using assms by (auto simp: IncrementCurrentTaskPc_def GetVCpuRegs_def rbind_eq_Inr cur_def split: if_splits)
  have "hv\<lparr>hv_sched := s\<rparr> = put_task (cur hv) (t\<lparr>tcb_vcpu := (tcb_vcpu t)\<lparr>vc_pc := vc_pc (tcb_vcpu t) + of_int n\<rparr>\<rparr>) hv"
    by (simp add: put_task_def s)
  then show ?thesis using touch_put [OF t] by (simp add: block_same_def)
qed

lemma SetCpuVirtualInterrupt_touch:
  assumes "SetCpuVirtualInterrupt i hv = Inr hv'"
  shows "touch i hv hv'"
proof -
  obtain t where t: "task_of (hv_sched hv) i = Inr t"
    using assms by (auto simp: SetCpuVirtualInterrupt_def rbind_eq_Inr)
  define hv1 where "hv1 = (if \<not> is_asserted hv \<and> tcb_board t \<and> IsIrqAsserted t
               then hv\<lparr>hv_cpu := CpuEnableVIrqEl1 (hv_cpu hv), is_asserted := True\<rparr>
               else if is_asserted hv \<and> tcb_board t \<and> \<not> IsIrqAsserted t
               then hv\<lparr>hv_cpu := CpuDisableVirqEl1 (hv_cpu hv), is_asserted := False\<rparr>
               else hv)"
  have 1: "touch i hv hv1" "hv_sched hv1 = hv_sched hv" unfolding hv1_def by (simp_all add: touch_def cur_def)
  have r: "hv' = (if tcb_board t \<and> IsFiqAsserted t
             then put_task i (t\<lparr>tcb_stat := (tcb_stat t)\<lparr>fiq_pending := False\<rparr>\<rparr>)
                    (hv1\<lparr>hv_cpu := CpuEnableVFiqEl1 (hv_cpu hv1)\<rparr>)
             else hv1\<lparr>hv_cpu := CpuDisableVFiqEl1 (hv_cpu hv1)\<rparr>)"
    using assms unfolding SetCpuVirtualInterrupt_def t rbind_Inr Let_def hv1_def [symmetric] sum.inject by (rule sym)
  have "touch i hv1 hv'"
  proof (cases "tcb_board t \<and> IsFiqAsserted t")
    case True
    have "touch i (hv1\<lparr>hv_cpu := CpuEnableVFiqEl1 (hv_cpu hv1)\<rparr>) hv'"
      unfolding r if_P [OF True] by (rule touch_put) (simp_all add: 1 t block_same_def)
    then show ?thesis using touch_trans touch_cpu(1) by blast
  next
    case False
    then show ?thesis unfolding r if_not_P [OF False] by (simp add: touch_cpu)
  qed
  then show ?thesis using 1(1) touch_trans by blast
qed

lemma RunVcpu_touch: "RunVcpu i hv = Inr hv' \<Longrightarrow> touch i hv hv'"
proof -
  assume "RunVcpu i hv = Inr hv'"
  then obtain c where "SetCpuVirtualInterrupt i (hv\<lparr>hv_cpu := c\<rparr>) = Inr hv'"
    unfolding RunVcpu_def Let_def rbind_eq_Inr by blast
  then show ?thesis by (rule touch_trans [OF touch_cpu(1) SetCpuVirtualInterrupt_touch])
qed

lemma StopVcpu_touch:
  assumes "StopVcpu i hv = Inr hv'"
  shows "touch i hv hv'"
proof -
  obtain t where t: "task_of (hv_sched hv) i = Inr t"
    "hv' = put_task i (t\<lparr>tcb_vcpu_sysregs := CpuRegStoreVCpuSysregs (cpu_sysregs (hv_cpu hv)) (tcb_vcpu_sysregs t)\<rparr>) hv"
    using assms by (auto simp: StopVcpu_def rbind_eq_Inr)
  show ?thesis unfolding t(2) by (rule touch_put [OF t(1)]) (simp add: block_same_def)
qed

text \<open>The console drain returns everything that was queued, for any well-formed queue.\<close>

lemma console_drain_spec:
  assumes "queue_inv q"
  shows "\<exists>q'. console_drain q = Some (map (\<lambda>d. d AND 0xff) (queue_list q), q') \<and> queue_inv q' \<and> queue_list q' = []"
  using assms
proof (induction "queue_list q" arbitrary: q)
  case Nil
  then have "Queue_Empty q" using ring.empty_iff by metis
  then show ?case using Nil by (simp add: console_drain.simps)
next
  case (Cons d ds)
  have l: "queue_list q = d # ds" using Cons.hyps(2) by simp
  have e: "\<not> Queue_Empty q" using ring.empty_iff [OF Cons.prems] l by simp
  have p: "fst (Queue_Pop q) = d" "queue_list (snd (Queue_Pop q)) = ds" "queue_inv (snd (Queue_Pop q))"
    using ring.pop_spec [OF Cons.prems] ring.inv_pop [OF Cons.prems] l e by simp_all
  obtain q' where "console_drain (snd (Queue_Pop q)) = Some (map (\<lambda>d. d AND 0xff) ds, q')" "queue_inv q'" "queue_list q' = []"
    using Cons.hyps(1) [of "snd (Queue_Pop q)"] p by auto
  then show ?case using e p(1) l by (simp add: console_drain.simps [of q])
qed

lemma FlushConsole_touch:
  assumes "FlushConsole i hv = Inr hv'"
  shows "touch i' hv hv'"
proof -
  obtain ds q where d: "console_drain (console_out (hv_board hv)) = Some (ds, q)"
    and hv': "hv' = hv\<lparr>hv_board := (hv_board hv)\<lparr>console_out := q\<rparr>, hv_console := hv_console hv @ ds\<rparr>"
    using assms by (auto simp: FlushConsole_def rbind_eq_Inr split: if_splits option.splits)
  have "queue_inv q" if "board_ok (hv_board hv)"
    using console_drain_spec [of "console_out (hv_board hv)"] d that by (auto simp: board_ok_def)
  then show ?thesis by (simp add: hv' touch_def cur_def board_ok_def)
qed

lemma VmEnter_touch:
  assumes "VmEnter hv = Inr hv'"
  shows "touch (cur hv) hv hv'"
proof -
  obtain t where t: "task_of (hv_sched hv) (cur hv) = Inr t"
    using assms by (auto simp: VmEnter_def rbind_eq_Inr current_task_def)
  define hv1 where "hv1 = (if tcb_board t then put_task (cur hv) (Board_VmEnter (hv_board hv) t) hv else hv)"
  have "block_same t (Board_VmEnter (hv_board hv) t)" by (simp add: Board_VmEnter_def block_same_def)
  then have 1: "touch (cur hv) hv hv1" using touch_put [OF t] by (simp add: hv1_def)
  then have c1: "cur hv1 = cur hv" by (simp add: touch_def)
  have "rbind (if tcb_pid t = uint (GetCurrentPidUsingConsole (hv_sched hv1)) then FlushConsole (cur hv1) hv1 else Inr hv1)
      (\<lambda>hv. RunVcpu (cur hv) hv) = Inr hv'"
    using assms unfolding VmEnter_def current_task_def t rbind_Inr Let_def hv1_def [symmetric] .
  then obtain hv2 where f: "(if tcb_pid t = uint (GetCurrentPidUsingConsole (hv_sched hv1)) then FlushConsole (cur hv1) hv1
      else Inr hv1) = Inr hv2" and run: "RunVcpu (cur hv2) hv2 = Inr hv'" by (auto simp only: rbind_eq_Inr)
  have 2: "hv2 = hv1 \<or> FlushConsole (cur hv1) hv1 = Inr hv2" using f by (auto split: if_splits)
  have t2: "touch (cur hv) hv1 hv2" using 2 FlushConsole_touch by auto
  then have "cur hv2 = cur hv" using c1 by (simp add: touch_def)
  then show ?thesis using 1 t2 RunVcpu_touch [OF run] touch_trans by metis
qed

lemma VmLeave_touch:
  assumes "VmLeave hv = Inr hv'"
  shows "touch (cur hv) hv hv'"
proof -
  obtain hv1 where 1: "hv1 = hv \<or> FlushConsole (cur hv) hv = Inr hv1" "StopVcpu (cur hv1) hv1 = Inr hv'"
    using assms by (auto simp: VmLeave_def rbind_eq_Inr split: if_splits)
  then have t1: "touch (cur hv) hv hv1" using FlushConsole_touch by auto
  then have "cur hv1 = cur hv" by (simp add: touch_def)
  then show ?thesis using t1 StopVcpu_touch [OF 1(2)] touch_trans by metis
qed

lemma enter_hypervisor_touch:
  assumes "enter_hypervisor frame hv = Inr hv'" "length (vc_regs frame) = 31"
    "\<And>t. tsks (hv_sched hv) ! cur hv = Some t \<Longrightarrow> length (vc_regs (tcb_vcpu t)) = 31"
  shows "touch (cur hv) hv hv'"
proof -
  obtain t where t: "task_of (hv_sched hv) (cur hv) = Inr t"
    and v: "VmLeave (if cur hv = 0 then hv else put_task (cur hv) (t\<lparr>tcb_vcpu := frame\<rparr>) hv) = Inr hv'"
    using assms(1) by (auto simp: enter_hypervisor_def rbind_eq_Inr current_task_def)
  have "block_same t (t\<lparr>tcb_vcpu := frame\<rparr>)" using assms(2,3) t by (simp add: block_same_def task_of_Inr)
  then have 1: "touch (cur hv) hv (if cur hv = 0 then hv else put_task (cur hv) (t\<lparr>tcb_vcpu := frame\<rparr>) hv)"
    using touch_put [OF t] by simp
  have 2: "cur (if cur hv = 0 then hv else put_task (cur hv) (t\<lparr>tcb_vcpu := frame\<rparr>) hv) = cur hv"
    by (simp add: put_task_def cur_def set_task_def)
  show ?thesis using touch_trans [OF 1] VmLeave_touch [OF v] unfolding 2 by blast
qed

section \<open>The invariant of the machine\<close>

definition task :: "hv \<Rightarrow> nat \<Rightarrow> Tcb" where
  "task hv i = the (tsks (hv_sched hv) ! i)"

definition ntasks :: "hv \<Rightarrow> nat" where
  "ntasks hv = count_tsks (hv_sched hv)"

definition root_of :: "hv \<Rightarrow> nat \<Rightarrow> u64" where
  "root_of hv i = mm_page_table (tcb_mm (task hv i))"

definition block_ok :: "owner \<Rightarrow> nat \<Rightarrow> Tcb \<Rightarrow> bool" where
  "block_ok own i t \<longleftrightarrow> mm_ok own (tcb_mm t) \<and> length (vc_regs (tcb_vcpu t)) = 31 \<and> tcb_board t = (i \<noteq> 0) \<and>
     (i = 0 \<longrightarrow> mm_page_table (tcb_mm t) = 0)"

definition vm_ok :: "owner \<Rightarrow> hv \<Rightarrow> bool" where
  "vm_ok own hv \<longleftrightarrow> sched_inv (hv_sched hv) \<and> board_ok (hv_board hv) \<and> guests_inv own (hv_heap hv) \<and>
     (\<forall>i<ntasks hv. block_ok own i (task hv i)) \<and>
     (\<forall>i<ntasks hv. \<forall>j<ntasks hv. i \<noteq> j \<longrightarrow> root_of hv i \<noteq> 0 \<longrightarrow> root_of hv i \<noteq> root_of hv j)"

text \<open>What the guest of task i reaches at an address.\<close>

definition guest_lookup :: "hv \<Rightarrow> nat \<Rightarrow> u64 \<Rightarrow> u64" where
  "guest_lookup hv i a = mm_lookup (hv_heap hv) (tcb_mm (task hv i)) a"

text \<open>Scheduling data apart, a task is left as it is.\<close>

definition same_guest :: "hv \<Rightarrow> hv \<Rightarrow> nat \<Rightarrow> bool" where
  "same_guest hv hv' j \<longleftrightarrow> same_task (Some (task hv j)) (Some (task hv' j)) \<and>
     (\<forall>a. guest_lookup hv' j a = guest_lookup hv j a)"

text \<open>A step of the hypervisor that changes only the tasks of K.\<close>

definition vm_step :: "nat set \<Rightarrow> owner \<Rightarrow> owner \<Rightarrow> hv \<Rightarrow> hv \<Rightarrow> bool" where
  "vm_step K own own' hv hv' \<longleftrightarrow> vm_ok own' hv' \<and> own \<subseteq>\<^sub>m own' \<and>
     user_region (hv_heap hv') = user_region (hv_heap hv) \<and> ntasks hv \<le> ntasks hv' \<and>
     umm_used (hv_heap hv) \<subseteq> umm_used (hv_heap hv') \<and>
     (\<forall>j<ntasks hv. j \<notin> K \<longrightarrow> same_guest hv hv' j) \<and>
     (\<forall>p\<in>umm_used (hv_heap hv). \<forall>x. x - p < 4096 \<longrightarrow> dram (hv_heap hv') x = dram (hv_heap hv) x)"

lemma same_guest_refl [simp]: "same_guest hv hv j"
  by (simp add: same_guest_def)

lemma same_guest_trans: "same_guest hv hv' j \<Longrightarrow> same_guest hv' hv'' j \<Longrightarrow> same_guest hv hv'' j"
  unfolding same_guest_def by (metis same_task_trans)

lemma vm_step_refl: "vm_ok own hv \<Longrightarrow> vm_step {} own own hv hv"
  by (simp add: vm_step_def)

lemma vm_step_mono: "vm_step K own own' hv hv' \<Longrightarrow> K \<subseteq> K' \<Longrightarrow> vm_step K' own own' hv hv'"
  by (auto simp: vm_step_def)

lemma vm_step_trans:
  assumes a: "vm_step K own own' hv hv'" and b: "vm_step K' own' own'' hv' hv''"
  shows "vm_step (K \<union> K') own own'' hv hv''"
proof -
  have "same_guest hv hv'' j" if "j < ntasks hv" "j \<notin> K \<union> K'" for j
  proof -
    have "same_guest hv hv' j" using a that unfolding vm_step_def by blast
    moreover have "j < ntasks hv'" using a that(1) unfolding vm_step_def by linarith
    then have "same_guest hv' hv'' j" using b that(2) unfolding vm_step_def by blast
    ultimately show ?thesis by (rule same_guest_trans)
  qed
  moreover have "dram (hv_heap hv'') x = dram (hv_heap hv) x" if p: "p \<in> umm_used (hv_heap hv)" "x - p < 4096" for p x
  proof -
    have "dram (hv_heap hv') x = dram (hv_heap hv) x" using a p unfolding vm_step_def by blast
    moreover have "p \<in> umm_used (hv_heap hv')" using a p(1) unfolding vm_step_def by blast
    ultimately show ?thesis using b p(2) unfolding vm_step_def by metis
  qed
  moreover have "own \<subseteq>\<^sub>m own''" using a b map_le_trans unfolding vm_step_def by blast
  ultimately show ?thesis using a b unfolding vm_step_def by auto
qed

lemma vm_step_ok: "vm_step K own own' hv hv' \<Longrightarrow> vm_ok own' hv'"
  by (simp add: vm_step_def)

lemma vm_ok_task: "vm_ok own hv \<Longrightarrow> i < ntasks hv \<Longrightarrow> tsks (hv_sched hv) ! i = Some (task hv i) \<and> task_ok i (task hv i)"
  unfolding vm_ok_def ntasks_def task_def using task_of_ok [of "hv_sched hv" i] by fastforce

lemma vm_ok_cur: "vm_ok own hv \<Longrightarrow> cur hv < ntasks hv"
  by (simp add: vm_ok_def sched_inv_def cur_def ntasks_def)

lemma current_task_ok: "vm_ok own hv \<Longrightarrow> current_task hv = Inr (task hv (cur hv))"
proof -
  assume ok: "vm_ok own hv"
  have "ntasks hv \<le> length (tsks (hv_sched hv))" using ok by (simp add: vm_ok_def ntasks_def sched_inv_length)
  then have "cur hv < length (tsks (hv_sched hv))" using vm_ok_cur [OF ok] by linarith
  then show ?thesis using vm_ok_task [OF ok vm_ok_cur [OF ok]] by (simp add: current_task_def task_of_Inr)
qed

text \<open>The general step: the memory of one task's address space, its block and the board change.\<close>

lemma vm_update:
  assumes ok: "vm_ok own hv" and i: "i < ntasks hv"
    and mem: "guests_step own own' (tcb_mm (task hv i), hv_heap hv) (mm', hv_heap hv')"
    and zero: "i = 0 \<longrightarrow> mm_page_table mm' = 0"
    and board: "board_ok (hv_board hv')"
    and cnt: "count_tsks (hv_sched hv') = ntasks hv" "cur hv' = cur hv"
      "length (tsks (hv_sched hv')) = length (tsks (hv_sched hv))"
    and others: "\<And>j. j \<noteq> i \<Longrightarrow> tsks (hv_sched hv') ! j = tsks (hv_sched hv) ! j"
    and blk: "tsks (hv_sched hv') ! i = Some t'" "tcb_mm t' = mm'" "block_same (task hv i) (t'\<lparr>tcb_mm := tcb_mm (task hv i)\<rparr>)"
  shows "vm_step {i} own own' hv hv'"
proof -
  note g = mem [unfolded guests_step_def prod.case]
  have si: "sched_inv (hv_sched hv)" and bk: "\<And>j. j < ntasks hv \<Longrightarrow> block_ok own j (task hv j)"
    and dist: "\<And>j k. j < ntasks hv \<Longrightarrow> k < ntasks hv \<Longrightarrow> j \<noteq> k \<Longrightarrow> root_of hv j \<noteq> 0 \<Longrightarrow> root_of hv j \<noteq> root_of hv k"
    using ok by (simp_all add: vm_ok_def)
  have n: "ntasks hv' = ntasks hv" using cnt(1) by (simp add: ntasks_def)
  have tk: "task hv' j = (if j = i then t' else task hv j)" for j using others blk(1) by (simp add: task_def)
  have le: "own \<subseteq>\<^sub>m own'" using g by blast
  have rootown: "own (root_of hv j) = Some (root_of hv j, [])" if "j < ntasks hv" "root_of hv j \<noteq> 0" for j
    using bk [OF that(1)] that(2) by (simp add: block_ok_def mm_ok_def root_of_def)
  have ri: "root_of hv' i = mm_page_table mm'" and rj: "\<And>j. j \<noteq> i \<Longrightarrow> root_of hv' j = root_of hv j"
    using tk blk(2) by (simp_all add: root_of_def)
  have newroot: "root_of hv j \<noteq> mm_page_table mm'" if j: "j < ntasks hv" "j \<noteq> i" "root_of hv j \<noteq> 0" for j
  proof (cases "root_of hv i = 0")
    case True
    then have "mm_page_table mm' = 0 \<or> own (mm_page_table mm') = None" using g by (simp add: root_of_def)
    then show ?thesis using rootown [OF j(1,3)] j(3) by auto
  next
    case False
    then have "mm_page_table mm' = root_of hv i" using g by (simp add: root_of_def)
    then show ?thesis using dist [OF j(1) i j(2,3)] by simp
  qed
  have "task_ok i t'" using vm_ok_task [OF ok i] blk(3) by (simp add: task_ok_def block_same_def)
  then have "sched_inv (hv_sched hv')"
    using si cnt others blk(1) unfolding sched_inv_def ntasks_def cur_def by (metis less_irrefl)
  moreover have "block_ok own' j (task hv' j)" if "j < ntasks hv" for j
  proof (cases "j = i")
    case True
    then show ?thesis using bk [OF i] g zero blk(2,3) unfolding tk block_ok_def block_same_def by simp
  next
    case False
    have "mm_ok own' (tcb_mm (task hv j))" using bk [OF that] map_le_root [OF le] by (auto simp: block_ok_def mm_ok_def)
    then show ?thesis using bk [OF that] False unfolding tk block_ok_def by simp
  qed
  moreover have "root_of hv' j \<noteq> root_of hv' k"
    if "j < ntasks hv" "k < ntasks hv" "j \<noteq> k" "root_of hv' j \<noteq> 0" for j k
  proof -
    consider "j = i" | "k = i" "j \<noteq> i" | "j \<noteq> i" "k \<noteq> i" by blast
    then show ?thesis
    proof cases
      case 1
      then show ?thesis using that newroot [of k] ri rj by (metis)
    next
      case 2
      then show ?thesis using that newroot [of j] ri rj by metis
    next
      case 3
      then show ?thesis using that dist [of j k] rj by metis
    qed
  qed
  ultimately have ok': "vm_ok own' hv'" using g board n by (simp add: vm_ok_def)
  have "same_guest hv hv' j" if j: "j < ntasks hv" "j \<noteq> i" for j
  proof -
    have "guest_lookup hv' j a = guest_lookup hv j a" for a
    proof (cases "root_of hv j = 0")
      case True
      then show ?thesis using tk j by (simp add: guest_lookup_def mm_lookup_def root_of_def)
    next
      case False
      then have "s2_lookup (dram (hv_heap hv')) (root_of hv j) a = s2_lookup (dram (hv_heap hv)) (root_of hv j) a"
        using g rootown [OF j(1)] newroot [OF j] by blast
      then show ?thesis using tk j by (simp add: guest_lookup_def mm_lookup_def root_of_def)
    qed
    then show ?thesis using tk j by (simp add: same_guest_def)
  qed
  moreover have "user_region (hv_heap hv') = user_region (hv_heap hv)" "own \<subseteq>\<^sub>m own'"
    "umm_used (hv_heap hv) \<subseteq> umm_used (hv_heap hv')"
    "\<forall>p\<in>umm_used (hv_heap hv). \<forall>x. x - p < 4096 \<longrightarrow> dram (hv_heap hv') x = dram (hv_heap hv) x"
    using g by blast+
  ultimately show ?thesis using ok' n unfolding vm_step_def by simp
qed

lemma touch_vm:
  assumes "vm_ok own hv" "touch i hv hv'" "i < ntasks hv"
  shows "vm_step {i} own own hv hv'"
proof -
  obtain t' where t': "tsks (hv_sched hv') ! i = Some t'" "block_same (task hv i) t'"
    using assms(2) vm_ok_task [OF assms(1,3)] by (auto simp: touch_def)
  have "mm_ok own (tcb_mm (task hv i))" and z: "i = 0 \<longrightarrow> mm_page_table (tcb_mm (task hv i)) = 0"
    and h: "guests_inv own (hv_heap hv)" and b: "board_ok (hv_board hv)"
    using assms(1,3) by (auto simp: vm_ok_def block_ok_def)
  then have "guests_step own own (tcb_mm (task hv i), hv_heap hv) (tcb_mm (task hv i), hv_heap hv')"
    using assms(2) guests_step_refl by (simp add: touch_def)
  then show ?thesis
  proof (rule vm_update [OF assms(1,3)])
    show "tcb_mm t' = tcb_mm (task hv i)" "block_same (task hv i) (t'\<lparr>tcb_mm := tcb_mm (task hv i)\<rparr>)"
      using t'(2) by (simp_all add: block_same_def)
  qed (use assms(2) z b t' in \<open>simp_all add: touch_def ntasks_def\<close>)
qed

lemma switch_vm:
  assumes ok: "vm_ok own hv" and s: "sched_inv s" "same_sched (hv_sched hv) s"
    and hv': "hv_sched hv' = s" "hv_heap hv' = hv_heap hv" "hv_board hv' = hv_board hv"
  shows "vm_step {} own own hv hv'"
proof -
  have len: "ntasks hv \<le> length (tsks (hv_sched hv))"
    using ok by (simp add: vm_ok_def ntasks_def sched_inv_length)
  have n: "ntasks hv' = ntasks hv" using s(2) hv' by (simp add: ntasks_def same_sched_def)
  have t: "same_task (Some (task hv j)) (Some (task hv' j))" if "j < ntasks hv" for j
  proof -
    have "same_task (tsks (hv_sched hv) ! j) (tsks s ! j)" using s(2) that len by (simp add: same_sched_def)
    then obtain n ctx where "tsks s ! j = map_option (\<lambda>t. t\<lparr>tcb_counter := n, tcb_cpu_context := ctx\<rparr>) (tsks (hv_sched hv) ! j)"
      unfolding same_task_def by blast
    also have "\<dots> = Some ((task hv j)\<lparr>tcb_counter := n, tcb_cpu_context := ctx\<rparr>)"
      using conjunct1 [OF vm_ok_task [OF ok that]] by simp
    finally have "task hv' j = (task hv j)\<lparr>tcb_counter := n, tcb_cpu_context := ctx\<rparr>"
      unfolding task_def hv'(1) by simp
    then show ?thesis unfolding same_task_def by auto
  qed
  have f: "tcb_mm (task hv' j) = tcb_mm (task hv j) \<and> tcb_board (task hv' j) = tcb_board (task hv j) \<and>
      tcb_vcpu (task hv' j) = tcb_vcpu (task hv j)" if j: "j < ntasks hv" for j
  proof -
    obtain n ctx where "task hv' j = (task hv j)\<lparr>tcb_counter := n, tcb_cpu_context := ctx\<rparr>"
      using t [OF j] by (auto simp: same_task_def)
    then show ?thesis by simp
  qed
  have "vm_ok own hv'"
    using ok n f s(1) hv' unfolding vm_ok_def root_of_def block_ok_def by simp
  then show ?thesis using n t f hv' by (simp add: vm_step_def same_guest_def guest_lookup_def)
qed

end
