(* ===== verification/EvMachine.thy ===== *)
theory EvMachine
  imports EvInv
begin

text \<open>
  The machine as a step relation: guests run, trap and are interrupted, and the init task schedules.
  Every step keeps the invariant of EvInv and changes only the guests that run in it.
\<close>

section \<open>The machine\<close>

text \<open>
  A running guest writes only to guest pages its own translation reaches, and to its EL1 registers:
  that is what the stage 2 tables make the hardware enforce.
\<close>

definition guest_writes :: "hv \<Rightarrow> mem \<Rightarrow> bool" where
  "guest_writes hv m \<longleftrightarrow> (\<forall>x. m x \<noteq> dram (hv_heap hv) x \<longrightarrow>
     (\<exists>a. guest_lookup hv (cur hv) a AND PAGE_MASK \<in> user_region (hv_heap hv) \<and>
          x - (guest_lookup hv (cur hv) a AND PAGE_MASK) < 4096))"

inductive hv_step :: "platform \<Rightarrow> loader \<Rightarrow> hv \<Rightarrow> hv \<Rightarrow> bool" for p load where
  guest_runs: "hv_step p load hv (hv\<lparr>hv_heap := (hv_heap hv)\<lparr>dram := m\<rparr>, hv_cpu := (hv_cpu hv)\<lparr>cpu_sysregs := r\<rparr>\<rparr>)"
    if "cur hv \<noteq> 0" "guest_writes hv m"
| guest_traps: "hv_step p load hv hv'"
    if "cur hv \<noteq> 0" "length (vc_regs frame) = 31" "lower_el_aarch64_sync p load frame esr far hv = Inr hv'"
| interrupt: "hv_step p load hv hv'"
    if "length (vc_regs frame) = 31" "el_irq load frame i hv = Inr hv'"
| init_task: "hv_step p load hv hv'"
    if "cur hv = 0" "main_loop_step load hv = Inr hv'"

section \<open>Handlers keep the invariant\<close>

text \<open>A step of the machine that leaves the current task and the resume points alone.\<close>

lemma touch_current:
  assumes "vm_ok own hv" "touch (cur hv) hv hv'"
  shows "vm_step {cur hv} own own hv hv'" "cur hv' = cur hv" "hv_resume hv' = hv_resume hv"
  using touch_vm [OF assms vm_ok_cur [OF assms(1)]] assms(2) by (simp_all add: touch_def)

lemma TrapMcrMrc_touch:
  assumes "TrapMcrMrcInstructions (cur hv) opc2 opc1 crn rt crm dir hv = Inr (b, hv')"
  shows "touch (cur hv) hv hv'"
proof -
  obtain t regs where t: "task_of (hv_sched hv) (cur hv) = Inr t" and r: "GetVCpuRegs (cur hv) (hv_sched hv) = Inr regs"
    using assms by (auto simp: TrapMcrMrcInstructions_def rbind_eq_Inr)
  have regs: "regs = tcb_vcpu t" using r t by (auto simp: GetVCpuRegs_def split: if_splits)
  have inc: "touch (cur hv) hv hv'"
    if blk: "block_same t t'" and run: "rbind (IncrementCurrentTaskPc 4 (hv_sched (put_task (cur hv) t' hv)))
      (\<lambda>s. Inr (True, (put_task (cur hv) t' hv)\<lparr>hv_sched := s\<rparr>)) = Inr (b, hv')" for t'
  proof -
    obtain s where s: "IncrementCurrentTaskPc 4 (hv_sched (put_task (cur hv) t' hv)) = Inr s"
      "hv' = (put_task (cur hv) t' hv)\<lparr>hv_sched := s\<rparr>" using run by (auto simp: rbind_eq_Inr)
    have 1: "touch (cur hv) hv (put_task (cur hv) t' hv)" by (rule touch_put [OF t blk])
    then have "cur (put_task (cur hv) t' hv) = cur hv" by (simp add: touch_def)
    then show ?thesis using touch_trans [OF 1] IncrementCurrentTaskPc_touch [OF s(1)] s(2) by simp
  qed
  note e = assms [unfolded TrapMcrMrcInstructions_def t r rbind_Inr Let_def]
  show ?thesis
  proof (cases "dir = 0")
    case True
    note e1 = e [unfolded if_P [OF True]]
    show ?thesis
    proof (cases "find_line msr_lines opc1 crn crm opc2")
      case None
      then show ?thesis using e1 by simp
    next
      case (Some f)
      obtain v where "rbind (IncrementCurrentTaskPc 4 (hv_sched (put_task (cur hv) (t\<lparr>tcb_vcpu_sysregs := (tcb_vcpu_sysregs t)(f := v)\<rparr>) hv)))
        (\<lambda>s. Inr (True, (put_task (cur hv) (t\<lparr>tcb_vcpu_sysregs := (tcb_vcpu_sysregs t)(f := v)\<rparr>) hv)\<lparr>hv_sched := s\<rparr>)) = Inr (b, hv')"
        using e1 unfolding Some option.case by (auto simp only: rbind_eq_Inr [of "arr_get _ _"])
      from inc [OF _ this] show ?thesis by (simp add: block_same_def)
    qed
  next
    case False
    note e1 = e [unfolded if_not_P [OF False]]
    show ?thesis
    proof (cases "find_line mrs_lines opc1 crn crm opc2")
      case None
      then show ?thesis using e1 by simp
    next
      case (Some f)
      obtain rs where "arr_set (vc_regs regs) (unat rt) (tcb_vcpu_sysregs t f) = Inr rs" and
        "rbind (IncrementCurrentTaskPc 4 (hv_sched (put_task (cur hv) (t\<lparr>tcb_vcpu := regs\<lparr>vc_regs := rs\<rparr>\<rparr>) hv)))
        (\<lambda>s. Inr (True, (put_task (cur hv) (t\<lparr>tcb_vcpu := regs\<lparr>vc_regs := rs\<rparr>\<rparr>) hv)\<lparr>hv_sched := s\<rparr>)) = Inr (b, hv')"
        using e1 unfolding Some option.case by (auto simp only: rbind_eq_Inr [of "arr_set _ _ _"])
      from inc [OF _ this(2)] this(1) show ?thesis by (simp add: block_same_def arr_set_eq_Inr regs)
    qed
  qed
qed

lemma if_Inl_D: "(if C then m else Inl e) = Inr y \<Longrightarrow> m = Inr y"
  by (cases C) simp_all

lemma handled_D: "rbind m (\<lambda>(b, x). if b then Inr x else Inl e) = Inr y \<Longrightarrow> m = Inr (True, y)"
  by (cases m) (auto split: if_splits prod.splits)

lemma HandleTrapSystem_touch:
  assumes "HandleTrapSystem iss hv = Inr hv'"
  shows "touch (cur hv) hv hv'"
proof -
  obtain t where t: "task_of (hv_sched hv) (cur hv) = Inr t"
    using assms by (auto simp: HandleTrapSystem_def Let_def rbind_eq_Inr current_task_def)
  let ?hv = "put_task (cur hv) (t\<lparr>tcb_stat := (tcb_stat t)\<lparr>sysreg_traps := sysreg_traps (tcb_stat t) + 1\<rparr>\<rparr>) hv"
  have 1: "touch (cur hv) hv ?hv" by (rule touch_put [OF t]) (simp add: block_same_def)
  note tr = handled_D [OF if_Inl_D [OF assms [unfolded HandleTrapSystem_def Let_def current_task_def t rbind_Inr]]]
  have c: "cur ?hv = cur hv" using 1 unfolding touch_def by (elim conjE)
  from TrapMcrMrc_touch [OF tr] have "touch (cur hv) ?hv hv'" unfolding c .
  then show ?thesis by (rule touch_trans [OF 1])
qed

lemma new_guest_page_step:
  assumes inv: "guests_inv own h" and ok: "mm_ok own mm"
    and z: "umm_zalloc 4096 h = Inr (page, h1)" and step: "MapPage mm ipa page kStage2PteDram h1 = Inr (slot, mm', h')"
  shows "\<exists>own'. guests_step own own' (mm, h) (mm', h') \<and> page \<notin> umm_used h \<and> page \<in> umm_used h' \<and>
    mm_page_table mm' \<noteq> 0"
proof -
  have "s2_inv own h" "guest_isolated own h" using inv by (simp_all add: guests_inv_def)
  from new_guest_page [OF this ok z step] obtain own' where o:
    "s2_inv own' h'" "guest_isolated own' h'" "mm_ok own' mm'" "own \<subseteq>\<^sub>m own'"
    "mm_page_table mm \<noteq> 0 \<longrightarrow> mm_page_table mm' = mm_page_table mm"
    "page \<notin> umm_used h" "umm_used h' = insert page (umm_used h)"
    "\<forall>p\<in>umm_used h. \<forall>x. x - p < 4096 \<longrightarrow> dram h' x = dram h x"
    "user_region h' = user_region h" "kmm_used h \<subseteq> kmm_used h'" "mm_page_table mm' \<noteq> 0"
    "mm_page_table mm = 0 \<longrightarrow> own (mm_page_table mm') = None"
    "\<forall>q a. own q = Some (q, []) \<longrightarrow> q \<noteq> mm_page_table mm' \<longrightarrow> s2_lookup (dram h') q a = s2_lookup (dram h) q a"
    by blast
  have "own' q = Some (q, [])" if "own q = Some (q, [])" for q using map_le_root [OF o(4) that] .
  moreover have "umm_used h \<subseteq> umm_used h'" using o(7) by blast
  ultimately have "guests_step own own' (mm, h) (mm', h')"
    unfolding guests_step_def prod.case guests_inv_def using o by simp
  then show ?thesis using o(6,7,11) by blast
qed

lemma MemoryAccessFault_vm:
  assumes ok: "vm_ok own hv" and c: "cur hv \<noteq> 0" and r: "HandleMmTrapMemoryAccessFault addr hv = Inr (True, hv')"
  shows "\<exists>own'. vm_step {cur hv} own own' hv hv' \<and> cur hv' = cur hv \<and> hv_resume hv' = hv_resume hv"
proof -
  let ?t = "task hv (cur hv)"
  obtain page h1 mm' h' c' where z: "umm_zalloc 4096 (hv_heap hv) = Inr (page, h1)"
    and m: "MapNewPage (tcb_mm ?t) addr page h1 (hv_cpu hv) = Inr (mm', h', c')"
    and hv': "hv' = put_task (cur hv)
      (?t\<lparr>tcb_mm := mm', tcb_stat := (tcb_stat ?t)\<lparr>page_faults := page_faults (tcb_stat ?t) + 1\<rparr>\<rparr>)
      (hv\<lparr>hv_heap := h', hv_cpu := c'\<rparr>)"
    using r current_task_ok [OF ok]
    by (auto simp: HandleMmTrapMemoryAccessFault_def PageAllocate_def PAGE_SIZE_def rbind_eq_Inr split: if_splits)
  obtain slot where mp: "MapPage (tcb_mm ?t) (addr AND PAGE_MASK) page kStage2PteDram h1 = Inr (slot, mm', h')"
    using m by (auto simp: MapNewPage_def rbind_eq_Inr)
  have cn: "cur hv < ntasks hv" by (rule vm_ok_cur [OF ok])
  have g: "guests_inv own (hv_heap hv)" "mm_ok own (tcb_mm ?t)" "board_ok (hv_board hv)"
    using ok cn by (auto simp: vm_ok_def block_ok_def)
  obtain own' where o: "guests_step own own' (tcb_mm ?t, hv_heap hv) (mm', h')"
    using new_guest_page_step [OF g(1,2) z mp] by blast
  have len: "cur hv < length (tsks (hv_sched hv))"
    using cn ok sched_inv_length [of "hv_sched hv"] by (simp add: vm_ok_def ntasks_def)
  have "vm_step {cur hv} own own' hv hv'"
  proof (rule vm_update [OF ok cn])
    show "guests_step own own' (tcb_mm ?t, hv_heap hv) (mm', hv_heap hv')" using o by (simp add: hv' put_task_def)
    show "tsks (hv_sched hv') ! cur hv =
        Some (?t\<lparr>tcb_mm := mm', tcb_stat := (tcb_stat ?t)\<lparr>page_faults := page_faults (tcb_stat ?t) + 1\<rparr>\<rparr>)"
      using len by (simp add: hv' put_task_def set_task_def)
  qed (use c g in \<open>simp_all add: hv' put_task_def set_task_def ntasks_def cur_def block_same_def\<close>)
  then show ?thesis by (auto simp: hv' put_task_def cur_def set_task_def)
qed

section \<open>A running guest\<close>

text \<open>Writing outside the tables keeps the invariants.\<close>

lemma other_writes:
  assumes inv: "guests_inv own h" and w: "\<And>x p. m x \<noteq> dram h x \<Longrightarrow> own p \<noteq> None \<Longrightarrow> \<not> x - p < 4096"
  shows "guests_inv own (h\<lparr>dram := m\<rparr>)"
    and "own q = Some (q, []) \<Longrightarrow> s2_lookup m q a = s2_lookup (dram h) q a"
proof -
  have s2: "s2_inv own h" and iso: "guest_isolated own h" using inv by (simp_all add: guests_inv_def)
  have tree: "table_tree (read_pte (dram h)) own" using s2 by (simp add: s2_inv_def)
  have same: "read_pte m p j = read_pte (dram h) p j" if p: "own p \<noteq> None" "j < 512" for p j
  proof -
    have "m (p + of_nat (8 * j) + of_nat k) = dram h (p + of_nat (8 * j) + of_nat k)" if k: "k < 8" for k
    proof (rule ccontr)
      let ?x = "p + of_nat (8 * j) + of_nat k"
      assume "m ?x \<noteq> dram h ?x"
      then have "\<not> ?x - p < 4096" using w p(1) by blast
      moreover have "?x - p = of_nat (8 * j + k)" by simp
      moreover have "unat (of_nat (8 * j + k) :: u64) = 8 * j + k"
        using p(2) k by (intro unat_of_nat_u64) simp
      ultimately show False using p(2) k by (simp add: word_less_nat_alt)
    qed
    then show ?thesis unfolding read_pte_def load_le_def by (intro foldr_cong) auto
  qed
  have look: "s2_lookup m q a = s2_lookup (dram h) q a" if "own q = Some (q, [])" for q a
    unfolding s2_lookup_def using that by (intro walk_same [OF tree same]) auto
  then show "own q = Some (q, []) \<Longrightarrow> s2_lookup m q a = s2_lookup (dram h) q a" .
  have keep: "heap_inv (h\<lparr>dram := m\<rparr>) = heap_inv h" "kmm_used (h\<lparr>dram := m\<rparr>) = kmm_used h"
    "umm_used (h\<lparr>dram := m\<rparr>) = umm_used h" "user_region (h\<lparr>dram := m\<rparr>) = user_region h"
    by (simp_all add: heap_inv_def layout_ok_def kmm_used_def umm_used_def user_region_def user_page_used_def)
  have "s2_inv own (h\<lparr>dram := m\<rparr>)"
    using tree_same [OF tree same] s2 keep by (simp add: s2_inv_def)
  moreover have "guest_isolated own (h\<lparr>dram := m\<rparr>)"
    using iso unfolding guest_isolated_def keep by (simp add: look) blast
  ultimately show "guests_inv own (h\<lparr>dram := m\<rparr>)" by (simp add: guests_inv_def)
qed

text \<open>Writing to guest pages in use changes no table.\<close>

lemma user_writes:
  assumes inv: "guests_inv own h" and w: "\<And>x. m x \<noteq> dram h x \<Longrightarrow> \<exists>p\<in>umm_used h. x - p < 4096"
  shows "guests_inv own (h\<lparr>dram := m\<rparr>)"
    and "own q = Some (q, []) \<Longrightarrow> s2_lookup m q a = s2_lookup (dram h) q a"
proof -
  have l: "layout_ok h" and dom: "dom own \<subseteq> kmm_used h"
    using inv by (simp_all add: guests_inv_def s2_inv_def heap_inv_layout)
  have "\<not> x - p < 4096" if x: "m x \<noteq> dram h x" and p: "own p \<noteq> None" for x p
  proof -
    obtain u where u: "u \<in> umm_used h" "x - u < 4096" using w [OF x] by blast
    have "p \<in> kmm_used h" using dom p by auto
    then show ?thesis using guest_page_not_kernel [OF l u(1) _ u(2)] by blast
  qed
  note o = other_writes [OF inv this]
  show "guests_inv own (h\<lparr>dram := m\<rparr>)" by (rule o(1))
  show "own q = Some (q, []) \<Longrightarrow> s2_lookup m q a = s2_lookup (dram h) q a" by (rule o(2))
qed

text \<open>A fresh zeroed kernel page that is no table.\<close>

lemma kmm_zalloc_guests:
  assumes z: "kmm_zalloc 4096 h = Inr (p, h')" and inv: "guests_inv own h" and ok: "mm_ok own mm"
  shows "guests_step own own (mm, h) (mm, h')"
proof -
  obtain h1 where m: "kmm_malloc 4096 h = Inr (p, h1)" and h': "h' = h1\<lparr>dram := dram h'\<rparr>"
    using z by (auto simp: kmm_zalloc_def rbind_eq_Inr)
  have hinv: "heap_inv h" and l: "layout_ok h" and dom: "dom own \<subseteq> kmm_used h"
    using inv by (simp_all add: guests_inv_def s2_inv_def heap_inv_layout)
  note k = kmm_malloc_guests [OF m _ inv ok, simplified]
  have i1: "guests_inv own h1" using guests_step_inv [OF k(1)] by blast
  have l1: "layout_ok h1" using i1 by (simp add: guests_inv_def s2_inv_def heap_inv_layout)
  have ap: "aligned 12 p" using kmm_used_page [OF l1 k(4)] by simp
  have d: "x - p < 4096" if "dram h' x \<noteq> dram h1 x" for x
    using kmm_zalloc_page(5) [OF z hinv] k(2) that by (auto split: if_splits)
  have w: "\<not> x - q < 4096" if x: "dram h' x \<noteq> dram h1 x" and q: "own q \<noteq> None" for x q
  proof -
    have "q \<in> kmm_used h" using dom q by auto
    then have "aligned 12 q" "p \<noteq> q" using kmm_used_page [OF l] k(5) by auto
    then show ?thesis using aligned_pages_disjoint [OF ap _ _ d [OF x]] by blast
  qed
  note o = other_writes [OF i1, of "dram h'"]
  have "guests_inv own h'" using o(1) w h' by metis
  moreover have "s2_lookup (dram h') q a = s2_lookup (dram h1) q a" if "own q = Some (q, [])" for q a
    using o(2) [OF _ that] w by blast
  moreover have "kmm_used h' = kmm_used h1" "umm_used h' = umm_used h1" "user_region h' = user_region h1"
    by (subst h', simp add: kmm_used_def umm_used_def user_region_def user_page_used_def)+
  moreover have "dram h' x = dram h1 x" if u: "u \<in> umm_used h1" "x - u < 4096" for u x
    using guest_page_not_kernel [OF l1 u(1) k(4) u(2)] d by blast
  ultimately have "guests_step own own (mm, h1) (mm, h')"
    using ok by (simp add: guests_step_def map_le_def)
  then show ?thesis using guests_step_trans [OF _ k(1)] inv by simp
qed

text \<open>The pages a guest reaches are in use, and no other guest reaches them.\<close>

lemma guest_page_used:
  assumes ok: "vm_ok own hv" and i: "i < ntasks hv" and r: "guest_lookup hv i a AND PAGE_MASK \<in> user_region (hv_heap hv)"
  shows "guest_lookup hv i a AND PAGE_MASK \<in> umm_used (hv_heap hv)"
    and "j < ntasks hv \<Longrightarrow> guest_lookup hv i a AND PAGE_MASK = guest_lookup hv j b AND PAGE_MASK \<Longrightarrow>
      i = j \<and> s2_path a = s2_path b"
proof -
  have g: "guests_inv own (hv_heap hv)" and bk: "\<And>j. j < ntasks hv \<Longrightarrow> block_ok own j (task hv j)"
    and dist: "\<And>j k. j < ntasks hv \<Longrightarrow> k < ntasks hv \<Longrightarrow> j \<noteq> k \<Longrightarrow> root_of hv j \<noteq> 0 \<Longrightarrow> root_of hv j \<noteq> root_of hv k"
    using ok by (simp_all add: vm_ok_def)
  have iso: "guest_isolated own (hv_heap hv)" using g by (simp add: guests_inv_def)
  have nz: "root_of hv k \<noteq> 0 \<and> own (root_of hv k) = Some (root_of hv k, []) \<and>
      guest_lookup hv k c = s2_lookup (dram (hv_heap hv)) (root_of hv k) c"
    if "k < ntasks hv" "guest_lookup hv k c AND PAGE_MASK \<in> user_region (hv_heap hv)" for k c
  proof -
    have l: "layout_ok (hv_heap hv)" using g by (simp add: guests_inv_def s2_inv_def heap_inv_layout)
    have "guest_lookup hv k c AND PAGE_MASK \<noteq> 0" using that(2) user_region_nonzero [OF l] by metis
    then have "guest_lookup hv k c \<noteq> 0" by auto
    then have "root_of hv k \<noteq> 0" by (auto simp: guest_lookup_def mm_lookup_def root_of_def)
    then show ?thesis using bk [OF that(1)] by (simp add: block_ok_def mm_ok_def root_of_def guest_lookup_def mm_lookup_def)
  qed
  note ni = nz [OF i r]
  show "guest_lookup hv i a AND PAGE_MASK \<in> umm_used (hv_heap hv)"
    using iso ni r unfolding guest_isolated_def by metis
  assume j: "j < ntasks hv" and e: "guest_lookup hv i a AND PAGE_MASK = guest_lookup hv j b AND PAGE_MASK"
  have nj: "root_of hv j \<noteq> 0 \<and> own (root_of hv j) = Some (root_of hv j, []) \<and>
      guest_lookup hv j b = s2_lookup (dram (hv_heap hv)) (root_of hv j) b"
    by (rule nz [OF j]) (use r e in simp)
  have "root_of hv i = root_of hv j \<and> s2_path a = s2_path b"
    using iso ni nj r e unfolding guest_isolated_def by metis
  then show "i = j \<and> s2_path a = s2_path b" using dist [OF i j] ni by blast
qed

lemma guest_runs_vm:
  assumes ok: "vm_ok own hv" and w: "guest_writes hv m"
    and hv': "hv' = hv\<lparr>hv_heap := (hv_heap hv)\<lparr>dram := m\<rparr>, hv_cpu := c\<rparr>"
  shows "vm_ok own hv'" and "j < ntasks hv \<Longrightarrow> guest_lookup hv' j a = guest_lookup hv j a"
    and "j < ntasks hv \<Longrightarrow> j \<noteq> cur hv \<Longrightarrow> guest_lookup hv j a AND PAGE_MASK \<in> user_region (hv_heap hv) \<Longrightarrow>
      x - (guest_lookup hv j a AND PAGE_MASK) < 4096 \<Longrightarrow> m x = dram (hv_heap hv) x"
proof -
  have g: "guests_inv own (hv_heap hv)" using ok by (simp add: vm_ok_def)
  have l: "layout_ok (hv_heap hv)" using g by (simp add: guests_inv_def s2_inv_def heap_inv_layout)
  have cn: "cur hv < ntasks hv" by (rule vm_ok_cur [OF ok])
  have dm: "\<exists>a. guest_lookup hv (cur hv) a AND PAGE_MASK \<in> umm_used (hv_heap hv) \<and>
      guest_lookup hv (cur hv) a AND PAGE_MASK \<in> user_region (hv_heap hv) \<and>
      x - (guest_lookup hv (cur hv) a AND PAGE_MASK) < 4096" if "m x \<noteq> dram (hv_heap hv) x" for x
    using w that guest_page_used(1) [OF ok cn] unfolding guest_writes_def by blast
  note u = user_writes [OF g, of m]
  have inv: "guests_inv own ((hv_heap hv)\<lparr>dram := m\<rparr>)" using u(1) dm by blast
  have look: "s2_lookup m q a = s2_lookup (dram (hv_heap hv)) q a" if "own q = Some (q, [])" for q a
    using u(2) [OF _ that] dm by blast
  have t: "task hv' = task hv" "ntasks hv' = ntasks hv" "root_of hv' = root_of hv"
    by (simp_all add: hv' task_def ntasks_def root_of_def fun_eq_iff)
  show "vm_ok own hv'" using ok inv unfolding vm_ok_def t by (simp add: hv')
  show "guest_lookup hv' j a = guest_lookup hv j a" if "j < ntasks hv"
  proof -
    have "mm_ok own (tcb_mm (task hv j))" using ok that by (simp add: vm_ok_def block_ok_def)
    then show ?thesis using look unfolding guest_lookup_def t mm_lookup_def mm_ok_def by (auto simp: hv')
  qed
  show "m x = dram (hv_heap hv) x"
    if j: "j < ntasks hv" "j \<noteq> cur hv" "guest_lookup hv j a AND PAGE_MASK \<in> user_region (hv_heap hv)"
      "x - (guest_lookup hv j a AND PAGE_MASK) < 4096"
  proof (rule ccontr)
    assume "m x \<noteq> dram (hv_heap hv) x"
    then obtain b where b: "guest_lookup hv (cur hv) b AND PAGE_MASK \<in> umm_used (hv_heap hv)"
      "guest_lookup hv (cur hv) b AND PAGE_MASK \<in> user_region (hv_heap hv)"
      "x - (guest_lookup hv (cur hv) b AND PAGE_MASK) < 4096" using dm by blast
    have "guest_lookup hv (cur hv) b AND PAGE_MASK \<noteq> guest_lookup hv j a AND PAGE_MASK"
      using guest_page_used(2) [OF ok cn b(2) j(1)] j(2) by blast
    moreover have "guest_lookup hv j a AND PAGE_MASK \<in> umm_used (hv_heap hv)" by (rule guest_page_used(1) [OF ok j(1,3)])
    ultimately show False
      using aligned_pages_disjoint [of "guest_lookup hv (cur hv) b AND PAGE_MASK" "guest_lookup hv j a AND PAGE_MASK" x]
        umm_used_page [OF l b(1)] umm_used_page [OF l] b(3) j(4) by blast
  qed
qed

section \<open>Memory-mapped devices and the trap dispatch\<close>

lemma AfterWfx_touch:
  assumes "AfterWfx_rest hv = Inr hv'"
  shows "touch (cur hv) hv hv'"
proof -
  obtain s where s: "IncrementCurrentTaskPc 4 (hv_sched hv) = Inr s" using assms by (auto simp: AfterWfx_rest_def rbind_eq_Inr)
  have 1: "touch (cur hv) hv (hv\<lparr>hv_sched := s\<rparr>)" by (rule IncrementCurrentTaskPc_touch [OF s])
  then have c: "cur (hv\<lparr>hv_sched := s\<rparr>) = cur hv" by (simp add: touch_def)
  obtain t where t: "task_of s (cur hv) = Inr t"
    "hv' = put_task (cur hv) (t\<lparr>tcb_stat := (tcb_stat t)\<lparr>wfx_traps := wfx_traps (tcb_stat t) + 1\<rparr>\<rparr>) (hv\<lparr>hv_sched := s\<rparr>)"
    using assms c by (auto simp: AfterWfx_rest_def s rbind_eq_Inr current_task_def)
  have "touch (cur hv) (hv\<lparr>hv_sched := s\<rparr>) hv'"
    unfolding t(2) by (rule touch_put) (simp_all add: t(1) block_same_def)
  then show ?thesis by (rule touch_trans [OF 1])
qed

lemma RegisterAccess_touch:
  assumes "HandleMmTrapRegisterAccess p addr srt rd hv = Inr (b, hv')"
  shows "touch (cur hv) hv hv'" and "b = True"
proof -
  obtain t where t: "task_of (hv_sched hv) (cur hv) = Inr t"
    using assms by (auto simp: HandleMmTrapRegisterAccess_def rbind_eq_Inr current_task_def)
  obtain hv1 s where
    acc: "(if tcb_board t
            then rbind (GetVCpuRegs (cur hv) (hv_sched hv)) (\<lambda>vcpu.
                 if rd
                 then rbind (MmioRead p addr (hv_board hv)) (\<lambda>(v, b).
                      rbind (arr_set (vc_regs vcpu) (unat srt) v) (\<lambda>rs.
                        Inr (put_task (cur hv) (t\<lparr>tcb_vcpu := vcpu\<lparr>vc_regs := rs\<rparr>\<rparr>) (hv\<lparr>hv_board := b\<rparr>))))
                 else rbind (arr_get (vc_regs vcpu) (unat srt)) (\<lambda>v.
                      rbind (MmioWrite p addr v (hv_board hv)) (\<lambda>b. Inr (hv\<lparr>hv_board := b\<rparr>))))
            else Inr hv) = Inr hv1"
    and s: "IncrementCurrentTaskPc 4 (hv_sched hv1) = Inr s"
    and rest: "rbind (current_task (hv1\<lparr>hv_sched := s\<rparr>)) (\<lambda>tsk.
        Inr (True, put_task (cur (hv1\<lparr>hv_sched := s\<rparr>)) (tsk\<lparr>tcb_stat := (tcb_stat tsk)\<lparr>mmios := mmios (tcb_stat tsk) + 1\<rparr>\<rparr>) (hv1\<lparr>hv_sched := s\<rparr>))) = Inr (b, hv')"
    using assms unfolding HandleMmTrapRegisterAccess_def current_task_def t rbind_Inr Let_def
    by (auto simp only: rbind_eq_Inr [of "if tcb_board t then _ else _"] rbind_eq_Inr [of "IncrementCurrentTaskPc _ _"])
  have 1: "touch (cur hv) hv hv1"
  proof (cases "tcb_board t")
    case False
    then show ?thesis using acc by simp
  next
    case True
    obtain vcpu where v: "GetVCpuRegs (cur hv) (hv_sched hv) = Inr vcpu"
      using acc True by (auto simp: rbind_eq_Inr)
    have vt: "vcpu = tcb_vcpu t" using v t by (auto simp: GetVCpuRegs_def split: if_splits)
    note a = acc [unfolded if_P [OF True] v rbind_Inr]
    show ?thesis
    proof (cases rd)
      case True
      obtain val bd rs where m: "MmioRead p addr (hv_board hv) = Inr (val, bd)"
        and rs: "arr_set (vc_regs vcpu) (unat srt) val = Inr rs"
        and h1: "hv1 = put_task (cur hv) (t\<lparr>tcb_vcpu := vcpu\<lparr>vc_regs := rs\<rparr>\<rparr>) (hv\<lparr>hv_board := bd\<rparr>)"
        using a [unfolded if_P [OF True]] by (auto simp: rbind_eq_Inr)
      have "touch (cur hv) hv (hv\<lparr>hv_board := bd\<rparr>)" using MmioRead_ok [OF _ m] touch_board by blast
      moreover have "touch (cur hv) (hv\<lparr>hv_board := bd\<rparr>) hv1"
        unfolding h1 by (rule touch_put) (use t rs vt in \<open>simp_all add: block_same_def arr_set_eq_Inr\<close>)
      ultimately show ?thesis by (rule touch_trans)
    next
      case False
      obtain val bd where "MmioWrite p addr val (hv_board hv) = Inr bd" "hv1 = hv\<lparr>hv_board := bd\<rparr>"
        using a [unfolded if_not_P [OF False]] by (auto simp: rbind_eq_Inr)
      then show ?thesis using MmioWrite_ok touch_board by blast
    qed
  qed
  then have c1: "cur hv1 = cur hv" by (simp add: touch_def)
  have 2: "touch (cur hv) hv1 (hv1\<lparr>hv_sched := s\<rparr>)" using IncrementCurrentTaskPc_touch [OF s] unfolding c1 .
  then have c2: "cur (hv1\<lparr>hv_sched := s\<rparr>) = cur hv" using c1 by (simp add: touch_def)
  obtain t2 where t2: "task_of s (cur hv) = Inr t2" "b = True"
    "hv' = put_task (cur hv) (t2\<lparr>tcb_stat := (tcb_stat t2)\<lparr>mmios := mmios (tcb_stat t2) + 1\<rparr>\<rparr>) (hv1\<lparr>hv_sched := s\<rparr>)"
    using rest unfolding c2 current_task_def by (auto simp: rbind_eq_Inr)
  have "touch (cur hv) (hv1\<lparr>hv_sched := s\<rparr>) hv'"
    unfolding t2(3) by (rule touch_put) (simp_all add: t2(1) block_same_def)
  then show "touch (cur hv) hv hv'" using 1 2 touch_trans by blast
  show "b = True" by (rule t2(2))
qed

section \<open>Switching\<close>

text \<open>
  Besides \<open>vm_ok\<close>: only the init task resumes in the main loop, and while a guest runs the hardware
  translates with its table under its VMID.
\<close>

definition loop_ok :: "hv \<Rightarrow> bool" where
  "loop_ok hv \<longleftrightarrow> (\<forall>j. hv_resume hv j = MainLoop \<longrightarrow> j = 0)"

definition entered :: "hv \<Rightarrow> bool" where
  "entered hv \<longleftrightarrow> (cur hv \<noteq> 0 \<longrightarrow>
     vttbr_el2 (hv_cpu hv) = root_of hv (cur hv) OR push_bit 48 (of_nat (cur hv) AND 0xff))"

lemma switch_by_vm:
  assumes ok: "vm_ok own hv" "loop_ok hv" and r: "switch_by f r hv = Inr (here, hv')"
    and f: "\<And>s c. f (hv_sched hv, hv_cpu hv) = Inr (s, c) \<Longrightarrow> sched_inv s \<and> same_sched (hv_sched hv) s"
    and p: "r = MainLoop \<longrightarrow> cur hv = 0"
  shows "vm_step {} own own hv hv'" "loop_ok hv'" "here \<longleftrightarrow> cur hv' = cur hv"
proof -
  obtain s c where s: "f (hv_sched hv, hv_cpu hv) = Inr (s, c)"
    and h: "here = (cur_tsk s = cur hv)" "hv_sched hv' = s" "hv_heap hv' = hv_heap hv" "hv_board hv' = hv_board hv"
      "hv_resume hv' = (if here then hv_resume hv else (hv_resume hv)(cur hv := r))"
    using r by (auto simp: switch_by_def Let_def rbind_eq_Inr split: if_splits)
  show "vm_step {} own own hv hv'" using switch_vm [OF ok(1) _ _ h(2-4)] f [OF s] by blast
  show "loop_ok hv'" using ok(2) p by (auto simp: loop_ok_def h(5))
  show "here \<longleftrightarrow> cur hv' = cur hv" using h(1,2) by (simp add: cur_def)
qed

lemma VmEnter_entered:
  assumes ok: "vm_ok own hv" and r: "VmEnter hv = Inr hv'"
  shows "entered hv'"
proof -
  have t: "task_of (hv_sched hv) (cur hv) = Inr (task hv (cur hv))" using current_task_ok [OF ok] by (simp add: current_task_def)
  let ?t = "task hv (cur hv)"
  define hv1 where "hv1 = (if tcb_board ?t then put_task (cur hv) (Board_VmEnter (hv_board hv) ?t) hv else hv)"
  have "block_same ?t (Board_VmEnter (hv_board hv) ?t)" by (simp add: Board_VmEnter_def block_same_def)
  then have 1: "touch (cur hv) hv hv1" using touch_put [OF t] by (simp add: hv1_def)
  then have c1: "cur hv1 = cur hv" by (simp add: touch_def)
  have "rbind (if tcb_pid ?t = uint (GetCurrentPidUsingConsole (hv_sched hv1)) then FlushConsole (cur hv1) hv1 else Inr hv1)
      (\<lambda>hv. RunVcpu (cur hv) hv) = Inr hv'"
    using r unfolding VmEnter_def current_task_def t rbind_Inr Let_def hv1_def [symmetric] .
  then obtain hv2 where f: "(if tcb_pid ?t = uint (GetCurrentPidUsingConsole (hv_sched hv1)) then FlushConsole (cur hv1) hv1
      else Inr hv1) = Inr hv2" and run: "RunVcpu (cur hv2) hv2 = Inr hv'" by (auto simp only: rbind_eq_Inr)
  have "hv2 = hv1 \<or> FlushConsole (cur hv1) hv1 = Inr hv2" using f by (auto split: if_splits)
  then have t2: "touch (cur hv) hv1 hv2" using FlushConsole_touch by auto
  have ok1: "vm_ok own hv1" and ok2: "vm_ok own hv2"
  proof -
    show "vm_ok own hv1" using touch_current(1) [OF ok 1] vm_step_ok by blast
    from touch_current(1) [OF this] t2 c1 show "vm_ok own hv2" using vm_step_ok by metis
  qed
  have c2: "cur hv2 = cur hv1" using t2 by (simp add: touch_def)
  have tk: "task_of (hv_sched hv2) (cur hv2) = Inr (task hv2 (cur hv2))"
    using current_task_ok [OF ok2] by (simp add: current_task_def)
  have pid: "tcb_pid (task hv2 (cur hv2)) = int (cur hv2)"
    using vm_ok_task [OF ok2 vm_ok_cur [OF ok2]] by (simp add: task_ok_def)
  let ?c = "SetStage2PageTable (root_of hv2 (cur hv2)) (of_nat (cur hv2)) (hv_cpu hv2)"
  let ?c' = "?c\<lparr>cpu_sysregs := CpuRegLoadVCpuSysregs (tcb_vcpu_sysregs (task hv2 (cur hv2))) (cpu_sysregs ?c)\<rparr>"
  have v: "SetCpuVirtualInterrupt (cur hv2) (hv2\<lparr>hv_cpu := ?c'\<rparr>) = Inr hv'"
    using run unfolding RunVcpu_def tk rbind_Inr Let_def pid root_of_def by simp
  have vt: "vttbr_el2 (hv_cpu hv') = vttbr_el2 ?c'"
    using v tk by (auto simp: SetCpuVirtualInterrupt_def Let_def put_task_def CpuEnableVIrqEl1_def CpuDisableVirqEl1_def
        CpuEnableVFiqEl1_def CpuDisableVFiqEl1_def split: if_splits)
  have tv: "touch (cur hv2) hv2 hv'"
    using touch_trans [OF touch_cpu(1) SetCpuVirtualInterrupt_touch [OF v]] .
  then obtain t' where t': "tsks (hv_sched hv') ! cur hv2 = Some t'" "block_same (task hv2 (cur hv2)) t'"
    using conjunct1 [OF vm_ok_task [OF ok2 vm_ok_cur [OF ok2]]] unfolding touch_def by blast
  have "cur hv' = cur hv2" using tv unfolding touch_def by blast
  moreover have "root_of hv' (cur hv2) = root_of hv2 (cur hv2)"
    unfolding root_of_def using t' by (simp add: task_def [of hv'] block_same_def)
  ultimately show ?thesis using vt by (simp add: entered_def SetStage2PageTable_def)
qed

lemma VmEnter_vm:
  assumes "vm_ok own hv" "loop_ok hv" "VmEnter hv = Inr hv'"
  shows "vm_step {cur hv} own own hv hv'" "loop_ok hv'" "entered hv'" "cur hv' = cur hv"
  using touch_current [OF assms(1) VmEnter_touch [OF assms(3)]] assms(2) VmEnter_entered [OF assms(1,3)]
  by (simp_all add: loop_ok_def)

section \<open>The image loader\<close>

text \<open>
  What task switching relies on: the loader extends the address space it is given, keeps guests
  isolated and leaves the memory and translations of other guests alone.
\<close>

locale image_loader =
  fixes load :: loader
  assumes extends: "guests_inv own h \<Longrightarrow> mm_ok own mm \<Longrightarrow> load (mm, h) = Inr (ok, pc, sp, name, mm', h') \<Longrightarrow>
    \<exists>own'. guests_step own own' (mm, h) (mm', h')"
begin

lemma LoadTaskImage_vm:
  assumes ok: "vm_ok own hv" "loop_ok hv" and r: "LoadTaskImage load hv = Inr hv'"
  shows "\<exists>own'. vm_step {cur hv} own own' hv hv' \<and> loop_ok hv' \<and> cur hv' = cur hv"
proof -
  let ?t = "task hv (cur hv)"
  have tk: "task_of (hv_sched hv) (cur hv) = Inr ?t" using current_task_ok [OF ok(1)] by (simp add: current_task_def)
  obtain regs where g: "GetVCpuRegs (cur hv) (hv_sched hv) = Inr regs" using r by (auto simp: LoadTaskImage_def rbind_eq_Inr)
  have c: "cur hv \<noteq> 0" "regs = tcb_vcpu ?t" using g tk by (auto simp: GetVCpuRegs_def split: if_splits)
  obtain pc sp name mm h where l: "load (tcb_mm ?t, hv_heap hv) = Inr (True, pc, sp, name, mm, h)"
    and run: "RunVcpu (cur hv) (put_task (cur hv)
              (?t\<lparr>tcb_name := name, tcb_mm := mm, tcb_vcpu := regs\<lparr>vc_pstate := 0x3c5, vc_pc := pc, vc_sp := sp\<rparr>\<rparr>)
              (hv\<lparr>hv_heap := h\<rparr>)) = Inr hv'"
    using r g tk by (auto simp: LoadTaskImage_def rbind_eq_Inr current_task_def split: if_splits)
  have cn: "cur hv < ntasks hv" by (rule vm_ok_cur [OF ok(1)])
  have i: "guests_inv own (hv_heap hv)" "mm_ok own (tcb_mm ?t)" "board_ok (hv_board hv)"
    using ok(1) cn by (auto simp: vm_ok_def block_ok_def)
  obtain own' where o: "guests_step own own' (tcb_mm ?t, hv_heap hv) (mm, h)" using extends [OF i(1,2) l] by blast
  let ?t' = "?t\<lparr>tcb_name := name, tcb_mm := mm, tcb_vcpu := regs\<lparr>vc_pstate := 0x3c5, vc_pc := pc, vc_sp := sp\<rparr>\<rparr>"
  let ?hv = "put_task (cur hv) ?t' (hv\<lparr>hv_heap := h\<rparr>)"
  have len: "cur hv < length (tsks (hv_sched hv))"
    using cn ok(1) sched_inv_length [of "hv_sched hv"] by (simp add: vm_ok_def ntasks_def)
  have v: "vm_step {cur hv} own own' hv ?hv"
  proof (rule vm_update [OF ok(1) cn])
    show "guests_step own own' (tcb_mm ?t, hv_heap hv) (mm, hv_heap ?hv)" using o by (simp add: put_task_def)
    show "tsks (hv_sched ?hv) ! cur hv = Some ?t'" using len by (simp add: put_task_def set_task_def)
  qed (use c i in \<open>simp_all add: put_task_def set_task_def ntasks_def cur_def block_same_def\<close>)
  have c1: "cur ?hv = cur hv" "hv_resume ?hv = hv_resume hv" by (simp_all add: put_task_def cur_def set_task_def)
  have "touch (cur ?hv) ?hv hv'" unfolding c1 by (rule RunVcpu_touch [OF run])
  note w = touch_current [OF vm_step_ok [OF v] this]
  show ?thesis using vm_step_trans [OF v w(1)] w(2,3) c1 ok(2) by (auto simp: loop_ok_def)
qed

lemma resume_task_vm:
  assumes ok: "vm_ok own hv" "loop_ok hv" and r: "resume_task load hv = Inr hv'"
  shows "\<exists>own'. vm_step {cur hv} own own' hv hv' \<and> loop_ok hv' \<and> entered hv' \<and> cur hv' = cur hv"
proof (cases "hv_resume hv (cur hv)")
  case FirstRun
  then obtain hv1 where 1: "LoadTaskImage load hv = Inr hv1" "VmEnter hv1 = Inr hv'"
    using r by (auto simp: resume_task_def rbind_eq_Inr)
  obtain own' where s: "vm_step {cur hv} own own' hv hv1" "loop_ok hv1" "cur hv1 = cur hv"
    using LoadTaskImage_vm [OF ok 1(1)] by blast
  note e = VmEnter_vm [OF vm_step_ok [OF s(1)] s(2) 1(2)]
  show ?thesis using vm_step_trans [OF s(1) e(1)] e(2-4) s(3) by auto
next
  case MainLoop
  then have "cur hv = 0" using ok(2) by (simp add: loop_ok_def)
  then have "entered hv" by (simp add: entered_def)
  moreover have "hv' = hv" using r MainLoop by (simp add: resume_task_def)
  ultimately show ?thesis using vm_step_mono [OF vm_step_refl [OF ok(1)], of "{cur hv}"] ok(2) by auto
next
  case AfterWfx
  then obtain hv1 where 1: "AfterWfx_rest hv = Inr hv1" "VmEnter hv1 = Inr hv'"
    using r by (auto simp: resume_task_def rbind_eq_Inr)
  note s = touch_current [OF ok(1) AfterWfx_touch [OF 1(1)]]
  have "loop_ok hv1" using ok(2) s(3) by (simp add: loop_ok_def)
  note e = VmEnter_vm [OF vm_step_ok [OF s(1)] this 1(2)]
  show ?thesis using vm_step_trans [OF s(1) e(1)] e(2-4) s(2) by auto
next
  case AfterTick
  then have "VmEnter hv = Inr hv'" using r by (simp add: resume_task_def)
  from VmEnter_vm [OF ok this] show ?thesis by auto
qed

text \<open>After the handler, the caller goes on or another task resumes.\<close>

lemma go_on_vm:
  assumes v: "vm_step K own own1 hv0 hv" and l: "loop_ok hv" and r: "go_on load VmEnter (here, hv) = Inr hv'"
  shows "\<exists>own'. vm_step (insert (cur hv') K) own own' hv0 hv' \<and> loop_ok hv' \<and> entered hv' \<and> cur hv' = cur hv"
proof -
  obtain own' where "vm_step {cur hv} own1 own' hv hv'" "loop_ok hv'" "entered hv'" "cur hv' = cur hv"
  proof (cases here)
    case True
    then have "VmEnter hv = Inr hv'" using r by (simp add: go_on_def)
    from VmEnter_vm [OF vm_step_ok [OF v] l this] that show ?thesis by blast
  next
    case False
    then have "resume_task load hv = Inr hv'" using r by (simp add: go_on_def)
    from resume_task_vm [OF vm_step_ok [OF v] l this] that show ?thesis by blast
  qed
  with vm_step_trans [OF v this(1)] show ?thesis by auto
qed

end

lemma Schedule_same: "sched_inv s \<Longrightarrow> Schedule (s, c) = Inr (s', c') \<Longrightarrow> sched_inv s' \<and> same_sched s s'"
  using Schedule_spec [of s c] by auto

lemma Tick_same: "sched_inv s \<Longrightarrow> SchedTimerHandler (s, c) = Inr (s', c') \<Longrightarrow> sched_inv s' \<and> same_sched s s'"
  using SchedTimerHandler_spec [of s c] by auto

section \<open>Every step keeps the invariant\<close>

lemma TrapHandle_vm:
  assumes ok: "vm_ok own hv" "loop_ok hv" and c: "cur hv \<noteq> 0"
    and r: "TrapHandleLowerElAarch64Sync p esr far hv = Inr (here, hv')"
  shows "\<exists>own'. vm_step {cur hv} own own' hv hv' \<and> loop_ok hv'"
proof -
  have stay: ?thesis if "touch (cur hv) hv hv'"
    using touch_current(1,3) [OF ok(1) that] ok(2) by (auto simp: loop_ok_def)
  consider (wfx) "HandleTrapWfx hv = Inr (here, hv')"
    | (sys) iss where "HandleTrapSystem iss hv = Inr hv'"
    | (mem) "HandleTrapMemAbort p far esr hv = Inr (True, hv')"
    using r unfolding TrapHandleLowerElAarch64Sync_def Let_def
    by (auto simp: rbind_eq_Inr split: if_splits prod.splits)
  then show ?thesis
  proof cases
    case wfx
    then obtain h1 hv1 where 1: "switch_by Schedule AfterWfx hv = Inr (h1, hv1)"
      and 2: "if h1 then AfterWfx_rest hv1 = Inr hv' else hv' = hv1"
      by (auto simp: HandleTrapWfx_def rbind_eq_Inr split: if_splits)
    have si: "sched_inv (hv_sched hv)" using ok(1) by (simp add: vm_ok_def)
    note s = switch_by_vm [OF ok 1 Schedule_same [OF si]]
    have s1: "vm_step {} own own hv hv1" "loop_ok hv1" "h1 = (cur hv1 = cur hv)" using s by simp_all
    show ?thesis
    proof (cases h1)
      case True
      then have a: "AfterWfx_rest hv1 = Inr hv'" using 2 by simp
      note t = touch_current [OF vm_step_ok [OF s1(1)] AfterWfx_touch [OF a]]
      have "cur hv1 = cur hv" using s1(3) True by simp
      then show ?thesis using vm_step_trans [OF s1(1) t(1)] t(3) s1(2) by (auto simp: loop_ok_def)
    next
      case False
      then show ?thesis using 2 s1 vm_step_mono by (metis empty_subsetI)
    qed
  next
    case sys
    then show ?thesis using stay HandleTrapSystem_touch by blast
  next
    case mem
    then consider "HandleMmTrapMemoryAccessFault far hv = Inr (True, hv')"
      | srt rd where "HandleMmTrapRegisterAccess p far srt rd hv = Inr (True, hv')"
      by (auto simp: HandleTrapMemAbort_def Let_def split: if_splits)
    then show ?thesis
    proof cases
      case 1
      then obtain own' where "vm_step {cur hv} own own' hv hv'" "hv_resume hv' = hv_resume hv"
        using MemoryAccessFault_vm [OF ok(1) c] by blast
      then show ?thesis using ok(2) by (auto simp: loop_ok_def)
    next
      case 2
      then show ?thesis using stay RegisterAccess_touch by blast
    qed
  qed
qed

lemma flags_touch:
  "touch i hv (hv\<lparr>hypervisor_command_switch_req := a, hypervisor_command_comming := b\<rparr>)"
  "touch i hv (hv\<lparr>hypervisor_command_switch_req := a\<rparr>)" "touch i hv (hv\<lparr>hypervisor_command_comming := b\<rparr>)"
  "touch i hv (NotifyVirqHardware n hv)" "touch i hv (hv\<lparr>hv_sched := ConsoleSwitchTo pid (hv_sched hv)\<rparr>)"
  by (simp_all add: touch_def cur_def NotifyVirqHardware_def ConsoleSwitchTo_def)

lemma Serial_touch:
  assumes "Serial_receive c hv = Inr hv'"
  shows "touch i hv hv'"
proof (cases "hypervisor_command_comming hv")
  case True
  note a = assms [unfolded Serial_receive_def Let_def if_P [OF True]]
  show ?thesis
  proof (cases "hypervisor_command_switch_req hv")
    case True
    note b = a [unfolded if_P [OF True]]
    show ?thesis
    proof (cases "isdigit (uint c)")
      case True
      obtain tsk where g: "GetTask (uint c - 48) (hv_sched hv) = Inr tsk"
        using b unfolding if_P [OF True] by (auto simp: rbind_eq_Inr)
      show ?thesis
      proof (cases tsk)
        case None
        then show ?thesis using b True g flags_touch(1) by auto
      next
        case (Some k)
        let ?hv = "hv\<lparr>hv_sched := ConsoleSwitchTo (of_int (uint c - 48)) (hv_sched hv)\<rparr>"
        obtain hv1 where 1: "hv1 = ?hv \<or> FlushConsole k ?hv = Inr hv1"
          "hv' = hv1\<lparr>hypervisor_command_switch_req := False, hypervisor_command_comming := False\<rparr>"
          using b unfolding if_P [OF True] g rbind_Inr Some option.case by (auto simp: rbind_eq_Inr split: if_splits)
        have "touch i ?hv hv1" using 1(1) FlushConsole_touch by auto
        then show ?thesis using touch_trans [OF flags_touch(5)] touch_trans [OF _ flags_touch(1)] unfolding 1(2) by blast
      qed
    next
      case False
      then show ?thesis using b flags_touch(1) by auto
    qed
  next
    case False
    then show ?thesis using a flags_touch(2,3) by (auto simp: rbind_eq_Inr split: if_splits)
  qed
next
  case False
  note a = assms [unfolded Serial_receive_def Let_def if_not_P [OF False]]
  show ?thesis
  proof (cases "c = 63")
    case True
    then show ?thesis using a flags_touch(3) by auto
  next
    case False
    obtain k t where g: "GetTask (uint (GetCurrentPidUsingConsole (hv_sched hv))) (hv_sched hv) = Inr (Some k)"
      "task_of (hv_sched hv) k = Inr t"
      using a unfolding if_not_P [OF False] by (auto simp: rbind_eq_Inr split: option.splits)
    note b = a [unfolded if_not_P [OF False] g(1) rbind_Inr option.case g(2)]
    obtain hv1 where 1: "hv1 = hv \<or>
        hv1 = hv\<lparr>hv_board := (hv_board hv)\<lparr>console_in := snd (Queue_Push (ucast c) (console_in (hv_board hv)))\<rparr>\<rparr>"
      "hv' = NotifyVirqHardware 33 hv1"
      using b by (auto simp: rbind_eq_Inr split: if_splits)
    have "touch i hv hv1"
      using 1(1) ring.inv_push [of "console_in (hv_board hv)"] by (auto simp: board_ok_def intro!: touch_board)
    then show ?thesis using touch_trans [OF _ flags_touch(4)] unfolding 1(2) by blast
  qed
qed

lemma CpuHandleIrq_vm:
  assumes ok: "vm_ok own hv" "loop_ok hv" and r: "CpuHandleIrq i hv = Inr (here, hv')"
  shows "vm_step {cur hv} own own hv hv'" "loop_ok hv'"
proof -
  have si: "sched_inv (hv_sched hv)" using ok(1) by (simp add: vm_ok_def)
  have "vm_step {cur hv} own own hv hv' \<and> loop_ok hv'"
  proof (cases i)
    case Tick
    then have "switch_by SchedTimerHandler AfterTick hv = Inr (here, hv')" using r by (simp add: CpuHandleIrq_def)
    from switch_by_vm(1,2) [OF ok this Tick_same [OF si]] show ?thesis using vm_step_mono by fastforce
  next
    case (Received c)
    then have "Serial_receive c hv = Inr hv'" using r by (auto simp: CpuHandleIrq_def rbind_eq_Inr)
    from touch_current(1,3) [OF ok(1) Serial_touch [OF this]] show ?thesis using ok(2) by (simp add: loop_ok_def)
  qed
  then show "vm_step {cur hv} own own hv hv'" "loop_ok hv'" by blast+
qed

lemma enter_vm:
  assumes ok: "vm_ok own hv" "loop_ok hv" and f: "length (vc_regs frame) = 31"
    and r: "enter_hypervisor frame hv = Inr hv'"
  shows "vm_step {cur hv} own own hv hv'" "loop_ok hv'" "cur hv' = cur hv"
proof -
  have "length (vc_regs (tcb_vcpu t)) = 31" if "tsks (hv_sched hv) ! cur hv = Some t" for t
    using ok(1) vm_ok_cur [OF ok(1)] that by (auto simp: vm_ok_def block_ok_def task_def)
  note t = touch_current [OF ok(1) enter_hypervisor_touch [OF r f this]]
  show "vm_step {cur hv} own own hv hv'" "loop_ok hv'" "cur hv' = cur hv"
    using t ok(2) by (simp_all add: loop_ok_def)
qed

text \<open>What a step leaves of a guest that runs neither before nor after it.\<close>

definition guest_kept :: "hv \<Rightarrow> hv \<Rightarrow> nat \<Rightarrow> bool" where
  "guest_kept hv hv' j \<longleftrightarrow> same_guest hv hv' j \<and>
     (\<forall>a x. guest_lookup hv j a AND PAGE_MASK \<in> user_region (hv_heap hv) \<longrightarrow>
        x - (guest_lookup hv j a AND PAGE_MASK) < 4096 \<longrightarrow> dram (hv_heap hv') x = dram (hv_heap hv) x)"

definition hv_inv :: "hv \<Rightarrow> bool" where
  "hv_inv hv \<longleftrightarrow> (\<exists>own. vm_ok own hv) \<and> loop_ok hv \<and> entered hv"

lemma vm_step_kept:
  assumes "vm_ok own hv" "vm_step K own own' hv hv'" "j < ntasks hv" "j \<notin> K"
  shows "guest_kept hv hv' j"
proof -
  have "same_guest hv hv' j" using assms(2-4) unfolding vm_step_def by blast
  moreover have "dram (hv_heap hv') x = dram (hv_heap hv) x"
    if "guest_lookup hv j a AND PAGE_MASK \<in> user_region (hv_heap hv)" "x - (guest_lookup hv j a AND PAGE_MASK) < 4096" for a x
    using assms(2) guest_page_used(1) [OF assms(1,3) that(1)] that(2) unfolding vm_step_def by blast
  ultimately show ?thesis by (simp add: guest_kept_def)
qed

context image_loader
begin

lemma entry_vm:
  assumes ok: "vm_ok own hv" "loop_ok hv" and f: "length (vc_regs frame) = 31"
    and r: "rbind (enter_hypervisor frame hv) (\<lambda>hv. rbind (handle hv) (go_on load VmEnter)) = Inr hv'"
    and handle: "\<And>own hv1 here hv2. vm_ok own hv1 \<Longrightarrow> loop_ok hv1 \<Longrightarrow> cur hv1 = cur hv \<Longrightarrow> handle hv1 = Inr (here, hv2) \<Longrightarrow>
      \<exists>own'. vm_step {cur hv1} own own' hv1 hv2 \<and> loop_ok hv2"
  shows "\<exists>own'. vm_step {cur hv, cur hv'} own own' hv hv' \<and> loop_ok hv' \<and> entered hv'"
proof -
  obtain hv1 here hv2 where 1: "enter_hypervisor frame hv = Inr hv1" and 2: "handle hv1 = Inr (here, hv2)"
    and 3: "go_on load VmEnter (here, hv2) = Inr hv'"
    using r by (auto simp: rbind_eq_Inr)
  note e = enter_vm [OF ok f 1]
  obtain own' where h: "vm_step {cur hv1} own own' hv1 hv2" "loop_ok hv2"
    using handle [OF vm_step_ok [OF e(1)] e(2,3) 2] by blast
  have "vm_step {cur hv} own own' hv hv2" using vm_step_trans [OF e(1) h(1)] e(3) by simp
  from go_on_vm [OF this h(2) 3] show ?thesis by (auto simp: insert_commute)
qed

lemma hv_step_spec:
  assumes step: "hv_step p load hv hv'" and inv: "hv_inv hv"
  shows "hv_inv hv' \<and> user_region (hv_heap hv') = user_region (hv_heap hv) \<and>
    (\<forall>j<ntasks hv. j \<noteq> cur hv \<longrightarrow> j \<noteq> cur hv' \<longrightarrow> guest_kept hv hv' j)"
proof -
  obtain own where ok: "vm_ok own hv" "loop_ok hv" and ent: "entered hv" using inv by (auto simp: hv_inv_def)
  have fin: ?thesis if "vm_step {cur hv, cur hv'} own own' hv hv'" "loop_ok hv'" "entered hv'" for own'
    using that vm_step_kept [OF ok(1) that(1)] by (auto simp: hv_inv_def vm_step_def)
  show ?thesis using step
  proof cases
    case (guest_runs m r)
    let ?c = "(hv_cpu hv)\<lparr>cpu_sysregs := r\<rparr>"
    note g = guest_runs_vm [OF ok(1) guest_runs(3), of hv' ?c]
    have e: "hv' = hv\<lparr>hv_heap := (hv_heap hv)\<lparr>dram := m\<rparr>, hv_cpu := ?c\<rparr>" using guest_runs(1) .
    have t: "task hv' = task hv" "cur hv' = cur hv" "root_of hv' = root_of hv" "hv_resume hv' = hv_resume hv"
      "dram (hv_heap hv') = m" "user_region (hv_heap hv') = user_region (hv_heap hv)" "vttbr_el2 (hv_cpu hv') = vttbr_el2 (hv_cpu hv)"
      by (simp_all add: e task_def root_of_def cur_def fun_eq_iff user_region_def)
    have st: "same_task t t" for t by simp
    have "guest_kept hv hv' j" if "j < ntasks hv" "j \<noteq> cur hv" for j
      unfolding guest_kept_def same_guest_def t using g(2,3) [OF e that(1)] that(2) st by blast
    moreover have "hv_inv hv'" using g(1) [OF e] ok(2) ent by (auto simp: hv_inv_def loop_ok_def entered_def t)
    ultimately show ?thesis using t by blast
  next
    case (guest_traps frame esr far)
    have h: "\<exists>own'. vm_step {cur hv1} own'' own' hv1 hv2 \<and> loop_ok hv2"
      if "vm_ok own'' hv1" "loop_ok hv1" "cur hv1 = cur hv" "TrapHandleLowerElAarch64Sync p esr far hv1 = Inr (here, hv2)"
      for own'' hv1 here hv2
      using TrapHandle_vm [OF that(1,2) _ that(4)] that(3) guest_traps(1) by simp
    have "\<exists>own'. vm_step {cur hv, cur hv'} own own' hv hv' \<and> loop_ok hv' \<and> entered hv'"
      by (rule entry_vm [OF ok guest_traps(2) guest_traps(3) [unfolded lower_el_aarch64_sync_def]]) (rule h)
    then show ?thesis using fin by blast
  next
    case (interrupt frame i)
    have h: "\<exists>own'. vm_step {cur hv1} own'' own' hv1 hv2 \<and> loop_ok hv2"
      if "vm_ok own'' hv1" "loop_ok hv1" "cur hv1 = cur hv" "CpuHandleIrq i hv1 = Inr (here, hv2)" for own'' hv1 here hv2
      using CpuHandleIrq_vm [OF that(1,2,4)] by blast
    have "\<exists>own'. vm_step {cur hv, cur hv'} own own' hv hv' \<and> loop_ok hv' \<and> entered hv'"
      by (rule entry_vm [OF ok interrupt(1) interrupt(2) [unfolded el_irq_def]]) (rule h)
    then show ?thesis using fin by blast
  next
    case init_task
    then obtain here hv1 where 1: "switch_by Schedule MainLoop hv = Inr (here, hv1)" "go_on load Inr (here, hv1) = Inr hv'"
      by (auto simp: main_loop_step_def rbind_eq_Inr)
    have si: "sched_inv (hv_sched hv)" using ok(1) by (simp add: vm_ok_def)
    have s: "vm_step {} own own hv hv1" "loop_ok hv1" "here = (cur hv1 = cur hv)"
      using switch_by_vm [OF ok 1(1) Schedule_same [OF si]] init_task(1) by simp_all
    show ?thesis
    proof (cases here)
      case True
      then have "hv' = hv1" "entered hv1" using 1(2) s(3) init_task(1) by (simp_all add: go_on_def entered_def)
      then show ?thesis using fin [of own] vm_step_mono [OF s(1), of "{cur hv, cur hv'}"] s(2) by blast
    next
      case False
      then have "resume_task load hv1 = Inr hv'" using 1(2) by (simp add: go_on_def)
      then obtain own' where r: "vm_step {cur hv1} own own' hv1 hv'" "loop_ok hv'" "entered hv'" "cur hv' = cur hv1"
        using resume_task_vm [OF vm_step_ok [OF s(1)] s(2)] by blast
      have "vm_step {cur hv, cur hv'} own own' hv hv'"
        using vm_step_mono [OF vm_step_trans [OF s(1) r(1)]] r(4) by simp
      then show ?thesis using fin r(2,3) by blast
    qed
  qed
qed

end

section \<open>Creating a task\<close>

text \<open>A task added to the table with a fresh address space.\<close>

lemma vm_add:
  assumes ok: "vm_ok own hv" and n8: "ntasks hv < 8"
    and mem: "guests_step own own' (new_mm, hv_heap hv) (mm', hv_heap hv')"
    and board: "board_ok (hv_board hv')" and add: "AddTask tsk (hv_sched hv) = Inr (pid, hv_sched hv')"
    and tsk: "tcb_mm tsk = mm'" "tcb_priority tsk = 1" "tcb_counter tsk = 1" "tcb_board tsk" "length (vc_regs (tcb_vcpu tsk)) = 31"
  shows "vm_step {} own own' hv hv'" "pid = ntasks hv" "ntasks hv' = Suc (ntasks hv)" "cur hv' = cur hv"
    "task hv' (ntasks hv) = tsk\<lparr>tcb_pid := int (ntasks hv)\<rparr>"
proof -
  let ?n = "ntasks hv"
  note g = mem [unfolded guests_step_def prod.case]
  have si: "sched_inv (hv_sched hv)" and bk: "\<And>j. j < ?n \<Longrightarrow> block_ok own j (task hv j)"
    and dist: "\<And>j k. j < ?n \<Longrightarrow> k < ?n \<Longrightarrow> j \<noteq> k \<Longrightarrow> root_of hv j \<noteq> 0 \<Longrightarrow> root_of hv j \<noteq> root_of hv k"
    using ok by (simp_all add: vm_ok_def)
  have n0: "?n \<noteq> 0" using si by (simp add: sched_inv_def ntasks_def)
  have "1 \<le> tcb_priority tsk" "tcb_priority tsk \<le> 2 ^ 29" "0 \<le> tcb_counter tsk" "tcb_counter tsk \<le> 2 * tcb_priority tsk"
    using tsk by simp_all
  from AddTask_spec(1) [OF si this] n8 obtain s' where s': "AddTask tsk (hv_sched hv) = Inr (?n, s')" "sched_inv s'"
    "count_tsks s' = Suc ?n" "cur_tsk s' = cur_tsk (hv_sched hv)" "tsks s' ! ?n = Some (tsk\<lparr>tcb_pid := int ?n\<rparr>)"
    "\<And>i. i \<noteq> ?n \<Longrightarrow> tsks s' ! i = tsks (hv_sched hv) ! i" unfolding ntasks_def by blast
  have e: "hv_sched hv' = s'" "pid = ?n" using add s'(1) by simp_all
  show "pid = ?n" by (rule e(2))
  show n: "ntasks hv' = Suc ?n" and "cur hv' = cur hv" using s'(3,4) e(1) by (simp_all add: ntasks_def cur_def)
  show tn: "task hv' ?n = tsk\<lparr>tcb_pid := int ?n\<rparr>" using s'(5) e(1) by (simp add: task_def)
  have tj: "task hv' j = task hv j" if "j < ?n" for j using s'(6) [of j] that e(1) by (simp add: task_def)
  have le: "own \<subseteq>\<^sub>m own'" using g by blast
  have rootown: "own (root_of hv j) = Some (root_of hv j, [])" if "j < ?n" "root_of hv j \<noteq> 0" for j
    using bk [OF that(1)] that(2) by (simp add: block_ok_def mm_ok_def root_of_def)
  have rn: "root_of hv' ?n = mm_page_table mm'" and rj: "\<And>j. j < ?n \<Longrightarrow> root_of hv' j = root_of hv j"
    using tn tj tsk(1) by (simp_all add: root_of_def)
  have new: "mm_page_table mm' = 0 \<or> own (mm_page_table mm') = None" using g by simp
  have newroot: "root_of hv j \<noteq> mm_page_table mm'" if "j < ?n" "root_of hv j \<noteq> 0" for j
    using new rootown [OF that] that(2) by auto
  have "block_ok own' j (task hv' j)" if "j < Suc ?n" for j
  proof (cases "j = ?n")
    case True
    then show ?thesis using g n0 tsk unfolding block_ok_def True tn by simp
  next
    case False
    then have j: "j < ?n" using that by simp
    have "mm_ok own' (tcb_mm (task hv j))" using bk [OF j] map_le_root [OF le] by (auto simp: block_ok_def mm_ok_def)
    then show ?thesis using bk [OF j] unfolding tj [OF j] block_ok_def by simp
  qed
  moreover have "root_of hv' j \<noteq> root_of hv' k"
    if jk: "j < Suc ?n" "k < Suc ?n" "j \<noteq> k" "root_of hv' j \<noteq> 0" for j k
  proof -
    consider "j = ?n" "k < ?n" | "k = ?n" "j < ?n" | "j < ?n" "k < ?n" using jk by linarith
    then show ?thesis
    proof cases
      case 1
      then show ?thesis using jk newroot [of k] rn rj by metis
    next
      case 2
      then show ?thesis using jk newroot [of j] rn rj by metis
    next
      case 3
      then show ?thesis using jk dist [of j k] rj by metis
    qed
  qed
  ultimately have ok': "vm_ok own' hv'" using g board n s'(2) e(1) by (simp add: vm_ok_def)
  have "same_guest hv hv' j" if j: "j < ?n" for j
  proof -
    have "guest_lookup hv' j a = guest_lookup hv j a" for a
    proof (cases "root_of hv j = 0")
      case True
      then show ?thesis using tj [OF j] by (simp add: guest_lookup_def mm_lookup_def root_of_def)
    next
      case False
      then have "s2_lookup (dram (hv_heap hv')) (root_of hv j) a = s2_lookup (dram (hv_heap hv)) (root_of hv j) a"
        using g rootown [OF j] newroot [OF j] by blast
      then show ?thesis using tj [OF j] by (simp add: guest_lookup_def mm_lookup_def root_of_def)
    qed
    then show ?thesis using tj [OF j] by (simp add: same_guest_def)
  qed
  then show "vm_step {} own own' hv hv'" using ok' g n unfolding vm_step_def by (simp add: le_SucI)
qed

end
