(* ===== verification/EvPrintf.thy ===== *)
theory EvPrintf
  imports EvPrelude
begin

text \<open>
  The formatted output of the hypervisor (common/cstdio/printf.cc, putc.cc). A string is the list of
  its bytes without the terminator; output is the list of bytes sent to the serial line.
\<close>

section \<open>Integers to text\<close>

definition digit_char :: "bool \<Rightarrow> nat \<Rightarrow> char" where
  "digit_char upper_case digit =
     char_of (digit + (if digit < 10 then 48 else (if upper_case then 65 else 97) - 10))"

text \<open>The two loops of \<open>ulitoa\<close> and of \<open>uitoa\<close>, which differ in the width of the word.\<close>

partial_function (option) itoa_scale :: "'w::len word \<Rightarrow> 'w word \<Rightarrow> 'w word \<Rightarrow> 'w word option" where
  "itoa_scale value base v =
     (if value div v \<ge> base then itoa_scale value base (v * base) else Some v)"

partial_function (option) itoa_digits :: "bool \<Rightarrow> 'w::len word \<Rightarrow> 'w word \<Rightarrow> 'w word \<Rightarrow> nat \<Rightarrow> char list option" where
  "itoa_digits upper_case base value v n =
     (if v = 0 then Some []
      else if n \<noteq> 0 \<or> unat (value div v) > 0 \<or> v div base = 0
      then Option.bind (itoa_digits upper_case base (value mod v) (v div base) (n + 1))
             (\<lambda>s. Some (digit_char upper_case (unat (value div v)) # s))
      else itoa_digits upper_case base (value mod v) (v div base) n)"

definition ulitoa :: "u64 \<Rightarrow> u32 \<Rightarrow> bool \<Rightarrow> char list option" where
  "ulitoa value base upper_case =
     Option.bind (itoa_scale value (ucast base) 1) (\<lambda>v. itoa_digits upper_case (ucast base) value v 0)"

definition uitoa :: "u32 \<Rightarrow> u8 \<Rightarrow> bool \<Rightarrow> char list option" where
  "uitoa value base upper_case =
     Option.bind (itoa_scale value (ucast base) 1) (\<lambda>v. itoa_digits upper_case (ucast base) value v 0)"

definition litoa :: "u64 \<Rightarrow> char list option" where
  "litoa value =
     (let negative = sint value < 0;
          uvalue = (if negative then - (value + 1) + 1 else value)
      in map_option (\<lambda>s. if negative then CHR ''-'' # s else s) (ulitoa uvalue 10 False))"

definition itoa :: "u32 \<Rightarrow> u8 \<Rightarrow> char list option" where
  "itoa value base =
     (let negative = sint value < 0;
          uvalue = (if negative then - (value + 1) + 1 else value)
      in map_option (\<lambda>s. if negative then CHR ''-'' # s else s) (uitoa uvalue base False))"

definition atoi :: "char \<Rightarrow> int" where
  "atoi c = (let n = of_char c :: int in
     if 48 \<le> n \<and> n \<le> 57 then n - 48
     else if 97 \<le> n \<and> n \<le> 102 then n - 97 + 10
     else if 65 \<le> n \<and> n \<le> 70 then n - 65 + 10
     else - 1)"

definition is_width_digit :: "char \<Rightarrow> bool" where
  "is_width_digit c = (let n = of_char c :: int in 48 \<le> n \<and> n \<le> 57)"

section \<open>Reading the format\<close>

text \<open>A pointer into the format: the rest up to the terminator, or \<open>None\<close> when it is past it.\<close>

type_synonym fmt = "char list option"

abbreviation NUL :: char where "NUL \<equiv> CHR 0x00"

fun fetch :: "fmt \<Rightarrow> (char \<times> fmt) res" where
  "fetch (Some (c # cs)) = Inr (c, Some cs)"
| "fetch (Some []) = Inr (NUL, None)"
| "fetch None = Inl OutOfBounds"

text \<open>\<open>parse_field_width\<close>: the next character, the rest and the value. \<open>int\<close> overflow is not modelled: widths have a few digits.\<close>

fun parse_field_width :: "char \<Rightarrow> char list \<Rightarrow> int \<Rightarrow> char \<times> fmt \<times> int" where
  "parse_field_width c [] res =
     (if atoi c \<noteq> - 1 \<and> atoi c \<le> 10 then (NUL, None, res * 10 + atoi c) else (c, Some [], res))"
| "parse_field_width c (d # ds) res =
     (if atoi c \<noteq> - 1 \<and> atoi c \<le> 10 then parse_field_width d ds (res * 10 + atoi c) else (c, Some (d # ds), res))"

section \<open>Output\<close>

definition putc :: "char \<Rightarrow> char list" where
  "putc c = (if c = CHR 0x0A then [CHR 0x0D, c] else [c])"

definition put_formatted_string :: "int \<Rightarrow> bool \<Rightarrow> char list \<Rightarrow> char list" where
  "put_formatted_string field_width flag_zero buf =
     concat (map putc (replicate (nat (field_width - int (length buf))) (if flag_zero then CHR ''0'' else CHR '' '') @ buf))"

text \<open>
  Every variadic argument takes a slot of eight bytes on AArch64, so reading one at a smaller type
  truncates it. A slot holds an integer or points to a string; reading one as the other, or one
  more than there are, is a fault.
\<close>

datatype varg = VInt u64 | VStr "char list"

fun va_int :: "varg list \<Rightarrow> (u64 \<times> varg list) res" where
  "va_int (VInt x # va) = Inr (x, va)"
| "va_int _ = Inl OutOfBounds"

fun va_str :: "varg list \<Rightarrow> (char list \<times> varg list) res" where
  "va_str (VStr s # va) = Inr (s, va)"
| "va_str _ = Inl OutOfBounds"

definition as_text :: "char list option \<Rightarrow> char list res" where
  "as_text s = (case s of None \<Rightarrow> Inl Diverge | Some s \<Rightarrow> Inr s)"

text \<open>The conversion c with its flags; \<open>case '%'\<close> falls through to the empty default.\<close>

definition convert :: "char \<Rightarrow> bool \<Rightarrow> int \<Rightarrow> bool \<Rightarrow> varg list \<Rightarrow> (char list \<times> varg list) res" where
  "convert c flag_zero field_width precision_long va =
     (if c = CHR ''d'' \<or> c = CHR ''D'' then
        rbind (va_int va) (\<lambda>(x, va).
        rbind (as_text (if precision_long then litoa x else itoa (ucast x) 10)) (\<lambda>buf.
          Inr (put_formatted_string field_width flag_zero buf, va)))
      else if c = CHR ''u'' \<or> c = CHR ''U'' then
        rbind (va_int va) (\<lambda>(x, va).
        rbind (as_text (if precision_long then ulitoa x 10 False else uitoa (ucast x) 10 False)) (\<lambda>buf.
          Inr (put_formatted_string field_width flag_zero buf, va)))
      else if c = CHR ''x'' \<or> c = CHR ''X'' then
        rbind (va_int va) (\<lambda>(x, va).
        rbind (as_text (if precision_long then ulitoa x 16 (c = CHR ''X'') else uitoa (ucast x) 16 (c = CHR ''X''))) (\<lambda>buf.
          Inr (put_formatted_string field_width flag_zero buf, va)))
      else if c = CHR ''c'' \<or> c = CHR ''C'' then
        rbind (va_int va) (\<lambda>(x, va). Inr (putc (char_of (unat x mod 256)), va))
      else if c = CHR ''s'' \<or> c = CHR ''S'' then
        rbind (va_str va) (\<lambda>(s, va). Inr (put_formatted_string field_width False s, va))
      else if c = CHR ''%'' then Inr (putc c, va)
      else Inr ([], va))"

text \<open>From after the percent sign: output, the rest of the format, the remaining arguments.\<close>

definition directive :: "fmt \<Rightarrow> varg list \<Rightarrow> (char list \<times> fmt \<times> varg list) res" where
  "directive format va =
     rbind (fetch format) (\<lambda>(c, format).
     rbind (if c = CHR ''0'' then rbind (fetch format) (\<lambda>(c, format). Inr (True, c, format)) else Inr (False, c, format))
       (\<lambda>(flag_zero, c, format).
     let (c, format, field_width) =
           (if is_width_digit c
            then (case format of None \<Rightarrow> (c, format, 0) | Some cs \<Rightarrow> parse_field_width c cs 0)
            else (c, format, 0))
     in rbind (if c = CHR ''l'' then rbind (fetch format) (\<lambda>(c, format). Inr (True, c, format)) else Inr (False, c, format))
       (\<lambda>(precision_long, c, format).
     rbind (convert c flag_zero field_width precision_long va) (\<lambda>(out, va). Inr (out, format, va)))))"

definition fmt_size :: "fmt \<Rightarrow> nat" where
  "fmt_size f = (case f of None \<Rightarrow> 0 | Some cs \<Rightarrow> Suc (length cs))"

lemma fetch_size: "fetch f = Inr (c, f') \<Longrightarrow> fmt_size f' < fmt_size f"
  by (cases f rule: fetch.cases) (auto simp: fmt_size_def)

lemma parse_size: "parse_field_width c cs r = (c', f', r') \<Longrightarrow> fmt_size f' \<le> fmt_size (Some cs)"
  by (induction c cs r rule: parse_field_width.induct) (auto simp: fmt_size_def split: if_splits)

lemma directive_size:
  assumes "directive f va = Inr (out, f', va')"
  shows "fmt_size f' < fmt_size f"
proof -
  obtain c1 f1 where 1: "fetch f = Inr (c1, f1)" using assms by (auto simp: directive_def rbind_eq_Inr)
  obtain z c2 f2 where 2: "(if c1 = CHR ''0'' then rbind (fetch f1) (\<lambda>(c, format). Inr (True, c, format)) else Inr (False, c1, f1)) = Inr (z, c2, f2)"
    using assms unfolding directive_def 1 rbind_Inr prod.case by (auto simp only: rbind_eq_Inr)
  obtain c3 f3 w where 3: "(if is_width_digit c2
            then (case f2 of None \<Rightarrow> (c2, f2, 0) | Some cs \<Rightarrow> parse_field_width c2 cs 0)
            else (c2, f2, 0)) = (c3, f3, w)" by (metis prod_cases3)
  have r: "rbind (if c3 = CHR ''l'' then rbind (fetch f3) (\<lambda>(c, format). Inr (True, c, format)) else Inr (False, c3, f3))
       (\<lambda>(precision_long, c, format).
     rbind (convert c z w precision_long va) (\<lambda>(out, va). Inr (out, format, va))) = Inr (out, f', va')"
    using assms unfolding directive_def 1 rbind_Inr prod.case 2 Let_def 3 .
  have s1: "fmt_size f1 < fmt_size f" by (rule fetch_size [OF 1])
  have s2: "fmt_size f2 \<le> fmt_size f1" using 2 fetch_size [of f1] by (fastforce simp: rbind_eq_Inr split: if_splits)
  have s3: "fmt_size f3 \<le> fmt_size f2" using 3 parse_size by (fastforce split: if_splits option.splits)
  have "fmt_size f' \<le> fmt_size f3" using r fetch_size [of f3] by (fastforce simp: rbind_eq_Inr split: if_splits)
  then show ?thesis using s1 s2 s3 by linarith
qed

function vfprintf :: "fmt \<Rightarrow> varg list \<Rightarrow> char list res" where
  "vfprintf format va =
     (case fetch format of
        Inl e \<Rightarrow> Inl e
      | Inr (c, format') \<Rightarrow>
          if c = NUL then Inr []
          else if c \<noteq> CHR ''%'' then rbind (vfprintf format' va) (\<lambda>out. Inr (putc c @ out))
          else case directive format' va of
                 Inl e \<Rightarrow> Inl e
               | Inr (out, format'', va') \<Rightarrow> rbind (vfprintf format'' va') (\<lambda>out'. Inr (out @ out')))"
  by pat_completeness auto
termination
proof (relation "measure (fmt_size \<circ> fst)")
  show "wf (measure (fmt_size \<circ> fst))" by simp
next
  fix format :: fmt and va va' c out b cf f1 f2 ab
  assume "fetch format = Inr cf" "(c, f1) = cf"
  then show "((f1, va), (format, va)) \<in> measure (fmt_size \<circ> fst)" using fetch_size by auto
next
  fix format :: fmt and va c f1 f2 and cf :: "char \<times> fmt" and ob :: "char list \<times> fmt \<times> varg list" and out fv va'
  assume "fetch format = Inr cf" "(c, f1) = cf" "directive f1 va = Inr ob" "(out, fv) = ob" "(f2, va') = fv"
  then have "fmt_size f2 < fmt_size f1" "fmt_size f1 < fmt_size format"
    using directive_size [of f1 va out f2 va'] fetch_size [of format c f1] by auto
  then show "((f2, va'), (format, va)) \<in> measure (fmt_size \<circ> fst)" by simp
qed

declare vfprintf.simps [simp del]

section \<open>The digits of a number\<close>

text \<open>The number a text stands for in a base, read from the most significant digit on.\<close>

definition read_number :: "nat \<Rightarrow> char list \<Rightarrow> int" where
  "read_number base cs = foldl (\<lambda>a c. a * int base + atoi c) 0 cs"

definition read_signed :: "nat \<Rightarrow> char list \<Rightarrow> int" where
  "read_signed base cs = (case cs of [] \<Rightarrow> 0 | c # ds \<Rightarrow> if c = CHR ''-'' then - read_number base ds else read_number base cs)"

fun digits_of :: "nat \<Rightarrow> nat \<Rightarrow> nat \<Rightarrow> nat list" where
  "digits_of b 0 n = [n]"
| "digits_of b (Suc k) n = (n div b ^ Suc k) # digits_of b k (n mod b ^ Suc k)"

lemma length_digits_of [simp]: "length (digits_of b k n) = Suc k"
  by (induction k arbitrary: n) auto

lemma digits_of_less: "n < b ^ Suc k \<Longrightarrow> d \<in> set (digits_of b k n) \<Longrightarrow> d < b"
proof (induction k arbitrary: n)
  case (Suc k)
  have "0 < b" using Suc.prems(1) by (cases b) auto
  then have m: "n mod b ^ Suc k < b ^ Suc k" by simp
  have "n div b ^ Suc k < b" using Suc.prems(1) by (simp add: less_mult_imp_div_less)
  moreover have "d = n div b ^ Suc k \<or> d \<in> set (digits_of b k (n mod b ^ Suc k))" using Suc.prems(2) by simp
  ultimately show ?case using Suc.IH [OF m] by blast
qed simp

lemma foldl_digits_of: "foldl (\<lambda>a d. a * b + d) a (digits_of b k n) = a * b ^ Suc k + n"
proof (induction k arbitrary: a n)
  case (Suc k)
  have "(a * b + n div b ^ Suc k) * b ^ Suc k + n mod b ^ Suc k
      = a * b ^ Suc (Suc k) + (n div b ^ Suc k * b ^ Suc k + n mod b ^ Suc k)" by (simp add: algebra_simps)
  also have "\<dots> = a * b ^ Suc (Suc k) + n" by (simp only: div_mult_mod_eq)
  finally show ?case using Suc.IH [of "a * b + n div b ^ Suc k" "n mod b ^ Suc k"] by (simp del: power_Suc)
qed simp

lemma of_char_digit_char:
  "d < 16 \<Longrightarrow> (of_char (digit_char u d) :: int) = int d + (if d < 10 then 48 else if u then 55 else 87)"
proof -
  assume "d < 16"
  then have "(of_char (digit_char u d) :: nat) = d + (if d < 10 then 48 else if u then 55 else 87)"
    by (simp add: digit_char_def)
  then have "int (of_char (digit_char u d)) = int d + (if d < 10 then 48 else if u then 55 else 87)" by simp
  then show ?thesis by (simp only: of_nat_of_char)
qed

lemma atoi_digit_char: "d < 16 \<Longrightarrow> atoi (digit_char u d) = int d"
  by (auto simp: atoi_def of_char_digit_char Let_def)

lemma foldl_atoi:
  assumes "\<forall>d \<in> set ds. d < 16"
  shows "foldl (\<lambda>a c. a * int b + atoi c) (int a) (map (digit_char u) ds) = int (foldl (\<lambda>a d. a * b + d) a ds)"
  using assms
proof (induction ds arbitrary: a)
  case (Cons d ds)
  have "int a * int b + atoi (digit_char u d) = int (a * b + d)" using Cons.prems by (simp add: atoi_digit_char)
  then show ?case using Cons.IH [of "a * b + d"] Cons.prems by (simp del: of_nat_add of_nat_mult)
qed simp

lemma read_number_digits:
  assumes "b \<le> 16" "n < b ^ Suc k"
  shows "read_number b (map (digit_char u) (digits_of b k n)) = int n"
proof -
  have "\<forall>d \<in> set (digits_of b k n). d < 16" using digits_of_less [OF assms(2)] assms(1) by fastforce
  from foldl_atoi [OF this, of b 0 u] show ?thesis by (simp add: read_number_def foldl_digits_of)
qed

lemma itoa_scale_spec:
  fixes x base v :: "'w::len word"
  assumes "2 \<le> unat base" "unat v = unat base ^ j" "unat v \<le> max 1 (unat x)"
  shows "\<exists>v' k. itoa_scale x base v = Some v' \<and> unat v' = unat base ^ k
      \<and> unat v' \<le> max 1 (unat x) \<and> unat x < unat base ^ Suc k"
  using assms
proof (induction "unat x - unat v" arbitrary: v j rule: less_induct)
  case less
  have pos: "0 < unat v" using less.prems by simp
  show ?case
  proof (cases "x div v \<ge> base")
    case True
    then have "unat base \<le> unat x div unat v" by (simp add: word_le_nat_alt unat_div)
    then have le: "unat base * unat v \<le> unat x" using pos by (simp add: less_eq_div_iff_mult_less_eq)
    then have um: "unat (v * base) = unat base ^ Suc j"
      using less.prems(2) le_less_trans [OF le unsigned_less] by (simp add: unat_word_ariths mult.commute)
    have lt: "unat v < unat (v * base)" using um less.prems(1,2) pos by simp
    have le2: "unat (v * base) \<le> unat x" using um le less.prems(2) by simp
    have "unat x - unat (v * base) < unat x - unat v" using lt le2 by linarith
    from less.hyps [OF this less.prems(1) um] le2 obtain v' k where
      "itoa_scale x base (v * base) = Some v'" "unat v' = unat base ^ k"
      "unat v' \<le> max 1 (unat x)" "unat x < unat base ^ Suc k" by fastforce
    with True show ?thesis by (subst itoa_scale.simps) auto
  next
    case False
    then have "unat x div unat v < unat base" by (simp add: word_le_nat_alt unat_div not_le)
    then have "unat x < unat base * unat v" using pos by (simp add: div_less_iff_less_mult)
    with False less.prems show ?thesis by (subst itoa_scale.simps) auto
  qed
qed

lemma itoa_digits_0 [simp]: "itoa_digits u base x 0 n = Some []"
  by (subst itoa_digits.simps) simp

lemma itoa_digits_step:
  fixes x base v :: "'w::len word"
  assumes "2 \<le> unat base" "unat v = unat base ^ Suc k"
  shows "unat (v div base) = unat base ^ k" "v \<noteq> 0" "v div base \<noteq> 0"
proof -
  show 1: "unat (v div base) = unat base ^ k" using assms by (simp add: unat_div)
  show "v \<noteq> 0" using assms by (auto simp: word_unat_eq_iff)
  have "0 < unat (v div base)" using 1 assms(1) by simp
  then show "v div base \<noteq> 0" by (simp add: unat_gt_0)
qed

lemma itoa_digits_emit:
  fixes x base v :: "'w::len word"
  assumes "2 \<le> unat base" "unat v = unat base ^ k" "n \<noteq> 0 \<or> 0 < unat (x div v) \<or> k = 0"
  shows "itoa_digits u base x v n = Some (map (digit_char u) (digits_of (unat base) k (unat x)))"
  using assms
proof (induction k arbitrary: x v n)
  case 0
  then have v: "v = 1" by (simp add: word_unat_eq_iff)
  have "1 < base" using "0.prems"(1) by (simp add: word_less_nat_alt)
  then have "1 div base = (0 :: 'w word)" by (rule div_word_less)
  with v show ?case by (subst itoa_digits.simps) simp
next
  case (Suc k)
  note s = itoa_digits_step [OF Suc.prems(1,2)]
  have e: "itoa_digits u base (x mod v) (v div base) (n + 1)
      = Some (map (digit_char u) (digits_of (unat base) k (unat (x mod v))))"
    by (rule Suc.IH [OF Suc.prems(1) s(1)]) simp
  have c: "n \<noteq> 0 \<or> unat (x div v) > 0 \<or> v div base = 0" using Suc.prems(3) by auto
  have "unat (x mod v) = unat x mod unat base ^ Suc k" "unat (x div v) = unat x div unat base ^ Suc k"
    using Suc.prems(2) by (simp_all add: unat_mod unat_div)
  with e c s(2) show ?case by (subst itoa_digits.simps) simp
qed

lemma utoa_spec:
  fixes x base :: "'w::len word"
  assumes "2 \<le> unat base" "unat base \<le> 16" "1 < LENGTH('w)"
  obtains s where "Option.bind (itoa_scale x base 1) (\<lambda>v. itoa_digits u base x v 0) = Some s"
    "read_number (unat base) s = uint x" "s \<noteq> []" "length s \<le> LENGTH('w)"
    "unat base ^ (length s - 1) \<le> max 1 (unat x)" "hd s = CHR ''0'' \<longrightarrow> s = ''0''" "\<forall>c \<in> set s. atoi c \<noteq> - 1"
proof -
  let ?b = "unat base" and ?n = "unat x"
  have "unat (1 :: 'w word) = ?b ^ 0" "unat (1 :: 'w word) \<le> max 1 ?n" by simp_all
  from itoa_scale_spec [OF assms(1) this] obtain v k where
    v: "itoa_scale x base 1 = Some v" "unat v = ?b ^ k" "unat v \<le> max 1 ?n" "?n < ?b ^ Suc k" by blast
  let ?s = "map (digit_char u) (digits_of ?b k ?n)"
  have em: "0 \<noteq> (0::nat) \<or> 0 < unat (x div v) \<or> k = 0"
  proof (cases "k = 0")
    case False
    then have "?b ^ 1 \<le> ?b ^ k" using assms(1) by (intro power_increasing) auto
    then have "unat v \<le> ?n" using v(2,3) assms(1) by simp
    then show ?thesis using v(2) assms(1) by (simp add: unat_div div_greater_zero_iff)
  qed simp
  have r: "Option.bind (itoa_scale x base 1) (\<lambda>v. itoa_digits u base x v 0) = Some ?s"
    using itoa_digits_emit [OF assms(1) v(2) em] v(1) by simp
  have lt: "\<forall>d \<in> set (digits_of ?b k ?n). d < 16" using digits_of_less [OF v(4)] assms(2) by fastforce
  have "2 ^ k \<le> ?b ^ k" using assms(1) by (rule power_mono) simp
  then have "2 ^ k \<le> max 1 ?n" using v(2,3) by linarith
  moreover have "(2::nat) ^ 1 \<le> 2 ^ LENGTH('w)" using assms(3) by (intro power_increasing) auto
  then have "max 1 ?n < 2 ^ LENGTH('w)" using unsigned_less [of x] by simp
  ultimately have "(2::nat) ^ k < 2 ^ LENGTH('w)" by linarith
  then have k: "k < LENGTH('w)" by simp
  have hd: "hd ?s = CHR ''0'' \<longrightarrow> ?s = ''0''"
  proof
    assume h: "hd ?s = CHR ''0''"
    have d: "hd ?s = digit_char u (?n div ?b ^ k)" by (cases k) simp_all
    have dl: "?n div ?b ^ k < 16" using v(4) assms(1,2) by (simp add: less_mult_imp_div_less less_le_trans)
    have "int (?n div ?b ^ k) = atoi CHR ''0''" using h d atoi_digit_char [OF dl, of u] by simp
    then have z: "?n div ?b ^ k = 0" by (simp add: atoi_def)
    then have "k = 0" using em v(2) by (simp add: unat_div)
    then show "?s = ''0''" using z by (simp add: digit_char_def char_of_eq_iff take_bit_eq_mod)
  qed
  have at: "\<forall>c \<in> set ?s. atoi c \<noteq> - 1" using lt by (auto simp: atoi_digit_char)
  show ?thesis
    by (rule that [OF r _ _ _ _ hd at]) (use read_number_digits [OF assms(2) v(4)] k v(2,3) in \<open>auto simp: Suc_le_eq simp flip: length_0_conv\<close>)
qed

text \<open>The common form of the four results.\<close>

definition numeral_text :: "nat \<Rightarrow> int \<Rightarrow> char list \<Rightarrow> bool" where
  "numeral_text base x s \<longleftrightarrow> s \<noteq> [] \<and> length s \<le> 64 \<and> read_signed base s = x
     \<and> (0 \<le> x \<longrightarrow> (hd s = CHR ''0'' \<longrightarrow> s = ''0'')) \<and> (x < 0 \<longrightarrow> hd s = CHR ''-'')"

lemma atoi_minus [simp]: "atoi CHR ''-'' = - 1"
  by (simp add: atoi_def)

lemma numeral_textI:
  assumes "read_number b s = int n" "s \<noteq> []" "length s \<le> 64" "hd s = CHR ''0'' \<longrightarrow> s = ''0''" "\<forall>c \<in> set s. atoi c \<noteq> - 1"
  shows "numeral_text b (int n) s"
proof -
  obtain c cs where s: "s = c # cs" using assms(2) by (cases s) auto
  then have "c \<noteq> CHR ''-''" using assms(5) by auto
  then show ?thesis using assms s by (simp add: numeral_text_def read_signed_def)
qed

lemma numeral_textI_neg:
  assumes "read_number b s = int n" "0 < n" "length s \<le> 63"
  shows "numeral_text b (- int n) (CHR ''-'' # s)"
  using assms by (simp add: numeral_text_def read_signed_def)

declare unat_ucast_u32_u64 [simp] unat_ucast_u8_u32 [simp]

lemma ulitoa_spec:
  assumes "2 \<le> unat base" "unat base \<le> 16"
  obtains s where "ulitoa x base u = Some s" "read_number (unat base) s = uint x" "s \<noteq> []" "length s \<le> 64"
    "unat base ^ (length s - 1) \<le> max 1 (unat x)" "hd s = CHR ''0'' \<longrightarrow> s = ''0''" "\<forall>c \<in> set s. atoi c \<noteq> - 1"
  by (rule utoa_spec [of "ucast base :: u64" x u]) (use assms that in \<open>auto simp: ulitoa_def\<close>)

lemma uitoa_spec:
  assumes "2 \<le> unat base" "unat base \<le> 16"
  obtains s where "uitoa x base u = Some s" "read_number (unat base) s = uint x" "s \<noteq> []" "length s \<le> 32"
    "hd s = CHR ''0'' \<longrightarrow> s = ''0''" "\<forall>c \<in> set s. atoi c \<noteq> - 1"
  by (rule utoa_spec [of "ucast base :: u32" x u]) (use assms that in \<open>auto simp: uitoa_def\<close>)

text \<open>The magnitude of a negative number, computed without overflow.\<close>

lemma negated_magnitude:
  fixes x :: "'w::len word"
  assumes "sint x < 0"
  shows "uint (- (x + 1) + 1) = - sint x"
proof -
  have m: "- (x + 1) + 1 = - x" by simp
  have "uint (- x) = - uint x mod 2 ^ LENGTH('w)" by (simp add: uint_word_ariths)
  also have "\<dots> = - sint x mod 2 ^ LENGTH('w)" by (simp add: uint_sint take_bit_eq_mod mod_minus_eq)
  also have "\<dots> = - sint x"
  proof (rule mod_pos_pos_trivial)
    show "0 \<le> - sint x" using assms by simp
    have "- (2 ^ (LENGTH('w) - 1)) \<le> sint x" by (rule sint_ge)
    moreover have "(2::int) ^ (LENGTH('w) - 1) < 2 ^ LENGTH('w)" by (simp add: power_strict_increasing)
    ultimately show "- sint x < 2 ^ LENGTH('w)" by linarith
  qed
  finally show ?thesis by (simp only: m)
qed

lemma sint_eq_uint_pos:
  fixes x :: "'w::len word"
  assumes "\<not> sint x < 0"
  shows "sint x = uint x"
proof -
  have "sint x < 2 ^ (LENGTH('w) - 1)" by (rule sint_lt)
  moreover have "(2::int) ^ (LENGTH('w) - 1) < 2 ^ LENGTH('w)" by (simp add: power_strict_increasing)
  ultimately have "sint x < 2 ^ LENGTH('w)" by linarith
  then show ?thesis using assms by (simp add: uint_sint take_bit_int_eq_self)
qed

lemma u64_less: "unat (x :: u64) < 2 ^ 64"
  using unsigned_less [of x] by simp

lemma decimal_length:
  assumes "(10::nat) ^ (length s - 1) \<le> max 1 n" "n < 2 ^ 64"
  shows "length s \<le> 63"
proof (rule ccontr)
  assume "\<not> length s \<le> 63"
  then have "(10::nat) ^ 63 \<le> 10 ^ (length s - 1)" by (intro power_increasing) auto
  moreover have "(2::nat) ^ 64 < 10 ^ 63" by simp
  ultimately show False using assms by (simp add: max_def split: if_splits)
qed

lemma number_texts:
  assumes "2 \<le> unat base" "unat base \<le> 16" "2 \<le> unat base'" "unat base' \<le> 16"
  shows "\<exists>s. ulitoa x base u = Some s \<and> numeral_text (unat base) (uint x) s"
    and "\<exists>s. uitoa y base' u = Some s \<and> numeral_text (unat base') (uint y) s"
    and "\<exists>s. litoa x = Some s \<and> numeral_text 10 (sint x) s"
    and "\<exists>s. itoa y base' = Some s \<and> numeral_text (unat base') (sint y) s"
proof -
  have pos: "numeral_text b (uint z) s"
    if "read_number b s = uint z" "s \<noteq> []" "length s \<le> 64" "hd s = CHR ''0'' \<longrightarrow> s = ''0''" "\<forall>c \<in> set s. atoi c \<noteq> - 1"
    for b s and z :: "'v::len word"
    using numeral_textI [of b s "unat z"] that by simp
  have neg: "numeral_text b (sint z) (CHR ''-'' # s)"
    if "read_number b s = uint (- (z + 1) + 1)" "sint z < 0" "length s \<le> 63"
    for b s and z :: "'v::len word"
    using numeral_textI_neg [of b s "nat (- sint z)"] that negated_magnitude [OF that(2)] by simp
  show "\<exists>s. ulitoa x base u = Some s \<and> numeral_text (unat base) (uint x) s"
    by (rule ulitoa_spec [OF assms(1,2), of x u]) (blast intro: pos)
  show "\<exists>s. uitoa y base' u = Some s \<and> numeral_text (unat base') (uint y) s"
    by (rule uitoa_spec [OF assms(3,4), of y u]) (force intro: pos)
  have ten: "2 \<le> unat (10 :: u32)" "unat (10 :: u32) \<le> 16" by simp_all
  show "\<exists>s. litoa x = Some s \<and> numeral_text 10 (sint x) s"
  proof (cases "sint x < 0")
    case True
    obtain s where s: "ulitoa (- (x + 1) + 1) 10 False = Some s" "read_number 10 s = uint (- (x + 1) + 1)"
      "10 ^ (length s - 1) \<le> max 1 (unat (- (x + 1) + 1))"
      by (rule ulitoa_spec [OF ten, of "- (x + 1) + 1" False]) auto
    have "length s \<le> 63" by (rule decimal_length [OF s(3) u64_less])
    from neg [OF s(2) True this] s(1) True show ?thesis by (simp add: litoa_def)
  next
    case False
    obtain s where s: "ulitoa x 10 False = Some s" "numeral_text 10 (uint x) s"
      by (rule ulitoa_spec [OF ten, of x False]) (auto intro: pos)
    have "sint x = uint x" using False by (rule sint_eq_uint_pos)
    with s False show ?thesis by (simp add: litoa_def)
  qed
  show "\<exists>s. itoa y base' = Some s \<and> numeral_text (unat base') (sint y) s"
  proof (cases "sint y < 0")
    case True
    obtain s where s: "uitoa (- (y + 1) + 1) base' False = Some s" "read_number (unat base') s = uint (- (y + 1) + 1)" "length s \<le> 32"
      by (rule uitoa_spec [OF assms(3,4), of "- (y + 1) + 1" False]) auto
    have "length s \<le> 63" using s(3) by simp
    from neg [OF s(2) True this] s(1) True show ?thesis by (simp add: itoa_def)
  next
    case False
    obtain s where s: "uitoa y base' False = Some s" "numeral_text (unat base') (uint y) s"
      by (rule uitoa_spec [OF assms(3,4), of y False]) (force intro: pos)
    have "sint y = uint y" using False by (rule sint_eq_uint_pos)
    with s False show ?thesis by (simp add: itoa_def)
  qed
qed

text \<open>
  C30. Number formatting of \<open>printf\<close>: for every 64 bit or 32 bit value and every base from 2 to 16,
  \<open>ulitoa\<close> and \<open>uitoa\<close> end and write the numeral of the value, without leading zeros and with at
  most 64 characters, so that it fits the buffer of 65 bytes with its terminator; \<open>litoa\<close> and \<open>itoa\<close>
  write the signed value, the most negative one included.
\<close>
theorem printf_numbers:
  assumes "2 \<le> unat base" "unat base \<le> 16" "2 \<le> unat base'" "unat base' \<le> 16"
  shows "(\<exists>s. ulitoa x base u = Some s \<and> numeral_text (unat base) (uint x) s) \<and>
    (\<exists>s. uitoa y base' u = Some s \<and> numeral_text (unat base') (uint y) s) \<and>
    (\<exists>s. litoa x = Some s \<and> numeral_text 10 (sint x) s) \<and>
    (\<exists>s. itoa y base' = Some s \<and> numeral_text (unat base') (sint y) s)"
  by (intro conjI number_texts [OF assms])

theorem printf_numbers_witness:
  "(\<exists>s. ulitoa 255 16 True = Some s \<and> numeral_text 16 255 s) \<and>
   (\<exists>s. litoa 0x8000000000000000 = Some s \<and> numeral_text 10 (- 0x8000000000000000) s)"
  using printf_numbers [of 16 10 255 True 0]
    printf_numbers [of 16 10 "0x8000000000000000" True 0] by simp

section \<open>Formats\<close>

text \<open>A format as its author means it: characters that are copied, and conversions.\<close>

datatype piece = Lit char | Conv bool nat bool char

fun decimal :: "nat \<Rightarrow> char list" where
  "decimal n = (if n < 10 then [digit_char False n] else decimal (n div 10) @ [digit_char False (n mod 10)])"

declare decimal.simps [simp del]

definition conversions :: "char set" where
  "conversions = set ''dDuUxXcCsS%''"

fun piece_ok :: "piece \<Rightarrow> bool" where
  "piece_ok (Lit c) \<longleftrightarrow> c \<noteq> NUL \<and> c \<noteq> CHR ''%''"
| "piece_ok (Conv z w l c) \<longleftrightarrow> c \<in> conversions \<and> w < 2 ^ 31"

fun piece_text :: "piece \<Rightarrow> char list" where
  "piece_text (Lit c) = [c]"
| "piece_text (Conv z w l c) =
     CHR ''%'' # (if z then ''0'' else []) @ (if w = 0 then [] else decimal w) @ (if l then ''l'' else []) @ [c]"

fun print_pieces :: "piece list \<Rightarrow> varg list \<Rightarrow> char list res" where
  "print_pieces [] va = Inr []"
| "print_pieces (Lit c # ps) va = rbind (print_pieces ps va) (\<lambda>out. Inr (putc c @ out))"
| "print_pieces (Conv z w l c # ps) va =
     rbind (convert c z (int w) l va) (\<lambda>(out, va). rbind (print_pieces ps va) (\<lambda>out'. Inr (out @ out')))"

lemma parse_field_width_stop: "atoi c = - 1 \<or> 10 < atoi c \<Longrightarrow> parse_field_width c cs r = (c, Some cs, r)"
  by (cases cs) auto

lemma parse_field_width_digits:
  assumes "\<forall>d \<in> set (c # ds). 0 \<le> atoi d \<and> atoi d < 10" "atoi e = - 1 \<or> 10 < atoi e"
  shows "parse_field_width c (ds @ e # rest) r = (e, Some rest, foldl (\<lambda>a c. a * 10 + atoi c) r (c # ds))"
  using assms(1)
proof (induction ds arbitrary: c r)
  case Nil
  then show ?case using parse_field_width_stop [OF assms(2)] by simp
qed auto

lemma decimal_spec:
  "read_number 10 (decimal n) = int n \<and> decimal n \<noteq> []
   \<and> (\<forall>c \<in> set (decimal n). 0 \<le> atoi c \<and> atoi c < 10 \<and> is_width_digit c)
   \<and> (0 < n \<longrightarrow> hd (decimal n) \<noteq> CHR ''0'')"
proof (induction n rule: decimal.induct)
  case (1 n)
  have dg: "atoi (digit_char False d) = int d \<and> is_width_digit (digit_char False d)" if "d < 10" for d
    using that by (simp add: atoi_digit_char is_width_digit_def of_char_digit_char)
  have nz: "digit_char False d \<noteq> CHR ''0''" if "0 < d" "d < 10" for d
  proof
    assume e: "digit_char False d = CHR ''0''"
    have "atoi CHR ''0'' = 0" by (simp add: atoi_def)
    with e dg [OF that(2)] that(1) show False by simp
  qed
  show ?case
  proof (cases "n < 10")
    case True
    then show ?thesis using dg [OF True] nz [OF _ True] by (simp add: decimal.simps read_number_def)
  next
    case False
    have IH: "read_number 10 (decimal (n div 10)) = int (n div 10)" "decimal (n div 10) \<noteq> []"
      "\<forall>c \<in> set (decimal (n div 10)). 0 \<le> atoi c \<and> atoi c < 10 \<and> is_width_digit c"
      "hd (decimal (n div 10)) \<noteq> CHR ''0''" using 1 [OF False] False by auto
    have d: "decimal n = decimal (n div 10) @ [digit_char False (n mod 10)]" using False by (subst decimal.simps) simp
    have "read_number 10 (decimal n) = int (n div 10) * 10 + int (n mod 10)"
      using IH(1) dg [of "n mod 10"] by (simp add: d read_number_def)
    moreover have "int (n div 10) * 10 + int (n mod 10) = int n" by presburger
    ultimately show ?thesis using IH(2-4) dg [of "n mod 10"] by (simp add: d)
  qed
qed

lemma not_digit_conversion:
  assumes "c \<in> conversions \<or> c = CHR ''l''"
  shows "\<not> is_width_digit c" "c \<noteq> CHR ''0''" "c \<noteq> NUL"
  using assms by (auto simp: conversions_def is_width_digit_def)

lemma stop_conversion:
  assumes "c \<in> conversions \<or> c = CHR ''l''"
  shows "atoi c = - 1 \<or> 10 < atoi c"
  using assms by (auto simp: conversions_def atoi_def)

lemma directive_piece:
  assumes "piece_ok (Conv z w l c)"
  shows "directive (Some (tl (piece_text (Conv z w l c)) @ rest)) va
    = rbind (convert c z (int w) l va) (\<lambda>(out, va). Inr (out, Some rest, va))"
proof -
  have c: "c \<in> conversions" using assms by simp
  define tail where "tail = (if l then ''l'' else []) @ [c]"
  obtain e es where e: "tail = e # es" "e \<in> conversions \<or> e = CHR ''l''" using c by (cases l) (auto simp: tail_def)
  note n = not_digit_conversion [OF e(2)]
  have width: "(if is_width_digit d
        then (case Some ds of None \<Rightarrow> (d, Some ds, 0) | Some cs \<Rightarrow> parse_field_width d cs 0)
        else (d, Some ds, 0)) = (e, Some (es @ rest), int w)"
    if h: "d # ds = (if w = 0 then [] else decimal w) @ tail @ rest" for d ds
  proof (cases "w = 0")
    case True
    then show ?thesis using h n e(1) by simp
  next
    case False
    obtain x xs where x: "decimal w = x # xs" using decimal_spec [of w] by (cases "decimal w") auto
    have d: "d = x" "ds = xs @ e # es @ rest" using h False x e(1) by auto
    have "\<forall>c \<in> set (x # xs). 0 \<le> atoi c \<and> atoi c < 10" "is_width_digit x" using decimal_spec [of w] x by auto
    moreover have "foldl (\<lambda>a c. a * 10 + atoi c) 0 (x # xs) = int w" using decimal_spec [of w] x by (simp add: read_number_def)
    ultimately show ?thesis using parse_field_width_digits [OF _ stop_conversion [OF e(2)], of x xs "es @ rest" 0] d by simp
  qed
  have "(if w = 0 then [] else decimal w) @ tail @ rest \<noteq> []" using e(1) by simp
  then obtain d ds where d: "d # ds = (if w = 0 then [] else decimal w) @ tail @ rest" by (metis list.exhaust)
  have d0: "d \<noteq> CHR ''0''"
  proof (cases "w = 0")
    case True
    then show ?thesis using d e(1) n by simp
  next
    case False
    then show ?thesis using d decimal_spec [of w] by (cases "decimal w") auto
  qed
  have text_eq: "tl (piece_text (Conv z w l c)) @ rest = (if z then ''0'' else []) @ d # ds"
    unfolding d tail_def by simp
  have flags: "rbind (fetch (Some (tl (piece_text (Conv z w l c)) @ rest))) (\<lambda>(c, format).
      rbind (if c = CHR ''0'' then rbind (fetch format) (\<lambda>(c, format). Inr (True, c, format)) else Inr (False, c, format)) k)
      = k (z, d, Some ds)" for k
    using d0 unfolding text_eq by (cases z) simp_all
  have long: "(if e = CHR ''l'' then rbind (fetch (Some (es @ rest))) (\<lambda>(c, format). Inr (True, c, format))
      else Inr (False, e, Some (es @ rest))) = Inr (l, c, Some rest)"
    using e(1) c by (cases l) (auto simp: tail_def conversions_def)
  show ?thesis
    unfolding directive_def flags prod.case Let_def width [OF d] long rbind_Inr ..
qed

lemma vfprintf_percent:
  "fetch f = Inr (CHR ''%'', f') \<Longrightarrow> vfprintf f va = (case directive f' va of
       Inl e \<Rightarrow> Inl e
     | Inr (out, f'', va') \<Rightarrow> rbind (vfprintf f'' va') (\<lambda>out'. Inr (out @ out')))"
  by (subst vfprintf.simps) simp

text \<open>
  C29. \<open>vfprintf\<close> parses a format back into its pieces: on the text of a list of literal characters
  and conversions (optional zero flag, decimal width, optional \<open>l\<close>) it copies the literals and runs
  each conversion with exactly its flags and the next arguments, in order.
\<close>
theorem vfprintf_pieces:
  assumes "\<forall>p \<in> set ps. piece_ok p"
  shows "vfprintf (Some (concat (map piece_text ps))) va = print_pieces ps va"
  using assms
proof (induction ps arbitrary: va)
  case Nil
  then show ?case by (subst vfprintf.simps) simp
next
  case (Cons p ps)
  have IH: "vfprintf (Some (concat (map piece_text ps))) va = print_pieces ps va" for va using Cons by simp
  show ?case
  proof (cases p)
    case (Lit c)
    then show ?thesis using Cons.prems IH by (subst vfprintf.simps) simp
  next
    case (Conv z w l c)
    have "piece_ok (Conv z w l c)" using Cons.prems Conv by simp
    note d = directive_piece [OF this, of "concat (map piece_text ps)" va]
    have f: "fetch (Some (concat (map piece_text (p # ps))))
      = Inr (CHR ''%'', Some (tl (piece_text (Conv z w l c)) @ concat (map piece_text ps)))"
      using Conv by simp
    show ?thesis unfolding vfprintf_percent [OF f] d
      by (cases "convert c z (int w) l va") (simp_all add: Conv IH split: prod.splits)
  qed
qed

theorem vfprintf_pieces_witness:
  "vfprintf (Some (concat (map piece_text [Lit CHR ''n'', Lit CHR ''='', Conv True 5 False CHR ''d'', Lit CHR 0x0A]))) [VInt 0xffffffd6]
     = Inr (''n=00-42'' @ [CHR 0x0D, CHR 0x0A])"
proof -
  have ok: "\<forall>p \<in> set [Lit CHR ''n'', Lit CHR ''='', Conv True 5 False CHR ''d'', Lit CHR 0x0A]. piece_ok p"
    by (simp add: conversions_def)
  have "itoa_scale (42 :: u32) 10 1 = Some 10"
    by (simp add: itoa_scale.simps [of 42 10 1] itoa_scale.simps [of 42 10 10])
  moreover have "itoa_digits False (10 :: u32) 42 10 0 = Some ''42''"
    by (simp add: itoa_digits.simps [of False 10 42 10 0] itoa_digits.simps [of False 10 2 1 "Suc 0"]
      digit_char_def char_of_eq_iff take_bit_eq_mod)
  moreover have "sint (0xffffffd6 :: u32) < 0" "- ((0xffffffd6 :: u32) + 1) + 1 = 42" by code_simp+
  ultimately have "itoa 0xffffffd6 10 = Some ''-42''"
    by (simp only: itoa_def uitoa_def Let_def if_True) simp
  moreover have "ucast (0xffffffd6 :: u64) = (0xffffffd6 :: u32)" by code_simp
  ultimately have "convert CHR ''d'' True 5 False [VInt 0xffffffd6] = Inr (put_formatted_string 5 True ''-42'', [])"
    by (simp only: convert_def va_int.simps as_text_def) simp
  moreover have "put_formatted_string 5 True ''-42'' = ''00-42''" by code_simp
  moreover have "putc CHR ''n'' = ''n''" "putc CHR ''='' = ''=''" "putc CHR 0x0A = [CHR 0x0D, CHR 0x0A]" by code_simp+
  ultimately show ?thesis unfolding vfprintf_pieces [OF ok] by simp
qed

text \<open>A format that ends in a percent sign makes \<open>vfprintf\<close> read on past its terminator.\<close>

lemma vfprintf_trailing_percent: "vfprintf (Some ''100%'') va = Inl OutOfBounds"
proof -
  have "directive (Some []) va = Inr ([], None, va)" by (simp add: directive_def is_width_digit_def convert_def)
  moreover have "vfprintf None va = Inl OutOfBounds" by (subst vfprintf.simps) simp
  ultimately have "vfprintf (Some ''%'') va = Inl OutOfBounds" by (simp add: vfprintf_percent)
  then show ?thesis by (simp add: vfprintf.simps [of "Some (_ # _)"])
qed

end
