(* ===== verification/EvWorld.thy ===== *)
theory EvWorld
  imports EvMachine
begin

text \<open>
  Properties of the world switch and of the handlers of EvHyp and EvTrap: what entering and leaving
  a guest preserves, the emulated system registers, page faults and the command keys of the serial line.
\<close>

section \<open>The state for the examples\<close>

text \<open>A machine with the init task and one guest, which runs.\<close>

definition demo_tcb :: Tcb where
  "demo_tcb = zero_Tcb\<lparr>tcb_name := ''New vCPU'', tcb_pid := 1, tcb_priority := 1, tcb_counter := 1, tcb_board := True\<rparr>"

definition demo_hv :: hv where
  "demo_hv = \<lparr>hv_heap = demo_heap,
     hv_sched = \<lparr>tsks = [Some kInitTask, Some demo_tcb, None, None, None, None, None, None], cur_tsk = 1,
                 count_tsks = 2, console_forwarded_pid = 1\<rparr>,
     hv_cpu = \<lparr>cpu_sysregs = (\<lambda>_. 5), vttbr_el2 = 0x1000000000000, hcr_el2 = 0x10, cpu_context = zero_CpuContext\<rparr>,
     hv_board = demo_board, is_asserted = False, initial_vcpu_regs = None, hypervisor_command_comming = False,
     hypervisor_command_switch_req = False, hv_gich_lr0 = 0, hv_console = [], hv_resume = (\<lambda>_. MainLoop)\<rparr>"

lemma demo_hv_simps [simp]:
  "hv_heap demo_hv = demo_heap" "cur demo_hv = 1" "hv_board demo_hv = demo_board" "is_asserted demo_hv = False"
  "hcr_el2 (hv_cpu demo_hv) = 0x10" "cpu_sysregs (hv_cpu demo_hv) r = 5"
  "hypervisor_command_comming demo_hv = False" "hypervisor_command_switch_req demo_hv = False"
  "length (tsks (hv_sched demo_hv)) = 8" "count_tsks (hv_sched demo_hv) = 2" "cur_tsk (hv_sched demo_hv) = 1"
  "console_forwarded_pid (hv_sched demo_hv) = 1" "tsks (hv_sched demo_hv) ! 0 = Some kInitTask"
  "tsks (hv_sched demo_hv) ! Suc 0 = Some demo_tcb"
  by (simp_all add: demo_hv_def cur_def)

lemma demo_tcb_simps [simp]:
  "tcb_pid demo_tcb = 1" "tcb_board demo_tcb" "tcb_mm demo_tcb = new_mm" "tcb_vcpu demo_tcb = zero_VCpuContext"
  "tcb_state demo_tcb = RUNNING" "tcb_stat demo_tcb = zero_TaskStat" "tcb_vcpu_sysregs demo_tcb = (\<lambda>_. 0)"
  by (simp_all add: demo_tcb_def zero_Tcb_def)

lemma demo_task [simp]: "current_task demo_hv = Inr demo_tcb" "task_of (hv_sched demo_hv) (Suc 0) = Inr demo_tcb"
  by (simp_all add: current_task_def task_of_Inr)

lemma empty_new [simp]: "Queue_Empty (Queue_new m)"
  by (simp add: Queue_Empty_def Queue_new_def)

section \<open>Entering and leaving\<close>

lemma FlushConsole_frame:
  assumes "FlushConsole i hv = Inr hv'"
  shows "hv_sched hv' = hv_sched hv \<and> hv_cpu hv' = hv_cpu hv \<and> hv_heap hv' = hv_heap hv \<and> is_asserted hv' = is_asserted hv
    \<and> console_in (hv_board hv') = console_in (hv_board hv)"
  using assms by (auto simp: FlushConsole_def rbind_eq_Inr split: if_splits option.splits)

lemma maybe_flush_frame:
  assumes "(if P then FlushConsole i hv else Inr hv) = Inr hv'"
  shows "hv_sched hv' = hv_sched hv \<and> hv_cpu hv' = hv_cpu hv \<and> hv_heap hv' = hv_heap hv \<and> is_asserted hv' = is_asserted hv
    \<and> console_in (hv_board hv') = console_in (hv_board hv)"
  using assms FlushConsole_frame by (cases P) auto

lemma virq_bits:
  fixes h :: u64
  shows "bit (h OR 0x80) 7" "\<not> bit (h AND NOT 0x80) 7" "bit (h OR 0x40) 7 = bit h 7" "bit (h AND NOT 0x40) 7 = bit h 7"
    "bit (h OR 0x40) 6" "\<not> bit (h AND NOT 0x40) 6" "bit (h OR 0x80) 6 = bit h 6" "bit (h AND NOT 0x80) 6 = bit h 6"
proof -
  have b: "bit (0x80 :: u64) 7" "\<not> bit (0x40 :: u64) 7" "bit (0x40 :: u64) 6" "\<not> bit (0x80 :: u64) 6" by simp_all
  show "bit (h OR 0x80) 7" "\<not> bit (h AND NOT 0x80) 7" "bit (h OR 0x40) 7 = bit h 7" "bit (h AND NOT 0x40) 7 = bit h 7"
    "bit (h OR 0x40) 6" "\<not> bit (h AND NOT 0x40) 6" "bit (h OR 0x80) 6 = bit h 6" "bit (h AND NOT 0x80) 6 = bit h 6"
    using b by (auto simp: bit_or_iff bit_and_iff bit_not_iff)
qed

lemma SetCpuVirtualInterrupt_spec:
  assumes "SetCpuVirtualInterrupt i hv = Inr hv'" "task_of (hv_sched hv) i = Inr t"
  shows "cpu_sysregs (hv_cpu hv') = cpu_sysregs (hv_cpu hv) \<and> vttbr_el2 (hv_cpu hv') = vttbr_el2 (hv_cpu hv) \<and>
    (tcb_board t \<longrightarrow> is_asserted hv = bit (hcr_el2 (hv_cpu hv)) 7 \<longrightarrow>
       bit (hcr_el2 (hv_cpu hv')) 7 = IsIrqAsserted t \<and> is_asserted hv' = IsIrqAsserted t) \<and>
    (bit (hcr_el2 (hv_cpu hv')) 6 = (tcb_board t \<and> IsFiqAsserted t))"
  using assms(1)
  unfolding SetCpuVirtualInterrupt_def assms(2) rbind_Inr Let_def
  by (auto simp: put_task_def CpuEnableVIrqEl1_def CpuDisableVirqEl1_def CpuEnableVFiqEl1_def CpuDisableVFiqEl1_def
      virq_bits virq_bits [simplified] split: if_splits)

lemma RunVcpu_spec:
  assumes "RunVcpu i hv = Inr hv'" "task_of (hv_sched hv) i = Inr t"
  shows "cpu_sysregs (hv_cpu hv') = CpuRegLoadVCpuSysregs (tcb_vcpu_sysregs t) (cpu_sysregs (hv_cpu hv)) \<and>
    vttbr_el2 (hv_cpu hv') = mm_page_table (tcb_mm t) OR push_bit 48 (of_int (tcb_pid t) AND 0xff) \<and>
    (tcb_board t \<longrightarrow> is_asserted hv = bit (hcr_el2 (hv_cpu hv)) 7 \<longrightarrow>
       bit (hcr_el2 (hv_cpu hv')) 7 = IsIrqAsserted t \<and> is_asserted hv' = IsIrqAsserted t)"
proof -
  define c where "c = (SetStage2PageTable (mm_page_table (tcb_mm t)) (of_int (tcb_pid t)) (hv_cpu hv))
      \<lparr>cpu_sysregs := CpuRegLoadVCpuSysregs (tcb_vcpu_sysregs t)
        (cpu_sysregs (SetStage2PageTable (mm_page_table (tcb_mm t)) (of_int (tcb_pid t)) (hv_cpu hv)))\<rparr>"
  have s: "SetCpuVirtualInterrupt i (hv\<lparr>hv_cpu := c\<rparr>) = Inr hv'"
    using assms(1) unfolding RunVcpu_def assms(2) rbind_Inr Let_def c_def .
  have "task_of (hv_sched (hv\<lparr>hv_cpu := c\<rparr>)) i = Inr t" using assms(2) by simp
  note v = SetCpuVirtualInterrupt_spec [OF s this]
  have c: "cpu_sysregs c = CpuRegLoadVCpuSysregs (tcb_vcpu_sysregs t) (cpu_sysregs (hv_cpu hv))"
    "vttbr_el2 c = mm_page_table (tcb_mm t) OR push_bit 48 (of_int (tcb_pid t) AND 0xff)" "hcr_el2 c = hcr_el2 (hv_cpu hv)"
    by (simp_all add: c_def SetStage2PageTable_def)
  show ?thesis using v by (simp add: c)
qed

lemma VmEnter_spec:
  assumes "VmEnter hv = Inr hv'" "current_task hv = Inr t"
  shows "cpu_sysregs (hv_cpu hv') = CpuRegLoadVCpuSysregs (tcb_vcpu_sysregs t) (cpu_sysregs (hv_cpu hv)) \<and>
    vttbr_el2 (hv_cpu hv') = mm_page_table (tcb_mm t) OR push_bit 48 (of_int (tcb_pid t) AND 0xff) \<and>
    (tcb_board t \<longrightarrow> is_asserted hv = bit (hcr_el2 (hv_cpu hv)) 7 \<longrightarrow>
       bit (hcr_el2 (hv_cpu hv')) 7 = (\<not> Queue_Empty (console_in (hv_board hv))) \<and>
       is_asserted hv' = (\<not> Queue_Empty (console_in (hv_board hv))))"
proof -
  define hv1 where "hv1 = (if tcb_board t then put_task (cur hv) (Board_VmEnter (hv_board hv) t) hv else hv)"
  define t1 where "t1 = (if tcb_board t then Board_VmEnter (hv_board hv) t else t)"
  have tk: "task_of (hv_sched hv) (cur hv) = Inr t" using assms(2) by (simp add: current_task_def)
  have c: "cur hv1 = cur hv" by (simp add: hv1_def cur_def put_task_def set_task_def)
  have t1: "task_of (hv_sched hv1) (cur hv) = Inr t1"
    using tk by (simp add: hv1_def t1_def task_of_Inr put_task_def set_task_def)
  obtain hv2 where f: "(if tcb_pid t = uint (GetCurrentPidUsingConsole (hv_sched hv1)) then FlushConsole (cur hv1) hv1 else Inr hv1) = Inr hv2"
    and r: "RunVcpu (cur hv2) hv2 = Inr hv'"
    using assms(1) unfolding VmEnter_def assms(2) rbind_Inr Let_def hv1_def [symmetric] by (auto simp only: rbind_eq_Inr)
  have s: "hv_sched hv2 = hv_sched hv1" "hv_cpu hv2 = hv_cpu hv1" "is_asserted hv2 = is_asserted hv1"
    using maybe_flush_frame [OF f] by simp_all
  have "cur hv2 = cur hv" using s(1) c by (simp add: cur_def)
  then have r': "RunVcpu (cur hv) hv2 = Inr hv'" using r by simp
  have t2: "task_of (hv_sched hv2) (cur hv) = Inr t1" using t1 s(1) by simp
  have same: "tcb_vcpu_sysregs t1 = tcb_vcpu_sysregs t" "tcb_mm t1 = tcb_mm t" "tcb_pid t1 = tcb_pid t" "tcb_board t1 = tcb_board t"
    "hv_cpu hv1 = hv_cpu hv" "is_asserted hv1 = is_asserted hv"
    by (simp_all add: t1_def hv1_def Board_VmEnter_def put_task_def)
  have irq: "tcb_board t \<Longrightarrow> IsIrqAsserted t1 = (\<not> Queue_Empty (console_in (hv_board hv)))"
    by (simp add: t1_def Board_VmEnter_def IsIrqAsserted_def)
  show ?thesis using RunVcpu_spec [OF r' t2] irq unfolding s(2,3) same by simp
qed



text \<open>Entering and leaving a guest always return.\<close>

lemma FlushConsole_returns:
  assumes "task_of (hv_sched hv) i = Inr t" "tcb_board t" "queue_inv (console_out (hv_board hv))"
  obtains hv' where "FlushConsole i hv = Inr hv'"
  using console_drain_spec [OF assms(3)] assms(1,2) by (auto simp: FlushConsole_def)

lemma maybe_flush_returns:
  assumes "task_of (hv_sched hv) i = Inr t" "tcb_board t" "queue_inv (console_out (hv_board hv))"
  obtains hv' where "(if P then FlushConsole i hv else Inr hv) = Inr hv'"
  by (cases P) (rule FlushConsole_returns [OF assms], use that in auto)

lemma VmEnter_returns:
  assumes "current_task hv = Inr t" "tcb_board t" "queue_inv (console_out (hv_board hv))"
  shows "\<exists>hv'. VmEnter hv = Inr hv'"
proof -
  let ?t = "Board_VmEnter (hv_board hv) t"
  let ?hv = "put_task (cur hv) ?t hv"
  have tk: "task_of (hv_sched hv) (cur hv) = Inr t" using assms(1) by (simp add: current_task_def)
  have t: "task_of (hv_sched ?hv) (cur hv) = Inr ?t" "cur ?hv = cur hv" "queue_inv (console_out (hv_board ?hv))"
    using tk assms(3) by (simp_all add: put_task_def set_task_def task_of_Inr cur_def)
  have bt: "tcb_board ?t" using assms(2) by (simp add: Board_VmEnter_def)
  obtain hv2 where f: "(if tcb_pid t = uint (GetCurrentPidUsingConsole (hv_sched ?hv)) then FlushConsole (cur hv) ?hv else Inr ?hv) = Inr hv2"
    using maybe_flush_returns [OF t(1) bt t(3)] by blast
  have s: "task_of (hv_sched hv2) (cur hv) = Inr ?t" "cur hv2 = cur hv"
    using maybe_flush_frame [OF f] t by (simp_all add: cur_def)
  have "\<exists>hv'. RunVcpu (cur hv) hv2 = Inr hv'"
    using s(1) by (simp add: RunVcpu_def SetCpuVirtualInterrupt_def Let_def)
  then obtain hv' where r: "RunVcpu (cur hv2) hv2 = Inr hv'" using s(2) by auto
  have "VmEnter hv = Inr hv'"
    unfolding VmEnter_def assms(1) rbind_Inr Let_def if_P [OF assms(2)] t(2) f r ..
  then show ?thesis ..
qed

lemma demo_leave:
  "\<exists>hv1. VmLeave demo_hv = Inr hv1 \<and> cur hv1 = cur demo_hv \<and> (\<exists>hv3. VmEnter hv1 = Inr hv3)"
proof -
  have b: "demo_hv\<lparr>hv_board := demo_board\<rparr> = demo_hv" by (simp add: demo_hv_def)
  have d: "console_drain (console_out demo_board) = Some ([], console_out demo_board)"
    by (simp add: console_drain.simps [of "Queue_new (\<lambda>_. 0)"])
  have "demo_hv\<lparr>hv_board := demo_board\<lparr>console_out := console_out demo_board\<rparr>, hv_console := hv_console demo_hv @ []\<rparr> = demo_hv"
    by (simp add: demo_hv_def)
  then have f: "FlushConsole 1 demo_hv = Inr demo_hv"
    using d by (simp add: FlushConsole_def)
  define t1 where "t1 = demo_tcb\<lparr>tcb_vcpu_sysregs := CpuRegStoreVCpuSysregs (cpu_sysregs (hv_cpu demo_hv)) (\<lambda>_. 0)\<rparr>"
  have l: "VmLeave demo_hv = Inr (put_task 1 t1 demo_hv)"
    using f by (simp add: VmLeave_def GetCurrentPidUsingConsole_def StopVcpu_def t1_def)
  let ?h = "put_task 1 t1 demo_hv"
  have c: "cur ?h = cur demo_hv" "current_task ?h = Inr t1" "hv_board ?h = demo_board"
    by (simp_all add: put_task_def set_task_def cur_def current_task_def task_of_Inr)
  have "\<exists>hv3. VmEnter ?h = Inr hv3"
    by (rule VmEnter_returns [OF c(2)]) (simp add: t1_def, simp only: c(3), simp add: queue_inv_new)
  then show ?thesis using l c(1) by blast
qed


text \<open>
  C18. The virtual interrupt follows the console: a guest is entered with the virtual IRQ line raised
  exactly when characters wait in its input queue, as long as the static flag agreed with the line
  before, and then it still agrees; and entering always succeeds.
\<close>
theorem virq_follows_console:
  assumes "current_task hv = Inr t" "tcb_board t" "queue_inv (console_out (hv_board hv))"
    and "is_asserted hv = bit (hcr_el2 (hv_cpu hv)) 7"
  shows "\<exists>hv'. VmEnter hv = Inr hv' \<and>
    bit (hcr_el2 (hv_cpu hv')) 7 = (\<not> Queue_Empty (console_in (hv_board hv))) \<and>
    is_asserted hv' = bit (hcr_el2 (hv_cpu hv')) 7"
proof -
  obtain hv' where e: "VmEnter hv = Inr hv'" using VmEnter_returns [OF assms(1-3)] by blast
  then show ?thesis using VmEnter_spec [OF e assms(1)] assms(2,4) by simp
qed

theorem virq_follows_console_witness:
  "\<exists>hv'. VmEnter demo_hv = Inr hv' \<and> \<not> bit (hcr_el2 (hv_cpu hv')) 7"
proof -
  have "queue_inv (console_out (hv_board demo_hv))" by (simp add: queue_inv_new)
  moreover have "is_asserted demo_hv = bit (hcr_el2 (hv_cpu demo_hv)) 7" by simp
  ultimately show ?thesis using virq_follows_console [OF demo_task(1) demo_tcb_simps(2)] by auto
qed

section \<open>Emulated system registers\<close>

text \<open>The fields of the syndrome, as \<open>HandleTrapSystem\<close> reads them.\<close>

abbreviation iss_op0 :: "u32 \<Rightarrow> u8" where "iss_op0 iss \<equiv> ucast (drop_bit 20 iss AND 0xf)"
abbreviation iss_op2 :: "u32 \<Rightarrow> u8" where "iss_op2 iss \<equiv> ucast (drop_bit 17 iss AND 0x7)"
abbreviation iss_op1 :: "u32 \<Rightarrow> u8" where "iss_op1 iss \<equiv> ucast (drop_bit 14 iss AND 0x7)"
abbreviation iss_crn :: "u32 \<Rightarrow> u8" where "iss_crn iss \<equiv> ucast (drop_bit 10 iss AND 0xf)"
abbreviation iss_rt :: "u32 \<Rightarrow> u8" where "iss_rt iss \<equiv> ucast (drop_bit 5 iss AND 0x1f)"
abbreviation iss_crm :: "u32 \<Rightarrow> u8" where "iss_crm iss \<equiv> ucast (drop_bit 1 iss AND 0xf)"
abbreviation iss_dir :: "u32 \<Rightarrow> u8" where "iss_dir iss \<equiv> ucast (iss AND 0x1)"

definition count_sysreg_trap :: "Tcb \<Rightarrow> Tcb" where
  "count_sysreg_trap t = t\<lparr>tcb_stat := (tcb_stat t)\<lparr>sysreg_traps := sysreg_traps (tcb_stat t) + 1\<rparr>\<rparr>"

definition skip_instruction :: "VCpuContext \<Rightarrow> VCpuContext" where
  "skip_instruction f = f\<lparr>vc_pc := vc_pc f + 4\<rparr>"

text \<open>
  A syndrome selects the line of the table with its encoding: the encodings of the lines are
  distinct, so the order of the macros in the source does not matter.
\<close>

lemma mrs_lines_distinct: "distinct (map snd mrs_lines)" "distinct (map fst mrs_lines)"
  by (simp_all add: mrs_lines_def)

lemma msr_lines_distinct: "distinct (map snd msr_lines)"
  by (simp add: msr_lines_def)

lemma find_line_Some:
  assumes "distinct (map snd ls)" "(r, op1, n, m, op2) \<in> set ls"
  shows "find_line ls op1 n m op2 = Some r"
  using assms
proof (induction ls)
  case (Cons l ls)
  show ?case
  proof (cases "l = (r, op1, n, m, op2)")
    case False
    then have "(r, op1, n, m, op2) \<in> set ls" using Cons.prems(2) by auto
    then have "snd l \<noteq> (op1, n, m, op2)" using Cons.prems(1) by force
    then show ?thesis using Cons \<open>(r, op1, n, m, op2) \<in> set ls\<close> by (cases l) (auto simp: find_line_def)
  qed (simp add: find_line_def)
qed simp

lemma put_put: "put_task i t' (put_task i t hv) = put_task i t' hv"
  by (simp add: put_task_def set_task_def)

lemma task_of_put:
  assumes "task_of (hv_sched hv) i = Inr t"
  shows "task_of (hv_sched (put_task i t' hv)) i = Inr t'" "cur (put_task i t' hv) = cur hv"
    "cur_tsk (hv_sched (put_task i t' hv)) = cur hv"
  using assms by (simp_all add: task_of_Inr put_task_def set_task_def cur_def)

lemma IncrementPc_put:
  assumes "task_of (hv_sched hv) (cur hv) = Inr t0" "cur hv \<noteq> 0"
  shows "rbind (IncrementCurrentTaskPc 4 (hv_sched (put_task (cur hv) t hv)))
      (\<lambda>s. Inr (b, (put_task (cur hv) t hv)\<lparr>hv_sched := s\<rparr>))
    = Inr (b, put_task (cur hv) (t\<lparr>tcb_vcpu := skip_instruction (tcb_vcpu t)\<rparr>) hv)"
proof -
  note p = task_of_put [OF assms(1), of t]
  show ?thesis
    unfolding IncrementCurrentTaskPc_def GetVCpuRegs_def p(3) if_not_P [OF assms(2)] p(1) rbind_Inr
    by (simp add: put_task_def set_task_def skip_instruction_def)
qed

lemma TrapMcrMrc_cases:
  assumes "task_of (hv_sched hv) (cur hv) = Inr t" "cur hv \<noteq> 0" "length (vc_regs (tcb_vcpu t)) = 31"
  shows "TrapMcrMrcInstructions (cur hv) opc2 opc1 crn rt crm dir hv =
    (case find_line (if dir = 0 then msr_lines else mrs_lines) opc1 crn crm opc2 of
       None \<Rightarrow> Inr (False, hv)
     | Some r \<Rightarrow> if 31 \<le> unat rt then Inl OutOfBounds
         else Inr (True, put_task (cur hv)
           (if dir = 0
            then t\<lparr>tcb_vcpu_sysregs := (tcb_vcpu_sysregs t)(r := vc_regs (tcb_vcpu t) ! unat rt),
                   tcb_vcpu := skip_instruction (tcb_vcpu t)\<rparr>
            else t\<lparr>tcb_vcpu := skip_instruction ((tcb_vcpu t)\<lparr>vc_regs := (vc_regs (tcb_vcpu t))[unat rt := tcb_vcpu_sysregs t r]\<rparr>)\<rparr>) hv))"
proof -
  have g: "GetVCpuRegs (cur hv) (hv_sched hv) = Inr (tcb_vcpu t)" using assms(1,2) by (simp add: GetVCpuRegs_def)
  note inc = IncrementPc_put [OF assms(1,2)]
  show ?thesis
    unfolding TrapMcrMrcInstructions_def assms(1) g rbind_Inr Let_def
    using assms(3) by (simp add: inc arr_get_def arr_set_def not_le split: option.splits)
qed

lemma HandleTrapSystem_cases:
  assumes "current_task hv = Inr t" "cur hv \<noteq> 0" "length (vc_regs (tcb_vcpu t)) = 31"
  shows "HandleTrapSystem iss hv =
    (if iss_op0 iss \<noteq> 2 \<and> iss_op0 iss \<noteq> 3 then Inl Panic
     else case find_line (if iss_dir iss = 0 then msr_lines else mrs_lines) (iss_op1 iss) (iss_crn iss) (iss_crm iss) (iss_op2 iss) of
       None \<Rightarrow> Inl Panic
     | Some r \<Rightarrow>
         if iss_rt iss = 31 then Inl OutOfBounds
         else let t' = count_sysreg_trap t; f = tcb_vcpu t
              in Inr (put_task (cur hv)
                (if iss_dir iss = 0
                 then t'\<lparr>tcb_vcpu_sysregs := (tcb_vcpu_sysregs t)(r := vc_regs f ! unat (iss_rt iss)), tcb_vcpu := skip_instruction f\<rparr>
                 else t'\<lparr>tcb_vcpu := skip_instruction (f\<lparr>vc_regs := (vc_regs f)[unat (iss_rt iss) := tcb_vcpu_sysregs t r]\<rparr>)\<rparr>) hv))"
proof -
  have tk: "task_of (hv_sched hv) (cur hv) = Inr t" using assms(1) by (simp add: current_task_def)
  let ?hv = "put_task (cur hv) (count_sysreg_trap t) hv"
  note p = task_of_put [OF tk, of "count_sysreg_trap t"]
  have cs: "tcb_vcpu (count_sysreg_trap t) = tcb_vcpu t" "tcb_vcpu_sysregs (count_sysreg_trap t) = tcb_vcpu_sysregs t"
    by (simp_all add: count_sysreg_trap_def)
  have "unat (iss_rt iss) \<le> unat (drop_bit 5 iss AND 0x1f)" by (simp add: unsigned_ucast_eq)
  moreover have "drop_bit 5 iss AND 0x1f \<le> 0x1f" by (rule word_and_le1)
  then have "unat (drop_bit 5 iss AND 0x1f) \<le> 31" by (simp add: word_le_nat_alt)
  ultimately have "unat (iss_rt iss) \<le> 31" by linarith
  then have rt: "(31 \<le> unat (iss_rt iss)) = (iss_rt iss = 31)" by (auto simp: word_unat_eq_iff)
  have T: "TrapMcrMrcInstructions (cur hv) opc2 opc1 crn rt crm dir ?hv =
    (case find_line (if dir = 0 then msr_lines else mrs_lines) opc1 crn crm opc2 of
       None \<Rightarrow> Inr (False, ?hv)
     | Some r \<Rightarrow> if 31 \<le> unat rt then Inl OutOfBounds
         else Inr (True, put_task (cur hv)
           (if dir = 0
            then (count_sysreg_trap t)\<lparr>tcb_vcpu_sysregs := (tcb_vcpu_sysregs t)(r := vc_regs (tcb_vcpu t) ! unat rt),
                   tcb_vcpu := skip_instruction (tcb_vcpu t)\<rparr>
            else (count_sysreg_trap t)\<lparr>tcb_vcpu := skip_instruction ((tcb_vcpu t)\<lparr>vc_regs := (vc_regs (tcb_vcpu t))[unat rt := tcb_vcpu_sysregs t r]\<rparr>)\<rparr>) hv))"
    for opc2 opc1 crn rt crm dir
    by (rule TrapMcrMrc_cases [of ?hv "count_sysreg_trap t", unfolded p(2) cs put_put, OF p(1) assms(2,3)])
  show ?thesis
    unfolding HandleTrapSystem_def Let_def assms(1) rbind_Inr
    unfolding count_sysreg_trap_def [symmetric] p(2) T rt by (simp split: option.splits)
qed

lemma demo_frame: "length (vc_regs (tcb_vcpu demo_tcb)) = 31" "cur demo_hv \<noteq> 0"
  by (simp_all add: zero_VCpuContext_def)



text \<open>
  C38. The guest cannot write CSSELR_EL1: the architectural encoding of the register (op1 2, CRn 0, CRm 0,
  op2 0) has a line for reads, but the line for writes has op1 1, so a guest that selects a cache
  with \<open>msr csselr_el1\<close> stops the hypervisor with a PANIC.
\<close>
theorem csselr_write_panics:
  assumes "current_task hv = Inr t" "cur hv \<noteq> 0" "length (vc_regs (tcb_vcpu t)) = 31"
    and "iss_op1 iss = 2" "iss_crn iss = 0" "iss_crm iss = 0" "iss_op2 iss = 0"
  shows "find_line mrs_lines (iss_op1 iss) (iss_crn iss) (iss_crm iss) (iss_op2 iss) = Some CSSELR_EL1 \<and>
    (iss_dir iss = 0 \<longrightarrow> HandleTrapSystem iss hv = Inl Panic)"
proof -
  have "find_line mrs_lines 2 0 0 0 = Some CSSELR_EL1"
    by (rule find_line_Some [OF mrs_lines_distinct(1)]) (simp add: mrs_lines_def)
  moreover have "find_line msr_lines 2 0 0 0 = None" by (simp add: find_line_def msr_lines_def)
  ultimately show ?thesis unfolding HandleTrapSystem_cases [OF assms(1-3)] using assms(4-7) by simp
qed

theorem csselr_write_panics_witness: "HandleTrapSystem 0x308000 demo_hv = Inl Panic"
  using csselr_write_panics [OF demo_task(1) demo_frame(2,1), of "0x308000"] by simp

section \<open>The command keys\<close>

fun receives :: "u8 list \<Rightarrow> hv \<Rightarrow> hv res" where
  "receives [] hv = Inr hv"
| "receives (c # cs) hv = rbind (Serial_receive c hv) (receives cs)"

lemma receives_append: "receives (as @ bs) hv = rbind (receives as hv) (receives bs)"
proof (induction as arbitrary: hv)
  case (Cons a as)
  then have "receives (as @ bs) = (\<lambda>hv. rbind (receives as hv) (receives bs))" by (rule ext)
  then show ?case by (simp add: rbind_assoc)
qed simp

text \<open>No command is being typed and the console belongs to a running guest.\<close>

definition console_ready :: "nat \<Rightarrow> hv \<Rightarrow> bool" where
  "console_ready k hv \<longleftrightarrow> \<not> hypervisor_command_comming hv \<and> \<not> hypervisor_command_switch_req hv \<and>
     uint (console_forwarded_pid (hv_sched hv)) = int k \<and> k < count_tsks (hv_sched hv) \<and>
     (\<exists>t. task_of (hv_sched hv) k = Inr t \<and> tcb_state t = RUNNING \<and> tcb_board t)"

definition key_to_guest :: "u8 \<Rightarrow> hv \<Rightarrow> hv" where
  "key_to_guest c hv = NotifyVirqHardware 33
     (hv\<lparr>hv_board := (hv_board hv)\<lparr>console_in := snd (Queue_Push (ucast c) (console_in (hv_board hv)))\<rparr>\<rparr>)"

lemma key_to_guest_simps [simp]:
  "hv_sched (key_to_guest c hv) = hv_sched hv" "hypervisor_command_comming (key_to_guest c hv) = hypervisor_command_comming hv"
  "hypervisor_command_switch_req (key_to_guest c hv) = hypervisor_command_switch_req hv" "hv_console (key_to_guest c hv) = hv_console hv"
  "console_in (hv_board (key_to_guest c hv)) = snd (Queue_Push (ucast c) (console_in (hv_board hv)))"
  "console_out (hv_board (key_to_guest c hv)) = console_out (hv_board hv)" "hv_heap (key_to_guest c hv) = hv_heap hv"
  by (simp_all add: key_to_guest_def NotifyVirqHardware_def)

lemma GetTask_existing:
  assumes "task_of s k = Inr t" "k < count_tsks s"
  shows "GetTask (int k) s = Inr (Some k)"
  using assms by (simp add: GetTask_def task_of_Inr)

lemma Serial_receive_ready:
  assumes "console_ready k hv" "c \<noteq> 63"
  shows "Serial_receive c hv = Inr (key_to_guest c hv)"
proof -
  obtain t where t: "task_of (hv_sched hv) k = Inr t" "tcb_state t = RUNNING" "tcb_board t"
    and k: "k < count_tsks (hv_sched hv)" "uint (console_forwarded_pid (hv_sched hv)) = int k"
    and f: "\<not> hypervisor_command_comming hv" using assms(1) by (auto simp: console_ready_def)
  show ?thesis
    unfolding Serial_receive_def if_not_P [OF f] if_not_P [OF assms(2)] GetCurrentPidUsingConsole_def k(2)
      GetTask_existing [OF t(1) k(1)]
    using t by (simp add: key_to_guest_def)
qed

lemma receives_keys:
  assumes "console_ready k hv" "\<forall>c\<in>set cs. c \<noteq> 63"
  shows "receives cs hv = Inr (fold key_to_guest cs hv)"
    and "console_in (hv_board (fold key_to_guest cs hv)) = fold (\<lambda>x q. snd (Queue_Push x q)) (map ucast cs) (console_in (hv_board hv))"
    and "hv_sched (fold key_to_guest cs hv) = hv_sched hv" "hv_console (fold key_to_guest cs hv) = hv_console hv"
    and "console_out (hv_board (fold key_to_guest cs hv)) = console_out (hv_board hv)"
  using assms
proof (induction cs arbitrary: hv)
  case (Cons c cs)
  {
    case 1
    then have "console_ready k (key_to_guest c hv)" by (simp add: console_ready_def)
    then show ?case using 1 Serial_receive_ready [of k hv c] Cons(1) by simp
  next
    case 2
    then have "console_ready k (key_to_guest c hv)" by (simp add: console_ready_def)
    then show ?case using 2 Cons(2) by simp
  next
    case 3
    then have "console_ready k (key_to_guest c hv)" by (simp add: console_ready_def)
    then show ?case using 3 Cons(3) by simp
  next
    case 4
    then have "console_ready k (key_to_guest c hv)" by (simp add: console_ready_def)
    then show ?case using 4 Cons(4) by simp
  next
    case 5
    then have "console_ready k (key_to_guest c hv)" by (simp add: console_ready_def)
    then show ?case using 5 Cons(5) by simp
  }
qed simp_all

text \<open>The command \<open>?s<digit>\<close>.\<close>

lemma digit_byte:
  assumes "d < 10"
  shows "uint (48 + of_nat d :: u8) = 48 + int d" "(48 + of_nat d :: u8) \<noteq> 63"
proof -
  have "unat (48 + of_nat d :: u8) = 48 + d" using assms by (simp add: unat_word_ariths unat_of_nat)
  then have "int (unat (48 + of_nat d :: u8)) = 48 + int d" by simp
  then show 1: "uint (48 + of_nat d :: u8) = 48 + int d" by simp
  then show "(48 + of_nat d :: u8) \<noteq> 63" using assms by auto
qed

lemma receives_switch:
  assumes "\<not> hypervisor_command_comming hv" "\<not> hypervisor_command_switch_req hv" "d < 10"
  shows "receives [63, 115, 48 + of_nat d] hv =
    rbind (GetTask (int d) (hv_sched hv)) (\<lambda>tsk.
      case tsk of None \<Rightarrow> Inr hv
      | Some i \<Rightarrow>
          let hv1 = hv\<lparr>hypervisor_command_comming := True, hypervisor_command_switch_req := True,
                       hv_sched := ConsoleSwitchTo (of_nat d) (hv_sched hv)\<rparr>
          in rbind (task_of (hv_sched hv) i) (\<lambda>t.
             rbind (if tcb_state t = RUNNING then FlushConsole i hv1 else Inr hv1) (\<lambda>hv2.
               Inr (hv2\<lparr>hypervisor_command_switch_req := False, hypervisor_command_comming := False\<rparr>))))"
proof -
  have 1: "Serial_receive 63 hv = Inr (hv\<lparr>hypervisor_command_comming := True\<rparr>)"
    using assms(1) by (simp add: Serial_receive_def)
  let ?h2 = "hv\<lparr>hypervisor_command_comming := True, hypervisor_command_switch_req := True\<rparr>"
  have 2: "Serial_receive 115 (hv\<lparr>hypervisor_command_comming := True\<rparr>) = Inr ?h2"
    using assms(2) by (simp add: Serial_receive_def)
  have dg: "isdigit (48 + int d)" using assms(3) by (simp add: isdigit_def)
  have e: "48 + int d - 48 = int d" by simp
  have bk: "?h2\<lparr>hypervisor_command_switch_req := False, hypervisor_command_comming := False\<rparr> = hv"
    using assms(1,2) by simp
  have tk: "task_of (ConsoleSwitchTo p s) i = task_of s i" for p s i by (simp add: task_of_def ConsoleSwitchTo_def)
  have 3: "Serial_receive (48 + of_nat d) ?h2 =
    rbind (GetTask (int d) (hv_sched hv)) (\<lambda>tsk.
      case tsk of None \<Rightarrow> Inr hv
      | Some i \<Rightarrow>
          let hv1 = ?h2\<lparr>hv_sched := ConsoleSwitchTo (of_nat d) (hv_sched hv)\<rparr>
          in rbind (task_of (hv_sched hv) i) (\<lambda>t.
             rbind (if tcb_state t = RUNNING then FlushConsole i hv1 else Inr hv1) (\<lambda>hv2.
               Inr (hv2\<lparr>hypervisor_command_switch_req := False, hypervisor_command_comming := False\<rparr>))))"
    unfolding Serial_receive_def digit_byte(1) [OF assms(3)] Let_def e of_int_of_nat_eq
    using dg bk by (cases "GetTask (int d) (hv_sched hv)") (simp_all add: tk split: option.split cong: if_cong)
  have unit: "rbind m (receives []) = m" for m by (cases m) simp_all
  show ?thesis unfolding receives.simps(2) 1 2 3 rbind_Inr unit ..
qed


text \<open>
  C19. The command keys: typing \<open>?s<digit>\<close> gives the console to the running guest with that pid and
  prints what its output queue holds; the keys after it (other than \<open>?\<close>) arrive in the guest's input
  queue in order as long as they fit. With a digit that names no task nothing changes.
\<close>
theorem console_switch:
  assumes "\<not> hypervisor_command_comming hv" "\<not> hypervisor_command_switch_req hv" "d < 10"
    and "queue_inv (console_in (hv_board hv))" "queue_inv (console_out (hv_board hv))"
    and "\<forall>c\<in>set keys. c \<noteq> 63" "length (queue_list (console_in (hv_board hv))) + length keys \<le> 1023"
  shows "(\<forall>t. d < count_tsks (hv_sched hv) \<longrightarrow> task_of (hv_sched hv) d = Inr t \<longrightarrow> tcb_state t = RUNNING \<longrightarrow> tcb_board t \<longrightarrow>
      (\<exists>hv'. receives ([63, 115, 48 + of_nat d] @ keys) hv = Inr hv' \<and>
        hv_sched hv' = ConsoleSwitchTo (of_nat d) (hv_sched hv) \<and>
        hv_console hv' = hv_console hv @ map (\<lambda>x. x AND 0xff) (queue_list (console_out (hv_board hv))) \<and>
        queue_list (console_out (hv_board hv')) = [] \<and>
        queue_list (console_in (hv_board hv')) = queue_list (console_in (hv_board hv)) @ map ucast keys)) \<and>
    (count_tsks (hv_sched hv) \<le> d \<longrightarrow> receives [63, 115, 48 + of_nat d] hv = Inr hv)"
proof (intro conjI allI impI)
  fix t assume d: "d < count_tsks (hv_sched hv)" and t: "task_of (hv_sched hv) d = Inr t" "tcb_state t = RUNNING" "tcb_board t"
  let ?h1 = "hv\<lparr>hypervisor_command_comming := True, hypervisor_command_switch_req := True,
                hv_sched := ConsoleSwitchTo (of_nat d) (hv_sched hv)\<rparr>"
  let ?out = "console_out (hv_board hv)"
  obtain q where q: "console_drain ?out = Some (map (\<lambda>x. x AND 0xff) (queue_list ?out), q)" "queue_list q = []"
    using console_drain_spec [OF assms(5)] by blast
  let ?h2 = "?h1\<lparr>hv_board := (hv_board hv)\<lparr>console_out := q\<rparr>,
                 hv_console := hv_console hv @ map (\<lambda>x. x AND 0xff) (queue_list ?out)\<rparr>"
  let ?h3 = "?h2\<lparr>hypervisor_command_switch_req := False, hypervisor_command_comming := False\<rparr>"
  have tk: "task_of (hv_sched ?h1) d = Inr t" using t(1) by (simp add: task_of_def ConsoleSwitchTo_def)
  then have f: "FlushConsole d ?h1 = Inr ?h2" using q(1) t(3) by (simp add: FlushConsole_def)
  have sw: "receives [63, 115, 48 + of_nat d] hv = Inr ?h3"
    unfolding receives_switch [OF assms(1-3)] GetTask_existing [OF t(1) d] rbind_Inr option.case Let_def t(1) if_P [OF t(2)] f ..
  have "uint (of_nat d :: u8) = int d" using assms(3) by (simp add: unsigned_of_nat take_bit_nat_eq_self uint_word_of_int_eq take_bit_int_eq_self)
  then have ready: "console_ready d ?h3"
    using d t tk unfolding console_ready_def by (simp add: ConsoleSwitchTo_def)
  note ks = receives_keys [OF ready assms(6)]
  have "queue_inv (console_in (hv_board ?h3))" "length (queue_list (console_in (hv_board ?h3))) + length (map ucast keys :: u32 list) \<le> 1023"
    using assms(4,7) by simp_all
  note push = ring.push_all [OF this]
  show "\<exists>hv'. receives ([63, 115, 48 + of_nat d] @ keys) hv = Inr hv' \<and>
        hv_sched hv' = ConsoleSwitchTo (of_nat d) (hv_sched hv) \<and>
        hv_console hv' = hv_console hv @ map (\<lambda>x. x AND 0xff) (queue_list ?out) \<and>
        queue_list (console_out (hv_board hv')) = [] \<and>
        queue_list (console_in (hv_board hv')) = queue_list (console_in (hv_board hv)) @ map ucast keys"
    unfolding receives_append sw rbind_Inr ks(1)
    by (intro exI [of _ "fold key_to_guest keys ?h3"]) (use ks push q(2) in simp)
next
  assume "count_tsks (hv_sched hv) \<le> d"
  then show "receives [63, 115, 48 + of_nat d] hv = Inr hv"
    unfolding receives_switch [OF assms(1-3)] by (simp add: GetTask_def)
qed

theorem console_switch_witness:
  "\<exists>hv'. receives ([63, 115, 49] @ [104, 105]) demo_hv = Inr hv' \<and> queue_list (console_in (hv_board hv')) = [104, 105]"
  using console_switch [of demo_hv 1 "[104, 105]"] by (auto simp: queue_inv_new)

text \<open>Giving the console to the init task, which has no board, is a null dereference.\<close>

lemma console_switch_init:
  assumes "\<not> hypervisor_command_comming hv" "\<not> hypervisor_command_switch_req hv"
    and "0 < count_tsks (hv_sched hv)" "task_of (hv_sched hv) 0 = Inr t" "tcb_state t = RUNNING" "\<not> tcb_board t"
  shows "receives [63, 115, 48] hv = Inl NullDeref"
proof -
  have tk: "task_of (ConsoleSwitchTo 0 (hv_sched hv)) 0 = Inr t" using assms(4) by (simp add: task_of_def ConsoleSwitchTo_def)
  have ten: "(0 :: nat) < 10" by simp
  have "receives [63, 115, 48 + of_nat 0] hv = Inl NullDeref"
    unfolding receives_switch [OF assms(1,2) ten]
    using GetTask_existing [OF assms(4,3)] assms(4-6) tk by (simp add: FlushConsole_def)
  then show ?thesis by simp
qed


section \<open>Page faults\<close>

lemma MemoryAccessFault_total:
  assumes ok: "vm_ok own hv" and c: "cur hv \<noteq> 0"
    and free: "unat (nextFreeSpaceIndex (hv_heap hv)) < 524288" "card (kmm_used (hv_heap hv)) + 3 \<le> HEAP_PAGES"
  obtains page hv' where "HandleMmTrapMemoryAccessFault addr hv = Inr (True, hv')"
    "page \<notin> umm_used (hv_heap hv)" "page \<in> umm_used (hv_heap hv')"
    "\<forall>x. x - page < 4096 \<longrightarrow> dram (hv_heap hv') x = 0"
    "guest_lookup hv' (cur hv) (addr AND PAGE_MASK) = page OR kStage2PteDram"
    "tcb_vcpu (task hv' (cur hv)) = tcb_vcpu (task hv (cur hv))"
proof -
  let ?t = "task hv (cur hv)"
  have cn: "cur hv < ntasks hv" by (rule vm_ok_cur [OF ok])
  have g: "guests_inv own (hv_heap hv)" "mm_ok own (tcb_mm ?t)" using ok cn by (auto simp: vm_ok_def block_ok_def)
  have s2: "s2_inv own (hv_heap hv)" "guest_isolated own (hv_heap hv)" using g(1) by (simp_all add: guests_inv_def)
  have hi: "heap_inv (hv_heap hv)" using s2(1) by (simp add: s2_inv_def)
  obtain page0 h0 where "umm_malloc 4096 (hv_heap hv) = Inr (page0, h0)"
    using umm_malloc_returns_iff [OF hi] free(1) by (auto simp: returns_iff)
  then obtain page h1 where z: "umm_zalloc 4096 (hv_heap hv) = Inr (page, h1)" by (auto simp: umm_zalloc_def)
  have h1: "heap_inv h1" "card (kmm_used h1) + 3 \<le> HEAP_PAGES"
    using umm_zalloc_page(1,4) [OF z hi] free(2) by simp_all
  obtain slot mm' h' where m: "MapPage (tcb_mm ?t) (addr AND PAGE_MASK) page kStage2PteDram h1 = Inr (slot, mm', h')"
    using MapPage_total [OF h1] by metis
  from new_guest_page [OF s2 g(2) z m] have n:
    "s2_lookup (dram h') (mm_page_table mm') (addr AND PAGE_MASK) = page OR kStage2PteDram"
    "page \<notin> umm_used (hv_heap hv)" "umm_used h' = insert page (umm_used (hv_heap hv))"
    "\<forall>x. x - page < 4096 \<longrightarrow> dram h' x = 0" "mm_page_table mm' \<noteq> 0" by blast+
  let ?t' = "?t\<lparr>tcb_mm := mm', tcb_stat := (tcb_stat ?t)\<lparr>page_faults := page_faults (tcb_stat ?t) + 1\<rparr>\<rparr>"
  let ?hv' = "put_task (cur hv) ?t' (hv\<lparr>hv_heap := h', hv_cpu := FlushTlbVMID (hv_cpu hv)\<rparr>)"
  have nz: "page \<noteq> 0" using umm_pool.alloc_page [OF hi] z by (auto simp: umm_zalloc_def rbind_eq_Inr)
  have pa: "PageAllocate (hv_heap hv) = Inr (page, h1)" using z by (simp add: PageAllocate_def PAGE_SIZE_def)
  have mn: "MapNewPage (tcb_mm ?t) addr page h1 (hv_cpu hv) = Inr (mm', h', FlushTlbVMID (hv_cpu hv))"
    using m by (simp add: MapNewPage_def)
  have r: "HandleMmTrapMemoryAccessFault addr hv = Inr (True, ?hv')"
    unfolding HandleMmTrapMemoryAccessFault_def current_task_ok [OF ok] rbind_Inr pa prod.case if_not_P [OF nz] mn ..
  have len: "cur hv < length (tsks (hv_sched hv))"
    using cn ok sched_inv_length [of "hv_sched hv"] by (simp add: vm_ok_def ntasks_def)
  have tk: "task ?hv' (cur hv) = ?t'" using len by (simp add: task_def put_task_def set_task_def)
  have hh: "hv_heap ?hv' = h'" by (simp add: put_task_def)
  show ?thesis
  proof (rule that [OF r n(2)])
    show "page \<in> umm_used (hv_heap ?hv')" "\<forall>x. x - page < 4096 \<longrightarrow> dram (hv_heap ?hv') x = 0"
      unfolding hh using n(3,4) by simp_all
    show "guest_lookup ?hv' (cur hv) (addr AND PAGE_MASK) = page OR kStage2PteDram"
      unfolding guest_lookup_def tk hh using n(1,5) by (simp add: mm_lookup_def)
    show "tcb_vcpu (task ?hv' (cur hv)) = tcb_vcpu ?t" unfolding tk by simp
  qed
qed

text \<open>
  C4. Demand paging: a translation fault of a running guest is resolved as long as the guest pool and
  three pages of the kernel heap are free. The faulting page is then mapped to a page of the pool that
  no guest used before and that holds zeros, the instruction is not skipped, so the access is tried
  again, the invariant of the machine still holds, and all other guests keep their translations and
  their memory.
\<close>
theorem page_fault_resolved:
  assumes "vm_ok own hv" "cur hv \<noteq> 0" "drop_bit 2 (data_abort_DFSC esr) = 1"
    and "unat (nextFreeSpaceIndex (hv_heap hv)) < 524288" "card (kmm_used (hv_heap hv)) + 3 \<le> HEAP_PAGES"
  shows "\<exists>page own' hv'. HandleTrapMemAbort p far esr hv = Inr (True, hv') \<and> vm_ok own' hv' \<and> cur hv' = cur hv \<and>
    page \<notin> umm_used (hv_heap hv) \<and> (\<forall>x. x - page < 4096 \<longrightarrow> dram (hv_heap hv') x = 0) \<and>
    guest_lookup hv' (cur hv) (far AND PAGE_MASK) = page OR kStage2PteDram \<and>
    tcb_vcpu (task hv' (cur hv)) = tcb_vcpu (task hv (cur hv)) \<and>
    (\<forall>j<ntasks hv. j \<noteq> cur hv \<longrightarrow> guest_kept hv hv' j)"
proof -
  obtain page hv' where h: "HandleMmTrapMemoryAccessFault far hv = Inr (True, hv')"
    "page \<notin> umm_used (hv_heap hv)" "\<forall>x. x - page < 4096 \<longrightarrow> dram (hv_heap hv') x = 0"
    "guest_lookup hv' (cur hv) (far AND PAGE_MASK) = page OR kStage2PteDram"
    "tcb_vcpu (task hv' (cur hv)) = tcb_vcpu (task hv (cur hv))"
    by (rule MemoryAccessFault_total [OF assms(1,2,4,5)])
  obtain own' where v: "vm_step {cur hv} own own' hv hv'" "cur hv' = cur hv"
    using MemoryAccessFault_vm [OF assms(1,2) h(1)] by blast
  have r: "HandleTrapMemAbort p far esr hv = Inr (True, hv')" using h(1) assms(3) by (simp add: HandleTrapMemAbort_def)
  have "\<forall>j<ntasks hv. j \<noteq> cur hv \<longrightarrow> guest_kept hv hv' j" using vm_step_kept [OF assms(1) v(1)] by simp
  with r v(2) vm_step_ok [OF v(1)] h(2-5) show ?thesis by blast
qed

lemma demo_sched_inv: "sched_inv (hv_sched demo_hv)"
proof -
  have "task_ok 0 kInitTask" "task_ok (Suc 0) demo_tcb"
    by (simp_all add: task_ok_def kInitTask_def zero_Tcb_def demo_tcb_def)
  then show ?thesis by (simp add: sched_inv_def demo_hv_def kNrTasks_def less_Suc_eq eval_nat_numeral)
qed

lemma demo_vm_ok: "vm_ok (\<lambda>_. None) demo_hv"
proof -
  have "task demo_hv 0 = kInitTask" "task demo_hv (Suc 0) = demo_tcb" by (simp_all add: task_def)
  moreover have "block_ok (\<lambda>_. None) 0 kInitTask" "block_ok (\<lambda>_. None) (Suc 0) demo_tcb"
    by (simp_all add: block_ok_def kInitTask_def zero_Tcb_def demo_tcb_def mm_ok_def zero_VCpuContext_def)
  moreover have "board_ok demo_board" by (simp add: board_ok_def queue_inv_new vgic_ok_new)
  moreover have "root_of demo_hv 0 = 0" "root_of demo_hv (Suc 0) = 0"
    by (simp_all add: root_of_def task_def kInitTask_def zero_Tcb_def)
  ultimately show ?thesis
    using demo_sched_inv demo_guests(1) by (simp add: vm_ok_def ntasks_def less_Suc_eq numeral_2_eq_2)
qed

theorem page_fault_resolved_witness:
  "\<exists>page hv'. HandleTrapMemAbort Qemu 0x40000123 0x5 demo_hv = Inr (True, hv') \<and>
     guest_lookup hv' 1 0x40000000 = page OR kStage2PteDram"
proof -
  have d: "drop_bit 2 (data_abort_DFSC 0x5) = 1" by (simp add: data_abort_DFSC_def)
  have f: "unat (nextFreeSpaceIndex (hv_heap demo_hv)) < 524288" "card (kmm_used (hv_heap demo_hv)) + 3 \<le> HEAP_PAGES"
    by (simp add: heap_boot_def, simp add: demo_kmm_used HEAP_PAGES_def)
  have m: "(0x40000123 :: u64) AND PAGE_MASK = 0x40000000" by (simp add: PAGE_MASK_def PAGE_SIZE_def)
  show ?thesis using page_fault_resolved [OF demo_vm_ok demo_frame(2) d f, of Qemu "0x40000123"] unfolding m by auto
qed

end
