(* ===== verification/EvMmu.thy ===== *)
theory EvMmu
  imports EvBoard
begin

text \<open>
  The EL2 stage 1 tables of the hypervisor itself (arch/arm64/mmu.cc) and the boot sequence that
  installs them (arch/arm64/boot_el2.cc). The configuration is the one of arch/mmu_config.h: 4 KB pages,
  36 bit addresses, so three levels from level 1 on, and 14 tables besides the first. \<open>ASSERT\<close> is
  the one of the debug build, a PANIC.
\<close>

section \<open>Configuration\<close>

definition CONFIG_MMU_PAGE_SIZE_BITS :: nat where "CONFIG_MMU_PAGE_SIZE_BITS = 12"
definition CONFIG_MMU_VA_BITS :: nat where "CONFIG_MMU_VA_BITS = 36"
definition CONFIG_MMU_PA_BITS :: nat where "CONFIG_MMU_PA_BITS = 36"
definition CONFIG_MMU_TABLE_LEVEL_MAX :: nat where "CONFIG_MMU_TABLE_LEVEL_MAX = 3"
definition CONFIG_MMU_MAX_XLAT_TABLES :: nat where "CONFIG_MMU_MAX_XLAT_TABLES = 14"

definition XLAT_TABLE_ENTRIES_SHIFT :: nat where
  "XLAT_TABLE_ENTRIES_SHIFT = CONFIG_MMU_PAGE_SIZE_BITS - 3"

definition XLAT_TABLE_ENTRIES :: nat where
  "XLAT_TABLE_ENTRIES = 2 ^ XLAT_TABLE_ENTRIES_SHIFT"

definition GET_VA_LEVEL_SHIFT :: "nat \<Rightarrow> nat" where
  "GET_VA_LEVEL_SHIFT level =
     CONFIG_MMU_PAGE_SIZE_BITS + XLAT_TABLE_ENTRIES_SHIFT * (CONFIG_MMU_TABLE_LEVEL_MAX - level)"

definition GET_PAGE_TABLE_BASE_LEVEL :: "nat \<Rightarrow> nat" where
  "GET_PAGE_TABLE_BASE_LEVEL va_bits =
     (if va_bits > GET_VA_LEVEL_SHIFT 0 then 0
      else if va_bits > GET_VA_LEVEL_SHIFT 1 then 1
      else if va_bits > GET_VA_LEVEL_SHIFT 2 then 2 else 3)"

definition PAGE_TABLE_BASE_LEVEL :: nat where
  "PAGE_TABLE_BASE_LEVEL = GET_PAGE_TABLE_BASE_LEVEL CONFIG_MMU_VA_BITS"

definition NUM_BASE_LEVEL_ENTRIES :: nat where
  "NUM_BASE_LEVEL_ENTRIES = 2 ^ (CONFIG_MMU_VA_BITS - GET_VA_LEVEL_SHIFT PAGE_TABLE_BASE_LEVEL)"

lemmas mmu_config = CONFIG_MMU_PAGE_SIZE_BITS_def CONFIG_MMU_VA_BITS_def CONFIG_MMU_PA_BITS_def
  CONFIG_MMU_TABLE_LEVEL_MAX_def CONFIG_MMU_MAX_XLAT_TABLES_def XLAT_TABLE_ENTRIES_SHIFT_def
  XLAT_TABLE_ENTRIES_def GET_VA_LEVEL_SHIFT_def GET_PAGE_TABLE_BASE_LEVEL_def PAGE_TABLE_BASE_LEVEL_def
  NUM_BASE_LEVEL_ENTRIES_def

lemma mmu_config_values:
  "XLAT_TABLE_ENTRIES = 512" "PAGE_TABLE_BASE_LEVEL = 1" "NUM_BASE_LEVEL_ENTRIES = 64"
  "GET_VA_LEVEL_SHIFT 1 = 30" "GET_VA_LEVEL_SHIFT 2 = 21" "GET_VA_LEVEL_SHIFT 3 = 12" "GET_VA_LEVEL_SHIFT (Suc 0) = 30"
  by (simp_all add: mmu_config)

section \<open>State\<close>

text \<open>
  The two arrays of translation tables, given by their addresses and the eight byte words at each
  address, the number of tables handed out by \<open>NewXlatTablesEntry\<close>, and the registers set by \<open>Init\<close>.
\<close>

record mmu =
  s_base_xlat_table :: u64
  s_xlat_tables :: u64
  xlat_mem :: "u64 \<Rightarrow> u64"
  xlat_idx :: nat
  mair_el2 :: u64
  tcr_el2 :: u64
  ttbr0_el2 :: u64
  vtcr_el2 :: u64
  sctlr_el2 :: u64

text \<open>An access outside the two arrays is a fault.\<close>

definition in_xlat :: "mmu \<Rightarrow> u64 \<Rightarrow> bool" where
  "in_xlat m p \<longleftrightarrow> unat (p - s_base_xlat_table m) < 8 * NUM_BASE_LEVEL_ENTRIES \<or>
     unat (p - s_xlat_tables m) < 8 * XLAT_TABLE_ENTRIES * CONFIG_MMU_MAX_XLAT_TABLES"

definition pte_load :: "mmu \<Rightarrow> u64 \<Rightarrow> u64 res" where
  "pte_load m p = (if in_xlat m p then Inr (xlat_mem m p) else Inl OutOfBounds)"

definition pte_store :: "u64 \<Rightarrow> u64 \<Rightarrow> mmu \<Rightarrow> mmu res" where
  "pte_store p v m = (if in_xlat m p then Inr (m\<lparr>xlat_mem := (xlat_mem m)(p := v)\<rparr>) else Inl OutOfBounds)"

section \<open>Descriptors\<close>

definition PTE_INVALID_DESC :: u64 where "PTE_INVALID_DESC = 0"
definition PTE_BLOCK_DESC :: u64 where "PTE_BLOCK_DESC = 1"
definition PTE_TABLE_DESC :: u64 where "PTE_TABLE_DESC = 3"
definition PTE_PAGE_DESC :: u64 where "PTE_PAGE_DESC = 3"

definition kRW :: u32 where "kRW = 8"
definition kNonSecure :: u32 where "kNonSecure = 0x10"
definition kExecuteNever :: u32 where "kExecuteNever = 0x20"

definition PteDescType :: "u64 \<Rightarrow> u64" where
  "PteDescType d = d AND 3"

definition GetVaIndex :: "u64 \<Rightarrow> nat \<Rightarrow> u64" where
  "GetVaIndex va level = drop_bit (GET_VA_LEVEL_SHIFT level) va AND of_nat (XLAT_TABLE_ENTRIES - 1)"

definition block_desc :: "u64 \<Rightarrow> u32 \<Rightarrow> nat \<Rightarrow> u64" where
  "block_desc pa attrs level =
     (let desc = pa;
          desc = desc OR (if level = 3 then PTE_PAGE_DESC else PTE_BLOCK_DESC);
          desc = desc OR (if attrs AND kNonSecure \<noteq> 0 then push_bit 5 1 else 0);
          desc = desc OR (if attrs AND kRW \<noteq> 0 then 0 else push_bit 7 1);
          desc = desc OR push_bit 10 1;
          mem_type = attrs AND 7;
          desc = desc OR push_bit 2 (ucast mem_type)
      in if mem_type \<le> 2 then desc OR push_bit 8 2 OR push_bit 53 1 OR push_bit 54 1
         else if mem_type \<le> 5
         then let desc = (if mem_type = 4 then desc OR push_bit 8 3 else desc OR push_bit 8 2)
              in if attrs AND kExecuteNever \<noteq> 0 then desc OR push_bit 53 1 else desc
         else desc)"

definition SetPteBlockDesc :: "u64 \<Rightarrow> u64 \<Rightarrow> u32 \<Rightarrow> nat \<Rightarrow> mmu \<Rightarrow> mmu res" where
  "SetPteBlockDesc pte pa attrs level = pte_store pte (block_desc pa attrs level)"

definition SetPteTableDesc :: "u64 \<Rightarrow> u64 \<Rightarrow> mmu \<Rightarrow> mmu res" where
  "SetPteTableDesc pte table = pte_store pte (PTE_TABLE_DESC OR table)"

section \<open>Tables\<close>

definition NewXlatTablesEntry :: "mmu \<Rightarrow> (u64 \<times> mmu) res" where
  "NewXlatTablesEntry m =
     (if xlat_idx m < CONFIG_MMU_MAX_XLAT_TABLES
      then Inr (s_xlat_tables m + of_nat (xlat_idx m * (8 * XLAT_TABLE_ENTRIES)), m\<lparr>xlat_idx := xlat_idx m + 1\<rparr>)
      else Inl Panic)"

text \<open>The walk to the entry of a level; \<open>None\<close> is the null pointer. The fuel counts the levels left.\<close>

fun find_pte :: "mmu \<Rightarrow> u64 \<Rightarrow> nat \<Rightarrow> nat \<Rightarrow> nat \<Rightarrow> u64 \<Rightarrow> u64 option res" where
  "find_pte m va level 0 i pte = Inr None"
| "find_pte m va level (Suc n) i pte =
     (let pte = pte + 8 * GetVaIndex va i
      in if i = level then Inr (Some pte)
         else rbind (pte_load m pte) (\<lambda>d.
              if PteDescType d \<noteq> PTE_TABLE_DESC then Inr None
              else find_pte m va level n (i + 1) (d AND 0x0000fffffffff000)))"

definition FindPteIndex :: "mmu \<Rightarrow> u64 \<Rightarrow> nat \<Rightarrow> u64 option res" where
  "FindPteIndex m va level =
     find_pte m va level (CONFIG_MMU_TABLE_LEVEL_MAX + 1 - PAGE_TABLE_BASE_LEVEL) PAGE_TABLE_BASE_LEVEL (s_base_xlat_table m)"

fun split_entries :: "u64 \<Rightarrow> nat \<Rightarrow> u64 \<Rightarrow> nat list \<Rightarrow> mmu \<Rightarrow> mmu res" where
  "split_entries old level new_table [] m = Inr m"
| "split_entries old level new_table (i # is) m =
     rbind (pte_store (new_table + of_nat (8 * i))
       ((old OR ucast (push_bit (GET_VA_LEVEL_SHIFT (level + 1)) (of_nat i :: u32))) OR
          (if level = 2 then PTE_PAGE_DESC else 0)) m)
       (split_entries old level new_table is)"

definition SplitPteBlockDesc :: "u64 \<Rightarrow> nat \<Rightarrow> mmu \<Rightarrow> mmu res" where
  "SplitPteBlockDesc pte level m =
     rbind (pte_load m pte) (\<lambda>old_block_desc.
     rbind (NewXlatTablesEntry m) (\<lambda>(new_table, m).
     rbind (split_entries old_block_desc level new_table [0..<XLAT_TABLE_ENTRIES] m) (\<lambda>m.
       SetPteTableDesc pte new_table m)))"

function InitXlat_loop :: "u64 \<Rightarrow> u64 \<Rightarrow> u64 \<Rightarrow> u32 \<Rightarrow> nat \<Rightarrow> mmu \<Rightarrow> mmu res" where
  "InitXlat_loop va pa sz attrs level m =
     (if \<not> sz > 0 then Inr m
      else if \<not> level \<le> CONFIG_MMU_TABLE_LEVEL_MAX then Inl Panic
      else case FindPteIndex m va level of
        Inl e \<Rightarrow> Inl e
      | Inr None \<Rightarrow> Inl Panic
      | Inr (Some pte) \<Rightarrow>
          let level_size = push_bit (GET_VA_LEVEL_SHIFT level) 1
          in if sz \<ge> level_size \<and> va AND (level_size - 1) = 0
             then (case SetPteBlockDesc pte pa attrs level m of
                     Inl e \<Rightarrow> Inl e
                   | Inr m \<Rightarrow> InitXlat_loop (va + level_size) (pa + level_size) (sz - level_size) attrs PAGE_TABLE_BASE_LEVEL m)
             else (case pte_load m pte of
                 Inl e \<Rightarrow> Inl e
               | Inr d \<Rightarrow>
                   if PteDescType d = PTE_INVALID_DESC
                   then (case NewXlatTablesEntry m of
                           Inl e \<Rightarrow> Inl e
                         | Inr (new_table, m) \<Rightarrow>
                             (case SetPteTableDesc pte new_table m of
                                Inl e \<Rightarrow> Inl e
                              | Inr m \<Rightarrow> InitXlat_loop va pa sz attrs (level + 1) m))
                   else if PteDescType d = PTE_BLOCK_DESC
                   then (case SplitPteBlockDesc pte level m of
                           Inl e \<Rightarrow> Inl e
                         | Inr m \<Rightarrow> InitXlat_loop va pa sz attrs (level + 1) m)
                   else if PteDescType d = PTE_TABLE_DESC then InitXlat_loop va pa sz attrs (level + 1) m
                   else Inl Panic))"
  by pat_completeness auto
termination
proof (relation "measures [\<lambda>(va, pa, sz, attrs, level, m). unat sz, \<lambda>(va, pa, sz, attrs, level, m). 4 - level]", goal_cases)
  case (2 va pa sz attrs level m b pte ls m')
  have "GET_VA_LEVEL_SHIFT level < 64" using 2(2) by (simp add: mmu_config)
  then have "ls \<noteq> 0" unfolding 2(5) by (simp add: push_bit_eq_mult)
  then have "0 < unat ls" by (simp add: unat_gt_0)
  then have "unat (sz - ls) < unat sz" using 2(6) by (simp add: unat_sub word_le_nat_alt)
  then show ?case by simp
qed (auto simp: mmu_config)

declare InitXlat_loop.simps [simp del]

record MmuMapRegion =
  reg_name :: string
  base_pa :: u64
  base_va :: u64
  reg_size :: u64
  reg_attrs :: u64

definition InitXlatTables :: "MmuMapRegion \<Rightarrow> mmu \<Rightarrow> mmu res" where
  "InitXlatTables region m =
     (if base_va region AND (ucast PAGE_SIZE - 1) \<noteq> 0 then Inl Panic
      else if reg_size region AND (ucast PAGE_SIZE - 1) \<noteq> 0 then Inl Panic
      else InitXlat_loop (base_va region) (base_pa region) (reg_size region) (ucast (reg_attrs region)) PAGE_TABLE_BASE_LEVEL m)"

fun init_regions :: "MmuMapRegion list \<Rightarrow> mmu \<Rightarrow> mmu res" where
  "init_regions [] m = Inr m"
| "init_regions (r # rs) m = rbind (InitXlatTables r m) (init_regions rs)"

text \<open>The guest regions come first, then the regions of the hypervisor.\<close>

definition CreatePageTables :: "MmuMapRegion list \<Rightarrow> MmuMapRegion list \<Rightarrow> mmu \<Rightarrow> mmu res" where
  "CreatePageTables kernel_regions guest_regions m =
     rbind (init_regions guest_regions m) (init_regions kernel_regions)"

definition CheckMmuConfigs :: "MmuMapRegion list \<Rightarrow> unit res" where
  "CheckMmuConfigs guest_regions =
     (let max_pa = fold (\<lambda>r x. max x (base_pa r + reg_size r)) guest_regions 0;
          max_va = fold (\<lambda>r x. max x (base_va r + reg_size r)) guest_regions 0
      in if \<not> max_pa \<le> push_bit CONFIG_MMU_PA_BITS 1 then Inl Panic
         else if \<not> max_va \<le> push_bit CONFIG_MMU_VA_BITS 1 then Inl Panic
         else Inr ())"

section \<open>Registers\<close>

definition xDefaultMairEl2 :: u64 where
  "xDefaultMairEl2 = push_bit (0 * 8) 0x00 OR push_bit (1 * 8) 0x04 OR push_bit (2 * 8) 0x0c OR
     push_bit (3 * 8) 0x44 OR push_bit (4 * 8) 0xff"

text \<open>\<open>TCR_PS_BITS\<close> for 36 bit physical addresses is \<open>TCR_PS_BITS_64GB\<close>.\<close>

definition TCR_PS_BITS :: u64 where
  "TCR_PS_BITS = (if CONFIG_MMU_PA_BITS = 48 then 5 else if CONFIG_MMU_PA_BITS = 44 then 4
     else if CONFIG_MMU_PA_BITS = 42 then 3 else if CONFIG_MMU_PA_BITS = 40 then 2
     else if CONFIG_MMU_PA_BITS = 36 then 1 else 0)"

definition TCR_T0SZ :: "nat \<Rightarrow> u64" where
  "TCR_T0SZ va_bits = of_nat (64 - va_bits)"

definition GetTcr :: "int \<Rightarrow> u64" where
  "GetTcr el =
     (let tcr = (if el = 1 then push_bit 32 TCR_PS_BITS OR push_bit 23 1 else push_bit 16 TCR_PS_BITS)
      in tcr OR TCR_T0SZ CONFIG_MMU_VA_BITS OR push_bit 12 3 OR push_bit 10 1 OR push_bit 8 1)"

definition VTCR_VALUE :: u64 where
  "VTCR_VALUE = push_bit 30 1 OR push_bit 29 1 OR push_bit 16 TCR_PS_BITS OR push_bit 12 3 OR push_bit 10 1 OR
     push_bit 8 1 OR push_bit 6 1 OR TCR_T0SZ CONFIG_MMU_VA_BITS"

definition Mmu_Enable :: "mmu \<Rightarrow> mmu" where
  "Mmu_Enable m = m\<lparr>sctlr_el2 := sctlr_el2 m OR push_bit 2 1 OR push_bit 0 1\<rparr>"

definition Mmu_Disable :: "mmu \<Rightarrow> mmu" where
  "Mmu_Disable m = m\<lparr>sctlr_el2 := sctlr_el2 m AND NOT (push_bit 0 1) AND NOT (push_bit 2 1)\<rparr>"

definition Mmu_Init :: "MmuMapRegion list \<Rightarrow> MmuMapRegion list \<Rightarrow> mmu \<Rightarrow> mmu res" where
  "Mmu_Init kernel_regions guest_regions m =
     rbind (CheckMmuConfigs guest_regions) (\<lambda>_.
     rbind (CreatePageTables kernel_regions guest_regions m) (\<lambda>m.
       Inr (Mmu_Enable (m\<lparr>mair_el2 := xDefaultMairEl2, tcr_el2 := GetTcr 2, ttbr0_el2 := s_base_xlat_table m,
                          vtcr_el2 := VTCR_VALUE\<rparr>))))"

section \<open>The regions at boot\<close>

text \<open>The symbols of the linker script, start and size of each segment.\<close>

record linker =
  ld_text :: "u64 \<times> u64"
  ld_rodata :: "u64 \<times> u64"
  ld_data :: "u64 \<times> u64"
  ld_bss :: "u64 \<times> u64"
  ld_stack :: "u64 \<times> u64"
  ld_heap :: "u64 \<times> u64"
  ld_uncached :: "u64 \<times> u64"
  ld_user :: "u64 \<times> u64"

definition CONFIG_DEVICEIO :: "platform \<Rightarrow> u64 \<times> u64" where
  "CONFIG_DEVICEIO p = (if p = Qemu then (0x08000000, 512 * 0x100000) else (0xFC000000, 0x4000000))"

definition region_at :: "string \<Rightarrow> u64 \<times> u64 \<Rightarrow> u64 \<Rightarrow> MmuMapRegion" where
  "region_at n seg at = \<lparr>reg_name = n, base_pa = fst seg, base_va = fst seg, reg_size = snd seg, reg_attrs = at\<rparr>"

definition kMmuGuestRegions :: "platform \<Rightarrow> linker \<Rightarrow> MmuMapRegion list" where
  "kMmuGuestRegions p l =
     [region_at ''device_io'' (CONFIG_DEVICEIO p) (0 OR 8 OR 0),
      region_at ''user_dram'' (ld_user l) (3 OR 8 OR 0)]"

definition kMmuKernelRegions :: "linker \<Rightarrow> MmuMapRegion list" where
  "kMmuKernelRegions l =
     [region_at ''kernel_code'' (ld_text l) (4 OR 0 OR 0 OR 0),
      region_at ''kernel_rdata'' (ld_rodata l) (4 OR 0 OR 0x20 OR 0),
      region_at ''kernel_data'' (ld_data l) (4 OR 8 OR 0),
      region_at ''kernel_bss'' (ld_bss l) (4 OR 8 OR 0),
      region_at ''kernel_stack'' (ld_stack l) (4 OR 8 OR 0),
      region_at ''kernel_heap'' (ld_heap l) (4 OR 8 OR 0),
      region_at ''kernel_uncached'' (ld_uncached l) (3 OR 8 OR 0)]"

definition kSctlrEl2InitVal :: u64 where
  "kSctlrEl2InitVal = push_bit 29 1 OR push_bit 28 1 OR push_bit 23 1 OR push_bit 22 1 OR push_bit 18 1 OR
     push_bit 16 1 OR push_bit 12 1 OR push_bit 11 1 OR push_bit 5 1 OR push_bit 4 1 OR push_bit 3 1"

definition kHcrEl2InitVal :: u64 where
  "kHcrEl2InitVal = push_bit 31 1 OR push_bit 21 1 OR push_bit 18 1 OR push_bit 17 1 OR push_bit 16 1 OR
     push_bit 14 1 OR push_bit 13 1 OR push_bit 5 1 OR push_bit 4 1 OR push_bit 3 1 OR push_bit 1 1 OR push_bit 0 1"

definition InitHypervisorRegisters :: "mmu \<times> cpu \<Rightarrow> mmu \<times> cpu" where
  "InitHypervisorRegisters = (\<lambda>(m, c). (m\<lparr>sctlr_el2 := kSctlrEl2InitVal\<rparr>, c\<lparr>hcr_el2 := kHcrEl2InitVal\<rparr>))"

text \<open>\<open>CpuRouteIrqEl2\<close> sets HCR_EL2.IMO, which the initial value already has.\<close>

definition CpuRouteIrqEl2 :: "cpu \<Rightarrow> cpu" where
  "CpuRouteIrqEl2 c = c\<lparr>hcr_el2 := hcr_el2 c OR 0x10\<rparr>"

text \<open>The serial line, the interrupt controller and the timer are set up by their drivers.\<close>

definition BootFromEl2 :: "platform \<Rightarrow> linker \<Rightarrow> mmu \<times> cpu \<Rightarrow> (mmu \<times> cpu) res" where
  "BootFromEl2 p l = (\<lambda>(m, c).
     let (m, c) = InitHypervisorRegisters (Mmu_Disable m, c)
     in rbind (Mmu_Init (kMmuKernelRegions l) (kMmuGuestRegions p l) m) (\<lambda>m. Inr (m, CpuRouteIrqEl2 c)))"

section \<open>Descriptors: what they say\<close>

text \<open>
  What the hardware reads from a leaf: the address translated to, and all bits that are not address
  or type (attributes and permissions).
\<close>

definition leaf_address :: "nat \<Rightarrow> u64 \<Rightarrow> u64 \<Rightarrow> u64" where
  "leaf_address level d va =
     (d AND 0x0000fffffffff000 AND NOT (mask (GET_VA_LEVEL_SHIFT level))) OR (va AND mask (GET_VA_LEVEL_SHIFT level))"

definition leaf_attributes :: "u64 \<Rightarrow> u64" where
  "leaf_attributes d = d AND NOT 0x0000fffffffff003"

lemma bit_address_mask: "bit (0x0000fffffffff000 :: u64) n \<longleftrightarrow> 12 \<le> n \<and> n < 48"
proof -
  have e: "(0x0000fffffffff000 :: u64) = push_bit 12 (mask 36)" by (simp add: mask_eq_exp_minus_1)
  show ?thesis unfolding e by (auto simp: bit_push_bit_iff bit_mask_iff)
qed

lemma bit_attribute_mask: "bit (0x0000fffffffff003 :: u64) n \<longleftrightarrow> n < 2 \<or> 12 \<le> n \<and> n < 48"
proof -
  have e: "(0x0000fffffffff003 :: u64) = mask 2 OR push_bit 12 (mask 36)" by (simp add: mask_eq_exp_minus_1)
  show ?thesis unfolding e by (auto simp: bit_or_iff bit_push_bit_iff bit_mask_iff)
qed

lemma bit_1_iff': "bit (1 :: u64) n \<longleftrightarrow> n = 0" "bit (2 :: u64) n \<longleftrightarrow> n = 1" "bit (3 :: u64) n \<longleftrightarrow> n < 2"
proof -
  show "bit (1 :: u64) n \<longleftrightarrow> n = 0" by (simp add: bit_1_iff)
  have e: "(2 :: u64) = push_bit 1 1" by simp
  show "bit (2 :: u64) n \<longleftrightarrow> n = 1" unfolding e bit_push_bit_iff by (auto simp: bit_1_iff)
  have e: "(3 :: u64) = mask 2" by (simp add: mask_eq_exp_minus_1)
  show "bit (3 :: u64) n \<longleftrightarrow> n < 2" unfolding e by (auto simp: bit_mask_iff)
qed

text \<open>The bits of the entries a split writes.\<close>

definition split_entry :: "u64 \<Rightarrow> nat \<Rightarrow> nat \<Rightarrow> u64" where
  "split_entry old level i =
     ((old OR ucast (push_bit (GET_VA_LEVEL_SHIFT (level + 1)) (of_nat i :: u32))) OR
        (if level = 2 then PTE_PAGE_DESC else 0))"

lemma bit_va_index:
  assumes "s \<le> 21"
  shows "bit (ucast (push_bit s (of_nat (unat (drop_bit s va AND of_nat 511))) :: u32) :: u64) n
    \<longleftrightarrow> s \<le> n \<and> n < s + 9 \<and> bit (va :: u64) n"
proof -
  have m: "(of_nat 511 :: u64) = mask 9" by (simp add: mask_eq_exp_minus_1)
  have u: "(of_nat (unat (w :: u64)) :: u32) = ucast w" for w by simp
  have "bit (ucast (push_bit s (of_nat (unat (drop_bit s va AND of_nat 511))) :: u32) :: u64) n
     \<longleftrightarrow> n < 32 \<and> s \<le> n \<and> n - s < 9 \<and> bit va n"
    unfolding u m by (auto simp: bit_ucast_iff bit_push_bit_iff bit_and_iff bit_drop_bit_eq bit_mask_iff)
  then show ?thesis using assms by auto
qed

lemma bit_split_entry:
  assumes "level = 1 \<or> level = 2"
  shows "bit (split_entry old level (unat (GetVaIndex va (level + 1)))) n \<longleftrightarrow>
    bit old n \<or> (GET_VA_LEVEL_SHIFT (level + 1) \<le> n \<and> n < GET_VA_LEVEL_SHIFT level \<and> bit va n) \<or> (level = 2 \<and> n < 2)"
proof -
  let ?s = "GET_VA_LEVEL_SHIFT (level + 1)"
  have e: "512 - 1 = (511 :: nat)" by simp
  have s: "?s \<le> 21" "GET_VA_LEVEL_SHIFT level = ?s + 9" using assms by (auto simp: mmu_config)
  have "bit (split_entry old level (unat (GetVaIndex va (level + 1)))) n \<longleftrightarrow>
    bit old n \<or> (?s \<le> n \<and> n < ?s + 9 \<and> bit va n) \<or> (level = 2 \<and> n < 2)"
    unfolding split_entry_def GetVaIndex_def mmu_config_values(1) e bit_or_iff bit_va_index [OF s(1)]
    by (simp add: PTE_PAGE_DESC_def bit_1_iff' del: bit_numeral_word_iff)
  then show ?thesis using s(2) by simp
qed

lemma split_entry_leaf:
  assumes "level = 1 \<or> level = 2" "PteDescType old = PTE_BLOCK_DESC"
    and aligned: "old AND 0x0000fffffffff000 AND mask (GET_VA_LEVEL_SHIFT level) = 0"
  shows "leaf_address (level + 1) (split_entry old level (unat (GetVaIndex va (level + 1)))) va = leaf_address level old va"
    and "leaf_attributes (split_entry old level (unat (GetVaIndex va (level + 1)))) = leaf_attributes old"
    and "PteDescType (split_entry old level (unat (GetVaIndex va (level + 1)))) = (if level + 1 = 3 then PTE_PAGE_DESC else PTE_BLOCK_DESC)"
proof -
  let ?e = "split_entry old level (unat (GetVaIndex va (level + 1)))"
  let ?s = "GET_VA_LEVEL_SHIFT (level + 1)" and ?t = "GET_VA_LEVEL_SHIFT level"
  have st: "12 \<le> ?s" "?s < ?t" "?t \<le> 30" using assms(1) by (auto simp: mmu_config)
  have z: "\<not> bit old n" if "12 \<le> n" "n < ?t" for n
  proof
    assume "bit old n"
    then have "bit (old AND 0x0000fffffffff000 AND mask ?t) n"
      unfolding bit_and_iff bit_address_mask bit_mask_iff using that st by simp
    then show False unfolding aligned by simp
  qed
  note b = bit_split_entry [OF assms(1), of old va]
  show "leaf_address (level + 1) ?e va = leaf_address level old va"
  proof (rule bit_word_eqI)
    fix n assume "n < LENGTH(64)" 
    then show "bit (leaf_address (level + 1) ?e va) n \<longleftrightarrow> bit (leaf_address level old va) n"
      using st z [of n] unfolding leaf_address_def bit_or_iff bit_and_iff bit_not_iff b bit_address_mask bit_mask_iff
      by auto
  qed
  show "leaf_attributes ?e = leaf_attributes old"
  proof (rule bit_word_eqI)
    fix n assume "n < LENGTH(64)"
    then show "bit (leaf_attributes ?e) n \<longleftrightarrow> bit (leaf_attributes old) n"
      using st unfolding leaf_attributes_def bit_and_iff bit_not_iff b bit_attribute_mask by auto
  qed
  have old: "bit old n \<longleftrightarrow> n = 0" if "n < 2" for n
  proof -
    have "bit (old AND 3) n = bit (1 :: u64) n" using assms(2) by (simp add: PteDescType_def PTE_BLOCK_DESC_def)
    then show ?thesis using that by (simp add: bit_and_iff bit_1_iff' del: bit_numeral_word_iff)
  qed
  show "PteDescType ?e = (if level + 1 = 3 then PTE_PAGE_DESC else PTE_BLOCK_DESC)"
  proof (rule bit_word_eqI)
    fix n assume "n < LENGTH(64)"
    then show "bit (PteDescType ?e) n \<longleftrightarrow> bit (if level + 1 = 3 then PTE_PAGE_DESC else PTE_BLOCK_DESC) n"
      using st old [of n] assms(1) unfolding PteDescType_def bit_and_iff b bit_1_iff' PTE_PAGE_DESC_def PTE_BLOCK_DESC_def
      by (auto simp: bit_1_iff' simp del: bit_numeral_word_iff)
  qed
qed

lemma attr_bits:
  "(attrs AND kRW \<noteq> 0) = bit attrs 3" "(attrs AND kNonSecure \<noteq> 0) = bit attrs 4" "(attrs AND kExecuteNever \<noteq> 0) = bit attrs 5"
  using and_exp_eq_0_iff_not_bit [of attrs 3] and_exp_eq_0_iff_not_bit [of attrs 4] and_exp_eq_0_iff_not_bit [of attrs 5]
  by (simp_all add: kRW_def kNonSecure_def kExecuteNever_def)

lemma bit_mem_type: "bit (ucast (attrs AND 7 :: u32) :: u64) n \<longleftrightarrow> n < 3 \<and> bit attrs n"
proof -
  have e: "(7 :: u32) = mask 3" by (simp add: mask_eq_exp_minus_1)
  show ?thesis unfolding e by (auto simp: bit_ucast_iff bit_and_iff bit_mask_iff)
qed

lemma bit_block_desc:
  "bit (block_desc pa attrs level) n \<longleftrightarrow> n < 64 \<and>
     (bit pa n \<or> (if level = 3 then n < 2 else n = 0) \<or> n = 5 \<and> bit attrs 4 \<or> n = 7 \<and> \<not> bit attrs 3 \<or> n = 10 \<or>
      2 \<le> n \<and> n < 5 \<and> bit attrs (n - 2) \<or>
      (attrs AND 7 \<le> 2 \<and> (n = 9 \<or> n = 53 \<or> n = 54)) \<or>
      (\<not> attrs AND 7 \<le> 2 \<and> attrs AND 7 \<le> 5 \<and>
        (n = 9 \<or> n = 8 \<and> attrs AND 7 = 4 \<or> n = 53 \<and> bit attrs 5)))"
proof -
  have t: "bit (if level = 3 then PTE_PAGE_DESC else PTE_BLOCK_DESC) n \<longleftrightarrow> (if level = 3 then n < 2 else n = 0)"
    by (simp add: PTE_PAGE_DESC_def PTE_BLOCK_DESC_def bit_1_iff' del: bit_numeral_word_iff)
  have p: "bit (push_bit k (1 :: u64)) n \<longleftrightarrow> n < 64 \<and> n = k" for k
    unfolding bit_push_bit_iff bit_1_iff' by auto
  have p2: "bit (push_bit 8 (2 :: u64)) n \<longleftrightarrow> n = 9" "bit (push_bit 8 (3 :: u64)) n \<longleftrightarrow> n = 8 \<or> n = 9"
    unfolding bit_push_bit_iff bit_1_iff' by auto
  have m: "bit (push_bit 2 (ucast (attrs AND 7) :: u64)) n \<longleftrightarrow> n < 64 \<and> 2 \<le> n \<and> n < 5 \<and> bit attrs (n - 2)"
    unfolding bit_push_bit_iff bit_mem_type by auto
  have pa: "bit pa n \<Longrightarrow> n < 64" using bit_imp_le_length [of pa n] by simp
  show ?thesis
    unfolding block_desc_def Let_def attr_bits
    using pa by (simp only: bit_or_iff t p p2 m bit_0_eq bot_apply split: if_split) (auto simp: bit_or_iff t p p2 m)
qed

text \<open>
  C35. The leaf descriptors: for a page aligned physical address (below 2^48) the descriptor
  \<open>SetPteBlockDesc\<close> writes has that address, the type of its level, the access flag, the memory
  attribute index of the region, is read only exactly without \<open>kRW\<close> and non-secure exactly with
  \<open>kNonSecure\<close>. XN, bit 54 at EL2, is set for device memory only: \<open>kExecuteNever\<close> sets bit 53.
\<close>
theorem block_descriptor:
  assumes "pa AND NOT 0x0000fffffffff000 = 0"
  shows "block_desc pa attrs level AND 0x0000fffffffff000 = pa \<and>
    PteDescType (block_desc pa attrs level) = (if level = 3 then PTE_PAGE_DESC else PTE_BLOCK_DESC) \<and>
    bit (block_desc pa attrs level) 10 \<and>
    (\<forall>n<3. bit (block_desc pa attrs level) (2 + n) = bit attrs n) \<and>
    bit (block_desc pa attrs level) 7 = (\<not> bit attrs 3) \<and> bit (block_desc pa attrs level) 5 = bit attrs 4 \<and>
    bit (block_desc pa attrs level) 54 = (attrs AND 7 \<le> 2) \<and>
    bit (block_desc pa attrs level) 53 = (attrs AND 7 \<le> 2 \<or> attrs AND 7 \<le> 5 \<and> bit attrs 5)"
proof -
  have pa: "\<not> bit pa n" if "\<not> (12 \<le> n \<and> n < 48)" for n
  proof
    assume b: "bit pa n"
    then have "n < 64" using bit_imp_le_length [of pa n] by simp
    then have "bit (pa AND NOT 0x0000fffffffff000) n"
      using b that unfolding bit_and_iff bit_not_iff bit_address_mask by simp
    then show False unfolding assms by simp
  qed
  have "block_desc pa attrs level AND 0x0000fffffffff000 = pa"
  proof (rule bit_word_eqI)
    fix n assume "n < LENGTH(64)"
    then show "bit (block_desc pa attrs level AND 0x0000fffffffff000) n \<longleftrightarrow> bit pa n"
      using pa [of n] unfolding bit_and_iff bit_address_mask bit_block_desc by auto
  qed
  moreover have "PteDescType (block_desc pa attrs level) = (if level = 3 then PTE_PAGE_DESC else PTE_BLOCK_DESC)"
  proof (rule bit_word_eqI)
    fix n assume "n < LENGTH(64)"
    then show "bit (PteDescType (block_desc pa attrs level)) n \<longleftrightarrow> bit (if level = 3 then PTE_PAGE_DESC else PTE_BLOCK_DESC) n"
      using pa [of n] unfolding PteDescType_def bit_and_iff bit_block_desc bit_1_iff' PTE_PAGE_DESC_def PTE_BLOCK_DESC_def
      by (auto simp: bit_1_iff' simp del: bit_numeral_word_iff)
  qed
  moreover have "bit (block_desc pa attrs level) (2 + n) = bit attrs n" if "n < 3" for n
    using that pa [of "2 + n"] by (auto simp: bit_block_desc)
  moreover have "bit (block_desc pa attrs level) 10" "bit (block_desc pa attrs level) 7 = (\<not> bit attrs 3)"
    "bit (block_desc pa attrs level) 5 = bit attrs 4" "bit (block_desc pa attrs level) 54 = (attrs AND 7 \<le> 2)"
    "bit (block_desc pa attrs level) 53 = (attrs AND 7 \<le> 2 \<or> attrs AND 7 \<le> 5 \<and> bit attrs 5)"
    using pa by (auto simp: bit_block_desc)
  ultimately show ?thesis by blast
qed

theorem block_descriptor_witness:
  "block_desc 0x40001000 0x24 3 AND 0x0000fffffffff000 = 0x40001000 \<and> \<not> bit (block_desc 0x40001000 0x24 3) 54"
  using block_descriptor [of "0x40001000" "0x24" 3] by simp

text \<open>Splitting writes exactly the entries of the new table and the entry it replaces.\<close>

lemma split_entries_spec:
  assumes "\<forall>i\<in>set is. in_xlat m (tbl + of_nat (8 * i))" "distinct is" "\<forall>i\<in>set is. i < 512"
  shows "\<exists>m'. split_entries old level tbl is m = Inr m' \<and> xlat_idx m' = xlat_idx m \<and>
    s_base_xlat_table m' = s_base_xlat_table m \<and> s_xlat_tables m' = s_xlat_tables m \<and>
    (\<forall>i\<in>set is. xlat_mem m' (tbl + of_nat (8 * i)) = split_entry old level i) \<and>
    (\<forall>p. p \<notin> (\<lambda>i. tbl + of_nat (8 * i)) ` set is \<longrightarrow> xlat_mem m' p = xlat_mem m p)"
  using assms
proof (induction "is" arbitrary: m)
  case Nil
  then show ?case by simp
next
  case (Cons i "is")
  let ?m = "m\<lparr>xlat_mem := (xlat_mem m)(tbl + of_nat (8 * i) := split_entry old level i)\<rparr>"
  have st: "pte_store (tbl + of_nat (8 * i)) (split_entry old level i) m = Inr ?m" using Cons.prems(1) by (simp add: pte_store_def)
  have "\<forall>i\<in>set is. in_xlat ?m (tbl + of_nat (8 * i))" using Cons.prems(1) by (simp add: in_xlat_def)
  from Cons.IH [OF this] Cons.prems obtain m' where m': "split_entries old level tbl is ?m = Inr m'" "xlat_idx m' = xlat_idx m"
    "s_base_xlat_table m' = s_base_xlat_table m" "s_xlat_tables m' = s_xlat_tables m"
    "\<forall>i\<in>set is. xlat_mem m' (tbl + of_nat (8 * i)) = split_entry old level i"
    "\<forall>p. p \<notin> (\<lambda>i. tbl + of_nat (8 * i)) ` set is \<longrightarrow> xlat_mem m' p = xlat_mem ?m p" by auto
  have "tbl + of_nat (8 * i) \<noteq> tbl + of_nat (8 * j)" if "j \<in> set is" for j
  proof
    assume "tbl + of_nat (8 * i) = tbl + (of_nat (8 * j) :: u64)"
    then have "unat (of_nat (8 * i) :: u64) = unat (of_nat (8 * j) :: u64)" by simp
    moreover have "8 * i < 2 ^ 64" "8 * j < 2 ^ 64" using Cons.prems(3) that by auto
    ultimately have "8 * i = 8 * j" by (simp only: unat_of_nat_u64)
    then show False using Cons.prems(2) that by simp
  qed
  then have "tbl + of_nat (8 * i) \<notin> (\<lambda>i. tbl + of_nat (8 * i)) ` set is" by blast
  then have "xlat_mem m' (tbl + of_nat (8 * i)) = split_entry old level i" using m'(6) by simp
  moreover have "split_entries old level tbl (i # is) m = Inr m'"
    using st m'(1) unfolding split_entries.simps split_entry_def by simp
  ultimately show ?case using m'(2-6) by auto
qed

text \<open>
  C14. Splitting a block of the hypervisor's own map is transparent: the entry is replaced by a new
  table (one of the 14) whose 512 entries together translate every address of the block to the same
  physical address with the same attributes as before, each with the right type for its level;
  no other entry changes.
\<close>
theorem split_transparent:
  assumes "level = 1 \<or> level = 2" "in_xlat m pte" "PteDescType (xlat_mem m pte) = PTE_BLOCK_DESC"
    and "xlat_mem m pte AND 0x0000fffffffff000 AND mask (GET_VA_LEVEL_SHIFT level) = 0"
    and "xlat_idx m < 14" "tbl = s_xlat_tables m + of_nat (4096 * xlat_idx m)" "\<not> unat (pte - tbl) < 4096"
  shows "\<exists>m'. SplitPteBlockDesc pte level m = Inr m' \<and> xlat_idx m' = xlat_idx m + 1 \<and>
    xlat_mem m' pte = 3 OR tbl \<and>
    (\<forall>va. let e = xlat_mem m' (tbl + 8 * GetVaIndex va (level + 1)) in
       leaf_address (level + 1) e va = leaf_address level (xlat_mem m pte) va \<and>
       leaf_attributes e = leaf_attributes (xlat_mem m pte) \<and>
       PteDescType e = (if level + 1 = 3 then PTE_PAGE_DESC else PTE_BLOCK_DESC)) \<and>
    (\<forall>p. p \<noteq> pte \<longrightarrow> \<not> unat (p - tbl) < 4096 \<longrightarrow> xlat_mem m' p = xlat_mem m p)"
proof -
  let ?old = "xlat_mem m pte" and ?m1 = "m\<lparr>xlat_idx := xlat_idx m + 1\<rparr>"
  have off: "unat (of_nat (8 * i) :: u64) = 8 * i" if "i < 512" for i
    by (rule unat_of_nat_u64) (use that in simp)
  have inx: "in_xlat ?m1 (tbl + of_nat (8 * i))" if "i < 512" for i
  proof -
    have e: "tbl + of_nat (8 * i) - s_xlat_tables m = of_nat (4096 * xlat_idx m + 8 * i)" by (simp add: assms(6))
    have "4096 * xlat_idx m + 8 * i < 8 * 512 * 14" using assms(5) that by linarith
    moreover have "unat (of_nat (4096 * xlat_idx m + 8 * i) :: u64) = 4096 * xlat_idx m + 8 * i"
      by (rule unat_of_nat_u64) (use calculation in simp)
    ultimately have "unat (of_nat (4096 * xlat_idx m + 8 * i) :: u64) < 8 * 512 * 14" by linarith
    then have "unat (tbl + of_nat (8 * i) - s_xlat_tables m) < 8 * XLAT_TABLE_ENTRIES * CONFIG_MMU_MAX_XLAT_TABLES"
      unfolding e by (simp add: mmu_config)
    then show ?thesis by (simp add: in_xlat_def)
  qed
  have new: "NewXlatTablesEntry m = Inr (tbl, ?m1)"
    using assms(5,6) by (simp add: NewXlatTablesEntry_def mmu_config mult.commute)
  obtain m2 where m2: "split_entries ?old level tbl [0..<512] ?m1 = Inr m2" "xlat_idx m2 = xlat_idx m + 1"
    "s_base_xlat_table m2 = s_base_xlat_table m" "s_xlat_tables m2 = s_xlat_tables m"
    "\<forall>i<512. xlat_mem m2 (tbl + of_nat (8 * i)) = split_entry ?old level i"
    "\<forall>p. p \<notin> (\<lambda>i. tbl + of_nat (8 * i)) ` set [0..<512] \<longrightarrow> xlat_mem m2 p = xlat_mem m p"
    using split_entries_spec [of "[0..<512]" ?m1 tbl ?old level] inx by auto
  let ?m3 = "m2\<lparr>xlat_mem := (xlat_mem m2)(pte := 3 OR tbl)\<rparr>"
  have "in_xlat m2 pte" using assms(2) m2(3,4) by (simp add: in_xlat_def)
  then have r: "SplitPteBlockDesc pte level m = Inr ?m3"
    using assms(2) new m2(1)
    by (simp add: SplitPteBlockDesc_def pte_load_def mmu_config_values(1) SetPteTableDesc_def pte_store_def PTE_TABLE_DESC_def)
  have outside: "xlat_mem m2 p = xlat_mem m p" if "\<not> unat (p - tbl) < 4096" for p
  proof -
    have "p \<noteq> tbl + of_nat (8 * i)" if i: "i < 512" for i
    proof
      assume "p = tbl + of_nat (8 * i)"
      then have "unat (p - tbl) = 8 * i" using off [OF i] by simp
      then show False using \<open>\<not> unat (p - tbl) < 4096\<close> i by simp
    qed
    then have "p \<notin> (\<lambda>i. tbl + of_nat (8 * i)) ` set [0..<512]" unfolding image_iff set_upt by (metis atLeastLessThan_iff)
    then show ?thesis using m2(6) by blast
  qed
  have ent: "xlat_mem ?m3 (tbl + 8 * GetVaIndex va (level + 1)) = split_entry ?old level (unat (GetVaIndex va (level + 1)))" for va
  proof -
    let ?i = "GetVaIndex va (level + 1)"
    have "?i \<le> of_nat 511" unfolding GetVaIndex_def mmu_config_values(1) by (simp add: word_and_le1)
    then have i: "unat ?i < 512" by (simp add: word_le_nat_alt)
    have e: "8 * ?i = of_nat (8 * unat ?i)" by simp
    have "tbl + of_nat (8 * unat ?i) \<noteq> pte" using assms(7) off [OF i] i by (auto simp del: of_nat_mult of_nat_unat)
    then show ?thesis unfolding e using m2(5) i by (simp del: of_nat_mult of_nat_unat)
  qed
  show ?thesis
    using r m2(2) outside ent split_entry_leaf [OF assms(1,3,4)] by (intro exI [of _ ?m3]) (simp add: Let_def)
qed

text \<open>Tables at boot, with one 1 GB block for device memory in the first entry.\<close>

definition demo_mmu :: mmu where
  "demo_mmu = \<lparr>s_base_xlat_table = 0x41000000, s_xlat_tables = 0x41001000,
     xlat_mem = (\<lambda>_. 0)(0x41000000 := block_desc 0 8 1), xlat_idx = 0, mair_el2 = 0, tcr_el2 = 0, ttbr0_el2 = 0,
     vtcr_el2 = 0, sctlr_el2 = 0\<rparr>"

theorem split_transparent_witness:
  "\<exists>m'. SplitPteBlockDesc 0x41000000 1 demo_mmu = Inr m' \<and> xlat_mem m' 0x41000000 = 0x41001003 \<and>
     leaf_address 2 (xlat_mem m' (0x41001000 + 8 * GetVaIndex 0x09000123 2)) 0x09000123 = 0x09000123"
proof -
  have b: "block_desc 0 8 (Suc 0) = 0x60000000000601"
    by (simp add: block_desc_def Let_def kNonSecure_def kRW_def PTE_BLOCK_DESC_def)
  have h: "in_xlat demo_mmu 0x41000000" "PteDescType (xlat_mem demo_mmu 0x41000000) = PTE_BLOCK_DESC"
    "xlat_mem demo_mmu 0x41000000 AND 0x0000fffffffff000 AND mask (GET_VA_LEVEL_SHIFT 1) = 0"
    "xlat_idx demo_mmu < 14" "(0x41001000 :: u64) = s_xlat_tables demo_mmu + of_nat (4096 * xlat_idx demo_mmu)"
    "\<not> unat ((0x41000000 :: u64) - 0x41001000) < 4096"
    by (simp_all add: demo_mmu_def in_xlat_def b PteDescType_def PTE_BLOCK_DESC_def mmu_config mask_eq_exp_minus_1)
  have x: "xlat_mem demo_mmu 0x41000000 = 0x60000000000601" by (simp add: demo_mmu_def b)
  have "leaf_address 1 0x60000000000601 0x09000123 = 0x09000123"
    by (simp add: leaf_address_def mmu_config mask_eq_exp_minus_1)
  then show ?thesis using split_transparent [OF _ h(1-6)] unfolding x by (auto simp: Let_def numeral_2_eq_2)
qed

end
