(* ===== verification/EvDisk.thy ===== *)
theory EvDisk
  imports EvHyp
begin

text \<open>
  The virtio block driver QEMU guests are loaded with (drivers/virtio/virtio-blk.cc). The device is
  not part of the repository: it is a parameter, a register file and a function for the steps it takes
  on the queue, and what the driver relies on is stated by \<open>device_ok\<close>.
\<close>

section \<open>Structures\<close>

record VirtqDesc =
  d_addr :: u64
  d_len :: u32
  d_flags :: u16
  d_next :: u16

record VirtioBlkReq =
  br_type :: u32
  br_reserved :: u32
  br_sector :: u64
  br_data :: "u8 list"
  br_status :: u8

text \<open>The queue with its rings, the request it points to and the address of the request.\<close>

record Virtq =
  descs :: "VirtqDesc list"
  avail_index :: u16
  avail_ring :: "u16 list"
  used_index :: u16
  last_used_index :: u16
  blk_req_addr :: u64
  blk_req :: VirtioBlkReq

definition kVirtQueueSize :: nat where "kVirtQueueSize = 16"
definition kDiskSectorSize :: nat where "kDiskSectorSize = 512"

definition kVRingDescFNext :: u16 where "kVRingDescFNext = 1"
definition kVRingDescFWrite :: u16 where "kVRingDescFWrite = 2"
definition kVirtioBlkTIn :: u32 where "kVirtioBlkTIn = 0"
definition kVirtioBlkTOut :: u32 where "kVirtioBlkTOut = 1"
definition kVirtioBlkStatusOk :: u8 where "kVirtioBlkStatusOk = 0"

text \<open>The device: its registers by offset, and a step of its own on the queue.\<close>

record 'd vdev =
  vd_read :: "nat \<Rightarrow> 'd \<Rightarrow> u32"
  vd_write :: "nat \<Rightarrow> u32 \<Rightarrow> 'd \<Rightarrow> 'd"
  vd_step :: "'d \<times> Virtq \<Rightarrow> 'd \<times> Virtq"

definition MAGIC_VALUE :: nat where "MAGIC_VALUE = 0x000"
definition VERSION :: nat where "VERSION = 0x004"
definition DEVICE_ID :: nat where "DEVICE_ID = 0x008"
definition QUEUE_SEL :: nat where "QUEUE_SEL = 0x030"
definition QUEUE_NUM :: nat where "QUEUE_NUM = 0x038"
definition QUEUE_ALIGN :: nat where "QUEUE_ALIGN = 0x03c"
definition QUEUE_PFN :: nat where "QUEUE_PFN = 0x040"
definition QUEUE_READY :: nat where "QUEUE_READY = 0x044"
definition QUEUE_NOTIFY :: nat where "QUEUE_NOTIFY = 0x050"
definition DEVICE_STATUS :: nat where "DEVICE_STATUS = 0x070"
definition DEVICE_CONFIG_SPACE0 :: nat where "DEVICE_CONFIG_SPACE0 = 0x100"

section \<open>Initialisation\<close>

definition set_status :: "'d vdev \<Rightarrow> u32 \<Rightarrow> 'd \<Rightarrow> 'd" where
  "set_status dev b d = vd_write dev DEVICE_STATUS (vd_read dev DEVICE_STATUS d OR b) d"

definition DeviceInit :: "'d vdev \<Rightarrow> 'd \<Rightarrow> 'd res" where
  "DeviceInit dev d =
     (if vd_read dev MAGIC_VALUE d \<noteq> 0x74726976 then Inl Panic
      else if vd_read dev VERSION d \<noteq> 1 then Inl Panic
      else if vd_read dev DEVICE_ID d \<noteq> 2 then Inl Panic
      else let d = vd_write dev DEVICE_STATUS 0 d;
               d = set_status dev 1 d;
               d = set_status dev 2 d;
               d = set_status dev 8 d
           in if vd_read dev DEVICE_STATUS d AND 8 = 0 then Inl Panic else Inr d)"

text \<open>The queue as the allocated pages hold it; the allocator does not clear them.\<close>

definition virtq_at :: "mem \<Rightarrow> u64 \<Rightarrow> Virtq" where
  "virtq_at m a = \<lparr>descs = map (\<lambda>i. let p = a + of_nat (16 * i) in
       \<lparr>d_addr = load_le 8 m p, d_len = load_le 4 m (p + 8), d_flags = load_le 2 m (p + 12), d_next = load_le 2 m (p + 14)\<rparr>)
         [0..<kVirtQueueSize],
     avail_index = load_le 2 m (a + 258), avail_ring = map (\<lambda>i. load_le 2 m (a + 260 + of_nat (2 * i))) [0..<kVirtQueueSize],
     used_index = load_le 2 m (a + 4098), last_used_index = load_le 2 m (a + 4238),
     blk_req_addr = load_le 8 m (a + 4230),
     blk_req = \<lparr>br_type = 0, br_reserved = 0, br_sector = 0, br_data = replicate kDiskSectorSize 0, br_status = 0\<rparr>\<rparr>"

definition blk_req_at :: "mem \<Rightarrow> u64 \<Rightarrow> VirtioBlkReq" where
  "blk_req_at m a = \<lparr>br_type = load_le 4 m a, br_reserved = load_le 4 m (a + 4), br_sector = load_le 8 m (a + 8),
     br_data = map (\<lambda>i. m (a + 16 + of_nat i)) [0..<kDiskSectorSize], br_status = m (a + 528)\<rparr>"

text \<open>\<open>sizeof(Virtq)\<close> is two pages.\<close>

definition BlockDeviceInit :: "'d vdev \<Rightarrow> 'd \<times> heap \<Rightarrow> ('d \<times> Virtq \<times> heap) res" where
  "BlockDeviceInit dev = (\<lambda>(d, h).
     rbind (kmm_uncached_malloc 0x2000 h) (\<lambda>(a, h).
     let vq = (virtq_at (dram h) a)\<lparr>used_index := 0, last_used_index := 0\<rparr>;
         d = vd_write dev QUEUE_SEL 0 d
     in if vd_read dev QUEUE_READY d \<noteq> 0 then Inl Panic
        else let d = vd_write dev QUEUE_NUM (of_nat kVirtQueueSize) d;
                 d = vd_write dev QUEUE_ALIGN PAGE_SIZE d;
                 d = vd_write dev QUEUE_PFN (ucast a) d;
                 d = vd_write dev QUEUE_READY 1 d;
                 d = set_status dev 4 d
             in Inr (d, vq, h)))"

definition VirtioBlk_Init :: "'d vdev \<Rightarrow> 'd \<times> heap \<Rightarrow> ('d \<times> Virtq \<times> heap) res" where
  "VirtioBlk_Init dev = (\<lambda>(d, h).
     rbind (DeviceInit dev d) (\<lambda>d.
     rbind (BlockDeviceInit dev (d, h)) (\<lambda>(d, vq, h).
     rbind (kmm_uncached_malloc 0x1000 h) (\<lambda>(a, h).
       Inr (d, vq\<lparr>blk_req_addr := a, blk_req := blk_req_at (dram h) a\<rparr>, h)))))"

text \<open>The product is one of 32 bit unsigned integers; it is widened afterwards.\<close>

definition GetDiskCapacity :: "'d vdev \<Rightarrow> 'd \<Rightarrow> u64" where
  "GetDiskCapacity dev d = ucast (vd_read dev DEVICE_CONFIG_SPACE0 d * of_nat kDiskSectorSize)"

section \<open>Transfers\<close>

definition VirtqIsBusy :: "Virtq \<Rightarrow> bool" where
  "VirtqIsBusy vq \<longleftrightarrow> last_used_index vq \<noteq> used_index vq"

partial_function (option) wait_idle :: "('d \<times> Virtq \<Rightarrow> 'd \<times> Virtq) \<Rightarrow> 'd \<times> Virtq \<Rightarrow> ('d \<times> Virtq) option" where
  "wait_idle step s = (if VirtqIsBusy (snd s) then wait_idle step (step s) else Some s)"

definition store_bytes :: "u64 \<Rightarrow> u8 list \<Rightarrow> mem \<Rightarrow> mem" where
  "store_bytes a bs m = (\<lambda>x. if unat (x - a) < length bs then bs ! unat (x - a) else m x)"

definition load_bytes :: "u64 \<Rightarrow> nat \<Rightarrow> mem \<Rightarrow> u8 list" where
  "load_bytes a n m = map (\<lambda>i. m (a + of_nat i)) [0..<n]"

text \<open>The request and its three descriptors; the third descriptor's \<open>next\<close> is not written.\<close>

definition format_request :: "u64 \<Rightarrow> u32 \<Rightarrow> bool \<Rightarrow> mem \<Rightarrow> Virtq \<Rightarrow> Virtq" where
  "format_request buf sector_idx is_write m vq =
     (let r = (blk_req vq)\<lparr>br_type := (if is_write then kVirtioBlkTOut else kVirtioBlkTIn), br_reserved := 0,
                br_sector := ucast sector_idx,
                br_data := (if is_write then load_bytes buf kDiskSectorSize m else br_data (blk_req vq)),
                br_status := 0xff\<rparr>;
          a = blk_req_addr vq;
          ds = descs vq;
          ds = ds[0 := \<lparr>d_addr = a, d_len = 16, d_flags = kVRingDescFNext, d_next = 1\<rparr>];
          ds = ds[1 := \<lparr>d_addr = a + 16, d_len = of_nat kDiskSectorSize,
                        d_flags = (if is_write then 0 else kVRingDescFWrite) OR kVRingDescFNext, d_next = 2\<rparr>];
          ds = ds[2 := (ds ! 2)\<lparr>d_addr := a + 528, d_len := 1, d_flags := kVRingDescFWrite\<rparr>]
      in vq\<lparr>descs := ds, blk_req := r\<rparr>)"

definition ReadWriteDisk :: "'d vdev \<Rightarrow> u64 \<Rightarrow> u32 \<Rightarrow> bool \<Rightarrow> 'd \<times> Virtq \<times> mem \<Rightarrow> (bool \<times> 'd \<times> Virtq \<times> mem) res" where
  "ReadWriteDisk dev buf sector_idx is_write = (\<lambda>(d, vq, m).
     let sector_nums = GetDiskCapacity dev d div of_nat kDiskSectorSize
     in if ucast sector_idx \<ge> sector_nums then Inr (False, d, vq, m)
        else
          let vq = format_request buf sector_idx is_write m vq;
              vq = vq\<lparr>avail_ring := (avail_ring vq)[unat (avail_index vq) mod kVirtQueueSize := 0]\<rparr>;
              vq = vq\<lparr>avail_index := avail_index vq + 1\<rparr>;
              d = vd_write dev QUEUE_NOTIFY 0 d;
              vq = vq\<lparr>last_used_index := last_used_index vq + 1\<rparr>
          in case wait_idle (vd_step dev) (d, vq) of
               None \<Rightarrow> Inl Diverge
             | Some (d, vq) \<Rightarrow>
                 if br_status (blk_req vq) \<noteq> kVirtioBlkStatusOk then Inr (False, d, vq, m)
                 else Inr (True, d, vq, if is_write then m else store_bytes buf (take kDiskSectorSize (br_data (blk_req vq))) m))"

definition ReadDisk :: "'d vdev \<Rightarrow> u64 \<Rightarrow> u32 \<Rightarrow> 'd \<times> Virtq \<times> mem \<Rightarrow> (bool \<times> 'd \<times> Virtq \<times> mem) res" where
  "ReadDisk dev buf sector_idx = ReadWriteDisk dev buf sector_idx False"

definition WriteDisk :: "'d vdev \<Rightarrow> u64 \<Rightarrow> u32 \<Rightarrow> 'd \<times> Virtq \<times> mem \<Rightarrow> (bool \<times> 'd \<times> Virtq \<times> mem) res" where
  "WriteDisk dev buf sector_idx = ReadWriteDisk dev buf sector_idx True"

section \<open>What the driver relies on\<close>

text \<open>A request as the virtio specification lays it out: three chained descriptors for the header, the data and the status.\<close>

definition request_ok :: "Virtq \<Rightarrow> bool" where
  "request_ok vq \<longleftrightarrow>
     (let a = blk_req_addr vq; r = blk_req vq; ds = descs vq
      in length ds = 16 \<and> ds ! 0 = \<lparr>d_addr = a, d_len = 16, d_flags = 1, d_next = 1\<rparr> \<and>
         ds ! 1 = \<lparr>d_addr = a + 16, d_len = 512, d_flags = (if br_type r = kVirtioBlkTOut then 1 else 3), d_next = 2\<rparr> \<and>
         d_addr (ds ! 2) = a + 528 \<and> d_len (ds ! 2) = 1 \<and> d_flags (ds ! 2) = 2 \<and>
         avail_ring vq ! (unat (avail_index vq - 1) mod 16) = 0 \<and>
         (br_type r = kVirtioBlkTIn \<or> br_type r = kVirtioBlkTOut) \<and> length (br_data r) = 512)"

definition virtq_ok :: "Virtq \<Rightarrow> bool" where
  "virtq_ok vq \<longleftrightarrow> length (descs vq) = 16 \<and> length (avail_ring vq) = 16 \<and> length (br_data (blk_req vq)) = 512 \<and>
     last_used_index vq = used_index vq"

text \<open>
  The documented behaviour of a block device that is set up (\<open>good\<close>) and holds \<open>sectors\<close>: a
  notified request within the capacity is served after some steps, until then the used index stays,
  and then it is one higher; the status is 0 and the data are read or the sector is written.
\<close>

definition device_ok :: "'d vdev \<Rightarrow> ('d \<Rightarrow> bool) \<Rightarrow> ('d \<Rightarrow> nat \<Rightarrow> u8 list) \<Rightarrow> bool" where
  "device_ok dev good sectors \<longleftrightarrow>
     (\<forall>d vq. good d \<longrightarrow> request_ok vq \<longrightarrow> unat (br_sector (blk_req vq)) < unat (vd_read dev DEVICE_CONFIG_SPACE0 d) \<longrightarrow>
       (\<exists>n d' vq'. (vd_step dev ^^ n) (vd_write dev QUEUE_NOTIFY 0 d, vq) = (d', vq') \<and>
          (\<forall>k<n. used_index (snd ((vd_step dev ^^ k) (vd_write dev QUEUE_NOTIFY 0 d, vq))) = used_index vq \<and>
                 last_used_index (snd ((vd_step dev ^^ k) (vd_write dev QUEUE_NOTIFY 0 d, vq))) = last_used_index vq) \<and>
          good d' \<and> vd_read dev DEVICE_CONFIG_SPACE0 d' = vd_read dev DEVICE_CONFIG_SPACE0 d \<and>
          (let r = blk_req vq; s = unat (br_sector r)
           in vq' = vq\<lparr>used_index := used_index vq + 1, blk_req := r\<lparr>br_status := 0,
                       br_data := (if br_type r = kVirtioBlkTIn then sectors d s else br_data r)\<rparr>\<rparr> \<and>
              sectors d' = (if br_type r = kVirtioBlkTOut then (sectors d)(s := br_data r) else sectors d)))) \<and>
     (\<forall>d i. good d \<longrightarrow> length (sectors d i) = 512)"

lemma wait_idle_steps:
  assumes "\<forall>k<n. VirtqIsBusy (snd ((step ^^ k) s))" "\<not> VirtqIsBusy (snd ((step ^^ n) s))"
  shows "wait_idle step s = Some ((step ^^ n) s)"
  using assms
proof (induction n arbitrary: s)
  case 0
  then show ?case by (simp add: wait_idle.simps)
next
  case (Suc n)
  have "VirtqIsBusy (snd s)" using Suc.prems(1) [rule_format, of 0] by simp
  moreover have "wait_idle step (step s) = Some ((step ^^ n) (step s))"
  proof (rule Suc.IH)
    show "\<forall>k<n. VirtqIsBusy (snd ((step ^^ k) (step s)))"
      using Suc.prems(1) by (metis Suc_less_eq comp_apply funpow_Suc_right)
    show "\<not> VirtqIsBusy (snd ((step ^^ n) (step s)))" using Suc.prems(2) by (metis comp_apply funpow_Suc_right)
  qed
  ultimately show ?case by (subst wait_idle.simps) (metis comp_apply funpow_Suc_right)
qed

text \<open>The queue the driver hands over with a notification.\<close>

definition submitted :: "u64 \<Rightarrow> u32 \<Rightarrow> bool \<Rightarrow> mem \<Rightarrow> Virtq \<Rightarrow> Virtq" where
  "submitted buf s w m vq =
     (let vq = format_request buf s w m vq;
          vq = vq\<lparr>avail_ring := (avail_ring vq)[unat (avail_index vq) mod kVirtQueueSize := 0]\<rparr>;
          vq = vq\<lparr>avail_index := avail_index vq + 1\<rparr>
      in vq\<lparr>last_used_index := last_used_index vq + 1\<rparr>)"

lemma submitted_ok:
  assumes "virtq_ok vq"
  shows "request_ok (submitted buf s w m vq)"
    and "last_used_index (submitted buf s w m vq) = used_index vq + 1" "used_index (submitted buf s w m vq) = used_index vq"
    and "br_sector (blk_req (submitted buf s w m vq)) = ucast s"
    and "br_type (blk_req (submitted buf s w m vq)) = (if w then kVirtioBlkTOut else kVirtioBlkTIn)"
    and "br_data (blk_req (submitted buf s w m vq)) = (if w then load_bytes buf 512 m else br_data (blk_req vq))"
    and "length (descs (submitted buf s w m vq)) = 16" "length (avail_ring (submitted buf s w m vq)) = 16"
  using assms
  by (simp_all add: submitted_def format_request_def Let_def request_ok_def virtq_ok_def kVirtQueueSize_def kDiskSectorSize_def
      kVRingDescFNext_def kVRingDescFWrite_def kVirtioBlkTIn_def kVirtioBlkTOut_def load_bytes_def)

lemma busy_iff: "VirtqIsBusy vq \<longleftrightarrow> last_used_index vq \<noteq> used_index vq"
  by (simp add: VirtqIsBusy_def)

lemma capacity_sectors:
  "(ucast (s :: u32) \<ge> GetDiskCapacity dev d div of_nat kDiskSectorSize) = (unat (vd_read dev DEVICE_CONFIG_SPACE0 d) mod 2 ^ 23 \<le> unat s)"
proof -
  let ?c = "vd_read dev DEVICE_CONFIG_SPACE0 d"
  have "unat (?c * of_nat kDiskSectorSize) = (unat ?c * 512) mod 2 ^ 32"
    by (simp add: unat_word_ariths kDiskSectorSize_def)
  also have "\<dots> = (unat ?c mod 2 ^ 23) * 512" using mult_mod_left [of "unat ?c" "2 ^ 23" 512] by simp
  finally have "unat (GetDiskCapacity dev d) = (unat ?c mod 2 ^ 23) * 512"
    unfolding GetDiskCapacity_def by (simp only: unat_ucast_u32_u64)
  then have "unat (GetDiskCapacity dev d div of_nat kDiskSectorSize) = unat ?c mod 2 ^ 23"
    by (simp add: unat_div kDiskSectorSize_def)
  then show ?thesis by (simp add: word_le_nat_alt unat_ucast_u32_u64)
qed

definition disk_sectors :: "'d vdev \<Rightarrow> 'd \<Rightarrow> nat" where
  "disk_sectors dev d = unat (vd_read dev DEVICE_CONFIG_SPACE0 d) mod 2 ^ 23"

lemma ReadWriteDisk_out: "disk_sectors dev d \<le> unat s \<Longrightarrow> ReadWriteDisk dev buf s w (d, vq, m) = Inr (False, d, vq, m)"
  using capacity_sectors [of dev d s] by (simp add: ReadWriteDisk_def disk_sectors_def)

lemma ReadWriteDisk_in:
  assumes dev: "device_ok dev good sectors" and d: "good d" and vq: "virtq_ok vq" and s: "unat s < disk_sectors dev d"
  shows "\<exists>d' vq'. ReadWriteDisk dev buf s w (d, vq, m) =
      Inr (True, d', vq', if w then m else store_bytes buf (sectors d (unat s)) m) \<and>
    good d' \<and> virtq_ok vq' \<and> disk_sectors dev d' = disk_sectors dev d \<and>
    sectors d' = (if w then (sectors d)(unat s := load_bytes buf 512 m) else sectors d)"
proof -
  let ?vq = "submitted buf s w m vq" and ?d = "vd_write dev QUEUE_NOTIFY 0 d"
  note sub = submitted_ok [OF vq, of buf s w m]
  have sec: "unat (br_sector (blk_req ?vq)) = unat s" using sub(4) by (simp add: unat_ucast_u32_u64)
  then have "unat (br_sector (blk_req ?vq)) < unat (vd_read dev DEVICE_CONFIG_SPACE0 d)"
    using s mod_less_eq_dividend [of "unat (vd_read dev DEVICE_CONFIG_SPACE0 d)" "2 ^ 23"] by (simp add: disk_sectors_def)
  with dev d sub(1) obtain n d' vq' where st: "(vd_step dev ^^ n) (?d, ?vq) = (d', vq')"
    "\<forall>k<n. used_index (snd ((vd_step dev ^^ k) (?d, ?vq))) = used_index ?vq \<and>
           last_used_index (snd ((vd_step dev ^^ k) (?d, ?vq))) = last_used_index ?vq"
    "good d'" "vd_read dev DEVICE_CONFIG_SPACE0 d' = vd_read dev DEVICE_CONFIG_SPACE0 d"
    and v: "let r = blk_req ?vq; s = unat (br_sector r)
       in vq' = ?vq\<lparr>used_index := used_index ?vq + 1, blk_req := r\<lparr>br_status := 0,
                       br_data := (if br_type r = kVirtioBlkTIn then sectors d s else br_data r)\<rparr>\<rparr> \<and>
          sectors d' = (if br_type r = kVirtioBlkTOut then (sectors d)(s := br_data r) else sectors d)"
    unfolding device_ok_def by blast
  have ty: "(br_type (blk_req ?vq) = kVirtioBlkTIn) = (\<not> w)" "(br_type (blk_req ?vq) = kVirtioBlkTOut) = w"
    using sub(5) by (simp_all add: kVirtioBlkTIn_def kVirtioBlkTOut_def)
  have v': "vq' = ?vq\<lparr>used_index := used_index vq + 1, blk_req := (blk_req ?vq)\<lparr>br_status := 0,
      br_data := (if w then load_bytes buf 512 m else sectors d (unat s))\<rparr>\<rparr>"
    "sectors d' = (if w then (sectors d)(unat s := load_bytes buf 512 m) else sectors d)"
    using v unfolding Let_def sec ty sub(3,6) by auto
  have b1: "\<forall>k<n. VirtqIsBusy (snd ((vd_step dev ^^ k) (?d, ?vq)))" using st(2) sub(2,3) by (simp add: VirtqIsBusy_def)
  have b2: "\<not> VirtqIsBusy (snd ((vd_step dev ^^ n) (?d, ?vq)))" unfolding st(1) by (simp add: VirtqIsBusy_def v'(1) sub(2))
  have w: "wait_idle (vd_step dev) (?d, ?vq) = Some (d', vq')" using wait_idle_steps [OF b1 b2] st(1) by simp
  have len: "length (sectors d (unat s)) = 512" using dev d by (simp add: device_ok_def)
  have ni: "\<not> (ucast s \<ge> GetDiskCapacity dev d div of_nat kDiskSectorSize)"
    unfolding capacity_sectors using s by (simp add: disk_sectors_def)
  have "ReadWriteDisk dev buf s w (d, vq, m) =
      (case wait_idle (vd_step dev) (?d, ?vq) of
               None \<Rightarrow> Inl Diverge
             | Some (d, vq) \<Rightarrow>
                 if br_status (blk_req vq) \<noteq> kVirtioBlkStatusOk then Inr (False, d, vq, m)
                 else Inr (True, d, vq, if w then m else store_bytes buf (take kDiskSectorSize (br_data (blk_req vq))) m))"
    unfolding ReadWriteDisk_def prod.case Let_def if_not_P [OF ni] submitted_def [unfolded Let_def] ..
  also have "\<dots> = Inr (True, d', vq', if w then m else store_bytes buf (sectors d (unat s)) m)"
    unfolding w by (simp add: v'(1) kVirtioBlkStatusOk_def kDiskSectorSize_def len)
  finally have r: "ReadWriteDisk dev buf s w (d, vq, m) = \<dots>" .
  have "virtq_ok vq'" using sub len by (simp add: v'(1) virtq_ok_def load_bytes_def)
  moreover have "disk_sectors dev d' = disk_sectors dev d" using st(4) by (simp add: disk_sectors_def)
  ultimately show ?thesis using r st(3) v'(2) by blast
qed

lemma load_store_bytes:
  assumes "length bs \<le> 2 ^ 63"
  shows "load_bytes a (length bs) (store_bytes a bs m) = bs"
proof (rule nth_equalityI)
  show "length (load_bytes a (length bs) (store_bytes a bs m)) = length bs" by (simp add: load_bytes_def)
  fix i assume "i < length (load_bytes a (length bs) (store_bytes a bs m))"
  then have i: "i < length bs" by (simp add: load_bytes_def)
  then have "unat (of_nat i :: u64) = i" using assms by (intro unat_of_nat_u64) simp
  then show "load_bytes a (length bs) (store_bytes a bs m) ! i = bs ! i" using i by (simp add: load_bytes_def store_bytes_def)
qed


text \<open>A device that serves a request in one step: its status register and its sectors.\<close>

definition demo_dev :: "(u32 \<times> (nat \<Rightarrow> u8 list)) vdev" where
  "demo_dev = \<lparr>vd_read = (\<lambda>off d. if off = MAGIC_VALUE then 0x74726976 else if off = VERSION then 1 else if off = DEVICE_ID then 2
        else if off = DEVICE_STATUS then fst d else if off = DEVICE_CONFIG_SPACE0 then 4 else 0),
     vd_write = (\<lambda>off v d. if off = DEVICE_STATUS then (v, snd d) else d),
     vd_step = (\<lambda>(d, vq). let r = blk_req vq; s = unat (br_sector r)
        in ((fst d, if br_type r = kVirtioBlkTOut then (snd d)(s := br_data r) else snd d),
            vq\<lparr>used_index := used_index vq + 1, blk_req := r\<lparr>br_status := 0,
                br_data := (if br_type r = kVirtioBlkTIn then snd d s else br_data r)\<rparr>\<rparr>))\<rparr>"

definition demo_good :: "u32 \<times> (nat \<Rightarrow> u8 list) \<Rightarrow> bool" where
  "demo_good d \<longleftrightarrow> (\<forall>i. length (snd d i) = 512)"

lemma demo_device_ok: "device_ok demo_dev demo_good snd"
  unfolding device_ok_def
proof (intro conjI allI impI)
  fix d :: "u32 \<times> (nat \<Rightarrow> u8 list)" and vq
  assume g: "demo_good d" "request_ok vq"
  have len: "length (br_data (blk_req vq)) = 512" using g(2) by (simp add: request_ok_def Let_def)
  show "\<exists>n d' vq'. (vd_step demo_dev ^^ n) (vd_write demo_dev QUEUE_NOTIFY 0 d, vq) = (d', vq') \<and>
          (\<forall>k<n. used_index (snd ((vd_step demo_dev ^^ k) (vd_write demo_dev QUEUE_NOTIFY 0 d, vq))) = used_index vq \<and>
                 last_used_index (snd ((vd_step demo_dev ^^ k) (vd_write demo_dev QUEUE_NOTIFY 0 d, vq))) = last_used_index vq) \<and>
          demo_good d' \<and> vd_read demo_dev DEVICE_CONFIG_SPACE0 d' = vd_read demo_dev DEVICE_CONFIG_SPACE0 d \<and>
          (let r = blk_req vq; s = unat (br_sector r)
           in vq' = vq\<lparr>used_index := used_index vq + 1, blk_req := r\<lparr>br_status := 0,
                       br_data := (if br_type r = kVirtioBlkTIn then snd d s else br_data r)\<rparr>\<rparr> \<and>
              snd d' = (if br_type r = kVirtioBlkTOut then (snd d)(s := br_data r) else snd d))"
    by (intro exI [of _ 1]) (use g len in \<open>auto simp: demo_dev_def demo_good_def Let_def QUEUE_NOTIFY_def DEVICE_STATUS_def
        DEVICE_CONFIG_SPACE0_def MAGIC_VALUE_def VERSION_def DEVICE_ID_def\<close>)
qed (simp add: demo_good_def)

definition demo_virtq :: Virtq where
  "demo_virtq = (virtq_at (\<lambda>_. 0) 0x48000000)\<lparr>used_index := 0, last_used_index := 0\<rparr>"

lemma virtq_ok_at: "virtq_ok ((virtq_at m a)\<lparr>used_index := 0, last_used_index := 0\<rparr>)"
  by (simp add: virtq_ok_def virtq_at_def kVirtQueueSize_def kDiskSectorSize_def)

definition demo_sectors :: "nat \<Rightarrow> u8 list" where
  "demo_sectors = (\<lambda>i. replicate 512 (of_nat i))"


end
