(* ===== verification/EvLoader.thy ===== *)
theory EvLoader
  imports EvWorld EvDisk
begin

text \<open>
  The image loader of fs/loader.cc on QEMU: it copies the whole disk, page by page, into fresh guest
  pages from the load address on. It is the loader the machine of EvMachine runs on that board: the
  interpretation of \<open>image_loader\<close> discharges the contract, and EvRuns uses it for the runs of the
  hypervisor.
\<close>

section \<open>The loader\<close>

record LoaderVcpuConfig =
  cfg_filename :: string
  cfg_file_load_va :: u64
  cfg_pc :: u64
  cfg_sp :: u64

text \<open>The inner loop over the sectors of a page.\<close>

fun load_page :: "'d vdev \<Rightarrow> nat \<Rightarrow> u64 \<Rightarrow> int \<Rightarrow> u32 \<Rightarrow> 'd \<times> Virtq \<times> mem \<Rightarrow> (bool \<times> int \<times> u32 \<times> 'd \<times> Virtq \<times> mem) res" where
  "load_page dev 0 buf sector_remains sector_offset s = Inr (True, sector_remains, sector_offset, s)"
| "load_page dev (Suc n) buf sector_remains sector_offset s =
     (if sector_remains \<le> 0 then Inr (True, sector_remains, sector_offset, s)
      else case ReadDisk dev buf sector_offset s of
          Inl e \<Rightarrow> Inl e
        | Inr (ok, s) \<Rightarrow>
            if \<not> ok then Inr (False, sector_remains, sector_offset, s)
            else load_page dev n (buf + of_nat kDiskSectorSize) (sector_remains - 1) (sector_offset + 1) s)"

lemma load_page_remains:
  "load_page dev n buf rem off s = Inr (ok, rem', off', s') \<Longrightarrow> rem' \<le> rem \<and> (0 < rem \<and> 0 < n \<and> ok \<longrightarrow> rem' < rem)"
proof (induction n arbitrary: buf rem off s)
  case (Suc n)
  show ?case
  proof (cases "rem \<le> 0")
    case False
    obtain ok1 s1 where r: "ReadDisk dev buf off s = Inr (ok1, s1)" using Suc.prems False by (auto split: sum.splits prod.splits)
    show ?thesis
    proof (cases ok1)
      case True
      have "load_page dev n (buf + of_nat kDiskSectorSize) (rem - 1) (off + 1) s1 = Inr (ok, rem', off', s')"
        using Suc.prems False r True by simp
      from Suc.IH [OF this] show ?thesis by linarith
    next
      case False
      then show ?thesis using Suc.prems r \<open>\<not> rem \<le> 0\<close> by simp
    qed
  qed (use Suc.prems in simp)
qed simp

function load_loop :: "'d vdev \<Rightarrow> u64 \<Rightarrow> int \<Rightarrow> u32 \<Rightarrow> 'd \<times> Virtq \<times> MmContext \<times> heap \<Rightarrow> (bool \<times> 'd \<times> Virtq \<times> MmContext \<times> heap) res" where
  "load_loop dev cur_va sector_remains sector_offset (d, vq, mm, h) =
     (if sector_remains > 0
      then case PageMap mm cur_va h of
          Inl e \<Rightarrow> Inl e
        | Inr (buf, mm, h) \<Rightarrow>
            (case load_page dev (4096 div kDiskSectorSize) buf sector_remains sector_offset (d, vq, dram h) of
               Inl e \<Rightarrow> Inl e
             | Inr (ok, sector_remains', sector_offset, d, vq, m) \<Rightarrow>
                 if \<not> ok then Inr (False, d, vq, mm, h\<lparr>dram := m\<rparr>)
                 else load_loop dev (cur_va + ucast PAGE_SIZE) sector_remains' sector_offset (d, vq, mm, h\<lparr>dram := m\<rparr>))
      else Inr (True, d, vq, mm, h))"
  by pat_completeness auto
termination
proof (relation "measure (\<lambda>(dev, cur_va, rem, off, s). nat rem)", goal_cases)
  case (2 dev cur_va rem off d vq mm h pg buf y mm1 h1 lp ok z rem' z' off' z'' d1 z''' vq1 m)
  have "load_page dev (4096 div kDiskSectorSize) buf rem off (d, vq, dram h1) = Inr (ok, rem', off', d1, vq1, m)"
    using 2 by simp
  from load_page_remains [OF this] have "rem' < rem" using 2 by (simp add: kDiskSectorSize_def)
  then show ?case using 2(1) by simp
qed simp

declare load_loop.simps [simp del]

definition LoaderLoadFile :: "'d vdev \<Rightarrow> 'd \<Rightarrow> u64 \<Rightarrow> MmContext \<times> heap \<Rightarrow> (bool \<times> MmContext \<times> heap) res" where
  "LoaderLoadFile dev d va = (\<lambda>(mm, h).
     rbind (VirtioBlk_Init dev (d, h)) (\<lambda>(d, vq, h).
     rbind (load_loop dev (va AND PAGE_MASK) (uint (GetDiskCapacity dev d div of_nat kDiskSectorSize)) 0 (d, vq, mm, h))
       (\<lambda>(ok, d, vq, mm, h). Inr (ok, mm, h))))"

definition LoaderLoadVcpu :: "'d vdev \<Rightarrow> 'd \<Rightarrow> LoaderVcpuConfig \<Rightarrow> loader" where
  "LoaderLoadVcpu dev d cfg = (\<lambda>(mm, h).
     rbind (LoaderLoadFile dev d (cfg_file_load_va cfg) (mm, h)) (\<lambda>(ok, mm, h).
       Inr (ok, cfg_pc cfg, cfg_sp cfg, cfg_filename cfg, mm, h)))"

datatype test_guest = TEST_APP | SERIAL | NUTTX | LINUX

definition kConfigVCPUs :: "test_guest \<Rightarrow> LoaderVcpuConfig list" where
  "kConfigVCPUs g = (case g of
     TEST_APP \<Rightarrow> [\<lparr>cfg_filename = ''test_app.bin'', cfg_file_load_va = 0, cfg_pc = 0, cfg_sp = 0x1000\<rparr>]
   | SERIAL \<Rightarrow> [\<lparr>cfg_filename = ''serial.bin'', cfg_file_load_va = 0, cfg_pc = 0, cfg_sp = 0x10000\<rparr>]
   | NUTTX \<Rightarrow> [\<lparr>cfg_filename = ''nuttx.bin'', cfg_file_load_va = 0x40280000, cfg_pc = 0x40280000, cfg_sp = 0x41280000\<rparr>]
   | LINUX \<Rightarrow> [\<lparr>cfg_filename = ''Image'', cfg_file_load_va = 0x40000000, cfg_pc = 0x40000000, cfg_sp = 0x50000000\<rparr>])"

section \<open>The loader extends one address space\<close>

lemma ReadDisk_writes:
  assumes "ReadDisk dev buf s (d, vq, m) = Inr (ok, d', vq', m')" "m' x \<noteq> m x"
  shows "unat (x - buf) < 512"
proof -
  have "m' = m \<or> (\<exists>bs. m' = store_bytes buf (take 512 bs) m)"
    using assms(1) by (auto simp: ReadDisk_def ReadWriteDisk_def Let_def kDiskSectorSize_def split: if_splits option.splits)
  then show ?thesis using assms(2) by (auto simp: store_bytes_def split: if_splits)
qed

lemma offset_less:
  fixes x buf :: u64
  assumes "unat (x - (buf + of_nat 512)) < 512 * n" "n \<le> 8"
  shows "unat (x - buf) < 512 * Suc n"
proof -
  have e: "x - buf = (x - (buf + of_nat 512)) + of_nat 512" by simp
  have "unat (x - (buf + of_nat 512)) + unat (of_nat 512 :: u64) < 2 ^ 64" using assms by simp
  then have "unat (x - buf) = unat (x - (buf + of_nat 512)) + 512" unfolding e by (subst unat_word_ariths) simp
  then show ?thesis using assms(1) by simp
qed

lemma load_page_writes:
  assumes "load_page dev n buf rem off (d, vq, m) = Inr (ok, rem', off', d', vq', m')" "n \<le> 8" "m' x \<noteq> m x"
  shows "unat (x - buf) < 512 * n"
  using assms
proof (induction n arbitrary: buf rem off d vq m)
  case (Suc n)
  show ?case
  proof (cases "rem \<le> 0")
    case False
    obtain ok1 d1 vq1 m1 where r: "ReadDisk dev buf off (d, vq, m) = Inr (ok1, d1, vq1, m1)"
      using Suc.prems(1) False by (auto split: sum.splits prod.splits)
    show ?thesis
    proof (cases "m1 x = m x")
      case True
      have ok1: "ok1"
      proof (rule ccontr)
        assume "\<not> ok1"
        then have "m' = m1" using Suc.prems(1) r False by simp
        then show False using Suc.prems(3) True by simp
      qed
      then have "load_page dev n (buf + of_nat 512) (rem - 1) (off + 1) (d1, vq1, m1) = Inr (ok, rem', off', d', vq', m')"
        using Suc.prems(1) r ok1 \<open>\<not> rem \<le> 0\<close> by (simp add: kDiskSectorSize_def)
      from Suc.IH [OF this] have "unat (x - (buf + of_nat 512)) < 512 * n" using Suc.prems(2,3) True by simp
      then show ?thesis using offset_less Suc.prems(2) by simp
    next
      case False
      then show ?thesis using ReadDisk_writes [OF r False] by simp
    qed
  qed (use Suc.prems in simp)
qed simp

text \<open>Mapping a page and filling it.\<close>

lemma PageMap_view:
  assumes inv: "guests_inv own h" and ok: "mm_ok own mm" and r: "PageMap mm ipa h = Inr (page, mm', h')"
  shows "(\<exists>own'. guests_step own own' (mm, h) (mm', h')) \<and> page \<notin> umm_used h \<and> page \<in> umm_used h' \<and> aligned 12 page \<and>
    (\<forall>a. mm_lookup h' mm' a = (if s2_path a = s2_path ipa then page OR kStage2PteDram else mm_lookup h mm a))"
proof -
  obtain h1 slot where z: "umm_zalloc 4096 h = Inr (page, h1)" and m: "MapPage mm ipa page kStage2PteDram h1 = Inr (slot, mm', h')"
    using r by (auto simp: PageMap_def PageAllocate_def MapPageAccessible_def PAGE_SIZE_def rbind_eq_Inr)
  have s2: "s2_inv own h" "guest_isolated own h" using inv by (simp_all add: guests_inv_def)
  note u = umm_zalloc_s2 [OF s2 z]
  have "\<forall>a. s2_lookup (dram h') (mm_page_table mm') a = (if s2_path a = s2_path ipa then page OR kStage2PteDram
       else if mm_page_table mm = 0 then 0 else s2_lookup (dram h1) (mm_page_table mm) a)" and nz: "mm_page_table mm' \<noteq> 0"
    using isolated_MapPage [OF u(2,1) ok m u(4) kStage2PteDram_low] u(3,6) by blast+
  moreover have "s2_lookup (dram h1) (mm_page_table mm) a = s2_lookup (dram h) (mm_page_table mm) a" if "mm_page_table mm \<noteq> 0" for a
    using u(5) ok that by (simp add: mm_ok_def)
  ultimately have "mm_lookup h' mm' a = (if s2_path a = s2_path ipa then page OR kStage2PteDram else mm_lookup h mm a)" for a
    by (simp add: mm_lookup_def)
  moreover obtain own' where "guests_step own own' (mm, h) (mm', h')" "page \<notin> umm_used h" "page \<in> umm_used h'"
    using new_guest_page_step [OF inv ok z m] by blast
  ultimately show ?thesis using u(4) by blast
qed

lemma page_fill:
  assumes inv: "guests_inv own h" and st: "guests_step own own' (mm, h) (mm', h')"
    and page: "page \<in> umm_used h'" "page \<notin> umm_used h" and w: "\<And>x. m x \<noteq> dram h' x \<Longrightarrow> x - page < 4096"
  shows "guests_step own own' (mm, h) (mm', h'\<lparr>dram := m\<rparr>)"
    and "mm_lookup (h'\<lparr>dram := m\<rparr>) mm' a = mm_lookup h' mm' a"
proof -
  note g = st [unfolded guests_step_def prod.case]
  have i': "guests_inv own' h'" and ok': "mm_ok own' mm'" using g by blast+
  note u = user_writes [OF i', of m]
  have iu: "guests_inv own' (h'\<lparr>dram := m\<rparr>)" and lu: "\<And>q a. own' q = Some (q, []) \<Longrightarrow> s2_lookup m q a = s2_lookup (dram h') q a"
    using u w page(1) by blast+
  have l: "layout_ok h'" using i' by (simp add: guests_inv_def s2_inv_def heap_inv_layout)
  have keep: "m x = dram h x" if p: "p \<in> umm_used h" "x - p < 4096" for p x
  proof -
    have pu: "p \<in> umm_used h'" "p \<noteq> page" using g p(1) page(2) by blast+
    have "\<not> x - page < 4096"
      by (rule aligned_pages_disjoint [OF _ _ pu(2) p(2)]) (use umm_used_page [OF l pu(1)] umm_used_page [OF l page(1)] in simp_all)
    then have "m x = dram h' x" using w by blast
    then show ?thesis using g p by simp
  qed
  have same: "umm_used (h'\<lparr>dram := m\<rparr>) = umm_used h'" "user_region (h'\<lparr>dram := m\<rparr>) = user_region h'"
    "kmm_used (h'\<lparr>dram := m\<rparr>) = kmm_used h'" by (simp_all add: umm_used_def user_region_def kmm_used_def user_page_used_def)
  show "guests_step own own' (mm, h) (mm', h'\<lparr>dram := m\<rparr>)"
    unfolding guests_step_def prod.case same using g iu lu keep by simp
  show "mm_lookup (h'\<lparr>dram := m\<rparr>) mm' a = mm_lookup h' mm' a"
    using lu ok' by (auto simp: mm_lookup_def mm_ok_def)
qed

lemma load_loop_extends:
  assumes "guests_inv own h" "mm_ok own mm" "load_loop dev cur_va rem off (d, vq, mm, h) = Inr (ok, d', vq', mm', h')"
  shows "\<exists>own'. guests_step own own' (mm, h) (mm', h')"
  using assms
proof (induction "nat rem" arbitrary: own cur_va rem off d vq mm h rule: less_induct)
  case less
  show ?case
  proof (cases "rem > 0")
    case False
    then show ?thesis using less.prems guests_step_refl by (auto simp: load_loop.simps)
  next
    case True
    obtain buf mm1 h1 where p: "PageMap mm cur_va h = Inr (buf, mm1, h1)"
      using less.prems(3) True by (subst (asm) load_loop.simps) (auto split: sum.splits)
    obtain ok1 rem1 off1 d1 vq1 m where l: "load_page dev (4096 div kDiskSectorSize) buf rem off (d, vq, dram h1) = Inr (ok1, rem1, off1, d1, vq1, m)"
      using less.prems(3) True p by (subst (asm) load_loop.simps) (auto split: sum.splits)
    note v = PageMap_view [OF less.prems(1,2) p]
    obtain own1 where s1: "guests_step own own1 (mm, h) (mm1, h1)" using v by blast
    have w: "x - buf < 4096" if "m x \<noteq> dram h1 x" for x
    proof -
      have "unat (x - buf) < 512 * 8" using load_page_writes [OF l _ that] by (simp add: kDiskSectorSize_def)
      then show ?thesis by (simp add: word_less_nat_alt)
    qed
    have f: "guests_step own own1 (mm, h) (mm1, h1\<lparr>dram := m\<rparr>)"
      using page_fill(1) [OF less.prems(1) s1] v w by blast
    show ?thesis
    proof (cases ok1)
      case False
      then have "mm' = mm1 \<and> h' = h1\<lparr>dram := m\<rparr>" using less.prems(3) True p l \<open>rem > 0\<close> by (subst (asm) load_loop.simps) auto
      then show ?thesis using f by blast
    next
      case True
      have "rem1 < rem" using load_page_remains [OF l] True \<open>rem > 0\<close> by (simp add: kDiskSectorSize_def)
      then have lt: "nat rem1 < nat rem" using \<open>rem > 0\<close> by simp
      have "load_loop dev (cur_va + ucast PAGE_SIZE) rem1 off1 (d1, vq1, mm1, h1\<lparr>dram := m\<rparr>) = Inr (ok, d', vq', mm', h')"
        using less.prems(3) True p l \<open>rem > 0\<close> by (subst (asm) load_loop.simps) simp
      from less.hyps [OF lt _ _ this] guests_step_inv [OF f] obtain own' where
        "guests_step own1 own' (mm1, h1\<lparr>dram := m\<rparr>) (mm', h')" by blast
      then show ?thesis using guests_step_trans [OF _ f] less.prems(1) by auto
    qed
  qed
qed

lemma uncached_malloc_guests:
  assumes "kmm_uncached_malloc sz h = Inr (a, h')" "guests_inv own h" "mm_ok own mm"
  shows "guests_step own own (mm, h) (mm, h') \<and> dram h' = dram h \<and> umm_used h' = umm_used h \<and>
    kmm_used h' = kmm_used h \<and> nextFreeSpaceIndex h' = nextFreeSpaceIndex h"
proof -
  obtain u where h': "h' = h\<lparr>kernelUncachedMemoryRegionMap := u\<rparr>" using uncached_malloc_cases [OF assms(1)] by metis
  have same: "umm_used h' = umm_used h" "user_region h' = user_region h" "kmm_used h' = kmm_used h" "dram h' = dram h"
    "layout_ok h' = layout_ok h" "heap_inv h' = heap_inv h" "nextFreeSpaceIndex h' = nextFreeSpaceIndex h"
    by (simp_all add: h' umm_used_def user_region_def kmm_used_def user_page_used_def layout_ok_def heap_inv_def)
  have "guests_inv own h'" using assms(2) unfolding guests_inv_def s2_inv_def guest_isolated_def same .
  then show ?thesis using assms(3) unfolding guests_step_def prod.case same by (simp add: map_le_def)
qed

lemma VirtioBlk_Init_guests:
  assumes "VirtioBlk_Init dev (d, h) = Inr (d', vq, h')" "guests_inv own h" "mm_ok own mm"
  shows "guests_step own own (mm, h) (mm, h') \<and> dram h' = dram h \<and> umm_used h' = umm_used h \<and>
    kmm_used h' = kmm_used h \<and> nextFreeSpaceIndex h' = nextFreeSpaceIndex h"
proof -
  obtain a1 h1 a2 where 1: "kmm_uncached_malloc 0x2000 h = Inr (a1, h1)" and 2: "kmm_uncached_malloc 0x1000 h1 = Inr (a2, h')"
    using assms(1) by (auto simp: VirtioBlk_Init_def BlockDeviceInit_def rbind_eq_Inr Let_def split: if_splits)
  note s1 = uncached_malloc_guests [OF 1 assms(2,3)]
  have "guests_inv own h1" using s1 guests_step_inv by blast
  note s2 = uncached_malloc_guests [OF 2 this assms(3)]
  have "guests_step own own (mm, h) (mm, h')" using guests_step_trans [of own "(mm, h)" own "(mm, h1)"] s1 s2 assms(2) by simp
  then show ?thesis using s1 s2 by simp
qed

lemma LoaderLoadVcpu_extends:
  assumes inv: "guests_inv own h" "mm_ok own mm" and r: "LoaderLoadVcpu dev d cfg (mm, h) = Inr (ok, pc, sp, name, mm', h')"
  shows "\<exists>own'. guests_step own own' (mm, h) (mm', h')"
proof -
  obtain d1 vq h1 va n d2 vq2 where 1: "VirtioBlk_Init dev (d, h) = Inr (d1, vq, h1)"
    and 2: "load_loop dev va n 0 (d1, vq, mm, h1) = Inr (ok, d2, vq2, mm', h')"
    using r by (auto simp: LoaderLoadVcpu_def LoaderLoadFile_def rbind_eq_Inr)
  have s1: "guests_step own own (mm, h) (mm, h1)" using VirtioBlk_Init_guests [OF 1 inv] by blast
  have "guests_inv own h1" using guests_step_inv [OF s1] by blast
  from load_loop_extends [OF this inv(2) 2] obtain own' where "guests_step own own' (mm, h1) (mm', h')" by blast
  then show ?thesis using guests_step_trans [of own "(mm, h)" own "(mm, h1)" own' "(mm', h')"] s1 inv(1) by auto
qed

interpretation qemu_loader: image_loader "LoaderLoadVcpu dev d cfg" for dev :: "'d vdev" and d cfg
  by unfold_locales (rule LoaderLoadVcpu_extends)

section \<open>A load that succeeds\<close>

lemma kmm_zalloc_next: "kmm_zalloc sz h = Inr (p, h') \<Longrightarrow> nextFreeSpaceIndex h' = nextFreeSpaceIndex h"
  by (auto simp: kmm_zalloc_def kmm_malloc_def rbind_eq_Inr Let_def split: if_splits option.splits)

lemma CreatePageTable_next: "CreatePageTable t s ipa h = Inr (t', h') \<Longrightarrow> nextFreeSpaceIndex h' = nextFreeSpaceIndex h"
  using kmm_zalloc_next by (fastforce simp: CreatePageTable_def rbind_eq_Inr Let_def split: if_splits)

lemma MapPage_next:
  assumes "MapPage mm ipa page flags h = Inr (slot, mm', h')"
  shows "nextFreeSpaceIndex h' = nextFreeSpaceIndex h"
proof -
  obtain mm1 h1 t2 h2 t3 h3 where 1: "(if mm_page_table mm = 0
            then rbind (kmm_zalloc (ucast PAGE_SIZE) h) (\<lambda>(p, h). Inr (mm\<lparr>mm_page_table := p\<rparr>, h))
            else Inr (mm, h)) = Inr (mm1, h1)"
    and 2: "CreatePageTable (mm_page_table mm1) 30 ipa h1 = Inr (t2, h2)" "CreatePageTable t2 21 ipa h2 = Inr (t3, h3)"
    and 3: "nextFreeSpaceIndex h' = nextFreeSpaceIndex h3"
    using assms by (fastforce simp: MapPage_def rbind_eq_Inr Let_def SetPageTableEntry_def)
  have "nextFreeSpaceIndex h1 = nextFreeSpaceIndex h" using 1 kmm_zalloc_next by (auto simp: rbind_eq_Inr split: if_splits)
  then show ?thesis using CreatePageTable_next [OF 2(1)] CreatePageTable_next [OF 2(2)] 3 by simp
qed

lemma umm_malloc_next:
  assumes "umm_malloc 4096 h = Inr (p, h')" "heap_inv h"
  shows "unat (nextFreeSpaceIndex h') = Suc (unat (nextFreeSpaceIndex h))"
proof -
  let ?n = "unat (nextFreeSpaceIndex h)"
  have lt: "?n < 524288" using umm_malloc_returns_iff [OF assms(2)] assms(1) by (auto simp: returns_iff)
  then have "\<not> user_page_used h ?n" using assms(2) by (simp add: heap_inv_def)
  then have "first_index (\<lambda>i. userMemoryRegionMap h (i div 8) AND user_bit i = 0) ?n (unat kPagingPages) = Some ?n"
    unfolding first_index_Some using lt by (auto simp: and_user_bit user_page_used_def)
  then have "nextFreeSpaceIndex h' = nextFreeSpaceIndex h + 1"
    using assms(1) by (auto simp: umm_malloc_def PAGE_SIZE_def Let_def)
  then show ?thesis using lt by (simp add: unat_word_ariths)
qed

lemma PageMap_total:
  assumes "guests_inv own h" "unat (nextFreeSpaceIndex h) < 524288" "card (kmm_used h) + 3 \<le> HEAP_PAGES"
  obtains page mm' h' where "PageMap mm ipa h = Inr (page, mm', h')"
    "unat (nextFreeSpaceIndex h') = Suc (unat (nextFreeSpaceIndex h))" "card (kmm_used h') \<le> card (kmm_used h) + 3"
proof -
  have hi: "heap_inv h" using assms(1) by (simp add: guests_inv_def s2_inv_def)
  obtain page h0 where u: "umm_malloc 4096 h = Inr (page, h0)"
    using umm_malloc_returns_iff [OF hi] assms(2) by (auto simp: returns_iff)
  then obtain h1 where z: "umm_zalloc 4096 h = Inr (page, h1)" and n1: "nextFreeSpaceIndex h1 = nextFreeSpaceIndex h0"
    by (auto simp: umm_zalloc_def)
  have h1: "heap_inv h1" "kmm_used h1 = kmm_used h" using umm_zalloc_page(1,4) [OF z hi] by simp_all
  then obtain slot mm' h' where m: "MapPage mm ipa page kStage2PteDram h1 = Inr (slot, mm', h')"
    "card (kmm_used h') \<le> card (kmm_used h) + 3" using MapPage_total [of h1] assms(3) by metis
  have "PageMap mm ipa h = Inr (page, mm', h')"
    using z m(1) by (simp add: PageMap_def PageAllocate_def MapPageAccessible_def PAGE_SIZE_def)
  then show ?thesis using that m(2) MapPage_next [OF m(1)] n1 umm_malloc_next [OF u hi] by simp
qed

text \<open>A page of sectors.\<close>

lemma load_page_reads:
  assumes dev: "device_ok dev good sectors" and "good d" "virtq_ok vq" "0 \<le> rem"
    "int (unat off) + rem = int (disk_sectors dev d)" "n \<le> 8"
  shows "\<exists>d' vq' m'. load_page dev n buf rem off (d, vq, m) =
      Inr (True, rem - int (min n (nat rem)), off + of_nat (min n (nat rem)), d', vq', m') \<and>
    good d' \<and> virtq_ok vq' \<and> disk_sectors dev d' = disk_sectors dev d \<and> sectors d' = sectors d \<and>
    (\<forall>i<min n (nat rem). \<forall>x<512. m' (buf + of_nat (512 * i + x)) = sectors d (unat off + i) ! x)"
  using assms(2-)
proof (induction n arbitrary: buf rem off d vq m)
  case 0
  then show ?case by simp
next
  case (Suc n)
  show ?case
  proof (cases "rem = 0")
    case True
    then show ?thesis using Suc.prems by simp
  next
    case False
    have s: "unat off < disk_sectors dev d" using Suc.prems(3,4) False by linarith
    obtain d1 vq1 where r: "ReadWriteDisk dev buf off False (d, vq, m) = Inr (True, d1, vq1, store_bytes buf (sectors d (unat off)) m)"
      and d1: "good d1" "virtq_ok vq1" "disk_sectors dev d1 = disk_sectors dev d" "sectors d1 = sectors d"
      using ReadWriteDisk_in [OF dev Suc.prems(1,2) s, of buf False m] by auto
    let ?m1 = "store_bytes buf (sectors d (unat off)) m" and ?buf = "buf + of_nat kDiskSectorSize"
    have lt: "unat off < 2 ^ 23" using s mod_less_divisor [of "2 ^ 23"] by (simp add: disk_sectors_def order_less_trans)
    then have o1: "unat (off + 1) = unat off + 1" by (simp add: unat_word_ariths)
    have p: "0 \<le> rem - 1" "int (unat (off + 1)) + (rem - 1) = int (disk_sectors dev d1)"
      using Suc.prems(3,4) False o1 d1(3) by simp_all
    obtain d' vq' m' where l: "load_page dev n ?buf (rem - 1) (off + 1) (d1, vq1, ?m1) =
        Inr (True, rem - 1 - int (min n (nat (rem - 1))), off + 1 + of_nat (min n (nat (rem - 1))), d', vq', m')"
      and d': "good d'" "virtq_ok vq'" "disk_sectors dev d' = disk_sectors dev d1" "sectors d' = sectors d1"
      and b: "\<And>i x. i < min n (nat (rem - 1)) \<Longrightarrow> x < 512 \<Longrightarrow> m' (?buf + of_nat (512 * i + x)) = sectors d1 (unat (off + 1) + i) ! x"
      using Suc.IH [OF d1(1,2) p, of ?buf ?m1] Suc.prems(5) by auto
    have k: "min (Suc n) (nat rem) = Suc (min n (nat (rem - 1)))" using Suc.prems(3) False by (simp add: min_def) linarith
    have st: "load_page dev (Suc n) buf rem off (d, vq, m) =
        Inr (True, rem - int (min (Suc n) (nat rem)), off + of_nat (min (Suc n) (nat rem)), d', vq', m')"
      unfolding k using r l Suc.prems(3) False by (simp add: ReadDisk_def algebra_simps)
    have len: "length (sectors d (unat off)) = 512" using dev Suc.prems(1) by (simp add: device_ok_def)
    have "m' (buf + of_nat (512 * i + x)) = sectors d (unat off + i) ! x" if i: "i < min (Suc n) (nat rem)" "x < 512" for i x
    proof (cases i)
      case 0
      have ux: "unat (of_nat x :: u64) = x" using i(2) by (intro unat_of_nat_u64) simp
      have "unat (buf + of_nat x - ?buf) = 2 ^ 64 - 512 + x"
      proof -
        have "buf + of_nat x - ?buf = of_nat (2 ^ 64 - 512 + x)"
          using i(2) by (simp add: kDiskSectorSize_def of_nat_diff)
        moreover have "unat (of_nat (2 ^ 64 - 512 + x) :: u64) = 2 ^ 64 - 512 + x" using i(2) by (intro unat_of_nat_u64) simp
        ultimately show ?thesis by (simp only:)
      qed
      then have "\<not> unat (buf + of_nat x - ?buf) < 512 * n" using Suc.prems(5) by simp
      then have "m' (buf + of_nat x) = ?m1 (buf + of_nat x)" using load_page_writes [OF l] Suc.prems(5) by fastforce
      also have "\<dots> = sectors d (unat off) ! x" using ux len i(2) by (simp add: store_bytes_def)
      finally show ?thesis using 0 by simp
    next
      case (Suc j)
      have e: "buf + of_nat (512 * i + x) = ?buf + of_nat (512 * j + x)"
        unfolding Suc by (simp add: kDiskSectorSize_def algebra_simps)
      have "j < min n (nat (rem - 1))" using i(1) unfolding k Suc by simp
      from b [OF this i(2)] show ?thesis unfolding e using o1 d1(4) Suc by simp
    qed
    then show ?thesis using st d1 d' by auto
  qed
qed

text \<open>The byte a guest address holds.\<close>

definition guest_byte :: "heap \<Rightarrow> MmContext \<Rightarrow> u64 \<Rightarrow> u8" where
  "guest_byte h mm a = dram h ((mm_lookup h mm a AND PAGE_MASK) + (a AND 0xfff))"

lemma load_address:
  fixes cur_va :: u64
  assumes "unat cur_va mod 4096 = 0" "y < 4096" "unat cur_va + 4096 \<le> 2 ^ 39"
  shows "unat (cur_va + of_nat y) = unat cur_va + y" "(cur_va + of_nat y) AND 0xfff = of_nat y"
    "s2_path (cur_va + of_nat y) = s2_path cur_va"
proof -
  have uy: "unat (of_nat y :: u64) = y" using assms(2) by (intro unat_of_nat_u64) simp
  show u: "unat (cur_va + of_nat y) = unat cur_va + y"
    using assms(2,3) uy by (subst unat_word_ariths) simp
  have "unat ((cur_va + of_nat y) AND 0xfff) = unat (take_bit 12 (cur_va + of_nat y))"
    by (simp add: take_bit_eq_mask mask_eq_exp_minus_1)
  also have "\<dots> = (unat cur_va + y) mod 4096" unfolding unsigned_take_bit_eq u by (simp add: take_bit_eq_mod)
  also have "\<dots> = y" using assms(1,2) mod_add_eq [of "unat cur_va" 4096 y] by simp
  finally show "(cur_va + of_nat y) AND 0xfff = of_nat y" using uy by (simp add: word_unat_eq_iff)
  obtain q where "unat cur_va = 4096 * q" using assms(1) by auto
  then have "(unat cur_va + y) div 4096 = unat cur_va div 4096" using assms(2) by simp
  then show "s2_path (cur_va + of_nat y) = s2_path cur_va"
    using s2_path_number [of "cur_va + of_nat y" cur_va] assms(2,3) u by simp
qed

lemma ceil_div:
  assumes r: "(0::nat) < r" and k: "0 < k"
  shows "(r + (k - 1)) div k = Suc ((r - min k r + (k - 1)) div k)"
proof (cases "k \<le> r")
  case True
  then have "r + (k - 1) = r - min k r + (k - 1) + k" by simp
  then show ?thesis using k by (metis Suc_eq_plus1 div_add_self2 less_not_refl)
next
  case False
  then have "(r + (k - 1)) div k = 1" using r by (intro div_nat_eqI) simp_all
  then show ?thesis using False k by simp
qed

lemma other_page:
  fixes cur_va a :: u64
  assumes "unat cur_va mod 4096 = 0" "unat cur_va + 4096 \<le> 2 ^ 39" "unat a < unat cur_va"
  shows "s2_path a \<noteq> s2_path cur_va"
proof -
  obtain q where q: "unat cur_va = q * 4096" using assms(1) by auto
  then have "unat a div 4096 < q" using assms(3) by (intro less_mult_imp_div_less) simp
  then have "unat a div 4096 \<noteq> unat cur_va div 4096" using q by simp
  then show ?thesis using s2_path_number [of a cur_va] assms(2,3) by simp
qed

lemma guests_step_page:
  assumes "guests_step own own' (mm, h) (mm', h')" "page \<in> umm_used h" "i < 4096"
  shows "dram h' (page + of_nat i) = dram h (page + of_nat i)"
proof -
  have "unat (of_nat i :: u64) = i" by (intro unat_of_nat_u64) (use assms(3) in simp)
  then have "page + of_nat i - page < 4096" unfolding word_less_nat_alt add_diff_cancel_left' using assms(3) by simp
  then show ?thesis using assms(1,2) unfolding guests_step_def prod.case by blast
qed

lemma load_loop_reads:
  assumes dev: "device_ok dev good sectors" and "guests_inv own h" "mm_ok own mm" "good d" "virtq_ok vq" "0 \<le> rem"
    "int (unat off) + rem = int (disk_sectors dev d)" "unat cur_va mod 4096 = 0"
    "unat cur_va + 4096 * ((nat rem + 7) div 8) \<le> 2 ^ 39"
    "unat (nextFreeSpaceIndex h) + (nat rem + 7) div 8 \<le> 524288"
    "card (kmm_used h) + 3 * ((nat rem + 7) div 8) \<le> HEAP_PAGES"
  shows "\<exists>own' d' vq' mm' h'. load_loop dev cur_va rem off (d, vq, mm, h) = Inr (True, d', vq', mm', h') \<and>
    guests_step own own' (mm, h) (mm', h') \<and>
    (\<forall>a. unat a < unat cur_va \<longrightarrow> mm_lookup h' mm' a = mm_lookup h mm a) \<and>
    (\<forall>i<nat rem. \<forall>x<512. guest_byte h' mm' (cur_va + of_nat (512 * i + x)) = sectors d (unat off + i) ! x)"
  using assms(2-)
proof (induction "nat rem" arbitrary: own cur_va rem off d vq mm h rule: less_induct)
  case less
  show ?case
  proof (cases "rem = 0")
    case True
    then have "load_loop dev cur_va rem off (d, vq, mm, h) = Inr (True, d, vq, mm, h)" by (simp add: load_loop.simps)
    then show ?thesis using True guests_step_refl [OF less.prems(1,2)] by auto
  next
    case False
    then have pos: "0 < rem" "0 < nat rem" using less.prems(5) by simp_all
    define k where "k = min 8 (nat rem)"
    let ?pages = "(nat rem + 7) div 8"
    have pages: "?pages = Suc ((nat (rem - int k) + 7) div 8)"
      using ceil_div [OF pos(2), of 8] pos unfolding k_def by (simp add: nat_diff_distrib min_def split: if_splits)
    have up: "unat cur_va + 4096 \<le> 2 ^ 39" using less.prems(8) unfolding pages by simp
    obtain page mm1 h1 where p: "PageMap mm cur_va h = Inr (page, mm1, h1)"
      "unat (nextFreeSpaceIndex h1) = Suc (unat (nextFreeSpaceIndex h))" "card (kmm_used h1) \<le> card (kmm_used h) + 3"
      by (rule PageMap_total [OF less.prems(1)]) (use less.prems(9,10) in \<open>simp_all add: pages\<close>)
    note v = PageMap_view [OF less.prems(1,2) p(1)]
    obtain own1 where s1: "guests_step own own1 (mm, h) (mm1, h1)" using v by blast
    obtain d1 vq1 m where l: "load_page dev 8 page rem off (d, vq, dram h1) =
        Inr (True, rem - int k, off + of_nat k, d1, vq1, m)"
      and d1: "good d1" "virtq_ok vq1" "disk_sectors dev d1 = disk_sectors dev d" "sectors d1 = sectors d"
      and b: "\<And>i x. i < k \<Longrightarrow> x < 512 \<Longrightarrow> m (page + of_nat (512 * i + x)) = sectors d (unat off + i) ! x"
      using load_page_reads [OF dev less.prems(3-6), of 8 page "dram h1"] unfolding k_def by auto
    let ?h2 = "h1\<lparr>dram := m\<rparr>"
    have w: "x - page < 4096" if "m x \<noteq> dram h1 x" for x
      using load_page_writes [OF l _ that] by (simp add: word_less_nat_alt)
    have s2: "guests_step own own1 (mm, h) (mm1, ?h2)" and lk: "\<And>a. mm_lookup ?h2 mm1 a = mm_lookup h1 mm1 a"
      using page_fill [OF less.prems(1) s1] v w by blast+
    have lk2: "mm_lookup ?h2 mm1 a = (if s2_path a = s2_path cur_va then page OR kStage2PteDram else mm_lookup h mm a)" for a
      using v unfolding lk by blast
    have st: "load_loop dev cur_va rem off (d, vq, mm, h) =
        load_loop dev (cur_va + 0x1000) (rem - int k) (off + of_nat k) (d1, vq1, mm1, ?h2)"
      using pos p(1) l by (subst load_loop.simps) (simp add: kDiskSectorSize_def PAGE_SIZE_def)
    have kb: "0 < k" "k \<le> 8" "k \<le> nat rem" using pos unfolding k_def by simp_all
    have uo: "unat (off + of_nat k) = unat off + k"
    proof -
      have "unat off + k \<le> disk_sectors dev d" using less.prems(6) kb(3) pos by linarith
      moreover have "disk_sectors dev d < 2 ^ 23" by (simp add: disk_sectors_def)
      ultimately have "unat off + k < 2 ^ 32" by simp
      moreover have "unat (of_nat k :: u32) = k" using kb(2) by (simp add: unat_of_nat)
      ultimately show ?thesis by (subst unat_word_ariths) simp
    qed
    have uc: "unat (cur_va + 0x1000) = unat cur_va + 4096" using up by (subst unat_word_ariths) simp
    have used2: "kmm_used ?h2 = kmm_used h1" "nextFreeSpaceIndex ?h2 = nextFreeSpaceIndex h1" "umm_used ?h2 = umm_used h1"
      by (simp_all add: kmm_used_def umm_used_def user_page_used_def)
    have i2: "guests_inv own1 ?h2" "mm_ok own1 mm1" using guests_step_inv [OF s2] by simp_all
    have "\<exists>own' d' vq' mm' h'. load_loop dev (cur_va + 0x1000) (rem - int k) (off + of_nat k) (d1, vq1, mm1, ?h2) =
          Inr (True, d', vq', mm', h') \<and> guests_step own1 own' (mm1, ?h2) (mm', h') \<and>
        (\<forall>a. unat a < unat (cur_va + 0x1000) \<longrightarrow> mm_lookup h' mm' a = mm_lookup ?h2 mm1 a) \<and>
        (\<forall>i<nat (rem - int k). \<forall>x<512. guest_byte h' mm' (cur_va + 0x1000 + of_nat (512 * i + x)) =
           sectors d1 (unat (off + of_nat k) + i) ! x)"
    proof (rule less.hyps [OF _ i2 d1(1,2)])
      show "nat (rem - int k) < nat rem" using kb pos by simp
      show "0 \<le> rem - int k" using kb by linarith
      show "int (unat (off + of_nat k)) + (rem - int k) = int (disk_sectors dev d1)" using less.prems(6) d1(3) uo by simp
      show "unat (cur_va + 0x1000) mod 4096 = 0" using less.prems(7) unfolding uc by simp
      show "unat (cur_va + 0x1000) + 4096 * ((nat (rem - int k) + 7) div 8) \<le> 2 ^ 39"
        using less.prems(8) unfolding uc pages by simp
      show "unat (nextFreeSpaceIndex ?h2) + (nat (rem - int k) + 7) div 8 \<le> 524288"
        using less.prems(9) p(2) unfolding used2 pages by simp
      show "card (kmm_used ?h2) + 3 * ((nat (rem - int k) + 7) div 8) \<le> HEAP_PAGES"
        using less.prems(10) p(3) unfolding used2 pages by simp
    qed
    then obtain own' d' vq' mm' h' where r: "load_loop dev (cur_va + 0x1000) (rem - int k) (off + of_nat k) (d1, vq1, mm1, ?h2) =
          Inr (True, d', vq', mm', h')" "guests_step own1 own' (mm1, ?h2) (mm', h')"
      and low: "\<And>a. unat a < unat cur_va + 4096 \<Longrightarrow> mm_lookup h' mm' a = mm_lookup ?h2 mm1 a"
      and hi: "\<And>i x. i < nat (rem - int k) \<Longrightarrow> x < 512 \<Longrightarrow>
         guest_byte h' mm' (cur_va + 0x1000 + of_nat (512 * i + x)) = sectors d (unat off + k + i) ! x"
      unfolding uc uo d1(4) by blast
    have g: "guests_step own own' (mm, h) (mm', h')"
      using guests_step_trans [of own "(mm, h)" own1 "(mm1, ?h2)"] s2 r(2) less.prems(1) by simp
    have keep: "mm_lookup h' mm' a = mm_lookup h mm a" if a: "unat a < unat cur_va" for a
      using low [of a] lk2 [of a] other_page [OF less.prems(7) up a] a by simp
    have byte: "guest_byte h' mm' (cur_va + of_nat (512 * i + x)) = sectors d (unat off + i) ! x"
      if i: "i < nat rem" "x < 512" for i x
    proof (cases "i < k")
      case True
      let ?y = "512 * i + x"
      have y: "?y < 4096" using True kb(2) i(2) by simp
      note o = load_address [OF less.prems(7) y up]
      have "mm_lookup h' mm' (cur_va + of_nat ?y) = page OR kStage2PteDram" using low [of "cur_va + of_nat ?y"] lk2 o(1,3) y by simp
      then have "guest_byte h' mm' (cur_va + of_nat ?y) = dram h' (page + of_nat ?y)"
        using mask_page_entry [OF _ kStage2PteDram_low] v o(2) by (simp add: guest_byte_def)
      also have "\<dots> = dram ?h2 (page + of_nat ?y)"
        by (rule guests_step_page [OF r(2) _ y]) (use v used2 in simp)
      also have "\<dots> = sectors d (unat off + i) ! x" using b [OF True i(2)] by simp
      finally show ?thesis .
    next
      case False
      then have k8: "k = 8" using i(1) unfolding k_def by linarith
      then have j: "i - 8 < nat (rem - int k)" using i(1) False by linarith
      have e: "cur_va + of_nat (512 * i + x) = cur_va + 0x1000 + of_nat (512 * (i - 8) + x)"
      proof -
        have "512 * i + x = 4096 + (512 * (i - 8) + x)" using False k8 by simp
        then show ?thesis by (simp only: of_nat_add) simp
      qed
      show ?thesis unfolding e using hi [OF j i(2)] False k8 by simp
    qed
    show ?thesis unfolding st using r(1) g keep byte by blast
  qed
qed

lemma virtq_ok_req:
  "virtq_ok ((virtq_at m a)\<lparr>used_index := 0, last_used_index := 0, blk_req_addr := b, blk_req := blk_req_at m' b\<rparr>)"
  using virtq_ok_at [of m a] by (simp add: virtq_ok_def blk_req_at_def kDiskSectorSize_def)

lemma VirtioBlk_Init_virtq: "VirtioBlk_Init dev (d, h) = Inr (d', vq, h') \<Longrightarrow> virtq_ok vq"
  by (auto simp: VirtioBlk_Init_def BlockDeviceInit_def rbind_eq_Inr Let_def virtq_ok_req split: if_splits)

lemma capacity_int: "uint (GetDiskCapacity dev d div of_nat kDiskSectorSize) = int (disk_sectors dev d)"
proof -
  let ?c = "vd_read dev DEVICE_CONFIG_SPACE0 d"
  have "unat (?c * of_nat kDiskSectorSize) = (unat ?c * 512) mod 2 ^ 32" by (simp add: unat_word_ariths kDiskSectorSize_def)
  also have "\<dots> = (unat ?c mod 2 ^ 23) * 512" using mult_mod_left [of "unat ?c" "2 ^ 23" 512] by simp
  finally have "unat (GetDiskCapacity dev d) = (unat ?c mod 2 ^ 23) * 512"
    unfolding GetDiskCapacity_def by (simp only: unat_ucast_u32_u64)
  then have "unat (GetDiskCapacity dev d div of_nat kDiskSectorSize) = disk_sectors dev d"
    by (simp add: unat_div kDiskSectorSize_def disk_sectors_def)
  then show ?thesis by (metis uint_nat)
qed


lemma demo_init:
  "\<exists>vq h1. VirtioBlk_Init demo_dev ((0, demo_sectors), demo_heap) = Inr ((0xf, demo_sectors), vq, h1)"
proof -
  let ?m = "kernelUncachedMemoryRegionMap demo_heap" and ?free = "\<lparr>pb_size = 0, pb_ref_count = 0\<rparr>"
  have m: "?m = (\<lambda>_. ?free)" by (simp add: heap_boot_def)
  have s1: "uncached_scan ?m 2 0 = Inr 0" unfolding m by (subst uncached_scan.simps) (simp add: kRegionPageNums_def numeral_2_eq_2)
  obtain a1 h1 where 1: "kmm_uncached_malloc 0x2000 demo_heap = Inr (a1, h1)"
    "kernelUncachedMemoryRegionMap h1 = uncached_take 0 2 ?m"
    using s1 by (simp add: kmm_uncached_malloc_def PAGE_SIZE_def Let_def)
  have t: "uncached_take 0 2 ?m = (\<lambda>k. if k < 2 then \<lparr>pb_size = 2, pb_ref_count = 1\<rparr> else ?free)"
    unfolding m by (simp add: uncached_take_eq fun_eq_iff)
  have s2: "uncached_scan (uncached_take 0 2 ?m) 1 0 = Inr 2"
    unfolding t by (subst uncached_scan.simps, simp add: kRegionPageNums_def, subst uncached_scan.simps, simp add: kRegionPageNums_def,
      subst uncached_scan.simps, simp add: kRegionPageNums_def numeral_2_eq_2)
  obtain a2 h2 where 2: "kmm_uncached_malloc 0x1000 h1 = Inr (a2, h2)"
    using s2 unfolding 1(2) [symmetric] by (simp add: kmm_uncached_malloc_def PAGE_SIZE_def Let_def)
  show ?thesis
    unfolding VirtioBlk_Init_def BlockDeviceInit_def
    using 1(1) 2 by (simp add: DeviceInit_def set_status_def Let_def demo_dev_def MAGIC_VALUE_def VERSION_def DEVICE_ID_def DEVICE_STATUS_def
      DEVICE_CONFIG_SPACE0_def QUEUE_SEL_def QUEUE_NUM_def QUEUE_ALIGN_def QUEUE_PFN_def QUEUE_READY_def)
qed


end
