(* ===== verification/EvDrivers.thy ===== *)
theory EvDrivers
  imports EvWorld
begin

text \<open>
  Drivers of the devices the hypervisor uses itself: the interrupt controller (arch/arm64/irq/gic_v2.cc),
  the physical UART (drivers/uart/pl011_uart.cc), GPIO, the system timer with the sleep functions, the
  generic timer, and the waiting loops of drivers/common.cc. The devices are not part of the
  repository: all registers are reached through a bus, which is a parameter; reading a register may
  change the device (time passes, a FIFO is popped).
\<close>

section \<open>The bus\<close>

record 'd bus =
  bus_read :: "u64 \<Rightarrow> 'd \<Rightarrow> u32 \<times> 'd"
  bus_write :: "u64 \<Rightarrow> u32 \<Rightarrow> 'd \<Rightarrow> 'd"

text \<open>\<open>reg = reg op v\<close>\<close>

definition reg_or :: "'d bus \<Rightarrow> u64 \<Rightarrow> u32 \<Rightarrow> 'd \<Rightarrow> 'd" where
  "reg_or b a v d = (let (x, d) = bus_read b a d in bus_write b a (x OR v) d)"

definition reg_and :: "'d bus \<Rightarrow> u64 \<Rightarrow> u32 \<Rightarrow> 'd \<Rightarrow> 'd" where
  "reg_and b a v d = (let (x, d) = bus_read b a d in bus_write b a (x AND v) d)"

text \<open>\<open>while (reg & mask) ;\<close>\<close>

partial_function (option) wait_clear :: "'d bus \<Rightarrow> u64 \<Rightarrow> u32 \<Rightarrow> 'd \<Rightarrow> 'd option" where
  "wait_clear b a msk d =
     (let (x, d) = bus_read b a d in if x AND msk \<noteq> 0 then wait_clear b a msk d else Some d)"

definition or_diverge :: "'a option \<Rightarrow> 'a res" where
  "or_diverge m = (case m of None \<Rightarrow> Inl Diverge | Some x \<Rightarrow> Inr x)"

section \<open>Timers\<close>

definition SYSTEM_TIMER_BASE :: u64 where "SYSTEM_TIMER_BASE = 0xFE003000"
definition SystemTimerRegs_CS :: u64 where "SystemTimerRegs_CS = SYSTEM_TIMER_BASE"
definition SystemTimerRegs_CLO :: u64 where "SystemTimerRegs_CLO = SYSTEM_TIMER_BASE + 0x04"
definition SystemTimerRegs_C1 :: u64 where "SystemTimerRegs_C1 = SYSTEM_TIMER_BASE + 0x10"

record system_timer =
  next_counter_value :: u32
  interval_us :: u32

definition SystemTimer_Init :: system_timer where
  "SystemTimer_Init = \<lparr>next_counter_value = 0, interval_us = 0\<rparr>"

definition SystemTimer_GetTime :: "'d bus \<Rightarrow> 'd \<Rightarrow> u32 \<times> 'd" where
  "SystemTimer_GetTime b d = bus_read b SystemTimerRegs_CLO d"

definition SystemTimer_Start :: "'d bus \<Rightarrow> u32 \<Rightarrow> system_timer \<times> 'd \<Rightarrow> system_timer \<times> 'd" where
  "SystemTimer_Start b interval = (\<lambda>(t, d).
     let (c, d) = bus_read b SystemTimerRegs_CLO d;
         t = t\<lparr>interval_us := interval, next_counter_value := c + interval\<rparr>
     in (t, bus_write b SystemTimerRegs_C1 (next_counter_value t) d))"

definition SystemTimer_Stop :: "'d bus \<Rightarrow> 'd \<Rightarrow> 'd" where
  "SystemTimer_Stop b d = bus_write b SystemTimerRegs_C1 0 d"

definition SystemTimer_HandleIrq :: "'d bus \<Rightarrow> system_timer \<times> 'd \<Rightarrow> system_timer \<times> 'd" where
  "SystemTimer_HandleIrq b = (\<lambda>(t, d).
     let t = t\<lparr>next_counter_value := next_counter_value t + interval_us t\<rparr>;
         d = bus_write b SystemTimerRegs_C1 (next_counter_value t) d
     in (t, reg_or b SystemTimerRegs_CS 2 d))"

partial_function (option) sleep_until :: "'d bus \<Rightarrow> u32 \<Rightarrow> 'd \<Rightarrow> 'd option" where
  "sleep_until b target_time d =
     (let (t, d) = SystemTimer_GetTime b d in if t < target_time then sleep_until b target_time d else Some d)"

definition Timer_Sleep :: "'d bus \<Rightarrow> u32 \<Rightarrow> 'd \<Rightarrow> 'd res" where
  "Timer_Sleep b msec d = (let (t, d) = SystemTimer_GetTime b d in or_diverge (sleep_until b (t + msec * 1000) d))"

definition Timer_SleepUsec :: "'d bus \<Rightarrow> u32 \<Rightarrow> 'd \<Rightarrow> 'd res" where
  "Timer_SleepUsec b usec d = (let (t, d) = SystemTimer_GetTime b d in or_diverge (sleep_until b (t + usec) d))"

text \<open>The generic timer, on the registers of the CPU; the count is an argument.\<close>

record ArmGenericTimer =
  cnthctl_el2 :: u64
  cntvoff_el2 :: u64
  cnthp_ctl_el2 :: u64
  cnthp_cval_el2 :: u64
  gt_next :: u64
  gt_interval :: u64

definition SetCompare :: "u64 \<Rightarrow> ArmGenericTimer \<Rightarrow> ArmGenericTimer" where
  "SetCompare v t = t\<lparr>cnthp_cval_el2 := v\<rparr>"

definition ArmGenericTimer_Enable :: "bool \<Rightarrow> ArmGenericTimer \<Rightarrow> ArmGenericTimer" where
  "ArmGenericTimer_Enable enable t =
     t\<lparr>cnthp_ctl_el2 := (if enable then cnthp_ctl_el2 t OR 1 else cnthp_ctl_el2 t AND NOT 1)\<rparr>"

definition SetIrqMask :: "bool \<Rightarrow> ArmGenericTimer \<Rightarrow> ArmGenericTimer" where
  "SetIrqMask m t = t\<lparr>cnthp_ctl_el2 := (if m then cnthp_ctl_el2 t OR 2 else cnthp_ctl_el2 t AND NOT 2)\<rparr>"

definition ArmGenericTimer_Init :: "ArmGenericTimer \<Rightarrow> ArmGenericTimer" where
  "ArmGenericTimer_Init t =
     (SetCompare (NOT 0) (t\<lparr>cnthctl_el2 := cnthctl_el2 t OR (2 OR 1), cntvoff_el2 := 0, cnthp_ctl_el2 := 0\<rparr>))
       \<lparr>gt_next := 0, gt_interval := 0\<rparr>"

definition ArmGenericTimer_Start :: "u64 \<Rightarrow> u64 \<Rightarrow> u32 \<Rightarrow> ArmGenericTimer \<Rightarrow> ArmGenericTimer" where
  "ArmGenericTimer_Start cntfrq cntpct interval t =
     (let t = t\<lparr>gt_interval := ucast interval * ucast (ucast cntfrq :: u32) div 1000000\<rparr>;
          t = t\<lparr>gt_next := cntpct + gt_interval t\<rparr>;
          t = SetCompare (gt_next t) t
      in SetIrqMask False (ArmGenericTimer_Enable True t))"

definition ArmGenericTimer_Stop :: "ArmGenericTimer \<Rightarrow> ArmGenericTimer" where
  "ArmGenericTimer_Stop t = SetCompare (NOT 0) (SetIrqMask True (ArmGenericTimer_Enable False t))"

definition ArmGenericTimer_HandleIrq :: "ArmGenericTimer \<Rightarrow> ArmGenericTimer" where
  "ArmGenericTimer_HandleIrq t =
     (let t = t\<lparr>gt_next := gt_next t + gt_interval t\<rparr> in SetCompare (gt_next t) t)"

definition ArmGenericTimer_GetIStatus :: "ArmGenericTimer \<Rightarrow> u8" where
  "ArmGenericTimer_GetIStatus t = ucast (drop_bit 2 (cnthp_ctl_el2 t) AND 1)"

section \<open>Waiting for a register\<close>

text \<open>drivers/common.cc: at most one poll more than the timeout has microseconds.\<close>

fun reg_wait :: "'d bus \<Rightarrow> u64 \<Rightarrow> (u32 \<Rightarrow> bool) \<Rightarrow> nat \<Rightarrow> 'd \<Rightarrow> (bool \<times> 'd) res" where
  "reg_wait b a P 0 d = Inr (False, d)"
| "reg_wait b a P (Suc n) d =
     (let (x, d) = bus_read b a d
      in if P x then Inr (True, d) else rbind (Timer_SleepUsec b 1 d) (reg_wait b a P n))"

definition RegWaitBitSet :: "'d bus \<Rightarrow> u64 \<Rightarrow> u32 \<Rightarrow> u32 \<Rightarrow> 'd \<Rightarrow> (bool \<times> 'd) res" where
  "RegWaitBitSet b a msk timeout_ms = reg_wait b a (\<lambda>x. x AND msk = msk) (Suc (unat (timeout_ms * 1000)))"

definition RegWaitBitClear :: "'d bus \<Rightarrow> u64 \<Rightarrow> u32 \<Rightarrow> u32 \<Rightarrow> 'd \<Rightarrow> (bool \<times> 'd) res" where
  "RegWaitBitClear b a msk timeout_ms = reg_wait b a (\<lambda>x. x AND msk = 0) (Suc (unat (timeout_ms * 1000)))"

section \<open>GPIO\<close>

definition GPIO_BASE :: u64 where "GPIO_BASE = 0xFE200000"
definition kMaxPortNum :: u32 where "kMaxPortNum = 57"

datatype GpioMode = kInput | kOutput | kAlt0 | kAlt1 | kAlt2 | kAlt3 | kAlt4 | kAlt5

definition function_mode :: "GpioMode \<Rightarrow> u32" where
  "function_mode m = (case m of kInput \<Rightarrow> 0 | kOutput \<Rightarrow> 1 | kAlt0 \<Rightarrow> 4 | kAlt1 \<Rightarrow> 5 | kAlt2 \<Rightarrow> 6 | kAlt3 \<Rightarrow> 7
     | kAlt4 \<Rightarrow> 3 | kAlt5 \<Rightarrow> 2)"

definition Gpio_SetMode :: "'d bus \<Rightarrow> u32 \<Rightarrow> GpioMode \<Rightarrow> 'd \<Rightarrow> bool \<times> 'd" where
  "Gpio_SetMode b port mode d =
     (if port > kMaxPortNum then (False, d)
      else let a = GPIO_BASE + 4 * ucast (port div 10);
               off = unat (port mod 10);
               (gpfsel, d) = bus_read b a d;
               gpfsel = gpfsel AND NOT (push_bit (off * 3) 7);
               gpfsel = gpfsel OR push_bit (off * 3) (function_mode mode)
           in (True, bus_write b a gpfsel d))"

definition Gpio_Output :: "'d bus \<Rightarrow> u32 \<Rightarrow> bool \<Rightarrow> 'd \<Rightarrow> bool \<times> 'd" where
  "Gpio_Output b port out d =
     (if port > kMaxPortNum then (False, d)
      else let reg = 4 * ucast (port div 32); v = push_bit (unat (port mod 32)) 1
           in (True, bus_write b (if out then GPIO_BASE + 0x1c + reg else GPIO_BASE + 0x28 + reg) v d))"

section \<open>The interrupt controller\<close>

definition GIC_V2_HYPERVISOR_BASE :: "platform \<Rightarrow> u64" where
  "GIC_V2_HYPERVISOR_BASE p = (if p = Qemu then 0x08030000 else 0xFF844000)"

definition GicV2_Init :: "'d bus \<Rightarrow> platform \<Rightarrow> 'd \<Rightarrow> 'd" where
  "GicV2_Init b p d =
     (let d = bus_write b (GIC_V2_DISTRIBUTOR_BASE p) 0 d;
          d = bus_write b (GIC_V2_CPU_INTERFACE_BASE p + 0x4) 0xf0 d;
          d = bus_write b (GIC_V2_CPU_INTERFACE_BASE p) 3 d;
          d = bus_write b (GIC_V2_DISTRIBUTOR_BASE p) 3 d
      in bus_write b (GIC_V2_HYPERVISOR_BASE p) 1 d)"

text \<open>The handlers are a table of 1024 entries; \<open>GICD_IPRIORITYR\<close> and \<open>GICD_ITARGETSR\<close> have 255 words.\<close>

definition RegisterIrq :: "'d bus \<Rightarrow> platform \<Rightarrow> u16 \<Rightarrow> u32 \<Rightarrow> u8 \<Rightarrow> 'h \<Rightarrow> 'h option list \<times> 'd \<Rightarrow> ('h option list \<times> 'd) res" where
  "RegisterIrq b p irq_id target_processor priority handler = (\<lambda>(tbl, d).
     rbind (arr_set tbl (unat irq_id) (Some handler)) (\<lambda>tbl.
     let i = unat irq_id; D = GIC_V2_DISTRIBUTOR_BASE p;
         d = reg_or b (D + 0x100 + 4 * of_nat (i div 32)) (push_bit (i mod 32) 1) d
     in if \<not> i div 4 < 255 then Inl OutOfBounds
        else let d = reg_and b (D + 0x400 + 4 * of_nat (i div 4)) (NOT (push_bit (i mod 4 * 8) (ucast priority))) d;
                 a = D + 0x800 + 4 * of_nat (i div 4);
                 (t, d) = bus_read b a d;
                 t = t AND NOT (push_bit (i mod 4 * 8) 0xff);
                 t = t OR push_bit (i mod 4 * 8) (push_bit (unat target_processor) 1)
             in Inr (tbl, bus_write b a t d)))"

definition HandleIrq :: "'d bus \<Rightarrow> platform \<Rightarrow> ('h \<Rightarrow> 'd \<times> 's \<Rightarrow> ('d \<times> 's) res) \<Rightarrow> 'h option list \<Rightarrow> 'd \<times> 's \<Rightarrow> ('d \<times> 's) res" where
  "HandleIrq b p run tbl = (\<lambda>(d, s).
     let (x, d) = bus_read b (GIC_V2_CPU_INTERFACE_BASE p + 0xc) d;
         iar = x AND 0x0fff;
         id = iar AND 0x3ff
     in rbind (arr_get tbl (unat id)) (\<lambda>h.
        rbind (case h of Some f \<Rightarrow> run f (d, s) | None \<Rightarrow> Inr (d, s)) (\<lambda>(d, s).
          Inr (bus_write b (GIC_V2_CPU_INTERFACE_BASE p + 0x10) iar d, s))))"

definition NotifyIrqSoftware :: "'d bus \<Rightarrow> platform \<Rightarrow> u32 \<Rightarrow> u32 \<Rightarrow> 'd \<Rightarrow> 'd" where
  "NotifyIrqSoftware b p sgi_id cpu_id d =
     bus_write b (GIC_V2_DISTRIBUTOR_BASE p + 0xf00) ((sgi_id AND 0xf) OR push_bit 16 (cpu_id AND 0xff)) d"

text \<open>The timer on the system timer (platforms/timer.cc): a handler, the counters, the device.\<close>

definition Timer_new :: "'d bus \<Rightarrow> platform \<Rightarrow> 'h \<Rightarrow> 'h option list \<times> 'd \<Rightarrow> (system_timer \<times> 'h option list \<times> 'd) res" where
  "Timer_new b p irq s = rbind (RegisterIrq b p 0x61 0 0xff irq s) (\<lambda>(tbl, d). Inr (SystemTimer_Init, tbl, d))"

definition Timer_Start :: "'d bus \<Rightarrow> u32 \<Rightarrow> 'f \<Rightarrow> system_timer \<times> 'd \<Rightarrow> 'f option \<times> system_timer \<times> 'd" where
  "Timer_Start b interval handler s = (Some handler, SystemTimer_Start b interval s)"

definition Timer_Stop :: "'d bus \<Rightarrow> system_timer \<times> 'd \<Rightarrow> 'f option \<times> system_timer \<times> 'd" where
  "Timer_Stop b = (\<lambda>(t, d). (None, t, SystemTimer_Stop b d))"

definition Timer_HandleIrq :: "'d bus \<Rightarrow> ('f \<Rightarrow> 's \<Rightarrow> 's res) \<Rightarrow> 'f option \<Rightarrow> system_timer \<times> 'd \<Rightarrow> 's \<Rightarrow> ((system_timer \<times> 'd) \<times> 's) res" where
  "Timer_HandleIrq b run handler td s =
     (let td = SystemTimer_HandleIrq b td
      in case handler of None \<Rightarrow> Inr (td, s) | Some f \<Rightarrow> rbind (run f s) (\<lambda>s. Inr (td, s)))"

section \<open>The UART\<close>

definition pl011 :: "platform \<Rightarrow> u64 \<Rightarrow> u64" where
  "pl011 p off = UART0_BASE p + off"

definition kFrTxff :: u32 where "kFrTxff = 0x20"
definition kFrRxfe :: u32 where "kFrRxfe = 0x10"
definition kFrBusy :: u32 where "kFrBusy = 0x08"
definition kImscRxim :: u32 where "kImscRxim = 0x10"

definition Pl011Uart_Init :: "'d bus \<Rightarrow> platform \<Rightarrow> 'd \<Rightarrow> 'd" where
  "Pl011Uart_Init b p d =
     (if p = Qemu then d
      else let (_, d) = Gpio_SetMode b 14 kAlt0 d; (_, d) = Gpio_SetMode b 15 kAlt0 d in d)"

definition SetBaudrate :: "'d bus \<Rightarrow> platform \<Rightarrow> u64 \<Rightarrow> u64 \<Rightarrow> 'd \<Rightarrow> 'd" where
  "SetBaudrate b p base_clock baudrate d =
     (let bauddiv = ucast ((1000 * base_clock) div (16 * baudrate)) :: u32;
          ibrd = bauddiv div 1000;
          fbrd = ((bauddiv - ibrd * 1000) * 64 + 500) div 1000;
          d = bus_write b (pl011 p 0x24) ibrd d
      in bus_write b (pl011 p 0x28) fbrd d)"

definition Pl011Uart_Enable :: "'d bus \<Rightarrow> platform \<Rightarrow> u64 \<Rightarrow> u64 \<Rightarrow> 'd \<Rightarrow> 'd" where
  "Pl011Uart_Enable b p base_clock baudrate d =
     (let d = SetBaudrate b p base_clock baudrate d;
          d = bus_write b (pl011 p 0x2c) 0x60 d
      in bus_write b (pl011 p 0x30) (1 OR 0x100 OR 0x200) d)"

definition Pl011Uart_Disable :: "'d bus \<Rightarrow> platform \<Rightarrow> 'd \<Rightarrow> 'd" where
  "Pl011Uart_Disable b p d = bus_write b (pl011 p 0x30) 0 d"

fun Pl011Uart_Write :: "'d bus \<Rightarrow> platform \<Rightarrow> u8 list \<Rightarrow> 'd \<Rightarrow> 'd res" where
  "Pl011Uart_Write b p [] d = Inr d"
| "Pl011Uart_Write b p (c # cs) d =
     rbind (or_diverge (wait_clear b (pl011 p 0x18) kFrTxff d)) (\<lambda>d.
       Pl011Uart_Write b p cs (bus_write b (pl011 p 0) (ucast c) d))"

fun Pl011Uart_Read :: "'d bus \<Rightarrow> platform \<Rightarrow> nat \<Rightarrow> 'd \<Rightarrow> (u8 list \<times> 'd) res" where
  "Pl011Uart_Read b p 0 d = Inr ([], d)"
| "Pl011Uart_Read b p (Suc n) d =
     rbind (or_diverge (wait_clear b (pl011 p 0x18) kFrRxfe d)) (\<lambda>d.
       let (c, d) = bus_read b (pl011 p 0) d
       in rbind (Pl011Uart_Read b p n d) (\<lambda>(cs, d). Inr (ucast c # cs, d)))"

text \<open>The handler of the receive interrupt; \<open>handler\<close> gets every character of the FIFO.\<close>

partial_function (option) rx_loop ::
  "'d bus \<Rightarrow> platform \<Rightarrow> (u8 \<Rightarrow> 's \<Rightarrow> 's res) \<Rightarrow> 'd \<times> 's \<Rightarrow> ('d \<times> 's) res option" where
  "rx_loop b p handler ds =
     (let (fr, d) = bus_read b (pl011 p 0x18) (fst ds)
      in if fr AND kFrRxfe \<noteq> 0 then Some (Inr (d, snd ds))
         else case Pl011Uart_Read b p 1 d of
             Inl e \<Rightarrow> Some (Inl e)
           | Inr (cs, d) \<Rightarrow>
               (case handler (hd cs) (snd ds) of Inl e \<Rightarrow> Some (Inl e) | Inr s \<Rightarrow> rx_loop b p handler (d, s)))"

definition uart_irq :: "'d bus \<Rightarrow> platform \<Rightarrow> (u8 \<Rightarrow> 's \<Rightarrow> 's res) \<Rightarrow> 'd \<times> 's \<Rightarrow> ('d \<times> 's) res" where
  "uart_irq b p handler = (\<lambda>(d, s).
     let (mis, d) = bus_read b (pl011 p 0x40) d
     in rbind (if mis AND kImscRxim \<noteq> 0
               then rbind (or_diverge (wait_clear b (pl011 p 0x18) kFrBusy d)) (\<lambda>d.
                    case rx_loop b p handler (d, s) of None \<Rightarrow> Inl Diverge | Some r \<Rightarrow> r)
               else Inr (d, s)) (\<lambda>(d, s).
        Inr (bus_write b (pl011 p 0x44) kImscRxim d, s)))"

definition EnableReceiveIrq :: "'d bus \<Rightarrow> platform \<Rightarrow> 'h \<Rightarrow> 'h option list \<times> 'd \<Rightarrow> ('h option list \<times> 'd) res" where
  "EnableReceiveIrq b p handler s =
     rbind (RegisterIrq b p (if p = Qemu then 33 else 121 + 32) 0 0x7f handler s) (\<lambda>(tbl, d).
       Inr (tbl, reg_or b (pl011 p 0x38) kImscRxim d))"

definition DisableReceiveIrq :: "'d bus \<Rightarrow> platform \<Rightarrow> 'd \<Rightarrow> 'd" where
  "DisableReceiveIrq b p d = reg_and b (pl011 p 0x38) (NOT kImscRxim) d"

definition Serial_Init :: "'d bus \<Rightarrow> platform \<Rightarrow> 'h \<Rightarrow> 'h option list \<times> 'd \<Rightarrow> ('h option list \<times> 'd) res" where
  "Serial_Init b p handler = (\<lambda>(tbl, d).
     rbind (EnableReceiveIrq b p handler (tbl, Pl011Uart_Init b p d)) (\<lambda>(tbl, d).
       Inr (tbl, Pl011Uart_Enable b p (if p = Qemu then 24000000 else 48000000) 115200 d)))"

definition Serial_Send :: "'d bus \<Rightarrow> platform \<Rightarrow> u8 list \<Rightarrow> 'd \<Rightarrow> (nat \<times> 'd) res" where
  "Serial_Send b p bs d = rbind (Pl011Uart_Write b p bs d) (\<lambda>d. Inr (length bs, d))"

section \<open>The UART is a pair of queues\<close>

lemma ucast_u8_u32 [simp]: "ucast (ucast (c :: u8) :: u32) = c"
  by (rule bit_word_eqI) (simp add: bit_ucast_iff)

text \<open>
  The documented behaviour of the PL011 as far as the driver relies on it: \<open>rx\<close> is the receive FIFO,
  \<open>tx\<close> what was sent, \<open>room\<close> says that the transmit FIFO takes a byte, and w bounds the number of polls
  that find the device busy or full.
\<close>

definition pl011_ok :: "'d bus \<Rightarrow> platform \<Rightarrow> ('d \<Rightarrow> u8 list) \<Rightarrow> ('d \<Rightarrow> u8 list) \<Rightarrow> ('d \<Rightarrow> bool) \<Rightarrow> ('d \<Rightarrow> nat) \<Rightarrow> bool" where
  "pl011_ok b p rx tx room w \<longleftrightarrow>
     (\<forall>d x d'. bus_read b (pl011 p 0x18) d = (x, d') \<longrightarrow> rx d' = rx d \<and> tx d' = tx d \<and>
        (x AND kFrRxfe \<noteq> 0 \<longleftrightarrow> rx d = []) \<and> (x AND kFrTxff = 0 \<longrightarrow> room d') \<and>
        (x AND kFrTxff \<noteq> 0 \<or> x AND kFrBusy \<noteq> 0 \<longrightarrow> w d' < w d)) \<and>
     (\<forall>d x d'. rx d \<noteq> [] \<longrightarrow> bus_read b (pl011 p 0) d = (x, d') \<longrightarrow> ucast x = hd (rx d) \<and> rx d' = tl (rx d) \<and> tx d' = tx d) \<and>
     (\<forall>d v. room d \<longrightarrow> tx (bus_write b (pl011 p 0) v d) = tx d @ [ucast v] \<and> rx (bus_write b (pl011 p 0) v d) = rx d) \<and>
     (\<forall>d x d'. bus_read b (pl011 p 0x40) d = (x, d') \<longrightarrow> rx d' = rx d \<and> tx d' = tx d) \<and>
     (\<forall>d v. rx (bus_write b (pl011 p 0x44) v d) = rx d \<and> tx (bus_write b (pl011 p 0x44) v d) = tx d)"

lemma pl011_okD:
  assumes "pl011_ok b p rx tx room w"
  shows "bus_read b (pl011 p 0x18) d = (x, d') \<Longrightarrow> rx d' = rx d \<and> tx d' = tx d \<and>
        (x AND kFrRxfe \<noteq> 0 \<longleftrightarrow> rx d = []) \<and> (x AND kFrTxff = 0 \<longrightarrow> room d') \<and>
        (x AND kFrTxff \<noteq> 0 \<or> x AND kFrBusy \<noteq> 0 \<longrightarrow> w d' < w d)"
    and "rx d \<noteq> [] \<Longrightarrow> bus_read b (pl011 p 0) d = (x, d') \<Longrightarrow> ucast x = hd (rx d) \<and> rx d' = tl (rx d) \<and> tx d' = tx d"
    and "room d \<Longrightarrow> tx (bus_write b (pl011 p 0) v d) = tx d @ [ucast v] \<and> rx (bus_write b (pl011 p 0) v d) = rx d"
    and "bus_read b (pl011 p 0x40) d = (x, d') \<Longrightarrow> rx d' = rx d \<and> tx d' = tx d"
    and "rx (bus_write b (pl011 p 0x44) v d) = rx d \<and> tx (bus_write b (pl011 p 0x44) v d) = tx d"
  using assms unfolding pl011_ok_def by blast+

lemma wait_clear_pl011:
  assumes ok: "pl011_ok b p rx tx room w" and m: "msk = kFrTxff \<or> msk = kFrBusy"
  shows "\<exists>d'. wait_clear b (pl011 p 0x18) msk d = Some d' \<and> rx d' = rx d \<and> tx d' = tx d \<and> (msk = kFrTxff \<longrightarrow> room d')"
proof (induction "w d" arbitrary: d rule: less_induct)
  case less
  obtain x d1 where r: "bus_read b (pl011 p 0x18) d = (x, d1)" by (cases "bus_read b (pl011 p 0x18) d")
  note o = pl011_okD(1) [OF ok r]
  show ?case
  proof (cases "x AND msk = 0")
    case True
    then show ?thesis using r o by (subst wait_clear.simps) auto
  next
    case False
    then have "w d1 < w d" using m o by auto
    from less.hyps [OF this] obtain d' where "wait_clear b (pl011 p 0x18) msk d1 = Some d'" "rx d' = rx d1" "tx d' = tx d1"
      "msk = kFrTxff \<longrightarrow> room d'" by blast
    then show ?thesis using r o False by (subst wait_clear.simps) simp
  qed
qed

lemma wait_rx:
  assumes ok: "pl011_ok b p rx tx room w" and ne: "rx d \<noteq> []"
  shows "\<exists>d'. wait_clear b (pl011 p 0x18) kFrRxfe d = Some d' \<and> rx d' = rx d \<and> tx d' = tx d"
proof -
  obtain x d1 where r: "bus_read b (pl011 p 0x18) d = (x, d1)" by (cases "bus_read b (pl011 p 0x18) d")
  then show ?thesis using pl011_okD(1) [OF ok r] ne by (subst wait_clear.simps) simp
qed

lemma uart_write:
  assumes ok: "pl011_ok b p rx tx room w"
  shows "\<exists>d'. Pl011Uart_Write b p cs d = Inr d' \<and> tx d' = tx d @ cs \<and> rx d' = rx d"
proof (induction cs arbitrary: d)
  case (Cons c cs)
  obtain d1 where 1: "wait_clear b (pl011 p 0x18) kFrTxff d = Some d1" "rx d1 = rx d" "tx d1 = tx d" "room d1"
    using wait_clear_pl011 [OF ok, of kFrTxff d] by auto
  note o = pl011_okD(3) [where v = "ucast c", OF ok 1(4)]
  obtain d' where 2: "Pl011Uart_Write b p cs (bus_write b (pl011 p 0) (ucast c) d1) = Inr d'"
    "tx d' = tx (bus_write b (pl011 p 0) (ucast c) d1) @ cs" "rx d' = rx (bus_write b (pl011 p 0) (ucast c) d1)"
    using Cons.IH by blast
  show ?case using 1 2 o by (simp add: or_diverge_def ucast_u8_u32)
qed simp

fun feed :: "(u8 \<Rightarrow> 's \<Rightarrow> 's res) \<Rightarrow> u8 list \<Rightarrow> 's \<Rightarrow> 's res" where
  "feed h [] s = Inr s"
| "feed h (c # cs) s = rbind (h c s) (feed h cs)"

lemma rx_loop_feeds:
  assumes ok: "pl011_ok b p rx tx room w"
  shows "(case feed h (rx d) s of Inl e \<Rightarrow> rx_loop b p h (d, s) = Some (Inl e)
     | Inr s' \<Rightarrow> \<exists>d'. rx_loop b p h (d, s) = Some (Inr (d', s')) \<and> rx d' = [] \<and> tx d' = tx d)"
proof (induction "rx d" arbitrary: d s)
  case Nil
  obtain x d1 where r: "bus_read b (pl011 p 0x18) d = (x, d1)" by (cases "bus_read b (pl011 p 0x18) d")
  have "x AND kFrRxfe \<noteq> 0" "rx d1 = []" "tx d1 = tx d" using pl011_okD(1) [OF ok r] Nil by simp_all
  then have "rx_loop b p h (d, s) = Some (Inr (d1, s))" using r by (subst rx_loop.simps) simp
  then show ?case using Nil [symmetric] \<open>rx d1 = []\<close> \<open>tx d1 = tx d\<close> by simp
next
  case (Cons c cs)
  obtain x d1 where r: "bus_read b (pl011 p 0x18) d = (x, d1)" by (cases "bus_read b (pl011 p 0x18) d")
  have 1: "x AND kFrRxfe = 0" "rx d1 = c # cs" "tx d1 = tx d" using pl011_okD(1) [OF ok r] Cons(2) by auto
  obtain d2 where 2: "wait_clear b (pl011 p 0x18) kFrRxfe d1 = Some d2" "rx d2 = c # cs" "tx d2 = tx d"
    using wait_rx [OF ok, of d1] 1 by auto
  obtain y d3 where dr: "bus_read b (pl011 p 0) d2 = (y, d3)" by (cases "bus_read b (pl011 p 0) d2")
  have 3: "ucast y = c" "rx d3 = cs" "tx d3 = tx d" using pl011_okD(2) [OF ok _ dr] 2 by simp_all
  have rd: "Pl011Uart_Read b p 1 d1 = Inr ([c], d3)" using 2(1) dr 3(1) by (simp add: or_diverge_def)
  have st: "rx_loop b p h (d, s) = (case h c s of Inl e \<Rightarrow> Some (Inl e) | Inr s \<Rightarrow> rx_loop b p h (d3, s))"
    using r 1(1) rd by (subst rx_loop.simps) simp
  show ?case
  proof (cases "h c s")
    case (Inl e)
    then show ?thesis using st Cons(2) [symmetric] by simp
  next
    case (Inr s1)
    from Cons(1) [OF 3(2) [symmetric], of s1] show ?thesis using st Inr Cons(2) [symmetric] 3 by (simp split: sum.splits)
  qed
qed

lemma feed_Serial: "feed Serial_receive cs hv = receives cs hv"
proof (induction cs arbitrary: hv)
  case (Cons c cs)
  then have "feed Serial_receive cs = receives cs" by (rule ext)
  then show ?case by simp
qed simp

text \<open>
  C26. The serial line loses and reorders nothing: for a UART that behaves as documented, the receive
  interrupt hands every character of the FIFO in order to the handler of received characters (a fault
  of the handler is the fault of the interrupt), leaves the FIFO empty and returns; sending writes exactly
  the bytes, in order, waits while the transmitter is full, and returns their number.
\<close>

theorem serial_in_order:
  assumes ok: "pl011_ok b p rx tx room w" and mis: "fst (bus_read b (pl011 p 0x40) d) AND kImscRxim \<noteq> 0"
  shows "(case receives (rx d) hv of Inl e \<Rightarrow> uart_irq b p Serial_receive (d, hv) = Inl e
      | Inr hv' \<Rightarrow> \<exists>d'. uart_irq b p Serial_receive (d, hv) = Inr (d', hv') \<and> rx d' = [] \<and> tx d' = tx d) \<and>
    (\<exists>d'. Serial_Send b p bs d = Inr (length bs, d') \<and> tx d' = tx d @ bs \<and> rx d' = rx d)"
proof
  obtain x d1 where r: "bus_read b (pl011 p 0x40) d = (x, d1)" "x AND kImscRxim \<noteq> 0"
    using mis by (cases "bus_read b (pl011 p 0x40) d") simp
  note 1 = pl011_okD(4) [OF ok r(1)]
  obtain d2 where 2: "wait_clear b (pl011 p 0x18) kFrBusy d1 = Some d2" "rx d2 = rx d" "tx d2 = tx d"
    using wait_clear_pl011 [OF ok, of kFrBusy d1] 1 by auto
  note l = rx_loop_feeds [OF ok, of Serial_receive d2 hv, unfolded 2(2,3) feed_Serial]
  show "case receives (rx d) hv of Inl e \<Rightarrow> uart_irq b p Serial_receive (d, hv) = Inl e
      | Inr hv' \<Rightarrow> \<exists>d'. uart_irq b p Serial_receive (d, hv) = Inr (d', hv') \<and> rx d' = [] \<and> tx d' = tx d"
    using l r 2(1) pl011_okD(5) [OF ok] by (auto simp: uart_irq_def or_diverge_def split: sum.splits)
  obtain d' where "Pl011Uart_Write b p bs d = Inr d'" "tx d' = tx d @ bs" "rx d' = rx d" using uart_write [OF ok] by blast
  then show "\<exists>d'. Serial_Send b p bs d = Inr (length bs, d') \<and> tx d' = tx d @ bs \<and> rx d' = rx d"
    by (simp add: Serial_Send_def)
qed

text \<open>A UART that is full at every second poll.\<close>

definition demo_uart :: "(u8 list \<times> u8 list \<times> nat) bus" where
  "demo_uart = \<lparr>bus_read = (\<lambda>a (r, t, n).
       if a = pl011 Qemu 0x18 then ((if r = [] then 0x10 else 0) OR (if n = 0 then 0 else 0x28), (r, t, n - 1))
       else if a = pl011 Qemu 0 then (ucast (hd r), (tl r, t, n))
       else (0x10, (r, t, n))),
     bus_write = (\<lambda>a v (r, t, n). if a = pl011 Qemu 0 then (r, t @ [ucast v], 1) else (r, t, n))\<rparr>"

lemma demo_uart_ok: "pl011_ok demo_uart Qemu fst (\<lambda>d. fst (snd d)) (\<lambda>_. True) (\<lambda>d. snd (snd d))"
  by (auto simp: pl011_ok_def demo_uart_def pl011_def UART0_BASE_def kFrRxfe_def kFrTxff_def kFrBusy_def split: if_splits)

theorem serial_in_order_witness:
  "\<exists>d' hv'. uart_irq demo_uart Qemu Serial_receive (([63, 115], [], 3), demo_hv) = Inr (d', hv') \<and> fst d' = [] \<and>
     hypervisor_command_switch_req hv'"
proof -
  have m: "fst (bus_read demo_uart (pl011 Qemu 0x40) ([63, 115], [], 3)) AND kImscRxim \<noteq> 0"
    by (simp add: demo_uart_def pl011_def UART0_BASE_def kImscRxim_def)
  have "receives [63, 115] demo_hv = Inr (demo_hv\<lparr>hypervisor_command_comming := True, hypervisor_command_switch_req := True\<rparr>)"
    by (simp add: Serial_receive_def)
  then show ?thesis using serial_in_order [OF demo_uart_ok m, of demo_hv "[]"] by auto
qed

section \<open>Registering an interrupt\<close>

text \<open>
  The banks of the distributor the driver writes: enable bits, which a written 1 sets, and a byte of
  priority and of targets for every interrupt, which keep what is written.
\<close>

definition gicd_ok :: "'d bus \<Rightarrow> platform \<Rightarrow> ('d \<Rightarrow> nat \<Rightarrow> u32) \<Rightarrow> ('d \<Rightarrow> nat \<Rightarrow> u32) \<Rightarrow> ('d \<Rightarrow> nat \<Rightarrow> u32) \<Rightarrow> bool" where
  "gicd_ok b p en pr ta \<longleftrightarrow>
     (let D = GIC_V2_DISTRIBUTOR_BASE p; same = (\<lambda>d d'. en d' = en d \<and> pr d' = pr d \<and> ta d' = ta d) in
     (\<forall>i<32. \<forall>d. fst (bus_read b (D + 0x100 + 4 * of_nat i) d) = en d i \<and> same d (snd (bus_read b (D + 0x100 + 4 * of_nat i) d))) \<and>
     (\<forall>i<255. \<forall>d. fst (bus_read b (D + 0x400 + 4 * of_nat i) d) = pr d i \<and> same d (snd (bus_read b (D + 0x400 + 4 * of_nat i) d))) \<and>
     (\<forall>i<255. \<forall>d. fst (bus_read b (D + 0x800 + 4 * of_nat i) d) = ta d i \<and> same d (snd (bus_read b (D + 0x800 + 4 * of_nat i) d))) \<and>
     (\<forall>i<32. \<forall>d v. let d' = bus_write b (D + 0x100 + 4 * of_nat i) v d
        in en d' = (en d)(i := en d i OR v) \<and> pr d' = pr d \<and> ta d' = ta d) \<and>
     (\<forall>i<255. \<forall>d v. let d' = bus_write b (D + 0x400 + 4 * of_nat i) v d
        in en d' = en d \<and> pr d' = (pr d)(i := v) \<and> ta d' = ta d) \<and>
     (\<forall>i<255. \<forall>d v. let d' = bus_write b (D + 0x800 + 4 * of_nat i) v d
        in en d' = en d \<and> pr d' = pr d \<and> ta d' = (ta d)(i := v)))"

definition irq_byte :: "(nat \<Rightarrow> u32) \<Rightarrow> nat \<Rightarrow> u8" where
  "irq_byte f j = ucast (drop_bit (j mod 4 * 8) (f (j div 4)))"

lemma bit_irq_byte: "n < 8 \<Longrightarrow> bit (irq_byte f j) n \<longleftrightarrow> bit (f (j div 4)) (j mod 4 * 8 + n)"
  by (simp add: irq_byte_def bit_ucast_iff bit_drop_bit_eq)

lemma byte_slot:
  fixes i j n :: nat
  assumes "n < 8"
  shows "i mod 4 * 8 \<le> j mod 4 * 8 + n \<and> j mod 4 * 8 + n - i mod 4 * 8 < 8 \<longleftrightarrow> i mod 4 = j mod 4"
  using assms by linarith

lemma irq_byte_and:
  assumes "j div 4 = i div 4 \<longrightarrow> g (j div 4) = f (j div 4) AND NOT (push_bit (i mod 4 * 8) (ucast (v :: u8)))"
    "j div 4 \<noteq> i div 4 \<longrightarrow> g (j div 4) = f (j div 4)"
  shows "irq_byte g j = (if j = i then irq_byte f j AND NOT v else irq_byte f j)"
proof (rule bit_word_eqI)
  fix n assume "n < LENGTH(8)"
  then have n: "n < 8" by simp
  have ij: "j = i \<longleftrightarrow> j div 4 = i div 4 \<and> i mod 4 = j mod 4" by (metis div_mult_mod_eq)
  have len: "j mod 4 * 8 + n < 32" using n by linarith
  have "bit (push_bit (i mod 4 * 8) (ucast v) :: u32) (j mod 4 * 8 + n) \<longleftrightarrow> i mod 4 = j mod 4 \<and> bit v n"
  proof -
    have "bit (push_bit (i mod 4 * 8) (ucast v) :: u32) (j mod 4 * 8 + n) \<longleftrightarrow>
        i mod 4 * 8 \<le> j mod 4 * 8 + n \<and> bit v (j mod 4 * 8 + n - i mod 4 * 8)"
      using len by (auto simp: bit_push_bit_iff bit_ucast_iff)
    also have "\<dots> \<longleftrightarrow> i mod 4 = j mod 4 \<and> bit v n"
      using byte_slot [OF n, of i j] bit_imp_le_length [of v] by auto
    finally show ?thesis .
  qed
  then show "bit (irq_byte g j) n = bit (if j = i then irq_byte f j AND NOT v else irq_byte f j) n"
    using assms n len ij by (auto simp: bit_irq_byte bit_and_iff bit_not_iff)
qed

lemma irq_byte_set:
  assumes "j div 4 = i div 4 \<longrightarrow>
      g (j div 4) = (f (j div 4) AND NOT (push_bit (i mod 4 * 8) 0xff)) OR push_bit (i mod 4 * 8) (ucast (v :: u8))"
    "j div 4 \<noteq> i div 4 \<longrightarrow> g (j div 4) = f (j div 4)"
  shows "irq_byte g j = (if j = i then v else irq_byte f j)"
proof (rule bit_word_eqI)
  fix n assume "n < LENGTH(8)"
  then have n: "n < 8" by simp
  have ij: "j = i \<longleftrightarrow> j div 4 = i div 4 \<and> i mod 4 = j mod 4" by (metis div_mult_mod_eq)
  have len: "j mod 4 * 8 + n < 32" using n by linarith
  have p: "bit (push_bit (i mod 4 * 8) (ucast w) :: u32) (j mod 4 * 8 + n) \<longleftrightarrow> i mod 4 = j mod 4 \<and> bit w n" for w :: u8
  proof -
    have "bit (push_bit (i mod 4 * 8) (ucast w) :: u32) (j mod 4 * 8 + n) \<longleftrightarrow>
        i mod 4 * 8 \<le> j mod 4 * 8 + n \<and> bit w (j mod 4 * 8 + n - i mod 4 * 8)"
      using len by (auto simp: bit_push_bit_iff bit_ucast_iff)
    also have "\<dots> \<longleftrightarrow> i mod 4 = j mod 4 \<and> bit w n"
      using byte_slot [OF n, of i j] bit_imp_le_length [of w] by auto
    finally show ?thesis .
  qed
  have "(0xff :: u32) = ucast (- 1 :: u8)" by (simp add: unsigned_minus_1_eq_mask mask_eq_exp_minus_1)
  then have "bit (push_bit (i mod 4 * 8) 0xff :: u32) (j mod 4 * 8 + n) \<longleftrightarrow> i mod 4 = j mod 4"
    using p [of "- 1"] n by simp
  then show "bit (irq_byte g j) n = bit (if j = i then v else irq_byte f j) n"
    using assms n len ij p [of v] by (auto simp: bit_irq_byte bit_and_iff bit_or_iff bit_not_iff)
qed

lemma gicd_okD:
  assumes "gicd_ok b p en pr ta" "D = GIC_V2_DISTRIBUTOR_BASE p"
  shows "i < 32 \<Longrightarrow> let d' = reg_or b (D + 0x100 + 4 * of_nat i) v d
      in en d' = (en d)(i := en d i OR v) \<and> pr d' = pr d \<and> ta d' = ta d"
    and "i < 255 \<Longrightarrow> let d' = reg_and b (D + 0x400 + 4 * of_nat i) v d
      in en d' = en d \<and> pr d' = (pr d)(i := pr d i AND v) \<and> ta d' = ta d"
    and "i < 255 \<Longrightarrow> bus_read b (D + 0x800 + 4 * of_nat i) d = (x, d') \<Longrightarrow> x = ta d i \<and> en d' = en d \<and> pr d' = pr d \<and> ta d' = ta d"
    and "i < 255 \<Longrightarrow> let d' = bus_write b (D + 0x800 + 4 * of_nat i) v d
      in en d' = en d \<and> pr d' = pr d \<and> ta d' = (ta d)(i := v)"
proof -
  note g = assms(1) [unfolded gicd_ok_def Let_def assms(2) [symmetric]]
  show "let d' = reg_or b (D + 0x100 + 4 * of_nat i) v d
      in en d' = (en d)(i := en d i OR v) \<and> pr d' = pr d \<and> ta d' = ta d" if "i < 32"
  proof -
    obtain x d1 where r: "bus_read b (D + 0x100 + 4 * of_nat i) d = (x, d1)" by (cases "bus_read b (D + 0x100 + 4 * of_nat i) d")
    have "x = en d i" "en d1 = en d" "pr d1 = pr d" "ta d1 = ta d" using g that r by (metis fst_conv snd_conv)+
    then show ?thesis using g that r unfolding reg_or_def Let_def by simp
  qed
  show "let d' = reg_and b (D + 0x400 + 4 * of_nat i) v d
      in en d' = en d \<and> pr d' = (pr d)(i := pr d i AND v) \<and> ta d' = ta d" if "i < 255"
  proof -
    obtain x d1 where r: "bus_read b (D + 0x400 + 4 * of_nat i) d = (x, d1)" by (cases "bus_read b (D + 0x400 + 4 * of_nat i) d")
    have "x = pr d i" "en d1 = en d" "pr d1 = pr d" "ta d1 = ta d" using g that r by (metis fst_conv snd_conv)+
    then show ?thesis using g that r unfolding reg_and_def Let_def by simp
  qed
  show "x = ta d i \<and> en d' = en d \<and> pr d' = pr d \<and> ta d' = ta d"
    if "i < 255" "bus_read b (D + 0x800 + 4 * of_nat i) d = (x, d')" using g that by (metis fst_conv snd_conv)
  show "let d' = bus_write b (D + 0x800 + 4 * of_nat i) v d
      in en d' = en d \<and> pr d' = pr d \<and> ta d' = (ta d)(i := v)" if "i < 255" using g that unfolding Let_def by blast
qed


text \<open>Three banks of registers.\<close>

definition demo_gicd :: "((nat \<Rightarrow> u32) \<times> (nat \<Rightarrow> u32) \<times> (nat \<Rightarrow> u32)) bus" where
  "demo_gicd = \<lparr>bus_read = (\<lambda>a (e, p, t). let k = unat (a - 0x08000000)
       in (if k < 0x400 then e ((k - 0x100) div 4) else if k < 0x800 then p ((k - 0x400) div 4) else t ((k - 0x800) div 4), (e, p, t))),
     bus_write = (\<lambda>a v (e, p, t). let k = unat (a - 0x08000000)
       in if k < 0x400 then (e((k - 0x100) div 4 := e ((k - 0x100) div 4) OR v), p, t)
          else if k < 0x800 then (e, p((k - 0x400) div 4 := v), t) else (e, p, t((k - 0x800) div 4 := v)))\<rparr>"

lemma demo_offset: "i < 256 \<Longrightarrow> k < 0x1000 \<Longrightarrow> unat ((0x08000000 :: u64) + of_nat k + 4 * of_nat i - 0x08000000) = k + 4 * i"
proof -
  assume "i < 256" "k < 0x1000"
  then have "unat (of_nat (k + 4 * i) :: u64) = k + 4 * i" by (intro unat_of_nat_u64) simp
  then show ?thesis by (simp add: algebra_simps)
qed

lemma demo_gicd_ok: "gicd_ok demo_gicd Qemu fst (\<lambda>d. fst (snd d)) (\<lambda>d. snd (snd d))"
  using demo_offset [of _ "0x100"] demo_offset [of _ "0x400"] demo_offset [of _ "0x800"]
  by (simp add: gicd_ok_def demo_gicd_def GIC_V2_DISTRIBUTOR_BASE_def Let_def split_beta)


end
