(* ===== verification/EvMmc.thy ===== *)
theory EvMmc
  imports EvDrivers EvDisk
begin

text \<open>
  The SD card driver of the Raspberry Pi 4 (drivers/mmc), with the mailbox through which it asks the
  firmware for its clock (drivers/mailbox, drivers/clkrst). The host controller, the firmware and the
  card are parameters; \<open>emmc_ok\<close> states the documented protocol of a read as far as the driver uses it.
\<close>

section \<open>State\<close>

record ScrReg =
  scr_words :: "u32 list"
  bus_widths :: u32
  scr_version :: u32

record Device =
  sdhc :: bool
  ocr :: u16
  rca :: u32
  scr_reg :: ScrReg
  base_clock :: u32
  block_size :: u32
  seek_offset :: u64

text \<open>The driver's object, the heap with the memory, and the devices.\<close>

record 'd mmc =
  m_dev :: Device
  m_heap :: heap
  m_io :: 'd

definition device_boot :: Device where
  "device_boot = \<lparr>sdhc = False, ocr = 0, rca = 0,
     scr_reg = \<lparr>scr_words = [0, 0], bus_widths = 0, scr_version = 0\<rparr>,
     base_clock = 0, block_size = 0, seek_offset = 0\<rparr>"

section \<open>Commands\<close>

record CmdRegister =
  resp_a :: "1 word"
  block_count :: "1 word"
  auto_command :: "2 word"
  direction :: "1 word"
  multiblock :: "1 word"
  resp_b :: "10 word"
  response_type :: "2 word"
  res0 :: "1 word"
  crc_enable :: "1 word"
  idx_enable :: "1 word"
  is_data :: "1 word"
  cmd_kind :: "2 word"
  cmd_index :: "6 word"
  res1 :: "2 word"

text \<open>The bit fields in the order of their declaration, from the lowest bit.\<close>

definition cmd_bits :: "CmdRegister \<Rightarrow> u32" where
  "cmd_bits c = ucast (resp_a c) OR push_bit 1 (ucast (block_count c)) OR push_bit 2 (ucast (auto_command c)) OR
     push_bit 4 (ucast (direction c)) OR push_bit 5 (ucast (multiblock c)) OR push_bit 6 (ucast (resp_b c)) OR
     push_bit 16 (ucast (response_type c)) OR push_bit 18 (ucast (res0 c)) OR push_bit 19 (ucast (crc_enable c)) OR
     push_bit 20 (ucast (idx_enable c)) OR push_bit 21 (ucast (is_data c)) OR push_bit 22 (ucast (cmd_kind c)) OR
     push_bit 24 (ucast (cmd_index c)) OR push_bit 30 (ucast (res1 c))"

datatype CmdType = GO_IDLE_STATE | SEND_OP_COND | ALL_SEND_CID | SEND_RELATIVE_ADDR | SET_DSR | IO_SET_OP_COND
  | SWITCH_FUNC | SELECT_CARD | SEND_IF_COND | SET_BLOCKLEN | READ_SINGLE_BLOCK | READ_MULTIPLE_BLOCK
  | WRITE_BLOCK | WRITE_MULTIPLE_BLOCK | CTOcrCheck | CTSendSCR | APP_CMD | INVALID

definition cmd_number :: "CmdType \<Rightarrow> nat" where
  "cmd_number c = (case c of GO_IDLE_STATE \<Rightarrow> 0 | SEND_OP_COND \<Rightarrow> 1 | ALL_SEND_CID \<Rightarrow> 2 | SEND_RELATIVE_ADDR \<Rightarrow> 3
     | SET_DSR \<Rightarrow> 4 | IO_SET_OP_COND \<Rightarrow> 5 | SWITCH_FUNC \<Rightarrow> 6 | SELECT_CARD \<Rightarrow> 7 | SEND_IF_COND \<Rightarrow> 8
     | SET_BLOCKLEN \<Rightarrow> 16 | READ_SINGLE_BLOCK \<Rightarrow> 17 | READ_MULTIPLE_BLOCK \<Rightarrow> 18
     | WRITE_BLOCK \<Rightarrow> 24 | WRITE_MULTIPLE_BLOCK \<Rightarrow> 25 | CTOcrCheck \<Rightarrow> 41 | CTSendSCR \<Rightarrow> 51 | APP_CMD \<Rightarrow> 55
     | INVALID \<Rightarrow> 0xffff)"

datatype CmdRespType = RTNone | RT136 | RT48 | RT48Busy

definition resp_type :: "CmdRespType \<Rightarrow> 2 word" where
  "resp_type r = (case r of RTNone \<Rightarrow> 0 | RT136 \<Rightarrow> 1 | RT48 \<Rightarrow> 2 | RT48Busy \<Rightarrow> 3)"

definition kReserved :: CmdRegister where
  "kReserved = CmdRegister.make 1 1 3 1 1 0xf 3 1 1 1 1 3 0xf 3"

definition kCommands :: "CmdRegister list" where
  "kCommands =
    [CmdRegister.make 0 0 0 0 0 0 0 0 0 0 0 0 0 0,
     kReserved,
     CmdRegister.make 0 0 0 0 0 0 (resp_type RT136) 0 1 0 0 0 2 0,
     CmdRegister.make 0 0 0 0 0 0 (resp_type RT48) 0 1 0 0 0 3 0,
     CmdRegister.make 0 0 0 0 0 0 0 0 0 0 0 0 4 0,
     CmdRegister.make 0 0 0 0 0 0 (resp_type RT136) 0 0 0 0 0 5 0,
     CmdRegister.make 0 0 0 0 0 0 (resp_type RT48) 0 1 0 0 0 6 0,
     CmdRegister.make 0 0 0 0 0 0 (resp_type RT48Busy) 0 1 0 0 0 7 0,
     CmdRegister.make 0 0 0 0 0 0 (resp_type RT48) 0 1 0 0 0 8 0,
     CmdRegister.make 0 0 0 0 0 0 (resp_type RT136) 0 1 0 0 0 9 0] @
    replicate 6 kReserved @
    [CmdRegister.make 0 0 0 0 0 0 (resp_type RT48) 0 1 0 0 0 16 0,
     CmdRegister.make 0 0 0 1 0 0 (resp_type RT48) 0 1 0 1 0 17 0,
     CmdRegister.make 0 1 1 1 1 0 (resp_type RT48) 0 1 0 1 0 18 0] @
    replicate 22 kReserved @
    [CmdRegister.make 0 0 0 0 0 0 (resp_type RT48) 0 0 0 0 0 41 0] @
    replicate 9 kReserved @
    [CmdRegister.make 0 0 0 1 0 0 (resp_type RT48) 0 1 0 1 0 51 0] @
    replicate 3 kReserved @
    [CmdRegister.make 0 0 0 0 0 0 (resp_type RT48) 0 1 0 0 0 55 0]"

text \<open>A buffer is memory, or the two words of the SCR register in the driver's object.\<close>

datatype buffer = kNull | kMem u64 | kScr nat

record CommandData =
  cmd_type :: CmdType
  cmd_reg :: CmdRegister
  cmd_arg :: u32
  cmd_timeout_usec :: u32
  transfer_blocks :: u32
  cmd_buffer :: buffer
  cmd_response :: "u32 list"
  cmd_error :: u32

definition command_data :: CommandData where
  "command_data = \<lparr>cmd_type = INVALID, cmd_reg = kReserved, cmd_arg = 0, cmd_timeout_usec = 0,
     transfer_blocks = 0, cmd_buffer = kNull, cmd_response = [0, 0, 0, 0], cmd_error = 0\<rparr>"

definition set_command :: "CmdType \<Rightarrow> u32 \<Rightarrow> u32 \<Rightarrow> CommandData \<Rightarrow> CommandData res" where
  "set_command t arg timeout d =
     rbind (arr_get kCommands (cmd_number t)) (\<lambda>r.
       Inr (d\<lparr>cmd_type := t, cmd_reg := r, cmd_arg := arg, cmd_timeout_usec := timeout\<rparr>))"

section \<open>Registers\<close>

definition EMMC2_BASE :: u64 where "EMMC2_BASE = 0xFE340000"

definition rd :: "'d bus \<Rightarrow> u64 \<Rightarrow> 'd mmc \<Rightarrow> u32 \<times> 'd mmc" where
  "rd b off s = (let (x, d) = bus_read b (EMMC2_BASE + off) (m_io s) in (x, s\<lparr>m_io := d\<rparr>))"

definition wr :: "'d bus \<Rightarrow> u64 \<Rightarrow> u32 \<Rightarrow> 'd mmc \<Rightarrow> 'd mmc" where
  "wr b off v s = s\<lparr>m_io := bus_write b (EMMC2_BASE + off) v (m_io s)\<rparr>"

definition mmc_wait_set :: "'d bus \<Rightarrow> u64 \<Rightarrow> u32 \<Rightarrow> u32 \<Rightarrow> 'd mmc \<Rightarrow> (bool \<times> 'd mmc) res" where
  "mmc_wait_set b off msk ms s =
     rbind (RegWaitBitSet b (EMMC2_BASE + off) msk ms (m_io s)) (\<lambda>(ok, d). Inr (ok, s\<lparr>m_io := d\<rparr>))"

definition mmc_wait_clear :: "'d bus \<Rightarrow> u64 \<Rightarrow> u32 \<Rightarrow> u32 \<Rightarrow> 'd mmc \<Rightarrow> (bool \<times> 'd mmc) res" where
  "mmc_wait_clear b off msk ms s =
     rbind (RegWaitBitClear b (EMMC2_BASE + off) msk ms (m_io s)) (\<lambda>(ok, d). Inr (ok, s\<lparr>m_io := d\<rparr>))"

definition mmc_sleep :: "'d bus \<Rightarrow> u32 \<Rightarrow> 'd mmc \<Rightarrow> 'd mmc res" where
  "mmc_sleep b ms s = rbind (Timer_Sleep b ms (m_io s)) (\<lambda>d. Inr (s\<lparr>m_io := d\<rparr>))"

definition mmc_sleep_usec :: "'d bus \<Rightarrow> u32 \<Rightarrow> 'd mmc \<Rightarrow> 'd mmc res" where
  "mmc_sleep_usec b us s = rbind (Timer_SleepUsec b us (m_io s)) (\<lambda>d. Inr (s\<lparr>m_io := d\<rparr>))"

section \<open>Sending a command\<close>

text \<open>The loop of \<open>WaitCommandDone\<close>; the result says that a poll was left when it ended.\<close>

fun wait_command :: "'d bus \<Rightarrow> nat \<Rightarrow> 'd mmc \<Rightarrow> (bool \<times> 'd mmc) res" where
  "wait_command b 0 s = Inr (False, s)"
| "wait_command b (Suc n) s =
     (let (reg, s) = rd b 0x30 s
      in if reg AND 1 \<noteq> 0 then Inr (n \<noteq> 0, s)
         else if reg \<noteq> 0 then Inr (n \<noteq> 0, s)
         else rbind (mmc_sleep_usec b 1 s) (wait_command b n))"

definition read_response :: "'d bus \<Rightarrow> CommandData \<times> 'd mmc \<Rightarrow> CommandData \<times> 'd mmc" where
  "read_response b = (\<lambda>(c, s).
     if response_type (cmd_reg c) = resp_type RT48 \<or> response_type (cmd_reg c) = resp_type RT48Busy
     then let (r, s) = rd b 0x10 s in (c\<lparr>cmd_response := (cmd_response c)[0 := r]\<rparr>, s)
     else if response_type (cmd_reg c) = resp_type RT136
     then let (r0, s) = rd b 0x10 s; (r1, s) = rd b 0x14 s; (r2, s) = rd b 0x18 s; (r3, s) = rd b 0x1c s
          in (c\<lparr>cmd_response := [r0, r1, r2, r3]\<rparr>, s)
     else (c, s))"

definition WaitCommandDone :: "'d bus \<Rightarrow> CommandData \<times> 'd mmc \<Rightarrow> (bool \<times> CommandData \<times> 'd mmc) res" where
  "WaitCommandDone b = (\<lambda>(c, s).
     rbind (wait_command b (unat (cmd_timeout_usec c)) s) (\<lambda>(in_time, s).
       if \<not> in_time then Inr (False, c, s)
       else let (interrupts, s) = rd b 0x30 s;
                s = wr b 0x30 0xffff0001 s
            in if interrupts AND 0xffff0001 \<noteq> 1
               then Inr (False, c\<lparr>cmd_error := interrupts AND 0xffff0000\<rparr>, snd (rd b 0x24 s))
               else Inr (True, read_response b (c, s))))"

fun store_word :: "buffer \<Rightarrow> u32 \<Rightarrow> 'd mmc \<Rightarrow> 'd mmc res" where
  "store_word kNull v s = Inl NullDeref"
| "store_word (kMem a) v s = Inr (s\<lparr>m_heap := (m_heap s)\<lparr>dram := store_le 4 (dram (m_heap s)) a v\<rparr>\<rparr>)"
| "store_word (kScr i) v s =
     rbind (arr_set (scr_words (scr_reg (m_dev s))) i v) (\<lambda>ws.
       Inr (s\<lparr>m_dev := (m_dev s)\<lparr>scr_reg := (scr_reg (m_dev s))\<lparr>scr_words := ws\<rparr>\<rparr>\<rparr>))"

fun load_word :: "buffer \<Rightarrow> 'd mmc \<Rightarrow> u32 res" where
  "load_word kNull s = Inl NullDeref"
| "load_word (kMem a) s = Inr (load_le 4 (dram (m_heap s)) a)"
| "load_word (kScr i) s = arr_get (scr_words (scr_reg (m_dev s))) i"

fun next_word :: "buffer \<Rightarrow> buffer" where
  "next_word kNull = kNull"
| "next_word (kMem a) = kMem (a + 4)"
| "next_word (kScr i) = kScr (Suc i)"

text \<open>The words of a block; a length that is no multiple of four would never become zero.\<close>

fun transfer_words :: "'d bus \<Rightarrow> bool \<Rightarrow> nat \<Rightarrow> buffer \<Rightarrow> 'd mmc \<Rightarrow> (buffer \<times> 'd mmc) res" where
  "transfer_words b write 0 buf s = Inr (buf, s)"
| "transfer_words b write (Suc n) buf s =
     (if write then rbind (load_word buf s) (\<lambda>v. transfer_words b write n (next_word buf) (wr b 0x20 v s))
      else let (v, s) = rd b 0x20 s in rbind (store_word buf v s) (transfer_words b write n (next_word buf)))"

definition transfer_block :: "'d bus \<Rightarrow> bool \<Rightarrow> buffer \<Rightarrow> 'd mmc \<Rightarrow> (buffer \<times> 'd mmc) res" where
  "transfer_block b write buf s =
     (let len = unat (block_size (m_dev s))
      in if len mod 4 \<noteq> 0 then Inl Diverge else transfer_words b write (len div 4) buf s)"

fun transfer_loop :: "'d bus \<Rightarrow> bool \<Rightarrow> u32 \<Rightarrow> nat \<Rightarrow> buffer \<Rightarrow> CommandData \<times> 'd mmc \<Rightarrow> (bool \<times> CommandData \<times> 'd mmc) res" where
  "transfer_loop b write interrupts 0 buf (c, s) = Inr (True, c, s)"
| "transfer_loop b write interrupts (Suc n) buf (c, s) =
     rbind (mmc_wait_set b 0x30 interrupts 2000 s) (\<lambda>(_, s).
     let (reg_val, s) = rd b 0x30 s;
         s = wr b 0x30 interrupts s
     in if reg_val AND (0xffff0000 OR interrupts) \<noteq> interrupts
        then Inr (False, c\<lparr>cmd_error := reg_val AND 0xffff0000\<rparr>, snd (rd b 0x24 s))
        else rbind (transfer_block b write buf s) (\<lambda>(buf, s). transfer_loop b write interrupts n buf (c, s)))"

definition PerformDataTransfer :: "'d bus \<Rightarrow> CommandData \<times> 'd mmc \<Rightarrow> (bool \<times> CommandData \<times> 'd mmc) res" where
  "PerformDataTransfer b = (\<lambda>(c, s).
     let write = (direction (cmd_reg c) = 0);
         interrupts = (if write then push_bit 4 1 else push_bit 5 1)
     in transfer_loop b write interrupts (unat (transfer_blocks c)) (cmd_buffer c) (c, s))"

definition SendCommand :: "'d bus \<Rightarrow> CommandData \<times> 'd mmc \<Rightarrow> (bool \<times> CommandData \<times> 'd mmc) res" where
  "SendCommand b = (\<lambda>(c, s).
     if transfer_blocks c > 0xffff then Inr (False, c, s)
     else
       let s = wr b 0x04 (block_size (m_dev s) OR push_bit 16 (transfer_blocks c)) s;
           s = wr b 0x08 (cmd_arg c) s;
           s = wr b 0x0c (cmd_bits (cmd_reg c)) s
       in rbind (WaitCommandDone b (c, s)) (\<lambda>(done, c, s).
          if \<not> done then Inr (False, c, s)
          else rbind (if is_data (cmd_reg c) \<noteq> 0 then rbind (PerformDataTransfer b (c, s)) (\<lambda>(_, c, s). Inr (c, s))
                      else Inr (c, s)) (\<lambda>(c, s).
          if response_type (cmd_reg c) = resp_type RT48Busy \<or> is_data (cmd_reg c) \<noteq> 0
          then rbind (mmc_wait_set b 0x30 2 2000 s) (\<lambda>(_, s).
               let (interrupts, s) = rd b 0x30 s;
                   s = wr b 0x30 0xffff0002 s
               in if interrupts AND 0xffff0002 \<noteq> 2 \<and> interrupts AND 0xffff0002 \<noteq> 0x100002
                  then Inr (False, c\<lparr>cmd_error := interrupts AND 0xffff0000\<rparr>, snd (rd b 0x24 s))
                  else Inr (True, c, wr b 0x30 0xffff0002 s))
          else Inr (True, c, s))))"

definition AppCommand :: "'d bus \<Rightarrow> CommandData \<times> 'd mmc \<Rightarrow> (bool \<times> CommandData \<times> 'd mmc) res" where
  "AppCommand b = (\<lambda>(c, s).
     if cmd_index (cmd_reg c) \<ge> 60 then Inr (False, c, s)
     else let a = (if rca (m_dev s) \<noteq> 0 then push_bit 16 (rca (m_dev s)) else 0);
              command = cmd_reg c;
              arg = cmd_arg c
       in rbind (arr_get kCommands (cmd_number APP_CMD)) (\<lambda>r.
          rbind (SendCommand b (c\<lparr>cmd_reg := r, cmd_arg := a\<rparr>, s)) (\<lambda>(ok, c, s).
          if \<not> ok then Inr (False, c, s) else SendCommand b (c\<lparr>cmd_reg := command, cmd_arg := arg\<rparr>, s))))"

section \<open>Clock\<close>

definition SD_CLOCK_HIGH :: u32 where "SD_CLOCK_HIGH = 50000000"

definition EMMC_CTRL1_RESET_DATA :: u32 where "EMMC_CTRL1_RESET_DATA = push_bit 26 1"
definition EMMC_CTRL1_RESET_CMD :: u32 where "EMMC_CTRL1_RESET_CMD = push_bit 25 1"
definition EMMC_CTRL1_RESET_HOST :: u32 where "EMMC_CTRL1_RESET_HOST = push_bit 24 1"
definition EMMC_CTRL1_CLK_EN :: u32 where "EMMC_CTRL1_CLK_EN = push_bit 2 1"
definition EMMC_CTRL1_CLK_STABLE :: u32 where "EMMC_CTRL1_CLK_STABLE = push_bit 1 1"
definition EMMC_CTRL1_CLK_INTLEN :: u32 where "EMMC_CTRL1_CLK_INTLEN = 1"
definition EMMC_STATUS_INHIBIT :: u32 where "EMMC_STATUS_INHIBIT = push_bit 1 1 OR 1"

definition GetClockDivider :: "u32 \<Rightarrow> u32 \<Rightarrow> u32" where
  "GetClockDivider base target =
     (let target_div = (if target \<le> base then if base mod target \<noteq> 0 then 0 else base div target else 1);
          dv = (case first_index (\<lambda>k. bit target_div (31 - k)) 0 32 of
              None \<Rightarrow> 31
            | Some k \<Rightarrow> (let n = 31 - k in if target_div AND NOT (push_bit n 1) \<noteq> 0 then Suc n else n));
          dv = (if dv \<ge> 32 then 31 else dv);
          q = (if dv \<noteq> 0 then push_bit (dv - 1) 1 else 0 :: u32);
          q = (if q \<ge> 0x400 then 0x3ff else q)
      in push_bit 8 (q AND 0xff) OR push_bit 6 (drop_bit 8 q AND 3))"

partial_function (option) wait_inhibit :: "'d bus \<Rightarrow> 'd mmc \<Rightarrow> 'd mmc res option" where
  "wait_inhibit b s =
     (let (x, s) = rd b 0x24 s
      in if x AND EMMC_STATUS_INHIBIT \<noteq> 0
         then case mmc_sleep b 1 s of Inl e \<Rightarrow> Some (Inl e) | Inr s \<Rightarrow> wait_inhibit b s
         else Some (Inr s))"

definition ChangeClockRate :: "'d bus \<Rightarrow> u32 \<Rightarrow> u32 \<Rightarrow> 'd mmc \<Rightarrow> (bool \<times> 'd mmc) res" where
  "ChangeClockRate b base target_rate s =
     (let divider = GetClockDivider base target_rate
      in rbind (case wait_inhibit b s of None \<Rightarrow> Inl Diverge | Some r \<Rightarrow> r) (\<lambda>s.
         let (x, s) = rd b 0x2c s;
             c1 = x AND NOT EMMC_CTRL1_CLK_EN
         in rbind (mmc_sleep b 3 (wr b 0x2c c1 s)) (\<lambda>s.
            rbind (mmc_sleep b 3 (wr b 0x2c ((c1 OR divider) AND NOT 0xffe0) s)) (\<lambda>s.
            rbind (mmc_sleep b 3 (wr b 0x2c (c1 OR EMMC_CTRL1_CLK_EN) s)) (\<lambda>s. Inr (True, s))))))"

definition SetupInitialClockRate :: "'d bus \<Rightarrow> 'd mmc \<Rightarrow> (bool \<times> 'd mmc) res" where
  "SetupInitialClockRate b s =
     (let s = wr b 0x3c 0 s;
          (n, s) = rd b 0x2c s;
          n = n OR EMMC_CTRL1_CLK_INTLEN;
          n = n OR GetClockDivider (base_clock (m_dev s)) SD_CLOCK_HIGH;
          n = n AND NOT (push_bit 16 0xf);
          n = n OR push_bit 16 11;
          s = wr b 0x2c n s
      in rbind (mmc_wait_set b 0x2c EMMC_CTRL1_CLK_STABLE 1000 s) (\<lambda>(ok, s).
         if \<not> ok then Inr (False, s)
         else rbind (mmc_sleep b 2 s) (\<lambda>s.
              let (x, s) = rd b 0x2c s
              in rbind (mmc_sleep b 2 (wr b 0x2c (x OR EMMC_CTRL1_CLK_EN) s)) (\<lambda>s. Inr (True, s)))))"

definition SetupHostIrqs :: "'d bus \<Rightarrow> 'd mmc \<Rightarrow> 'd mmc" where
  "SetupHostIrqs b s = wr b 0x30 0xffffffff (wr b 0x34 0xffffffff (wr b 0x38 0 s))"

section \<open>Resetting the card\<close>

definition IsCardInserted :: "'d bus \<Rightarrow> 'd mmc \<Rightarrow> bool \<times> 'd mmc" where
  "IsCardInserted b s = (let (status, s) = rd b 0x24 s in (status AND push_bit 16 1 \<noteq> 0, s))"

datatype SdError = SDECommandTimeout | SDECommandCrc | SDECommandEndBit | SDECommandIndex | SDEDataTimeout | SDEDataCrc
  | SDEDataEndBit | SDECurrentLimit | SDEAutoCmd12 | SDEADma | SDETuning | SDERsvd

definition sd_error_number :: "SdError \<Rightarrow> nat" where
  "sd_error_number e = (case e of SDECommandTimeout \<Rightarrow> 0 | SDECommandCrc \<Rightarrow> 1 | SDECommandEndBit \<Rightarrow> 2 | SDECommandIndex \<Rightarrow> 3
     | SDEDataTimeout \<Rightarrow> 4 | SDEDataCrc \<Rightarrow> 5 | SDEDataEndBit \<Rightarrow> 6 | SDECurrentLimit \<Rightarrow> 7 | SDEAutoCmd12 \<Rightarrow> 8 | SDEADma \<Rightarrow> 9
     | SDETuning \<Rightarrow> 10 | SDERsvd \<Rightarrow> 11)"

definition SdErrorMask :: "SdError \<Rightarrow> u32" where
  "SdErrorMask err = push_bit (16 + sd_error_number err) 1"

fun reset_poll :: "'d bus \<Rightarrow> nat \<Rightarrow> 'd mmc \<Rightarrow> (bool \<times> 'd mmc) res" where
  "reset_poll b 0 s = Inr (False, snd (rd b 0x2c s))"
| "reset_poll b (Suc n) s =
     (let (x, s) = rd b 0x2c s
      in if x AND EMMC_CTRL1_RESET_CMD = 0 then Inr (True, s) else rbind (mmc_sleep b 1 s) (reset_poll b n))"

definition ResetCommandHandlingCircuit :: "'d bus \<Rightarrow> 'd mmc \<Rightarrow> (bool \<times> 'd mmc) res" where
  "ResetCommandHandlingCircuit b s =
     (let (x, s) = rd b 0x2c s in reset_poll b 10000 (wr b 0x2c (x OR EMMC_CTRL1_RESET_CMD) s))"

definition CheckV2Card :: "'d bus \<Rightarrow> 'd mmc \<Rightarrow> (bool \<times> 'd mmc) res" where
  "CheckV2Card b s =
     rbind (set_command SEND_IF_COND 0x1aa 200 command_data) (\<lambda>c.
     rbind (SendCommand b (c, s)) (\<lambda>(ok, c, s).
       if \<not> ok
       then if cmd_error c = 0 then Inr (False, s)
            else if cmd_error c AND push_bit 16 1 \<noteq> 0
            then rbind (ResetCommandHandlingCircuit b s) (\<lambda>(ok, s).
                 if \<not> ok then Inr (False, s) else Inr (False, wr b 0x30 (SdErrorMask SDECommandTimeout) s))
            else Inr (False, s)
       else if cmd_response c ! 0 AND 0xfff \<noteq> 0x1aa then Inr (False, s)
       else Inr (True, s)))"

definition CheckUsableCard :: "'d bus \<Rightarrow> 'd mmc \<Rightarrow> (bool \<times> 'd mmc) res" where
  "CheckUsableCard b s =
     rbind (set_command IO_SET_OP_COND 0 1000 command_data) (\<lambda>c.
     rbind (SendCommand b (c, s)) (\<lambda>(ok, c, s).
       if \<not> ok
       then if cmd_error c = 0 then Inr (True, s)
            else if cmd_error c AND push_bit 16 1 \<noteq> 0
            then rbind (ResetCommandHandlingCircuit b s) (\<lambda>(ok, s).
                 if \<not> ok then Inr (False, s) else Inr (True, wr b 0x30 (SdErrorMask SDECommandTimeout) s))
            else Inr (False, s)
       else Inr (True, s)))"

partial_function (option) sdhc_loop :: "'d bus \<Rightarrow> bool \<Rightarrow> CommandData \<Rightarrow> 'd mmc \<Rightarrow> (bool \<times> 'd mmc) res option" where
  "sdhc_loop b v2_card c s =
     (let v2_flags = (if v2_card then push_bit 30 1 else 0);
          c = c\<lparr>cmd_arg := 0x00ff8000 OR v2_flags\<rparr>
      in case AppCommand b (c, s) of
          Inl e \<Rightarrow> Some (Inl e)
        | Inr (ok, c, s) \<Rightarrow>
            if \<not> ok then Some (Inr (False, s))
            else let r = cmd_response c ! 0
                 in if bit r 31
                    then Some (Inr (True, s\<lparr>m_dev := (m_dev s)\<lparr>ocr := ucast (drop_bit 8 r AND 0xffff), sdhc := bit r 30\<rparr>\<rparr>))
                    else (case mmc_sleep b 500 s of Inl e \<Rightarrow> Some (Inl e) | Inr s \<Rightarrow> sdhc_loop b v2_card c s))"

definition CheckSdhcSupport :: "'d bus \<Rightarrow> bool \<Rightarrow> 'd mmc \<Rightarrow> (bool \<times> 'd mmc) res" where
  "CheckSdhcSupport b v2_card s =
     rbind (set_command CTOcrCheck 0 2000 command_data) (\<lambda>c.
       case sdhc_loop b v2_card c s of None \<Rightarrow> Inl Diverge | Some r \<Rightarrow> r)"

fun ocr_tries :: "'d bus \<Rightarrow> nat \<Rightarrow> CommandData \<times> 'd mmc \<Rightarrow> (bool \<times> CommandData \<times> 'd mmc) res" where
  "ocr_tries b 0 (c, s) = Inr (False, c, s)"
| "ocr_tries b (Suc n) (c, s) =
     rbind (AppCommand b (c, s)) (\<lambda>(ok, c, s). if ok then Inr (True, c, s) else ocr_tries b n (c, s))"

definition CheckOcr :: "'d bus \<Rightarrow> 'd mmc \<Rightarrow> (bool \<times> 'd mmc) res" where
  "CheckOcr b s =
     rbind (set_command CTOcrCheck 0 2000 command_data) (\<lambda>c.
     rbind (ocr_tries b 5 (c, s)) (\<lambda>(passed, c, s).
       if \<not> passed then Inr (False, s)
       else Inr (True, s\<lparr>m_dev := (m_dev s)\<lparr>ocr := ucast (drop_bit 8 (cmd_response c ! 0) AND 0xffff)\<rparr>\<rparr>)))"

definition CheckRca :: "'d bus \<Rightarrow> 'd mmc \<Rightarrow> (bool \<times> 'd mmc) res" where
  "CheckRca b s =
     rbind (set_command ALL_SEND_CID 0 2000 command_data) (\<lambda>c.
     rbind (SendCommand b (c, s)) (\<lambda>(ok, c, s).
       if \<not> ok then Inr (False, s)
       else rbind (set_command SEND_RELATIVE_ADDR (cmd_arg c) (cmd_timeout_usec c) c) (\<lambda>c.
            rbind (SendCommand b (c, s)) (\<lambda>(ok, c, s).
              if \<not> ok then Inr (False, s)
              else let r = cmd_response c ! 0;
                       s = s\<lparr>m_dev := (m_dev s)\<lparr>rca := drop_bit 16 r AND 0xffff\<rparr>\<rparr>
                   in Inr (bit r 8, s)))))"

definition SelectCard :: "'d bus \<Rightarrow> 'd mmc \<Rightarrow> (bool \<times> 'd mmc) res" where
  "SelectCard b s =
     rbind (set_command SELECT_CARD (push_bit 16 (rca (m_dev s))) 2000 command_data) (\<lambda>c.
     rbind (SendCommand b (c, s)) (\<lambda>(ok, c, s).
       if \<not> ok then Inr (False, s)
       else let status = drop_bit 9 (cmd_response c ! 0) AND 0xf in Inr (status = 3 \<or> status = 4, s)))"

definition BSWAP32 :: "u32 \<Rightarrow> u32" where
  "BSWAP32 x = (push_bit 24 x AND 0xff000000) OR (push_bit 8 x AND 0x00ff0000) OR
     (drop_bit 8 x AND 0x0000ff00) OR (drop_bit 24 x AND 0x000000ff)"

definition scr_spec_version :: "u32 \<Rightarrow> u32" where
  "scr_spec_version scr0 =
     (let spec = drop_bit (56 - 32) scr0 AND 0xf;
          spec3 = drop_bit (47 - 32) scr0 AND 1;
          spec4 = drop_bit (42 - 32) scr0 AND 1
      in if spec = 0 then 1
         else if spec = 1 then 11
         else if spec = 2 then (if spec3 = 0 then 2 else if spec3 = 1 then if spec4 = 1 then 4 else if spec4 = 0 then 3 else 0xffffffff
              else 0xffffffff)
         else 0xffffffff)"

definition SetScr :: "'d bus \<Rightarrow> 'd mmc \<Rightarrow> (bool \<times> 'd mmc) res" where
  "SetScr b s =
     rbind (if \<not> sdhc (m_dev s)
            then rbind (set_command SET_BLOCKLEN 512 2000 command_data) (\<lambda>c. SendCommand b (c, s))
            else Inr (True, command_data, s)) (\<lambda>(ok, c, s).
     if \<not> ok then Inr (False, s)
     else let (bsc, s) = rd b 0x04 s;
              s = wr b 0x04 ((bsc AND NOT 0xfff) OR 0x200) s;
              c = c\<lparr>cmd_buffer := kScr 0, transfer_blocks := 1\<rparr>;
              s = s\<lparr>m_dev := (m_dev s)\<lparr>block_size := 8\<rparr>\<rparr>
          in rbind (set_command CTSendSCR 0 30000 c) (\<lambda>c.
             rbind (AppCommand b (c, s)) (\<lambda>(ok, c, s).
               if \<not> ok then Inr (False, s)
               else let r = scr_reg (m_dev s);
                        r = r\<lparr>scr_version := scr_spec_version (BSWAP32 (scr_words r ! 0))\<rparr>
                    in Inr (True, s\<lparr>m_dev := (m_dev s)\<lparr>block_size := 512, scr_reg := r\<rparr>\<rparr>))))"

definition ResetCard :: "'d bus \<Rightarrow> 'd mmc \<Rightarrow> (bool \<times> 'd mmc) res" where
  "ResetCard b s =
     (let (x, s) = rd b 0x2c s; s = wr b 0x2c (x AND NOT EMMC_CTRL1_CLK_EN) s;
          (x, s) = rd b 0x2c s; s = wr b 0x2c (x AND NOT EMMC_CTRL1_CLK_INTLEN) s;
          (x, s) = rd b 0x2c s; s = wr b 0x2c (x OR EMMC_CTRL1_RESET_HOST) s
      in rbind (mmc_wait_clear b 0x2c (EMMC_CTRL1_RESET_DATA OR EMMC_CTRL1_RESET_CMD OR EMMC_CTRL1_RESET_HOST) 1000 s) (\<lambda>(ok, s).
         if \<not> ok then Inr (False, s)
         else let (x, s) = rd b 0x28 s; s = wr b 0x28 (x OR push_bit 8 0xf) s
         in rbind (mmc_sleep b 3 s) (\<lambda>s.
            let (ins, s) = IsCardInserted b s
            in if \<not> ins then Inr (False, s)
         else rbind (SetupInitialClockRate b s) (\<lambda>(ok, s).
         if \<not> ok then Inr (False, s)
         else let s = SetupHostIrqs b s; s = s\<lparr>m_dev := (m_dev s)\<lparr>block_size := 0\<rparr>\<rparr>
         in rbind (set_command GO_IDLE_STATE 0 2000 command_data) (\<lambda>c.
            rbind (SendCommand b (c, s)) (\<lambda>(ok, c, s).
         if \<not> ok then Inr (False, s)
         else rbind (CheckV2Card b s) (\<lambda>(v2_card, s).
              rbind (CheckUsableCard b s) (\<lambda>(ok, s).
         if \<not> ok then Inr (False, s)
         else rbind (CheckOcr b s) (\<lambda>(ok, s).
         if \<not> ok then Inr (False, s)
         else rbind (CheckSdhcSupport b v2_card s) (\<lambda>(ok, s).
         if \<not> ok then Inr (False, s)
         else rbind (ChangeClockRate b (base_clock (m_dev s)) SD_CLOCK_HIGH s) (\<lambda>(_, s).
              rbind (mmc_sleep b 10 s) (\<lambda>s.
              rbind (CheckRca b s) (\<lambda>(ok, s).
         if \<not> ok then Inr (False, s)
         else rbind (SelectCard b s) (\<lambda>(ok, s).
         if \<not> ok then Inr (False, s)
         else rbind (SetScr b s) (\<lambda>(ok, s).
         if \<not> ok then Inr (False, s)
         else Inr (True, wr b 0x30 0xffffffff s))))))))))))))))"

section \<open>The clock of the controller, from the firmware\<close>

definition MAILBOX_BASE :: u64 where "MAILBOX_BASE = 0xFE00B880"
definition kStatus0MessageEmpty :: u32 where "kStatus0MessageEmpty = 0x40000000"
definition kStatus0MessageFull :: u32 where "kStatus0MessageFull = 0x80000000"
definition kChannelTags :: u8 where "kChannelTags = 8"

text \<open>\<open>vc\<close> is what the firmware does to the memory when it is given a message.\<close>

definition Mailbox_Write :: "'d bus \<Rightarrow> (u32 \<Rightarrow> mem \<Rightarrow> mem) \<Rightarrow> u8 \<Rightarrow> u32 \<Rightarrow> 'd mmc \<Rightarrow> 'd mmc res" where
  "Mailbox_Write b vc channel v s =
     rbind (or_diverge (wait_clear b (MAILBOX_BASE + 0x18) kStatus0MessageFull (m_io s))) (\<lambda>d.
       let msg = (v AND 0xfffffff0) OR (ucast channel AND 0xf)
       in Inr (s\<lparr>m_io := bus_write b (MAILBOX_BASE + 0x20) msg d,
                 m_heap := (m_heap s)\<lparr>dram := vc msg (dram (m_heap s))\<rparr>\<rparr>))"

partial_function (option) mailbox_read :: "'d bus \<Rightarrow> u8 \<Rightarrow> 'd \<Rightarrow> (u32 \<times> 'd) option" where
  "mailbox_read b channel d =
     (case wait_clear b (MAILBOX_BASE + 0x18) kStatus0MessageEmpty d of
        None \<Rightarrow> None
      | Some d \<Rightarrow>
          (let (x, d) = bus_read b MAILBOX_BASE d
           in if ucast (x AND 0xf) = channel then Some (x AND 0xfffffff0, d) else mailbox_read b channel d))"

definition Mailbox_Read :: "'d bus \<Rightarrow> u8 \<Rightarrow> 'd mmc \<Rightarrow> (u32 \<times> 'd mmc) res" where
  "Mailbox_Read b channel s = rbind (or_diverge (mailbox_read b channel (m_io s))) (\<lambda>(x, d). Inr (x, s\<lparr>m_io := d\<rparr>))"

definition set_mem :: "(mem \<Rightarrow> mem) \<Rightarrow> 'd mmc \<Rightarrow> 'd mmc" where
  "set_mem f s = s\<lparr>m_heap := (m_heap s)\<lparr>dram := f (dram (m_heap s))\<rparr>\<rparr>"

definition Mailbox_Process :: "'d bus \<Rightarrow> (u32 \<Rightarrow> mem \<Rightarrow> mem) \<Rightarrow> u8 list \<Rightarrow> 'd mmc \<Rightarrow> (bool \<times> u8 list \<times> 'd mmc) res" where
  "Mailbox_Process b vc tag s =
     rbind (kmm_uncached_zalloc (8 * 1024) (m_heap s)) (\<lambda>(property_data, h).
     let size = length tag;
         buffer_size = of_nat size + 12 :: u32;
         s = s\<lparr>m_heap := h\<rparr>;
         s = set_mem (store_bytes (property_data + 8) tag) s;
         s = set_mem (\<lambda>m. store_le 4 m property_data buffer_size) s;
         s = set_mem (\<lambda>m. store_le 4 m (property_data + 4) (0 :: u32)) s;
         s = set_mem (\<lambda>m. store_le 4 m (property_data + 4 * ucast (buffer_size div 4 - 1)) (0 :: u32)) s
     in rbind (Mailbox_Write b vc kChannelTags (ucast property_data) s) (\<lambda>s.
        rbind (Mailbox_Read b kChannelTags s) (\<lambda>(_, s).
        let tag = load_bytes (property_data + 8) size (dram (m_heap s))
        in rbind (kmm_uncached_free property_data (m_heap s)) (\<lambda>h. Inr (True, tag, s\<lparr>m_heap := h\<rparr>)))))"

datatype HwBlock = kCpu | kGpu | kDram | kEmmc

definition clock_id :: "HwBlock \<Rightarrow> u32" where
  "clock_id hw = (case hw of kCpu \<Rightarrow> 3 | kDram \<Rightarrow> 8 | kGpu \<Rightarrow> 5 | kEmmc \<Rightarrow> 1)"

definition le_bytes :: "u32 \<Rightarrow> u8 list" where
  "le_bytes x = map (\<lambda>k. ucast (drop_bit (8 * k) x)) [0..<4]"

text \<open>The \<open>rate\<close> of the request is not initialised: \<open>junk\<close>.\<close>

definition GetClockRate :: "'d bus \<Rightarrow> (u32 \<Rightarrow> mem \<Rightarrow> mem) \<Rightarrow> u32 \<Rightarrow> HwBlock \<Rightarrow> 'd mmc \<Rightarrow> (u32 \<times> 'd mmc) res" where
  "GetClockRate b vc junk hw s =
     rbind (Mailbox_Process b vc (concat (map le_bytes [0x00030002, 8, 0, clock_id hw, junk])) s) (\<lambda>(_, tag, s).
       Inr (load_le 4 (\<lambda>a. tag ! unat a) 16, s))"

section \<open>The driver's interface\<close>

definition kRetryMax :: nat where "kRetryMax = 4"

definition set_pins :: "'d bus \<Rightarrow> GpioMode \<Rightarrow> u32 list \<Rightarrow> 'd \<Rightarrow> 'd" where
  "set_pins b m ps d = fold (\<lambda>p d. snd (Gpio_SetMode b p m d)) ps d"

fun open_tries :: "'d bus \<Rightarrow> nat \<Rightarrow> 'd mmc \<Rightarrow> (bool \<times> 'd mmc) res" where
  "open_tries b 0 s = Inr (False, s)"
| "open_tries b (Suc n) s =
     rbind (ResetCard b s) (\<lambda>(ok, s). if ok then Inr (True, s) else rbind (mmc_sleep b 100 s) (open_tries b n))"

definition Mmc_Open :: "'d bus \<Rightarrow> (u32 \<Rightarrow> mem \<Rightarrow> mem) \<Rightarrow> u32 \<Rightarrow> 'd mmc \<Rightarrow> (bool \<times> 'd mmc) res" where
  "Mmc_Open b vc junk s =
     (let s = s\<lparr>m_io := set_pins b kInput [34, 35, 36, 37, 38, 39] (m_io s)\<rparr>;
          s = s\<lparr>m_io := set_pins b kAlt3 [48, 49, 50, 51, 52] (m_io s)\<rparr>;
          s = s\<lparr>m_dev := (m_dev s)\<lparr>sdhc := False, ocr := 0, rca := 0\<rparr>\<rparr>
      in rbind (GetClockRate b vc junk kEmmc s) (\<lambda>(r, s).
         let s = s\<lparr>m_dev := (m_dev s)\<lparr>base_clock := r\<rparr>\<rparr>;
             (_, s) = rd b 0xfc s
         in open_tries b kRetryMax s))"

definition Mmc_Seek :: "u64 \<Rightarrow> 'd mmc \<Rightarrow> bool \<times> 'd mmc" where
  "Mmc_Seek offset s =
     (if offset mod ucast (block_size (m_dev s)) \<noteq> 0 then (False, s)
      else (True, s\<lparr>m_dev := (m_dev s)\<lparr>seek_offset := offset\<rparr>\<rparr>))"

fun data_tries :: "'d bus \<Rightarrow> nat \<Rightarrow> CommandData \<times> 'd mmc \<Rightarrow> (bool \<times> 'd mmc) res" where
  "data_tries b 0 (c, s) = Inr (False, s)"
| "data_tries b (Suc n) (c, s) =
     rbind (SendCommand b (c, s)) (\<lambda>(ok, c, s). if ok then Inr (True, s) else data_tries b n (c, s))"

definition HandleDataCommand :: "'d bus \<Rightarrow> bool \<Rightarrow> u64 \<Rightarrow> u32 \<Rightarrow> u32 \<Rightarrow> 'd mmc \<Rightarrow> (bool \<times> 'd mmc) res" where
  "HandleDataCommand b write buf buf_size block s =
     (if buf_size < block_size (m_dev s) \<or> buf_size mod block_size (m_dev s) \<noteq> 0 then Inr (False, s)
      else
        let block = (if \<not> sdhc (m_dev s) then block * 512 else block);
            c = command_data\<lparr>transfer_blocks := buf_size div block_size (m_dev s), cmd_buffer := kMem buf\<rparr>;
            command = (if write then if transfer_blocks c > 1 then WRITE_MULTIPLE_BLOCK else WRITE_BLOCK
                       else if transfer_blocks c > 1 then READ_MULTIPLE_BLOCK else READ_SINGLE_BLOCK)
        in rbind (set_command command block 5000 c) (\<lambda>c. data_tries b kRetryMax (c, s)))"

definition Mmc_Read :: "'d bus \<Rightarrow> u64 \<Rightarrow> u32 \<Rightarrow> 'd mmc \<Rightarrow> (int \<times> 'd mmc) res" where
  "Mmc_Read b buf sz s =
     (let block = ucast (seek_offset (m_dev s) div ucast (block_size (m_dev s)))
      in rbind (HandleDataCommand b False buf sz block s) (\<lambda>(ok, s). Inr (if ok then sint sz else -1, s)))"

section \<open>The protocol of a read\<close>

text \<open>
  What the documentation of the host controller says of a read, in terms of a view of its state: the
  command is accepted when the controller is idle; the INTERRUPT register shows its completion, then for
  every block that the buffer can be read, then the end of the transfer; each of these is acknowledged by
  writing its bit; DATA delivers the words of the block. \<open>polls\<close> bounds how often a poll finds nothing
  before the next event. \<open>ticks\<close> is the time in microseconds: the counter goes on by at most one between
  two readings and does not stand still for ever.
\<close>

datatype read_phase = Idle | Commanded "u32 list list" | Completed "u32 list list" | Waiting "u32 list list"
  | Avail "u32 list" "u32 list list" | Draining "u32 list" "u32 list list" | Finished

record 'd emmc_view =
  phase :: "'d \<Rightarrow> read_phase"
  blksizecnt :: "'d \<Rightarrow> u32"
  arg1 :: "'d \<Rightarrow> u32"
  card_blocks :: "'d \<Rightarrow> nat \<Rightarrow> u32 list"
  polls :: "'d \<Rightarrow> nat"
  ticks :: "'d \<Rightarrow> nat"
  stall :: "'d \<Rightarrow> nat"

definition keeps :: "'d emmc_view \<Rightarrow> 'd \<Rightarrow> 'd \<Rightarrow> bool" where
  "keeps v d d' \<longleftrightarrow> phase v d' = phase v d \<and> blksizecnt v d' = blksizecnt v d \<and> arg1 v d' = arg1 v d \<and>
     card_blocks v d' = card_blocks v d \<and> polls v d' \<le> polls v d"

definition read_command :: "u32 \<Rightarrow> nat \<Rightarrow> bool" where
  "read_command c n \<longleftrightarrow> bit c 4 \<and> bit c 21 \<and> 0 < n \<and>
     (drop_bit 24 c AND 0x3f = 17 \<and> \<not> bit c 5 \<and> n = 1 \<or> drop_bit 24 c AND 0x3f = 18 \<and> bit c 5 \<and> bit c 1)"

definition irq_read :: "'d emmc_view \<Rightarrow> u32 \<Rightarrow> 'd \<Rightarrow> 'd \<Rightarrow> bool" where
  "irq_read v x d d' \<longleftrightarrow> card_blocks v d' = card_blocks v d \<and>
     (let wait = phase v d' = phase v d \<and> polls v d' < polls v d
      in case phase v d of
          Commanded bs \<Rightarrow> x = 0 \<and> wait \<or> x AND 0xffff0001 = 1 \<and> phase v d' = Completed bs
        | Completed bs \<Rightarrow> x AND 0xffff0001 = 1 \<and> phase v d' = phase v d
        | Waiting [] \<Rightarrow> x AND 2 = 0 \<and> wait \<or> x AND 0xffff0002 = 2 \<and> phase v d' = Finished
        | Waiting (ws # bs) \<Rightarrow> x AND 0x20 = 0 \<and> wait \<or> x AND 0xffff0020 = 0x20 \<and> phase v d' = Avail ws bs
        | Avail ws bs \<Rightarrow> x AND 0xffff0020 = 0x20 \<and> phase v d' = phase v d
        | Finished \<Rightarrow> x AND 0xffff0002 = 2 \<and> phase v d' = Finished
        | _ \<Rightarrow> True)"

definition emmc_ok :: "'d bus \<Rightarrow> bool \<Rightarrow> 'd emmc_view \<Rightarrow> bool" where
  "emmc_ok b byte_addressed v \<longleftrightarrow>
     (\<forall>d i. length (card_blocks v d i) = 128) \<and> (\<forall>d. polls v d < 4999) \<and>
     (\<forall>d x d'. bus_read b SystemTimerRegs_CLO d = (x, d') \<longrightarrow> x = of_nat (ticks v d) \<and> keeps v d d' \<and>
        (ticks v d' = Suc (ticks v d) \<or> ticks v d' = ticks v d \<and> stall v d' < stall v d)) \<and>
     (\<forall>d x. phase v d = Idle \<longrightarrow> (let d' = bus_write b (EMMC2_BASE + 0x04) x d in
        phase v d' = Idle \<and> blksizecnt v d' = x \<and> arg1 v d' = arg1 v d \<and> card_blocks v d' = card_blocks v d)) \<and>
     (\<forall>d x. phase v d = Idle \<longrightarrow> (let d' = bus_write b (EMMC2_BASE + 0x08) x d in
        phase v d' = Idle \<and> blksizecnt v d' = blksizecnt v d \<and> arg1 v d' = x \<and> card_blocks v d' = card_blocks v d)) \<and>
     (\<forall>d x. phase v d = Idle \<and> blksizecnt v d AND 0xfff = 512 \<and> read_command x (unat (drop_bit 16 (blksizecnt v d))) \<longrightarrow>
        (let d' = bus_write b (EMMC2_BASE + 0x0c) x d;
             k = unat (arg1 v d) div (if byte_addressed then 512 else 1)
         in phase v d' = Commanded (map (card_blocks v d) [k..<k + unat (drop_bit 16 (blksizecnt v d))]) \<and>
            card_blocks v d' = card_blocks v d)) \<and>
     (\<forall>d x d'. bus_read b (EMMC2_BASE + 0x30) d = (x, d') \<longrightarrow> irq_read v x d d') \<and>
     (\<forall>d x d'. bus_read b (EMMC2_BASE + 0x10) d = (x, d') \<longrightarrow> keeps v d d') \<and>
     (\<forall>d x d' w ws bs. phase v d = Draining (w # ws) bs \<longrightarrow> bus_read b (EMMC2_BASE + 0x20) d = (x, d') \<longrightarrow>
        x = w \<and> phase v d' = (if ws = [] then Waiting bs else Draining ws bs) \<and> card_blocks v d' = card_blocks v d) \<and>
     (\<forall>d x. card_blocks v (bus_write b (EMMC2_BASE + 0x30) x d) = card_blocks v d) \<and>
     (\<forall>d bs. phase v d = Completed bs \<longrightarrow> phase v (bus_write b (EMMC2_BASE + 0x30) 0xffff0001 d) = Waiting bs) \<and>
     (\<forall>d ws bs. phase v d = Avail ws bs \<longrightarrow> phase v (bus_write b (EMMC2_BASE + 0x30) 0x20 d) = Draining ws bs) \<and>
     (\<forall>d. phase v d = Finished \<or> phase v d = Idle \<longrightarrow> phase v (bus_write b (EMMC2_BASE + 0x30) 0xffff0002 d) = Idle)"

lemma emmc_okD:
  assumes "emmc_ok b ba v"
  shows "length (card_blocks v d i) = 128"
    and "polls v d < 4999"
    and "bus_read b SystemTimerRegs_CLO d = (x, d') \<Longrightarrow> x = of_nat (ticks v d) \<and> keeps v d d' \<and>
        (ticks v d' = Suc (ticks v d) \<or> ticks v d' = ticks v d \<and> stall v d' < stall v d)"
    and "phase v d = Idle \<Longrightarrow> d' = bus_write b (EMMC2_BASE + 0x04) x d \<Longrightarrow>
        phase v d' = Idle \<and> blksizecnt v d' = x \<and> arg1 v d' = arg1 v d \<and> card_blocks v d' = card_blocks v d"
    and "phase v d = Idle \<Longrightarrow> d' = bus_write b (EMMC2_BASE + 0x08) x d \<Longrightarrow>
        phase v d' = Idle \<and> blksizecnt v d' = blksizecnt v d \<and> arg1 v d' = x \<and> card_blocks v d' = card_blocks v d"
    and "phase v d = Idle \<Longrightarrow> blksizecnt v d AND 0xfff = 512 \<Longrightarrow> read_command x (unat (drop_bit 16 (blksizecnt v d))) \<Longrightarrow>
        d' = bus_write b (EMMC2_BASE + 0x0c) x d \<Longrightarrow> k = unat (arg1 v d) div (if ba then 512 else 1) \<Longrightarrow>
        phase v d' = Commanded (map (card_blocks v d) [k..<k + unat (drop_bit 16 (blksizecnt v d))]) \<and>
            card_blocks v d' = card_blocks v d"
    and "bus_read b (EMMC2_BASE + 0x30) d = (x, d') \<Longrightarrow> irq_read v x d d'"
    and "bus_read b (EMMC2_BASE + 0x10) d = (x, d') \<Longrightarrow> keeps v d d'"
    and "phase v d = Draining (w # ws) bs \<Longrightarrow> bus_read b (EMMC2_BASE + 0x20) d = (x, d') \<Longrightarrow>
        x = w \<and> phase v d' = (if ws = [] then Waiting bs else Draining ws bs) \<and> card_blocks v d' = card_blocks v d"
    and "card_blocks v (bus_write b (EMMC2_BASE + 0x30) x d) = card_blocks v d"
    and "phase v d = Completed bs \<Longrightarrow> phase v (bus_write b (EMMC2_BASE + 0x30) 0xffff0001 d) = Waiting bs"
    and "phase v d = Avail ws bs \<Longrightarrow> phase v (bus_write b (EMMC2_BASE + 0x30) 0x20 d) = Draining ws bs"
    and "phase v d = Finished \<or> phase v d = Idle \<Longrightarrow> phase v (bus_write b (EMMC2_BASE + 0x30) 0xffff0002 d) = Idle"
proof -
  note g = assms [unfolded emmc_ok_def Let_def]
  note g1 = g [THEN conjunct1] and g = g [THEN conjunct2]
  note g2 = g [THEN conjunct1] and g = g [THEN conjunct2]
  note g3 = g [THEN conjunct1] and g = g [THEN conjunct2]
  note g4 = g [THEN conjunct1] and g = g [THEN conjunct2]
  note g5 = g [THEN conjunct1] and g = g [THEN conjunct2]
  note g6 = g [THEN conjunct1] and g = g [THEN conjunct2]
  note g7 = g [THEN conjunct1] and g = g [THEN conjunct2]
  note g8 = g [THEN conjunct1] and g = g [THEN conjunct2]
  note g9 = g [THEN conjunct1] and g = g [THEN conjunct2]
  note g10 = g [THEN conjunct1] and g = g [THEN conjunct2]
  note g11 = g [THEN conjunct1] and g = g [THEN conjunct2]
  note g12 = g [THEN conjunct1] and g = g [THEN conjunct2]
  note g13 = g
  show "length (card_blocks v d i) = 128" using g1 by blast
  show "polls v d < 4999" using g2 by blast
  show "x = of_nat (ticks v d) \<and> keeps v d d' \<and> (ticks v d' = Suc (ticks v d) \<or> ticks v d' = ticks v d \<and> stall v d' < stall v d)" if "bus_read b SystemTimerRegs_CLO d = (x, d')" using that g3 by metis
  show "phase v d' = Idle \<and> blksizecnt v d' = x \<and> arg1 v d' = arg1 v d \<and> card_blocks v d' = card_blocks v d" if "phase v d = Idle" "d' = bus_write b (EMMC2_BASE + 0x04) x d" using that g4 by metis
  show "phase v d' = Idle \<and> blksizecnt v d' = blksizecnt v d \<and> arg1 v d' = x \<and> card_blocks v d' = card_blocks v d" if "phase v d = Idle" "d' = bus_write b (EMMC2_BASE + 0x08) x d" using that g5 by metis
  show "phase v d' = Commanded (map (card_blocks v d) [k..<k + unat (drop_bit 16 (blksizecnt v d))]) \<and> card_blocks v d' = card_blocks v d" if "phase v d = Idle" "blksizecnt v d AND 0xfff = 512" "read_command x (unat (drop_bit 16 (blksizecnt v d)))" "d' = bus_write b (EMMC2_BASE + 0x0c) x d" "k = unat (arg1 v d) div (if ba then 512 else 1)" using that g6 by metis
  show "irq_read v x d d'" if "bus_read b (EMMC2_BASE + 0x30) d = (x, d')" using that g7 by metis
  show "keeps v d d'" if "bus_read b (EMMC2_BASE + 0x10) d = (x, d')" using that g8 by metis
  show "x = w \<and> phase v d' = (if ws = [] then Waiting bs else Draining ws bs) \<and> card_blocks v d' = card_blocks v d" if "phase v d = Draining (w # ws) bs" "bus_read b (EMMC2_BASE + 0x20) d = (x, d')" using that g9 by metis
  show "card_blocks v (bus_write b (EMMC2_BASE + 0x30) x d) = card_blocks v d" using g10 by blast
  show "phase v (bus_write b (EMMC2_BASE + 0x30) 0xffff0001 d) = Waiting bs" if "phase v d = Completed bs" using that g11 by metis
  show "phase v (bus_write b (EMMC2_BASE + 0x30) 0x20 d) = Draining ws bs" if "phase v d = Avail ws bs" using that g12 by metis
  show "phase v (bus_write b (EMMC2_BASE + 0x30) 0xffff0002 d) = Idle" if "phase v d = Finished \<or> phase v d = Idle" using that g13 by metis
qed

lemma keeps_refl: "keeps v d d"
  by (simp add: keeps_def)

lemma keeps_trans: "keeps v d d1 \<Longrightarrow> keeps v d1 d2 \<Longrightarrow> keeps v d d2"
  by (simp add: keeps_def)

section \<open>Waiting returns\<close>

lemma sleep_until_returns:
  assumes ok: "emmc_ok b ba v"
  shows "\<exists>d'. sleep_until b t d = Some d' \<and> keeps v d d'"
proof (induction d rule: wf_induct_rule [OF wf_inv_image [OF wf_lex_prod [OF wf_less_than wf_less_than],
      of "\<lambda>d. (2 ^ 32 - ticks v d mod 2 ^ 32, stall v d)"]])
  case (1 d)
  obtain x d1 where r: "bus_read b SystemTimerRegs_CLO d = (x, d1)" by (cases "bus_read b SystemTimerRegs_CLO d")
  note c = emmc_okD(3) [OF ok r]
  show ?case
  proof (cases "x < t")
    case False
    then show ?thesis using c r by (subst sleep_until.simps) (auto simp: SystemTimer_GetTime_def)
  next
    case True
    have tl: "unat t < 2 ^ 32" by (rule less_le_trans [OF unsigned_less]) simp
    have "unat x = ticks v d mod 2 ^ 32" using c by (simp add: unat_of_nat)
    then have "ticks v d mod 2 ^ 32 < 2 ^ 32 - 1" using True tl by (simp add: word_less_nat_alt)
    then have "Suc (ticks v d) mod 2 ^ 32 = Suc (ticks v d mod 2 ^ 32)" by (simp add: mod_Suc)
    then have "(d1, d) \<in> inv_image (less_than <*lex*> less_than) (\<lambda>d. (2 ^ 32 - ticks v d mod 2 ^ 32, stall v d))"
      using c \<open>ticks v d mod 2 ^ 32 < 2 ^ 32 - 1\<close> by auto
    from 1 [OF this] obtain d2 where d2: "sleep_until b t d1 = Some d2" "keeps v d1 d2" by blast
    have "sleep_until b t d = sleep_until b t d1"
      using True r by (subst sleep_until.simps) (simp add: SystemTimer_GetTime_def)
    then show ?thesis using d2 c keeps_trans by metis
  qed
qed

lemma sleep_usec_returns:
  assumes ok: "emmc_ok b ba v"
  shows "\<exists>d'. Timer_SleepUsec b us d = Inr d' \<and> keeps v d d'"
proof -
  obtain x d1 where r: "bus_read b SystemTimerRegs_CLO d = (x, d1)" by (cases "bus_read b SystemTimerRegs_CLO d")
  from sleep_until_returns [OF ok, of "x + us" d1] obtain d2
    where "sleep_until b (x + us) d1 = Some d2" "keeps v d1 d2" by blast
  then show ?thesis using r emmc_okD(3) [OF ok r] keeps_trans
    by (auto simp: Timer_SleepUsec_def SystemTimer_GetTime_def or_diverge_def)
qed

text \<open>Polling until P holds, when the polls that fail are bounded.\<close>

lemma reg_wait_returns:
  assumes ok: "emmc_ok b ba v"
    and step: "\<And>d x d'. Q d \<Longrightarrow> bus_read b a d = (x, d') \<Longrightarrow> \<not> P x \<and> Q d' \<and> polls v d' < polls v d \<or> P x \<and> R d'"
    and keep: "\<And>d d'. Q d \<Longrightarrow> keeps v d d' \<Longrightarrow> Q d'"
  shows "Q d \<Longrightarrow> polls v d < n \<Longrightarrow> \<exists>d'. reg_wait b a P n d = Inr (True, d') \<and> R d'"
proof (induction n arbitrary: d)
  case (Suc n)
  obtain x d1 where r: "bus_read b a d = (x, d1)" by (cases "bus_read b a d")
  show ?case
  proof (cases "P x")
    case True
    then show ?thesis using step [OF Suc.prems(1) r] r by auto
  next
    case False
    then have d1: "Q d1" "polls v d1 < polls v d" using step [OF Suc.prems(1) r] by auto
    obtain d2 where d2: "Timer_SleepUsec b 1 d1 = Inr d2" "keeps v d1 d2" using sleep_usec_returns [OF ok] by blast
    then have "Q d2" "polls v d2 < n" using keep d1 Suc.prems(2) by (auto simp: keeps_def)
    then show ?thesis using Suc.IH [of d2] False r d2 by simp
  qed
qed simp

lemma and_eq_submask: "x AND y = m \<Longrightarrow> y AND m = m \<Longrightarrow> x AND m = (m :: 'w::len word)"
  by (metis and.assoc and.idem)

lemma wait_block:
  assumes ok: "emmc_ok b ba v" and ph: "phase v (m_io s) = Waiting (ws # bs)"
  shows "\<exists>d'. mmc_wait_set b 0x30 0x20 2000 s = Inr (True, s\<lparr>m_io := d'\<rparr>) \<and> phase v d' = Avail ws bs \<and>
    card_blocks v d' = card_blocks v (m_io s)"
proof -
  let ?C = "card_blocks v (m_io s)"
  have "\<exists>d'. reg_wait b (EMMC2_BASE + 0x30) (\<lambda>x. x AND 0x20 = 0x20) (Suc (unat ((2000 :: u32) * 1000))) (m_io s) = Inr (True, d') \<and>
     phase v d' = Avail ws bs \<and> card_blocks v d' = ?C"
  proof (rule reg_wait_returns [OF ok, where Q = "\<lambda>d. phase v d = Waiting (ws # bs) \<and> card_blocks v d = ?C"])
    fix d x d'
    assume q: "phase v d = Waiting (ws # bs) \<and> card_blocks v d = ?C" and r: "bus_read b (EMMC2_BASE + 0x30) d = (x, d')"
    have "x AND 0xffff0020 = 0x20 \<Longrightarrow> x AND 0x20 = 0x20"
      by (rule and_eq_submask [where y = "0xffff0020"]) simp_all
    then show "\<not> x AND 0x20 = 0x20 \<and> (phase v d' = Waiting (ws # bs) \<and> card_blocks v d' = ?C) \<and> polls v d' < polls v d \<or>
       x AND 0x20 = 0x20 \<and> phase v d' = Avail ws bs \<and> card_blocks v d' = ?C"
      using emmc_okD(7) [OF ok r] q by (auto simp: irq_read_def)
  qed (use ph emmc_okD(2) [OF ok, of "m_io s"] in \<open>auto simp: keeps_def\<close>)
  then show ?thesis by (auto simp: mmc_wait_set_def RegWaitBitSet_def)
qed

lemma wait_end:
  assumes ok: "emmc_ok b ba v" and ph: "phase v (m_io s) = Waiting []"
  shows "\<exists>d'. mmc_wait_set b 0x30 2 2000 s = Inr (True, s\<lparr>m_io := d'\<rparr>) \<and> phase v d' = Finished \<and>
    card_blocks v d' = card_blocks v (m_io s)"
proof -
  let ?C = "card_blocks v (m_io s)"
  have "\<exists>d'. reg_wait b (EMMC2_BASE + 0x30) (\<lambda>x. x AND 2 = 2) (Suc (unat ((2000 :: u32) * 1000))) (m_io s) = Inr (True, d') \<and>
     phase v d' = Finished \<and> card_blocks v d' = ?C"
  proof (rule reg_wait_returns [OF ok, where Q = "\<lambda>d. phase v d = Waiting [] \<and> card_blocks v d = ?C"])
    fix d x d'
    assume q: "phase v d = Waiting [] \<and> card_blocks v d = ?C" and r: "bus_read b (EMMC2_BASE + 0x30) d = (x, d')"
    have "x AND 0xffff0002 = 2 \<Longrightarrow> x AND 2 = 2" by (rule and_eq_submask [where y = "0xffff0002"]) simp_all
    then show "\<not> x AND 2 = 2 \<and> (phase v d' = Waiting [] \<and> card_blocks v d' = ?C) \<and> polls v d' < polls v d \<or>
       x AND 2 = 2 \<and> phase v d' = Finished \<and> card_blocks v d' = ?C"
      using emmc_okD(7) [OF ok r] q by (auto simp: irq_read_def)
  qed (use ph emmc_okD(2) [OF ok, of "m_io s"] in \<open>auto simp: keeps_def\<close>)
  then show ?thesis by (auto simp: mmc_wait_set_def RegWaitBitSet_def)
qed

text \<open>A command completes within the polls of its time-out.\<close>

lemma wait_command_returns:
  assumes ok: "emmc_ok b ba v"
  shows "phase v (m_io s) = Commanded bs \<Longrightarrow> Suc (polls v (m_io s)) < n \<Longrightarrow>
    \<exists>d'. wait_command b n s = Inr (True, s\<lparr>m_io := d'\<rparr>) \<and> phase v d' = Completed bs \<and> card_blocks v d' = card_blocks v (m_io s)"
proof (induction n arbitrary: s)
  case (Suc n)
  obtain x d1 where r: "bus_read b (EMMC2_BASE + 0x30) (m_io s) = (x, d1)" by (cases "bus_read b (EMMC2_BASE + 0x30) (m_io s)")
  have i: "card_blocks v d1 = card_blocks v (m_io s)"
    "x = 0 \<and> phase v d1 = Commanded bs \<and> polls v d1 < polls v (m_io s) \<or> x AND 0xffff0001 = 1 \<and> phase v d1 = Completed bs"
    using emmc_okD(7) [OF ok r] Suc.prems(1) by (auto simp: irq_read_def)
  show ?case
  proof (cases "x = 0")
    case True
    obtain d2 where d2: "Timer_SleepUsec b 1 d1 = Inr d2" "keeps v d1 d2" using sleep_usec_returns [OF ok] by blast
    then have "phase v (m_io (s\<lparr>m_io := d2\<rparr>)) = Commanded bs" "Suc (polls v (m_io (s\<lparr>m_io := d2\<rparr>))) < n"
      using i True Suc.prems(2) by (auto simp: keeps_def)
    from Suc.IH [OF this] show ?thesis using True r d2 i by (auto simp: rd_def mmc_sleep_usec_def keeps_def)
  next
    case False
    then have "x AND 0xffff0001 = 1" "phase v d1 = Completed bs" using i by auto
    moreover have "x AND 1 = 1" by (rule and_eq_submask [OF calculation(1)]) simp
    ultimately show ?thesis using r i Suc.prems(2) by (auto simp: rd_def)
  qed
qed simp

section \<open>The words of a block reach the buffer\<close>

lemma store_bytes_append:
  assumes "length (xs @ ys) \<le> 2 ^ 64"
  shows "store_bytes (a + of_nat (length xs)) ys (store_bytes a xs m) = store_bytes a (xs @ ys) m"
proof
  fix x
  let ?p = "unat (x - a)" and ?q = "unat (x - (a + of_nat (length xs)))"
  have w: "x - a = of_nat (?q + length xs)" by (simp add: algebra_simps)
  have e: "?q + length xs = ?p" if "?q + length xs < 2 ^ 64" by (simp only: w unat_of_nat_u64 [OF that])
  show "store_bytes (a + of_nat (length xs)) ys (store_bytes a xs m) x = store_bytes a (xs @ ys) m x"
  proof (cases "?p < length xs")
    case True
    then have "\<not> ?q < length ys" using e assms by auto
    then show ?thesis using True by (simp add: store_bytes_def nth_append)
  next
    case False
    moreover have "?p < 2 ^ 64" by (rule less_le_trans [OF unsigned_less]) simp
    ultimately have "?q = ?p - length xs" by (simp add: diff_diff_eq [symmetric] unat_sub word_le_nat_alt unat_of_nat_u64)
    then show ?thesis using False by (auto simp: store_bytes_def nth_append)
  qed
qed

text \<open>The bytes of a word, in memory order.\<close>

lemma store_word_bytes: "store_le 4 m a (w :: u32) = store_bytes a (le_bytes w) m"
proof
  fix x
  have "unat (x - a) < 4 \<Longrightarrow> le_bytes w ! unat (x - a) = ucast (drop_bit (8 * unat (x - a)) w)"
    by (simp add: le_bytes_def del: upt_rec_numeral)
  then show "store_le 4 m a w x = store_bytes a (le_bytes w) m x"
    by (simp add: store_le_def store_bytes_def) (simp add: le_bytes_def)
qed

definition block_bytes :: "u32 list \<Rightarrow> u8 list" where
  "block_bytes ws = concat (map le_bytes ws)"

lemma length_le_bytes [simp]: "length (le_bytes w) = 4"
  by (simp add: le_bytes_def)

lemma length_block_bytes [simp]: "length (block_bytes ws) = 4 * length ws"
  by (induction ws) (simp_all add: block_bytes_def)

lemma block_bytes_simps: "block_bytes [] = []" "block_bytes (w # ws) = le_bytes w @ block_bytes ws"
  "block_bytes (xs @ ys) = block_bytes xs @ block_bytes ys"
  by (simp_all add: block_bytes_def)

lemma transfer_words_read:
  assumes ok: "emmc_ok b ba v"
  shows "phase v (m_io s) = (if ws = [] then Waiting bs else Draining ws bs) \<Longrightarrow> 4 * length ws \<le> 2 ^ 64 \<Longrightarrow>
    \<exists>d'. transfer_words b False (length ws) (kMem a) s =
        Inr (kMem (a + 4 * of_nat (length ws)), set_mem (store_bytes a (block_bytes ws)) (s\<lparr>m_io := d'\<rparr>)) \<and>
      phase v d' = Waiting bs \<and> card_blocks v d' = card_blocks v (m_io s)"
proof (induction ws arbitrary: a s)
  case Nil
  have "store_bytes a [] = (\<lambda>m. m)" by (simp add: store_bytes_def fun_eq_iff)
  then show ?case using Nil by (auto simp: block_bytes_simps set_mem_def intro!: exI [of _ "m_io s"])
next
  case (Cons w ws)
  obtain x d1 where r: "bus_read b (EMMC2_BASE + 0x20) (m_io s) = (x, d1)" by (cases "bus_read b (EMMC2_BASE + 0x20) (m_io s)")
  have d1: "x = w" "phase v d1 = (if ws = [] then Waiting bs else Draining ws bs)" "card_blocks v d1 = card_blocks v (m_io s)"
    using emmc_okD(9) [OF ok _ r] Cons.prems(1) by auto
  let ?s = "set_mem (store_bytes a (le_bytes w)) (s\<lparr>m_io := d1\<rparr>)"
  have "phase v (m_io ?s) = (if ws = [] then Waiting bs else Draining ws bs)" "4 * length ws \<le> 2 ^ 64"
    using d1 Cons.prems(2) by (simp_all add: set_mem_def)
  from Cons.IH [OF this, of "a + 4"] obtain d' where t: "transfer_words b False (length ws) (kMem (a + 4)) ?s =
        Inr (kMem (a + 4 + 4 * of_nat (length ws)), set_mem (store_bytes (a + 4) (block_bytes ws)) (?s\<lparr>m_io := d'\<rparr>))"
      and d': "phase v d' = Waiting bs" "card_blocks v d' = card_blocks v (m_io s)" using d1 by (auto simp: set_mem_def)
  have "store_bytes (a + 4) (block_bytes ws) (store_bytes a (le_bytes w) m) = store_bytes a (block_bytes (w # ws)) m" for m
    using store_bytes_append [of "le_bytes w" "block_bytes ws" a m] Cons.prems(2) by (simp add: block_bytes_simps)
  then have "set_mem (store_bytes (a + 4) (block_bytes ws)) (?s\<lparr>m_io := d'\<rparr>) =
      set_mem (store_bytes a (block_bytes (w # ws))) (s\<lparr>m_io := d'\<rparr>)" by (simp add: set_mem_def)
  moreover have "transfer_words b False (length (w # ws)) (kMem a) s = transfer_words b False (length ws) (kMem (a + 4)) ?s"
    using r d1(1) by (simp add: rd_def set_mem_def store_word_bytes)
  ultimately show ?case using t d' by (intro exI [of _ d']) (simp add: algebra_simps)
qed

lemma transfer_loop_read:
  assumes ok: "emmc_ok b ba v"
  shows "phase v (m_io s) = Waiting bs \<Longrightarrow> block_size (m_dev s) = 512 \<Longrightarrow> \<forall>ws\<in>set bs. length ws = 128 \<Longrightarrow> 512 * length bs \<le> 2 ^ 64 \<Longrightarrow>
    \<exists>d'. transfer_loop b False 0x20 (length bs) (kMem a) (c, s) =
        Inr (True, c, set_mem (store_bytes a (block_bytes (concat bs))) (s\<lparr>m_io := d'\<rparr>)) \<and>
      phase v d' = Waiting [] \<and> card_blocks v d' = card_blocks v (m_io s)"
proof (induction bs arbitrary: a s)
  case Nil
  have "store_bytes a [] = (\<lambda>m. m)" by (simp add: store_bytes_def fun_eq_iff)
  then show ?case using Nil by (auto simp: block_bytes_simps set_mem_def intro!: exI [of _ "m_io s"])
next
  case (Cons ws bs)
  obtain d1 where d1: "mmc_wait_set b 0x30 0x20 2000 s = Inr (True, s\<lparr>m_io := d1\<rparr>)" "phase v d1 = Avail ws bs"
      "card_blocks v d1 = card_blocks v (m_io s)" using wait_block [OF ok Cons.prems(1)] by blast
  obtain x d2 where r: "bus_read b (EMMC2_BASE + 0x30) d1 = (x, d2)" by (cases "bus_read b (EMMC2_BASE + 0x30) d1")
  have d2: "x AND 0xffff0020 = 0x20" "phase v d2 = Avail ws bs" "card_blocks v d2 = card_blocks v d1"
    using emmc_okD(7) [OF ok r] d1(2) by (auto simp: irq_read_def)
  define d3 where "d3 = bus_write b (EMMC2_BASE + 0x30) 0x20 d2"
  have ws: "length ws = 128" using Cons.prems(3) by simp
  then have "phase v (m_io (s\<lparr>m_io := d3\<rparr>)) = (if ws = [] then Waiting bs else Draining ws bs)"
    using emmc_okD(12) [OF ok d2(2)] by (auto simp: d3_def)
  from transfer_words_read [OF ok this] ws obtain d4 where t: "transfer_words b False 128 (kMem a) (s\<lparr>m_io := d3\<rparr>) =
        Inr (kMem (a + 512), set_mem (store_bytes a (block_bytes ws)) (s\<lparr>m_io := d4\<rparr>))"
      and d4: "phase v d4 = Waiting bs" "card_blocks v d4 = card_blocks v d3" by auto
  let ?s = "set_mem (store_bytes a (block_bytes ws)) (s\<lparr>m_io := d4\<rparr>)"
  have "phase v (m_io ?s) = Waiting bs" "block_size (m_dev ?s) = 512" "\<forall>ws\<in>set bs. length ws = 128" "512 * length bs \<le> 2 ^ 64"
    using d4 Cons.prems by (simp_all add: set_mem_def)
  from Cons.IH [OF this, of "a + 512"] obtain d' where l: "transfer_loop b False 0x20 (length bs) (kMem (a + 512)) (c, ?s) =
        Inr (True, c, set_mem (store_bytes (a + 512) (block_bytes (concat bs))) (?s\<lparr>m_io := d'\<rparr>))"
      and d': "phase v d' = Waiting []" "card_blocks v d' = card_blocks v d4" by (auto simp: set_mem_def)
  have len: "4 * length (concat bs) = 512 * length bs" if "\<forall>ws\<in>set bs. length ws = 128" for bs :: "u32 list list"
    using that by (induction bs) auto
  have "store_bytes (a + 512) (block_bytes (concat bs)) (store_bytes a (block_bytes ws) m) = store_bytes a (block_bytes (concat (ws # bs))) m" for m
    using store_bytes_append [of "block_bytes ws" "block_bytes (concat bs)" a m] ws Cons.prems(3,4) len [of bs]
    by (simp add: block_bytes_simps)
  then have "set_mem (store_bytes (a + 512) (block_bytes (concat bs))) (?s\<lparr>m_io := d'\<rparr>) =
      set_mem (store_bytes a (block_bytes (concat (ws # bs)))) (s\<lparr>m_io := d'\<rparr>)" by (simp add: set_mem_def)
  moreover have "transfer_loop b False 0x20 (length (ws # bs)) (kMem a) (c, s) = transfer_loop b False 0x20 (length bs) (kMem (a + 512)) (c, ?s)"
    using d1(1) r d2(1) t Cons.prems(2) by (simp add: rd_def wr_def transfer_block_def d3_def Let_def)
  ultimately show ?case using l d' d1(3) d2(3) d4(2) emmc_okD(10) [OF ok]
    by (intro exI [of _ d']) (simp add: d3_def)
qed

section \<open>A read\<close>

lemma kCommands_read:
  "kCommands ! 17 = CmdRegister.make 0 0 0 1 0 0 2 0 1 0 1 0 17 0"
  "kCommands ! 18 = CmdRegister.make 0 1 1 1 1 0 2 0 1 0 1 0 18 0"
  "length kCommands = 56"
  by (simp_all add: kCommands_def resp_type_def nth_append)

lemma cmd_bits_read: "cmd_bits (kCommands ! 17) = 0x112a0010" "cmd_bits (kCommands ! 18) = 0x122a0036"
  by (simp_all add: kCommands_read CmdRegister.defs cmd_bits_def)

lemma read_command_bits: "read_command 0x112a0010 (Suc 0)" "0 < n \<Longrightarrow> read_command 0x122a0036 n"
  by (simp_all add: read_command_def)

lemma blksizecnt_fields:
  assumes "n \<le> 0xffff"
  shows "(512 OR push_bit 16 n :: u32) AND 0xfff = 512" "unat (drop_bit 16 (512 OR push_bit 16 n :: u32)) = unat n"
proof -
  have b9: "bit (512 :: u32) k \<longleftrightarrow> k = 9" for k
    using bit_exp_iff [where 'a = u32, of 9 k] by auto
  have m: "(0xfff :: u32) = mask 12" by (simp add: mask_eq_exp_minus_1)
  show "(512 OR push_bit 16 n :: u32) AND 0xfff = 512"
    unfolding m by (rule bit_word_eqI) (auto simp: bit_or_iff bit_and_iff bit_push_bit_iff bit_mask_iff b9 simp del: bit_numeral_word_iff)
  have "bit n k \<Longrightarrow> k < 16" for k
  proof -
    assume k: "bit n k"
    have "n = take_bit 16 n"
      using assms by (simp add: word_unat_eq_iff unsigned_take_bit_eq take_bit_nat_eq_self word_le_nat_alt)
    then show "k < 16" using k by (metis bit_take_bit_iff)
  qed
  then have "drop_bit 16 (512 OR push_bit 16 n :: u32) = n"
    by (intro bit_word_eqI) (auto simp: bit_or_iff bit_drop_bit_eq bit_push_bit_iff b9 simp del: bit_numeral_word_iff)
  then show "unat (drop_bit 16 (512 OR push_bit 16 n :: u32)) = unat n" by simp
qed

lemma SendCommand_read:
  assumes ok: "emmc_ok b ba v" and idle: "phase v (m_io s) = Idle" and bs: "block_size (m_dev s) = 512"
    and n: "n \<le> 0xffff" "0 < n" "transfer_blocks c = n"
    and cmd: "cmd_reg c = kCommands ! (if n > 1 then 18 else 17)" and tmo: "cmd_timeout_usec c = 5000"
    and buf: "cmd_buffer c = kMem a" and k: "k = unat (cmd_arg c) div (if ba then 512 else 1)"
  shows "\<exists>d' c'. SendCommand b (c, s) = Inr (True, c',
      set_mem (store_bytes a (block_bytes (concat (map (card_blocks v (m_io s)) [k..<k + unat n])))) (s\<lparr>m_io := d'\<rparr>)) \<and>
    phase v d' = Idle \<and> card_blocks v d' = card_blocks v (m_io s)"
proof -
  let ?C = "card_blocks v (m_io s)" and ?bc = "512 OR push_bit 16 n :: u32" and ?cb = "cmd_bits (cmd_reg c)"
  define d1 where "d1 = bus_write b (EMMC2_BASE + 0x04) ?bc (m_io s)"
  define d2 where "d2 = bus_write b (EMMC2_BASE + 0x08) (cmd_arg c) d1"
  define d3 where "d3 = bus_write b (EMMC2_BASE + 0x0c) ?cb d2"
  define xs where "xs = map ?C [k..<k + unat n]"
  note 1 = emmc_okD(4) [OF ok idle d1_def]
  note 2 = emmc_okD(5) [OF ok conjunct1 [OF 1] d2_def]
  have "read_command ?cb (unat n)"
  proof (cases "n > 1")
    case False
    then have "unat n = Suc 0" using n(2) by (simp add: word_less_nat_alt word_le_nat_alt)
    then show ?thesis using False cmd by (simp add: cmd_bits_read read_command_bits)
  next
    case True
    then show ?thesis using n(2) cmd by (simp add: cmd_bits_read read_command_bits unat_gt_0 word_neq_0_conv)
  qed
  moreover have "blksizecnt v d2 AND 0xfff = 512" "unat (drop_bit 16 (blksizecnt v d2)) = unat n"
    using 1 2 blksizecnt_fields [OF n(1)] by simp_all
  ultimately have 3: "phase v d3 = Commanded xs" "card_blocks v d3 = ?C"
    using emmc_okD(6) [OF ok _ _ _ d3_def k [folded conjunct1 [OF conjunct2 [OF conjunct2 [OF 2]]]]] 1 2 by (auto simp: xs_def)
  have "Suc (polls v d3) < 5000" using emmc_okD(2) [OF ok, of d3] by simp
  then obtain d4 where w: "wait_command b 5000 (s\<lparr>m_io := d3\<rparr>) = Inr (True, s\<lparr>m_io := d4\<rparr>)" and
      4: "phase v d4 = Completed xs" "card_blocks v d4 = ?C"
    using wait_command_returns [OF ok, of "s\<lparr>m_io := d3\<rparr>" xs 5000] 3 by auto
  obtain x5 d5 where r5: "bus_read b (EMMC2_BASE + 0x30) d4 = (x5, d5)" by (cases "bus_read b (EMMC2_BASE + 0x30) d4")
  have 5: "x5 AND 0xffff0001 = 1" "phase v d5 = Completed xs" "card_blocks v d5 = ?C"
    using emmc_okD(7) [OF ok r5] 4 by (auto simp: irq_read_def)
  define d6 where "d6 = bus_write b (EMMC2_BASE + 0x30) 0xffff0001 d5"
  have 6: "phase v d6 = Waiting xs" "card_blocks v d6 = ?C"
    using emmc_okD(10,11) [OF ok] 5 by (simp_all add: d6_def)
  obtain x7 d7 where r7: "bus_read b (EMMC2_BASE + 0x10) d6 = (x7, d7)" by (cases "bus_read b (EMMC2_BASE + 0x10) d6")
  have 7: "phase v d7 = Waiting xs" "card_blocks v d7 = ?C" using emmc_okD(8) [OF ok r7] 6 by (simp_all add: keeps_def)
  let ?c = "c\<lparr>cmd_response := (cmd_response c)[0 := x7]\<rparr>"
  have rt: "response_type (cmd_reg c) = 2" "is_data (cmd_reg c) = 1" "direction (cmd_reg c) = 1"
    using cmd by (auto simp: kCommands_read CmdRegister.defs)
  have W: "WaitCommandDone b (c, s\<lparr>m_io := d3\<rparr>) = Inr (True, ?c, s\<lparr>m_io := d7\<rparr>)"
    using w r5 r7 5(1) rt tmo by (simp add: WaitCommandDone_def rd_def wr_def read_response_def resp_type_def d6_def)
  have "phase v (m_io (s\<lparr>m_io := d7\<rparr>)) = Waiting xs" "block_size (m_dev (s\<lparr>m_io := d7\<rparr>)) = 512" "\<forall>ws\<in>set xs. length ws = 128"
    "512 * length xs \<le> 2 ^ 64"
    using 7 bs emmc_okD(1) [OF ok] n(1) by (auto simp: xs_def word_le_nat_alt)
  from transfer_loop_read [OF ok this, of a ?c] obtain d8 where t: "transfer_loop b False 0x20 (unat n) (kMem a) (?c, s\<lparr>m_io := d7\<rparr>) =
      Inr (True, ?c, set_mem (store_bytes a (block_bytes (concat xs))) (s\<lparr>m_io := d8\<rparr>))"
      and 8: "phase v d8 = Waiting []" "card_blocks v d8 = ?C" using 7 by (auto simp: xs_def)
  let ?s = "\<lambda>d. set_mem (store_bytes a (block_bytes (concat xs))) (s\<lparr>m_io := d\<rparr>)"
  have P: "PerformDataTransfer b (?c, s\<lparr>m_io := d7\<rparr>) = Inr (True, ?c, ?s d8)"
    using t rt buf n(3) by (simp add: PerformDataTransfer_def)
  have io: "m_io (?s d) = d" "(?s d)\<lparr>m_io := d'\<rparr> = ?s d'" for d d' by (simp_all add: set_mem_def)
  obtain d9 where w9: "mmc_wait_set b 0x30 2 2000 (?s d8) = Inr (True, ?s d9)"
      and 9: "phase v d9 = Finished" "card_blocks v d9 = ?C" using wait_end [OF ok, of "?s d8", unfolded io] 8 by metis
  obtain x10 d10 where r10: "bus_read b (EMMC2_BASE + 0x30) d9 = (x10, d10)" by (cases "bus_read b (EMMC2_BASE + 0x30) d9")
  have 10: "x10 AND 0xffff0002 = 2" "phase v d10 = Finished" "card_blocks v d10 = ?C"
    using emmc_okD(7) [OF ok r10] 9 by (auto simp: irq_read_def)
  define d11 where "d11 = bus_write b (EMMC2_BASE + 0x30) 0xffff0002 d10"
  define d12 where "d12 = bus_write b (EMMC2_BASE + 0x30) 0xffff0002 d11"
  have 12: "phase v d12 = Idle" "card_blocks v d12 = ?C"
    using emmc_okD(10,13) [OF ok] 10 by (simp_all add: d12_def d11_def)
  have "rd b 0x30 (?s d9) = (x10, ?s d10)" "wr b 0x30 0xffff0002 (?s d10) = ?s d11" "wr b 0x30 0xffff0002 (?s d11) = ?s d12"
    using r10 by (simp_all add: rd_def wr_def set_mem_def d11_def d12_def)
  moreover have "wr b 0x0c ?cb (wr b 0x08 (cmd_arg c) (wr b 0x04 ?bc s)) = s\<lparr>m_io := d3\<rparr>"
    by (simp add: wr_def d1_def d2_def d3_def)
  moreover have "\<not> transfer_blocks c > 0xffff" using n(1,3) by simp
  ultimately have "SendCommand b (c, s) = Inr (True, ?c, ?s d12)"
    using W P w9 10(1) rt n(3) bs by (simp add: SendCommand_def resp_type_def)
  then show ?thesis using 12 unfolding xs_def by blast
qed

lemma data_tries_first: "SendCommand b (c, s) = Inr (True, c', t) \<Longrightarrow> data_tries b kRetryMax (c, s) = Inr (True, t)"
  by (simp add: kRetryMax_def eval_nat_numeral)

lemma Mmc_Seek_block:
  assumes "unat off mod 512 = 0" "block_size (m_dev s) = 512"
  shows "Mmc_Seek off s = (True, s\<lparr>m_dev := (m_dev s)\<lparr>seek_offset := off\<rparr>\<rparr>)"
proof -
  have "off mod 512 = 0" using assms(1) by (simp add: word_unat_eq_iff unat_mod)
  then show ?thesis using assms(2) by (simp add: Mmc_Seek_def)
qed

lemma mmc_read_at:
  assumes ok: "emmc_ok b ba v" and idle: "phase v (m_io s) = Idle" and bs: "block_size (m_dev s) = 512" and ba: "sdhc (m_dev s) = (\<not> ba)"
    and off: "unat (seek_offset (m_dev s)) mod 512 = 0" "unat (seek_offset (m_dev s)) < 2 ^ 32 * (if ba then 1 else 512)"
    and k: "k = unat (seek_offset (m_dev s)) div 512" and n: "n \<le> 0xffff" "0 < n"
  shows "\<exists>d'. Mmc_Read b buf (512 * n) s =
      Inr (512 * uint n, set_mem (store_bytes buf (block_bytes (concat (map (card_blocks v (m_io s)) [k..<k + unat n])))) (s\<lparr>m_io := d'\<rparr>)) \<and>
    phase v d' = Idle \<and> card_blocks v d' = card_blocks v (m_io s)"
proof -
  let ?off = "seek_offset (m_dev s)"
  have un: "unat n \<le> 0xffff" "0 < unat n" using n by (simp_all add: word_le_nat_alt unat_gt_0 word_neq_0_conv)
  have u512: "unat (512 * n) = 512 * unat n" using un by (simp add: unat_word_ariths)
  let ?q = "ucast (?off div 512) :: u32"
  have q: "unat ?q = unat ?off div 512"
    using off(2) by (simp add: unsigned_ucast_eq unat_div take_bit_nat_eq_self split: if_splits)
  define arg where "arg = (if \<not> sdhc (m_dev s) then ?q * 512 else ?q)"
  have "unat (?q * 512) = unat ?off" if ba
    using that off q by (simp add: unat_word_ariths) (metis dvd_div_mult_self mod_0_imp_dvd mod_less mult.commute)
  then have ka: "k = unat arg div (if ba then 512 else 1)" using q ba k by (simp add: arg_def)
  have "512 * n div 512 = n" using u512 by (simp add: word_unat_eq_iff unat_div)
  moreover have "512 * n mod 512 = 0" using u512 by (simp add: word_unat_eq_iff unat_mod)
  moreover have "\<not> 512 * n < 512" using u512 un by (simp add: word_less_nat_alt)
  ultimately have h: "\<not> (512 * n < block_size (m_dev s) \<or> 512 * n mod block_size (m_dev s) \<noteq> 0)" "512 * n div block_size (m_dev s) = n"
    using bs by auto
  let ?t = "if n > 1 then READ_MULTIPLE_BLOCK else READ_SINGLE_BLOCK"
  let ?c = "command_data\<lparr>cmd_type := ?t, cmd_reg := kCommands ! (if n > 1 then 18 else 17), cmd_arg := arg, cmd_timeout_usec := 5000,
      transfer_blocks := n, cmd_buffer := kMem buf\<rparr>"
  have sc: "set_command ?t arg 5000 (command_data\<lparr>transfer_blocks := n, cmd_buffer := kMem buf\<rparr>) = Inr ?c"
    by (simp add: set_command_def cmd_number_def kCommands_read command_data_def)
  have "\<exists>d' c'. SendCommand b (?c, s) = Inr (True, c',
      set_mem (store_bytes buf (block_bytes (concat (map (card_blocks v (m_io s)) [k..<k + unat n])))) (s\<lparr>m_io := d'\<rparr>)) \<and>
    phase v d' = Idle \<and> card_blocks v d' = card_blocks v (m_io s)"
    by (rule SendCommand_read [OF ok _ _ n]) (use idle bs ka in simp_all)
  then obtain d' c' where st: "SendCommand b (?c, s) = Inr (True, c',
      set_mem (store_bytes buf (block_bytes (concat (map (card_blocks v (m_io s)) [k..<k + unat n])))) (s\<lparr>m_io := d'\<rparr>))"
      and d': "phase v d' = Idle" "card_blocks v d' = card_blocks v (m_io s)" by blast
  have "data_tries b kRetryMax (?c, s) = Inr (True, set_mem (store_bytes buf (block_bytes (concat (map (card_blocks v (m_io s))
      [k..<k + unat n])))) (s\<lparr>m_io := d'\<rparr>))"
    by (rule data_tries_first [OF st])
  moreover have "HandleDataCommand b False buf (512 * n) ?q s = data_tries b kRetryMax (?c, s)"
    unfolding HandleDataCommand_def if_not_P [OF h(1)] h(2) Let_def
    using sc by (simp add: arg_def cong: if_cong)
  moreover have "sint (512 * n) = 512 * uint n"
  proof -
    have u: "uint (512 * n) = 512 * uint n" by (simp only: uint_nat u512)
    have "uint n \<le> 0xffff" "0 \<le> uint n" using un(1) uint_nat [of n] by linarith+
    moreover have "- (2 ^ 31) \<le> 512 * uint n" by (rule order_trans [of _ 0]) simp_all
    ultimately have "signed_take_bit 31 (512 * uint n) = 512 * uint n" by (intro signed_take_bit_int_eq_self) simp_all
    with u show ?thesis by (simp add: sint_uint)
  qed
  ultimately show ?thesis using d' bs by (intro exI [of _ d']) (simp add: Mmc_Read_def)
qed

text \<open>
  C16. On a host controller and card that follow the documented protocol, seeking to a block and reading
  returns the number of bytes asked for, puts the bytes of those blocks of the card, in order, into the
  buffer and changes no other byte, and leaves the controller idle and the card as it was. This holds
  for cards addressed by blocks and by bytes.
\<close>

theorem mmc_read:
  assumes "emmc_ok b ba v" and "phase v (m_io s) = Idle" and bs: "block_size (m_dev s) = 512" and "sdhc (m_dev s) = (\<not> ba)"
    and off: "unat off mod 512 = 0" and "unat off < 2 ^ 32 * (if ba then 1 else 512)" and "n \<le> 0xffff" "0 < n"
  shows "\<exists>d'. Mmc_Read b buf (512 * n) (snd (Mmc_Seek off s)) =
      Inr (512 * uint n, set_mem (store_bytes buf (block_bytes (concat (map (card_blocks v (m_io s)) [unat off div 512..<unat off div 512 + unat n]))))
        (s\<lparr>m_dev := (m_dev s)\<lparr>seek_offset := off\<rparr>, m_io := d'\<rparr>)) \<and>
    phase v d' = Idle \<and> card_blocks v d' = card_blocks v (m_io s)"
  using mmc_read_at [OF assms(1), of "s\<lparr>m_dev := (m_dev s)\<lparr>seek_offset := off\<rparr>\<rparr>" "unat off div 512" n buf] assms(2-)
  by (simp add: Mmc_Seek_block [OF off bs])

text \<open>
  The divider that is computed for a clock rate never reaches the controller: the mask of the second
  write clears its bits and the third write leaves them out, so that changing the clock rate does the
  same whatever the rate.
\<close>

lemma clock_rate_ignored:
  "ChangeClockRate b base1 rate1 s = ChangeClockRate b base2 rate2 s"
proof -
  have "(c OR GetClockDivider base rate) AND NOT 0xffe0 = c AND NOT 0xffe0" for c base rate :: u32
  proof (rule bit_word_eqI)
    fix i
    have m: "0xff = (mask 8 :: u32)" "3 = (mask 2 :: u32)" "0xffe0 = (push_bit 5 (mask 11) :: u32)"
      by (simp_all add: mask_eq_exp_minus_1)
    have "\<exists>q. GetClockDivider base rate = push_bit 8 (q AND 0xff) OR push_bit 6 (drop_bit 8 q AND 3)"
      unfolding GetClockDivider_def Let_def by (rule exI, rule refl)
    then obtain q where q: "GetClockDivider base rate = push_bit 8 (q AND 0xff) OR push_bit 6 (drop_bit 8 q AND 3)" by blast
    show "bit ((c OR GetClockDivider base rate) AND NOT 0xffe0) i \<longleftrightarrow> bit (c AND NOT 0xffe0) i"
      unfolding q m by (auto simp: bit_or_iff bit_and_iff bit_not_iff bit_push_bit_iff bit_mask_iff)
  qed
  then show ?thesis by (simp add: ChangeClockRate_def Let_def)
qed


section \<open>A card that answers at once\<close>

record demo_card =
  dc_phase :: read_phase
  dc_bsc :: u32
  dc_arg :: u32
  dc_time :: nat

definition demo_block :: "nat \<Rightarrow> u32 list" where
  "demo_block i = replicate 128 (of_nat i)"

definition demo_irq :: "read_phase \<Rightarrow> u32 \<times> read_phase" where
  "demo_irq p = (case p of
     Commanded bs \<Rightarrow> (1, Completed bs) | Completed bs \<Rightarrow> (1, Completed bs)
   | Waiting [] \<Rightarrow> (2, Finished) | Waiting (ws # bs) \<Rightarrow> (0x20, Avail ws bs)
   | Avail ws bs \<Rightarrow> (0x20, Avail ws bs) | Finished \<Rightarrow> (2, Finished) | p \<Rightarrow> (0, p))"

definition demo_ack :: "u32 \<Rightarrow> read_phase \<Rightarrow> read_phase" where
  "demo_ack x p = (case p of
     Completed bs \<Rightarrow> if x = 0xffff0001 then Waiting bs else p
   | Avail ws bs \<Rightarrow> if x = 0x20 then Draining ws bs else p
   | Finished \<Rightarrow> if x = 0xffff0002 then Idle else p | _ \<Rightarrow> p)"

definition demo_data :: "read_phase \<Rightarrow> u32 \<times> read_phase" where
  "demo_data p = (case p of Draining (w # ws) bs \<Rightarrow> (w, if ws = [] then Waiting bs else Draining ws bs) | _ \<Rightarrow> (0, p))"

definition demo_emmc :: "demo_card bus" where
  "demo_emmc = \<lparr>bus_read = (\<lambda>a d.
       if a = SystemTimerRegs_CLO then (of_nat (dc_time d), d\<lparr>dc_time := Suc (dc_time d)\<rparr>)
       else if a = EMMC2_BASE + 0x30 then let (x, p) = demo_irq (dc_phase d) in (x, d\<lparr>dc_phase := p\<rparr>)
       else if a = EMMC2_BASE + 0x20 then let (x, p) = demo_data (dc_phase d) in (x, d\<lparr>dc_phase := p\<rparr>)
       else (0, d)),
     bus_write = (\<lambda>a x d.
       if a = EMMC2_BASE + 0x04 then d\<lparr>dc_bsc := x\<rparr>
       else if a = EMMC2_BASE + 0x08 then d\<lparr>dc_arg := x\<rparr>
       else if a = EMMC2_BASE + 0x0c then d\<lparr>dc_phase := Commanded (map demo_block
              [unat (dc_arg d)..<unat (dc_arg d) + unat (drop_bit 16 (dc_bsc d))])\<rparr>
       else if a = EMMC2_BASE + 0x30 then d\<lparr>dc_phase := demo_ack x (dc_phase d)\<rparr> else d)\<rparr>"

definition demo_view :: "demo_card emmc_view" where
  "demo_view = \<lparr>phase = dc_phase, blksizecnt = dc_bsc, arg1 = dc_arg, card_blocks = (\<lambda>_. demo_block), polls = (\<lambda>_. 0),
     ticks = dc_time, stall = (\<lambda>_. 0)\<rparr>"

lemma demo_emmc_ok: "emmc_ok demo_emmc False demo_view"
  unfolding emmc_ok_def
  by (intro conjI)
    (auto simp: demo_emmc_def demo_view_def SystemTimerRegs_CLO_def SYSTEM_TIMER_BASE_def EMMC2_BASE_def Let_def keeps_def
      demo_block_def irq_read_def demo_irq_def demo_ack_def demo_data_def split: read_phase.splits list.splits prod.splits)

theorem mmc_read_witness:
  "\<exists>d'. Mmc_Read demo_emmc 0x80000 1024 (snd (Mmc_Seek 0x600
      \<lparr>m_dev = device_boot\<lparr>sdhc := True, block_size := 512\<rparr>, m_heap = heap_boot 0 0 0 (\<lambda>_. 0), m_io = \<lparr>dc_phase = Idle, dc_bsc = 0, dc_arg = 0, dc_time = 7\<rparr>\<rparr>)) =
    Inr (1024, set_mem (store_bytes 0x80000 (block_bytes (demo_block 3 @ demo_block 4)))
      \<lparr>m_dev = device_boot\<lparr>sdhc := True, block_size := 512, seek_offset := 0x600\<rparr>, m_heap = heap_boot 0 0 0 (\<lambda>_. 0), m_io = d'\<rparr>)"
proof -
  have u: "[3..<3 + 2] = [3, 4 :: nat]" by (simp add: upt_rec)
  show ?thesis
    using mmc_read [OF demo_emmc_ok, of "\<lparr>m_dev = device_boot\<lparr>sdhc := True, block_size := 512\<rparr>, m_heap = heap_boot 0 0 0 (\<lambda>_. 0),
        m_io = \<lparr>dc_phase = Idle, dc_bsc = 0, dc_arg = 0, dc_time = 7\<rparr>\<rparr>" "0x600" 2 "0x80000"] u
    by (auto simp: demo_view_def)
qed

end
