(* ===== verification/EvFat.thy ===== *)
theory EvFat
  imports EvMmc "HOL-Library.Log_Nat"
begin

text \<open>
  The FAT32 file system (fs/fat/fat32.cc) on the SD card driver. The structures of the disk are read
  from the sector buffer in memory; the cluster list of a file is a linked list of nodes from
  \<open>operator new\<close>, kept in a store from addresses to nodes.
\<close>

section \<open>Structures\<close>

record fat32_bpb =
  BS_JmpBoot :: "u8 list"
  BS_OEMName :: "u8 list"
  BPB_BytsPerSec :: u16
  BPB_SecPerClus :: u8
  BPB_RsvdSecCnt :: u16
  BPB_NumFATs :: u8
  BPB_RootEntCnt :: u16
  BPB_TotSec16 :: u16
  BPB_Media :: u8
  BPB_FATSz16 :: u16
  BPB_SecPerTrk :: u16
  BPB_NumHeads :: u16
  BPB_HiddSec :: u32
  BPB_TotSec32 :: u32
  BPB_FATSz32 :: u32
  BPB_ExtFlags :: u16
  BPB_FSVer :: u16
  BPB_RootClus :: u32
  BPB_FSInfo :: u16
  BPB_BkBootSec :: u16
  BPB_Reserved :: "u8 list"
  BS_DrvNum :: u8
  BS_Reserved :: u8
  BS_BootSig :: u8
  BS_VolID :: u32
  BS_VolLab :: "u8 list"
  BS_FilSysType :: "u8 list"
  BS_BootCode32 :: "u8 list"
  BS_BootSign :: u16

definition bpb_at :: "mem \<Rightarrow> u64 \<Rightarrow> fat32_bpb" where
  "bpb_at m a = \<lparr>BS_JmpBoot = load_bytes a 3 m, BS_OEMName = load_bytes (a + 3) 8 m,
     BPB_BytsPerSec = load_le 2 m (a + 11), BPB_SecPerClus = m (a + 13), BPB_RsvdSecCnt = load_le 2 m (a + 14),
     BPB_NumFATs = m (a + 16), BPB_RootEntCnt = load_le 2 m (a + 17), BPB_TotSec16 = load_le 2 m (a + 19),
     BPB_Media = m (a + 21), BPB_FATSz16 = load_le 2 m (a + 22), BPB_SecPerTrk = load_le 2 m (a + 24),
     BPB_NumHeads = load_le 2 m (a + 26), BPB_HiddSec = load_le 4 m (a + 28), BPB_TotSec32 = load_le 4 m (a + 32),
     BPB_FATSz32 = load_le 4 m (a + 36), BPB_ExtFlags = load_le 2 m (a + 40), BPB_FSVer = load_le 2 m (a + 42),
     BPB_RootClus = load_le 4 m (a + 44), BPB_FSInfo = load_le 2 m (a + 48), BPB_BkBootSec = load_le 2 m (a + 50),
     BPB_Reserved = load_bytes (a + 52) 12 m, BS_DrvNum = m (a + 64), BS_Reserved = m (a + 65), BS_BootSig = m (a + 66),
     BS_VolID = load_le 4 m (a + 67), BS_VolLab = load_bytes (a + 71) 11 m, BS_FilSysType = load_bytes (a + 82) 8 m,
     BS_BootCode32 = load_bytes (a + 90) 420 m, BS_BootSign = load_le 2 m (a + 510)\<rparr>"

record ClusterLinkedListNode =
  node_val :: u32
  node_prev :: u64
  node_next :: u64

text \<open>The \<open>fat\<close> of a file is the index of its volume.\<close>

record fat32_file =
  file_fat :: nat
  file_attr :: u8
  file_size :: u32
  file_cluster_root :: u64

record fat32_fat =
  fat_bpb :: fat32_bpb
  fat_root :: fat32_file
  first_lba :: u32
  fat_first_sector :: u32
  fat_sectors :: u32
  rde_first_sector :: u32
  rde_sectors :: u32
  data_first_sector :: u32
  data_sectors :: u32
  fat_valid :: bool

record fat32_dir =
  DIR_Name :: "u8 list"
  DIR_Attr :: u8
  DIR_NTRes :: u8
  DIR_CrtTimeTenth :: u8
  DIR_CrtTime :: u16
  DIR_CrtDate :: u16
  DIR_LstAccDate :: u16
  DIR_FstClusHI :: u16
  DIR_WrtTime :: u16
  DIR_WrtDate :: u16
  DIR_FstClusLO :: u16
  DIR_FileSize :: u32

definition dir_at :: "mem \<Rightarrow> u64 \<Rightarrow> fat32_dir" where
  "dir_at m a = \<lparr>DIR_Name = load_bytes a 11 m, DIR_Attr = m (a + 11), DIR_NTRes = m (a + 12), DIR_CrtTimeTenth = m (a + 13),
     DIR_CrtTime = load_le 2 m (a + 14), DIR_CrtDate = load_le 2 m (a + 16), DIR_LstAccDate = load_le 2 m (a + 18),
     DIR_FstClusHI = load_le 2 m (a + 20), DIR_WrtTime = load_le 2 m (a + 22), DIR_WrtDate = load_le 2 m (a + 24),
     DIR_FstClusLO = load_le 2 m (a + 26), DIR_FileSize = load_le 4 m (a + 28)\<rparr>"

record fat32_lfn =
  LDIR_Ord :: u8
  LDIR_Name1 :: "u8 list"
  LDIR_Attr :: u8
  LDIR_Type :: u8
  LDIR_Chksum :: u8
  LDIR_Name2 :: "u8 list"
  LDIR_FstClusLO :: u16
  LDIR_Name3 :: "u8 list"

definition lfn_at :: "mem \<Rightarrow> u64 \<Rightarrow> fat32_lfn" where
  "lfn_at m a = \<lparr>LDIR_Ord = m a, LDIR_Name1 = load_bytes (a + 1) 10 m, LDIR_Attr = m (a + 11), LDIR_Type = m (a + 12),
     LDIR_Chksum = m (a + 13), LDIR_Name2 = load_bytes (a + 14) 12 m, LDIR_FstClusLO = load_le 2 m (a + 26),
     LDIR_Name3 = load_bytes (a + 28) 4 m\<rparr>"

text \<open>The object, with the static result arrays of \<open>GetSfn\<close> and \<open>GetLfn\<close>.\<close>

record 'd fs =
  fs_initialized :: bool
  fs_volume :: "fat32_fat list"
  fs_nodes :: "u64 \<Rightarrow> ClusterLinkedListNode option"
  sfn_result :: "u8 list"
  lfn_result :: "u8 list"
  fs_mmc :: "'d mmc"

definition MAX_FAT_VOLUME_SIZE :: nat where "MAX_FAT_VOLUME_SIZE = 4"
definition kBlockSize :: u32 where "kBlockSize = 512"
definition kFat32MaxFileNameSize :: u64 where "kFat32MaxFileNameSize = 255"
definition kBootSignature :: u16 where "kBootSignature = 0xAA55"
definition kAttrLongName :: u8 where "kAttrLongName = 0x0f"
definition kAttrDirectory :: u8 where "kAttrDirectory = 0x10"
definition kDirNameEmptyEntry :: u8 where "kDirNameEmptyEntry = 0x00"
definition kDirNameKanjiEntry :: u8 where "kDirNameKanjiEntry = 0x05"
definition kDirNameRemovedEntry :: u8 where "kDirNameRemovedEntry = 0xE5"
definition kLfnLastLongEntry :: u8 where "kLfnLastLongEntry = 0x40"
definition kBadCluster :: u32 where "kBadCluster = 0x0FFFFFF7"

definition fs_heap :: "'d fs \<Rightarrow> heap" where "fs_heap s = m_heap (fs_mmc s)"
definition fs_mem :: "'d fs \<Rightarrow> mem" where "fs_mem s = dram (fs_heap s)"
definition fs_set_heap :: "heap \<Rightarrow> 'd fs \<Rightarrow> 'd fs" where "fs_set_heap h s = s\<lparr>fs_mmc := (fs_mmc s)\<lparr>m_heap := h\<rparr>\<rparr>"

section \<open>Sectors and clusters\<close>

definition ReadSector :: "'d bus \<Rightarrow> u32 \<Rightarrow> u32 \<Rightarrow> 'd fs \<Rightarrow> (u64 \<times> 'd fs) res" where
  "ReadSector b lba sector_num s =
     rbind (kmm_uncached_malloc (ucast PAGE_SIZE) (fs_heap s)) (\<lambda>(buf, h).
     let m = snd (Mmc_Seek (ucast (kBlockSize * lba)) ((fs_mmc s)\<lparr>m_heap := h\<rparr>))
     in rbind (Mmc_Read b buf (kBlockSize * sector_num) m) (\<lambda>(r, m).
        Inr (if r < 0 then 0 else buf, s\<lparr>fs_mmc := m\<rparr>)))"

definition fs_free :: "u64 \<Rightarrow> 'd fs \<Rightarrow> 'd fs res" where
  "fs_free p s = rbind (kmm_uncached_free p (fs_heap s)) (\<lambda>h. Inr (fs_set_heap h s))"

definition free_if :: "u64 \<Rightarrow> 'd fs \<Rightarrow> 'd fs res" where
  "free_if p s = (if p \<noteq> 0 then fs_free p s else Inr s)"

definition CheckBpb :: "fat32_bpb \<Rightarrow> bool" where
  "CheckBpb bpb \<longleftrightarrow> BPB_BytsPerSec bpb = ucast kBlockSize \<and> BS_BootSign bpb = kBootSignature \<and>
     BS_FilSysType bpb ! 0 = 0x46 \<and> BS_FilSysType bpb ! 1 = 0x41 \<and> BS_FilSysType bpb ! 2 = 0x54"

definition IsValidCluster :: "u32 \<Rightarrow> bool" where
  "IsValidCluster cluster \<longleftrightarrow> cluster \<ge> 2 \<and> cluster \<le> 0xffffff6"

definition new_node :: "u32 \<Rightarrow> 'd fs \<Rightarrow> (u64 \<times> 'd fs) res" where
  "new_node v s = rbind (operator_new 24 (fs_heap s)) (\<lambda>(p, h).
     Inr (p, (fs_set_heap h s)\<lparr>fs_nodes := (fs_nodes s)(p \<mapsto> \<lparr>node_val = v, node_prev = 0, node_next = 0\<rparr>)\<rparr>))"

definition node_at :: "u64 \<Rightarrow> 'd fs \<Rightarrow> ClusterLinkedListNode res" where
  "node_at p s = (if p = 0 then Inl NullDeref else case fs_nodes s p of None \<Rightarrow> Inl OutOfBounds | Some n \<Rightarrow> Inr n)"

definition set_next :: "u64 \<Rightarrow> u64 \<Rightarrow> 'd fs \<Rightarrow> 'd fs res" where
  "set_next p q s = rbind (node_at p s) (\<lambda>n. Inr (s\<lparr>fs_nodes := (fs_nodes s)(p \<mapsto> n\<lparr>node_next := q\<rparr>)\<rparr>))"

definition InitFile :: "nat \<Rightarrow> u8 \<Rightarrow> u32 \<Rightarrow> u32 \<Rightarrow> 'd fs \<Rightarrow> (fat32_file \<times> 'd fs) res" where
  "InitFile fat attr sz cluster s = rbind (new_node cluster s) (\<lambda>(p, s).
     Inr (\<lparr>file_fat = fat, file_attr = attr, file_size = sz, file_cluster_root = p\<rparr>, s))"

definition CalcSector :: "fat32_fat \<Rightarrow> u32 \<Rightarrow> u64 \<Rightarrow> u32" where
  "CalcSector fat cluster offset =
     (let spc = ucast (BPB_SecPerClus (fat_bpb fat)) :: u32;
          first_sector = data_first_sector fat + (cluster - 2) * spc;
          sector_offset = offset mod ucast (spc * kBlockSize) div ucast kBlockSize
      in first_sector + ucast sector_offset)"

text \<open>The sector of the FAT that holds the entry of a cluster, and the offset in it.\<close>

definition fat_entry_sector :: "fat32_fat \<Rightarrow> u32 \<Rightarrow> u32" where
  "fat_entry_sector fat cluster = fat_first_sector fat + cluster * 4 div ucast (BPB_BytsPerSec (fat_bpb fat))"

definition fat_entry_offset :: "fat32_fat \<Rightarrow> u32 \<Rightarrow> u32" where
  "fat_entry_offset fat cluster = cluster * 4 mod ucast (BPB_BytsPerSec (fat_bpb fat))"

definition fat_entry :: "u64 \<Rightarrow> u32 \<Rightarrow> 'd fs \<Rightarrow> u32 res" where
  "fat_entry buf off s = (if buf = 0 then Inl NullDeref else Inr (load_le 4 (fs_mem s) (buf + ucast off) AND 0x0fffffff))"

text \<open>The loop over the clusters before an offset; \<open>buf\<close> is the last sector of the FAT that was read.\<close>

fun cluster_walk :: "'d bus \<Rightarrow> fat32_fat \<Rightarrow> nat \<Rightarrow> u64 \<Rightarrow> u32 \<Rightarrow> u64 \<Rightarrow> 'd fs \<Rightarrow> (u32 \<times> u64 \<times> 'd fs) res" where
  "cluster_walk b fat 0 cluster_list cluster buf s = Inr (cluster, buf, s)"
| "cluster_walk b fat (Suc n) cluster_list cluster buf s =
     rbind (node_at cluster_list s) (\<lambda>node.
     if node_next node = 0
     then rbind (free_if buf s) (\<lambda>s.
          rbind (ReadSector b (first_lba fat + fat_entry_sector fat cluster) 1 s) (\<lambda>(buf, s).
          rbind (fat_entry buf (fat_entry_offset fat cluster) s) (\<lambda>cluster.
          if \<not> IsValidCluster cluster then Inr (kBadCluster, buf, s)
          else rbind (new_node cluster s) (\<lambda>(p, s).
               rbind (set_next cluster_list p s) (\<lambda>s.
               cluster_walk b fat n p cluster buf s)))))
     else rbind (node_at (node_next node) s) (\<lambda>node'.
          cluster_walk b fat n (node_next node) (node_val node') buf s))"

text \<open>The count is an \<open>int\<close>: a quotient of a 32 bit number by at least 512.\<close>

definition CalcCluster :: "'d bus \<Rightarrow> fat32_fat \<Rightarrow> u64 \<Rightarrow> u32 \<Rightarrow> 'd fs \<Rightarrow> (u32 \<times> 'd fs) res" where
  "CalcCluster b fat cluster_list offset s =
     (let bpb = fat_bpb fat;
          max_sector = offset div (ucast (BPB_SecPerClus bpb) * ucast (BPB_BytsPerSec bpb))
      in rbind (node_at cluster_list s) (\<lambda>node.
         rbind (cluster_walk b fat (unat max_sector) cluster_list (node_val node) 0 s) (\<lambda>(cluster, buf, s).
         rbind (free_if buf s) (\<lambda>s. Inr (cluster, s)))))"

definition CalcNextCluster :: "'d bus \<Rightarrow> fat32_fat \<Rightarrow> u64 \<Rightarrow> 'd fs \<Rightarrow> (u32 \<times> 'd fs) res" where
  "CalcNextCluster b fat cluster_list s =
     rbind (node_at cluster_list s) (\<lambda>node.
     let sector = fat_entry_sector fat (node_val node);
         offset = fat_entry_offset fat (node_val node)
     in if node_next node = 0
        then rbind (ReadSector b (first_lba fat + sector) 1 s) (\<lambda>(buf, s).
             rbind (fat_entry buf offset s) (\<lambda>next_cluster.
             rbind (fs_free buf s) (\<lambda>s.
             rbind (new_node next_cluster s) (\<lambda>(p, s).
             rbind (set_next cluster_list p s) (\<lambda>s. Inr (next_cluster, s))))))
        else rbind (node_at (node_next node) s) (\<lambda>node'. Inr (node_val node', s)))"

definition CalcNextSector :: "'d bus \<Rightarrow> fat32_fat \<Rightarrow> u32 \<Rightarrow> u64 \<Rightarrow> 'd fs \<Rightarrow> (u32 \<times> 'd fs) res" where
  "CalcNextSector b fat cur_sector cluster_list s =
     (let secs_per_clus = ucast (BPB_SecPerClus (fat_bpb fat)) :: u32
      in if cur_sector mod secs_per_clus \<noteq> secs_per_clus - 1 then Inr (cur_sector + 1, s)
         else rbind (CalcNextCluster b fat cluster_list s) (\<lambda>(next_cluster, s). Inr (CalcSector fat next_cluster 0, s)))"

section \<open>File names\<close>

definition CreateLfnSum :: "fat32_dir \<Rightarrow> u8" where
  "CreateLfnSum entry = fold (\<lambda>c sum. drop_bit 1 sum + push_bit 7 sum + c) (DIR_Name entry) 0"

text \<open>Copy name characters until a space, which is copied too.\<close>

fun sfn_copy :: "u8 list \<Rightarrow> nat \<Rightarrow> u8 list \<Rightarrow> u8 list" where
  "sfn_copy [] i result = result"
| "sfn_copy (c # cs) i result =
     (let result = result[i := c]
      in if c = 0x20 then result
         else sfn_copy cs (Suc i) (if c = kDirNameKanjiEntry then result[i := 0xe5] else result))"

definition GetSfn :: "fat32_dir \<Rightarrow> u8 list \<Rightarrow> u8 list" where
  "GetSfn entry result =
     (let result = sfn_copy (take 8 (DIR_Name entry)) 0 result;
          result = (if DIR_Name entry ! 8 \<noteq> 0x20 then sfn_copy (drop 8 (DIR_Name entry)) 9 (result[8 := 0x2e]) else result)
      in result[12 := 0])"

definition lfn_chars :: "fat32_lfn \<Rightarrow> u8 list" where
  "lfn_chars l = map (\<lambda>i. LDIR_Name1 l ! (2 * i)) [0..<5] @ map (\<lambda>i. LDIR_Name2 l ! (2 * i)) [0..<6] @
     map (\<lambda>i. LDIR_Name3 l ! (2 * i)) [0..<2]"

fun put_chars :: "u8 list \<Rightarrow> nat \<Rightarrow> u8 list \<Rightarrow> u8 list res" where
  "put_chars [] p result = Inr result"
| "put_chars (c # cs) p result = rbind (arr_set result p c) (put_chars cs (Suc p))"

text \<open>The loop ends at the latest with sequence number 32, which no entry has.\<close>

function lfn_loop :: "mem \<Rightarrow> u8 \<Rightarrow> u64 \<Rightarrow> u64 \<Rightarrow> u64 \<Rightarrow> bool \<Rightarrow> nat \<Rightarrow> nat \<Rightarrow> u8 list \<Rightarrow> (bool \<times> u8 list) res" where
  "lfn_loop m chk prev_entry lfn offset is_prev_sector sq p result =
     (let to_prev = (\<not> is_prev_sector \<and> offset AND ucast (kBlockSize - 1) = 0);
          lfn = (if to_prev then prev_entry else lfn - 32);
          is_prev_sector = (is_prev_sector \<or> to_prev);
          l = lfn_at m lfn
      in if lfn = 0 \<or> LDIR_Chksum l \<noteq> chk \<or> LDIR_Attr l AND kAttrLongName \<noteq> kAttrLongName \<or> unat (LDIR_Ord l AND 0x1f) \<noteq> sq
         then Inr (False, result)
         else rbind (put_chars (lfn_chars l) p result) (\<lambda>result.
              if LDIR_Ord l AND kLfnLastLongEntry \<noteq> 0
              then rbind (arr_set result (p + 13) 0) (\<lambda>result. Inr (True, result))
              else lfn_loop m chk prev_entry lfn (offset - 32) is_prev_sector (Suc sq) (p + 13) result))"
  by pat_completeness auto
termination
proof (relation "measure (\<lambda>(m, chk, prev_entry, lfn, offset, is_prev_sector, sq, p, result). 32 - sq)", goal_cases)
  case (2 m chk prev_entry lfn offset is_prev_sector sq p result)
  have "unat (x AND 0x1f) \<le> 31" for x :: u8
    using word_and_le1 [of x "0x1f"] by (simp add: word_le_nat_alt)
  moreover have "unat (LDIR_Ord (lfn_at m y) AND 0x1f) = sq" if "\<not> (y = 0 \<or> LDIR_Chksum (lfn_at m y) \<noteq> chk \<or>
      LDIR_Attr (lfn_at m y) AND kAttrLongName \<noteq> kAttrLongName \<or> unat (LDIR_Ord (lfn_at m y) AND 0x1f) \<noteq> sq)" for y
    using that by simp
  ultimately have "sq \<le> 31" using 2 by (metis (no_types, lifting))
  then show ?case by simp
qed simp

declare lfn_loop.simps [simp del]

definition GetLfn :: "u64 \<Rightarrow> u64 \<Rightarrow> u64 \<Rightarrow> mem \<Rightarrow> u8 list \<Rightarrow> (bool \<times> u8 list) res" where
  "GetLfn entry offset prev_entry m result =
     lfn_loop m (CreateLfnSum (dir_at m entry)) prev_entry entry offset False 1 0 result"

definition list_cstr :: "u8 list \<Rightarrow> cstr" where
  "list_cstr cs i = (if i < length cs then cs ! i else 0)"

section \<open>Mounting\<close>

definition kMbrPartition :: nat where "kMbrPartition = 446"

definition mount_partition :: "mem \<Rightarrow> u64 \<Rightarrow> nat \<Rightarrow> fat32_fat \<Rightarrow> fat32_fat" where
  "mount_partition m buf i vol =
     (if m (buf + of_nat (kMbrPartition + 16 * i + 4)) \<noteq> 0xc then vol\<lparr>fat_valid := False\<rparr>
      else vol\<lparr>fat_valid := True, first_lba := load_le 4 m (buf + of_nat (kMbrPartition + 8))\<rparr>)"

definition fat_areas :: "fat32_fat \<Rightarrow> fat32_fat" where
  "fat_areas vol =
     (let bpb = fat_bpb vol;
          vol = vol\<lparr>fat_first_sector := ucast (BPB_RsvdSecCnt bpb)\<rparr>;
          vol = vol\<lparr>fat_sectors := BPB_FATSz32 bpb * ucast (BPB_NumFATs bpb)\<rparr>;
          vol = vol\<lparr>rde_first_sector := fat_first_sector vol + fat_sectors vol\<rparr>;
          vol = vol\<lparr>rde_sectors := ucast ((32 * ucast (BPB_RootEntCnt bpb) + ucast (BPB_BytsPerSec bpb) - 1 :: u64)
                  div ucast (BPB_BytsPerSec bpb))\<rparr>;
          vol = vol\<lparr>data_first_sector := rde_first_sector vol + rde_sectors vol\<rparr>
      in vol\<lparr>data_sectors := BPB_TotSec32 bpb - data_first_sector vol\<rparr>)"

definition mount_volume :: "'d bus \<Rightarrow> nat \<Rightarrow> 'd fs \<Rightarrow> 'd fs res" where
  "mount_volume b i s =
     rbind (arr_get (fs_volume s) i) (\<lambda>vol.
     if \<not> fat_valid vol then Inr s
     else rbind (ReadSector b (first_lba vol) 1 s) (\<lambda>(buf, s).
     if buf = 0 then Inl NullDeref
     else let vol = vol\<lparr>fat_bpb := bpb_at (fs_mem s) buf\<rparr>
     in rbind (fs_free buf s) (\<lambda>s.
     if \<not> CheckBpb (fat_bpb vol) then Inr (s\<lparr>fs_volume := (fs_volume s)[i := vol\<lparr>fat_valid := False\<rparr>]\<rparr>)
     else let vol = fat_areas vol;
              clusters = data_sectors vol div ucast (BPB_SecPerClus (fat_bpb vol))
     in if clusters < 65526 then Inr (s\<lparr>fs_volume := (fs_volume s)[i := vol\<lparr>fat_valid := False\<rparr>]\<rparr>)
        else rbind (InitFile i kAttrDirectory 0 (BPB_RootClus (fat_bpb vol)) s) (\<lambda>(root, s).
             Inr (s\<lparr>fs_volume := (fs_volume s)[i := vol\<lparr>fat_root := root\<rparr>]\<rparr>)))))"

fun mount_volumes :: "'d bus \<Rightarrow> nat list \<Rightarrow> 'd fs \<Rightarrow> 'd fs res" where
  "mount_volumes b [] s = Inr s"
| "mount_volumes b (i # is) s = rbind (mount_volume b i s) (mount_volumes b is)"

definition Fat_Init :: "'d bus \<Rightarrow> (u32 \<Rightarrow> mem \<Rightarrow> mem) \<Rightarrow> u32 \<Rightarrow> 'd fs \<Rightarrow> (bool \<times> 'd fs) res" where
  "Fat_Init b vc junk s =
     (let s = s\<lparr>fs_initialized := False\<rparr>
      in rbind (Mmc_Open b vc junk (fs_mmc s)) (\<lambda>(ok, m).
         if \<not> ok then Inl Panic
         else rbind (ReadSector b 0 1 (s\<lparr>fs_mmc := m\<rparr>)) (\<lambda>(buf, s).
         if buf = 0 then Inl NullDeref
         else if load_le 2 (fs_mem s) (buf + 510) \<noteq> kBootSignature
         then rbind (fs_free buf s) (\<lambda>s. Inr (False, s))
         else let s = s\<lparr>fs_volume := map (\<lambda>i. mount_partition (fs_mem s) buf i (fs_volume s ! i)) [0..<MAX_FAT_VOLUME_SIZE]\<rparr>
              in rbind (fs_free buf s) (\<lambda>s.
                 rbind (mount_volumes b [0..<MAX_FAT_VOLUME_SIZE] s) (\<lambda>s. Inr (True, s\<lparr>fs_initialized := True\<rparr>))))))"

section \<open>Opening a file\<close>

text \<open>An entry in use: its name is compared, and the file is initialised when it is the one that is opened.\<close>

definition match_entry :: "fat32_fat \<Rightarrow> cstr \<Rightarrow> u64 \<Rightarrow> nat \<Rightarrow> u64 \<Rightarrow> 'd fs \<Rightarrow> (fat32_file option \<times> 'd fs) res" where
  "match_entry fat filename a i prev_buf s =
     (let entry = dir_at (fs_mem s) a
      in rbind (GetLfn a (of_nat i) (if prev_buf \<noteq> 0 then prev_buf + (512 - 32) else 0) (fs_mem s) (lfn_result s)) (\<lambda>(is_lfn, lr).
         let s = s\<lparr>lfn_result := lr\<rparr>;
             s = (if is_lfn then s else s\<lparr>sfn_result := GetSfn entry (sfn_result s)\<rparr>);
             entry_filename = list_cstr (if is_lfn then lfn_result s else sfn_result s)
         in if strncmp filename entry_filename kFat32MaxFileNameSize = 0
            then let c = push_bit 16 (ucast (DIR_FstClusHI entry)) OR ucast (DIR_FstClusLO entry);
                     c = (if c = 0 then BPB_RootClus (fat_bpb fat) else c)
                 in rbind (InitFile (file_fat (fat_root fat)) (DIR_Attr entry) (DIR_FileSize entry) c s) (\<lambda>(f, s). Inr (Some f, s))
            else Inr (None, s)))"

text \<open>The entries of a sector. The result is the file when it was found.\<close>

fun scan_entries :: "fat32_fat \<Rightarrow> cstr \<Rightarrow> u64 \<Rightarrow> u64 \<Rightarrow> nat list \<Rightarrow> 'd fs \<Rightarrow> (fat32_file option \<times> 'd fs) res" where
  "scan_entries fat filename buf prev_buf [] s = Inr (None, s)"
| "scan_entries fat filename buf prev_buf (i # is) s =
     (let a = buf + of_nat i; entry = dir_at (fs_mem s) a
      in if DIR_Name entry ! 0 = kDirNameEmptyEntry then Inr (None, s)
         else if DIR_Name entry ! 0 = kDirNameRemovedEntry then scan_entries fat filename buf prev_buf is s
         else if DIR_Attr entry AND kAttrLongName \<noteq> 0 then scan_entries fat filename buf prev_buf is s
         else rbind (match_entry fat filename a i prev_buf s) (\<lambda>(found, s).
              if found \<noteq> None then Inr (found, s) else scan_entries fat filename buf prev_buf is s))"

definition open_sector :: "'d bus \<Rightarrow> fat32_fat \<Rightarrow> cstr \<Rightarrow> u32 \<times> u64 \<times> u64 \<Rightarrow> 'd fs \<Rightarrow>
    (fat32_file option \<times> u32 \<times> (u32 \<times> u64 \<times> u64) \<times> 'd fs) res" where
  "open_sector b fat filename = (\<lambda>(sector, cluster_list, prev_buf) s.
     rbind (ReadSector b (first_lba fat + sector) 1 s) (\<lambda>(buf, s).
     if buf = 0 then Inl NullDeref
     else rbind (scan_entries fat filename buf prev_buf (map (\<lambda>k. 32 * k) [0..<16]) s) (\<lambda>(found, s).
          rbind (free_if prev_buf s) (\<lambda>s.
          rbind (CalcNextSector b fat sector cluster_list s) (\<lambda>(sector, s).
          rbind (node_at cluster_list s) (\<lambda>node.
          rbind (node_at (node_next node) s) (\<lambda>node'.
          Inr (found, node_val node', (sector, node_next node, buf), s))))))))"

partial_function (option) open_loop :: "'d bus \<Rightarrow> fat32_fat \<Rightarrow> cstr \<Rightarrow> u32 \<Rightarrow> u32 \<times> u64 \<times> u64 \<Rightarrow> 'd fs \<Rightarrow>
    (fat32_file option \<times> u64 \<times> 'd fs) res option" where
  "open_loop b fat filename cluster p s =
     (if IsValidCluster cluster
      then case open_sector b fat filename p s of
          Inl e \<Rightarrow> Some (Inl e)
        | Inr (found, cluster, p, s) \<Rightarrow>
            (if found \<noteq> None then Some (Inr (found, snd (snd p), s)) else open_loop b fat filename cluster p s)
      else Some (Inr (None, snd (snd p), s)))"

definition Fat_Open :: "'d bus \<Rightarrow> cstr \<Rightarrow> 'd fs \<Rightarrow> (fat32_file option \<times> 'd fs) res" where
  "Fat_Open b filename s =
     (if \<not> fs_initialized s then Inr (None, s)
      else rbind (arr_get (fs_volume s) 0) (\<lambda>vol.
      let root = fat_root vol
      in if file_attr root AND kAttrDirectory = 0 then Inr (None, s)
         else rbind (node_at (file_cluster_root root) s) (\<lambda>node.
              rbind (arr_get (fs_volume s) (file_fat root)) (\<lambda>fat.
              rbind (case open_loop b fat filename (node_val node) (CalcSector fat (node_val node) 0, file_cluster_root root, 0) s of
                       None \<Rightarrow> Inl Diverge | Some r \<Rightarrow> r) (\<lambda>(found, prev_buf, s).
              rbind (free_if prev_buf s) (\<lambda>s. Inr (found, s)))))))"

section \<open>Reading a file\<close>

partial_function (option) find_node :: "'d fs \<Rightarrow> u32 \<Rightarrow> u64 \<Rightarrow> u64 res option" where
  "find_node s cluster p =
     (case node_at p s of
        Inl e \<Rightarrow> Some (Inl e)
      | Inr n \<Rightarrow> (if node_val n \<noteq> cluster then find_node s cluster (node_next n) else Some (Inr p)))"

text \<open>An unsigned integer as a \<open>float\<close>: 24 significant bits, ties to even.\<close>

definition float32 :: "nat \<Rightarrow> nat" where
  "float32 n = (let k = floorlog 2 n - 24; q = n div 2 ^ k; r = n mod 2 ^ k; h = 2 ^ k div 2
     in (if k = 0 \<or> r < h \<or> r = h \<and> even q then q else Suc q) * 2 ^ k)"

text \<open>\<open>static_cast<float>(remains) / kBlockSize + 0.5\<close>, truncated\<close>

definition read_sectors_of :: "u32 \<Rightarrow> u32" where
  "read_sectors_of remains = of_nat ((float32 (unat remains) + 256) div 512)"

definition fs_memcpy :: "u64 \<Rightarrow> u64 \<Rightarrow> u32 \<Rightarrow> 'd fs \<Rightarrow> 'd fs res" where
  "fs_memcpy dst src n s =
     Inr (fs_set_heap ((fs_heap s)\<lparr>dram := memcpy dst src (ucast n) (dram (fs_heap s))\<rparr>) s)"

definition read_step :: "'d bus \<Rightarrow> fat32_fat \<Rightarrow> (u64 \<times> u32 \<times> u32 \<times> u32 \<times> u64) \<times> 'd fs \<Rightarrow>
    ((u64 \<times> u32 \<times> u32 \<times> u32 \<times> u64) \<times> 'd fs) res" where
  "read_step b fat = (\<lambda>((buf, remains, sector, sector_offset, cluster_list), s).
     let lba = first_lba fat + sector;
         spc = ucast (BPB_SecPerClus (fat_bpb fat)) :: u32;
         (num, copy_len) =
           (if sector_offset > 0 \<or> remains \<le> kBlockSize \<or> spc = 1 then (1, min remains (kBlockSize - sector_offset))
            else (min (read_sectors_of remains) (spc - sector), min remains (kBlockSize * read_sectors_of remains)))
     in rbind (ReadSector b lba num s) (\<lambda>(read_buf, s).
        if read_buf = 0 then Inl NullDeref
        else rbind (fs_memcpy buf (read_buf + ucast sector_offset) copy_len s) (\<lambda>s.
             rbind (fs_free read_buf s) (\<lambda>s.
             rbind (CalcNextSector b fat sector cluster_list s) (\<lambda>(sector, s).
             rbind (node_at cluster_list s) (\<lambda>node.
             Inr ((buf + ucast copy_len, remains - copy_len, sector, 0, node_next node), s)))))))"

partial_function (option) read_loop :: "'d bus \<Rightarrow> fat32_fat \<Rightarrow> u32 \<Rightarrow> (u64 \<times> u32 \<times> u32 \<times> u32 \<times> u64) \<times> 'd fs \<Rightarrow>
    ((u64 \<times> u32 \<times> u32 \<times> u32 \<times> u64) \<times> 'd fs) res option" where
  "read_loop b fat cluster st =
     (if fst (snd (fst st)) > 0 \<and> IsValidCluster cluster
      then case read_step b fat st of Inl e \<Rightarrow> Some (Inl e) | Inr st \<Rightarrow> read_loop b fat cluster st
      else Some (Inr st))"

definition or_diverge_res :: "'a res option \<Rightarrow> 'a res" where
  "or_diverge_res m = (case m of None \<Rightarrow> Inl Diverge | Some r \<Rightarrow> r)"

definition Fat_Read :: "'d bus \<Rightarrow> fat32_file \<Rightarrow> u64 \<Rightarrow> u32 \<Rightarrow> u64 \<Rightarrow> 'd fs \<Rightarrow> (int \<times> 'd fs) res" where
  "Fat_Read b file buf offset len s =
     (if \<not> fs_initialized s then Inr (0, s)
      else if ucast offset + len > ucast (file_size file) then Inr (0, s)
      else rbind (arr_get (fs_volume s) (file_fat file)) (\<lambda>fat.
        let tail = min (offset + ucast len) (file_size file);
            remains = tail - offset
        in rbind (CalcCluster b fat (file_cluster_root file) offset s) (\<lambda>(cluster, s).
           let sector = CalcSector fat cluster (ucast offset);
               sector_offset = offset mod kBlockSize
           in rbind (or_diverge_res (find_node s cluster (file_cluster_root file))) (\<lambda>cluster_list.
              rbind (or_diverge_res (read_loop b fat cluster ((buf, remains, sector, sector_offset, cluster_list), s)))
                (\<lambda>((_, remains, _, _, _), s). Inr (sint (tail - offset - remains), s))))))"

definition GetFileSize :: "fat32_file \<Rightarrow> int" where
  "GetFileSize file = sint (file_size file)"

definition IsDirectory :: "fat32_file \<Rightarrow> int" where
  "IsDirectory file = (if file_attr file AND kAttrDirectory \<noteq> 0 then 1 else 0)"

end
