(* ===== verification/EvFatRead.thy ===== *)
theory EvFatRead
  imports EvFat
begin

text \<open>
  Reading a file of the FAT32 file system: the cluster list of a file is the chain of its FAT entries,
  and a read of a file on a volume with one sector per cluster gives the bytes of the file.
\<close>

section \<open>The state between two reads\<close>

definition fs_ready :: "bool \<Rightarrow> 'd emmc_view \<Rightarrow> (nat \<Rightarrow> u32 list) \<Rightarrow> 'd fs \<Rightarrow> bool" where
  "fs_ready ba v C s \<longleftrightarrow> phase v (m_io (fs_mmc s)) = Idle \<and> card_blocks v (m_io (fs_mmc s)) = C \<and>
     block_size (m_dev (fs_mmc s)) = 512 \<and> sdhc (m_dev (fs_mmc s)) = (\<not> ba) \<and> heap_inv (fs_heap s)"

definition uncached_page :: "heap \<Rightarrow> nat \<Rightarrow> u64" where
  "uncached_page h i = page_at (kUncachedStart h) i"

definition has_free_page :: "heap \<Rightarrow> bool" where
  "has_free_page h \<longleftrightarrow> (\<exists>i<256. pb_ref_count (kernelUncachedMemoryRegionMap h i) = 0)"

definition uncached_area :: "heap \<Rightarrow> u64 set" where
  "uncached_area h = {a. unat (kUncachedStart h) \<le> unat a \<and> unat a < unat (kUncachedStart h) + 4096 * 256}"

text \<open>What the operations may change: the uncached region, the seek offset, the devices.\<close>

definition fs_step :: "'d fs \<Rightarrow> 'd fs \<Rightarrow> bool" where
  "fs_step s s' \<longleftrightarrow> fs_initialized s' = fs_initialized s \<and> fs_volume s' = fs_volume s \<and> fs_nodes s' = fs_nodes s \<and>
     (\<exists>u m. fs_heap s' = (fs_heap s)\<lparr>kernelUncachedMemoryRegionMap := u, dram := m\<rparr>) \<and>
     (\<forall>a. a \<notin> uncached_area (fs_heap s) \<longrightarrow> fs_mem s' a = fs_mem s a)"

lemma uncached_page_nonzero:
  assumes "heap_inv h" "i < 256"
  shows "uncached_page h i \<noteq> 0" "unat (uncached_page h i) = unat (kUncachedStart h) + i * 4096"
proof -
  have l: "layout_ok h" using assms(1) by (simp add: heap_inv_def)
  then have "0 < unat (kUncachedStart h)" by (simp add: layout_ok_def heap_consts)
  then have "kUncachedStart h \<noteq> 0" by (simp add: unat_gt_0)
  moreover have "unat (kUncachedStart h) + 4096 * 256 \<le> 2 ^ 64"
    using l unat_lt_64 [of "kUserStart h"] by (simp add: layout_ok_def kRegionPageNums_def)
  ultimately show "uncached_page h i \<noteq> 0" "unat (uncached_page h i) = unat (kUncachedStart h) + i * 4096"
    using page_at_nonzero [of "kUncachedStart h" 256 i] assms(2) by (simp_all add: uncached_page_def)
qed

lemma uncached_page_area:
  assumes "heap_inv h" "i < 256" "unat (a - uncached_page h i) < 4096"
  shows "a \<in> uncached_area h"
proof -
  let ?p = "uncached_page h i" and ?k = "unat (a - uncached_page h i)"
  have l: "unat (kUncachedStart h) + 4096 * 256 < 2 ^ 64"
  proof -
    have "layout_ok h" using assms(1) by (simp add: heap_inv_def)
    then show ?thesis using unat_lt_64 [of "kUserStart h"] by (simp add: layout_ok_def heap_consts)
  qed
  note p = uncached_page_nonzero(2) [OF assms(1,2)]
  have "a = ?p + of_nat ?k" by simp
  moreover have "unat (?p + of_nat ?k) = unat ?p + ?k"
    using p l assms(2,3) by (subst unat_add_lem [THEN iffD1]) (simp_all add: unat_of_nat_u64)
  ultimately have "unat a = unat ?p + ?k" by metis
  then show ?thesis using p assms(2,3) by (simp add: uncached_area_def)
qed

lemma uncached_malloc_page:
  assumes "heap_inv h" "has_free_page h"
  shows "\<exists>i<256. pb_ref_count (kernelUncachedMemoryRegionMap h i) = 0 \<and> kmm_uncached_malloc 4096 h =
    Inr (uncached_page h i, h\<lparr>kernelUncachedMemoryRegionMap := (kernelUncachedMemoryRegionMap h)(i := \<lparr>pb_size = 1, pb_ref_count = 1\<rparr>)\<rparr>)"
proof -
  let ?m = "kernelUncachedMemoryRegionMap h"
  have scan: "\<exists>i. uncached_scan ?m 1 j = Inr i" if "j \<le> k" "k < 256" "pb_ref_count (?m k) = 0" for j k
    using that
  proof (induction ?m "1 :: nat" j rule: uncached_scan.induct)
    case (1 j)
    show ?case
    proof (cases "pb_ref_count (?m j) = 0")
      case True
      then show ?thesis using 1 by (subst uncached_scan.simps) (simp add: kRegionPageNums_def)
    next
      case False
      then have "j \<noteq> k" using 1(4) by metis
      then have "\<exists>i. uncached_scan ?m 1 (Suc j) = Inr i" using 1 False by (simp add: kRegionPageNums_def)
      then show ?thesis using 1 False by (subst uncached_scan.simps) (simp add: kRegionPageNums_def)
    qed
  qed
  obtain i where i: "uncached_scan ?m 1 0 = Inr i" using assms(2) scan [of 0] by (auto simp: has_free_page_def)
  note r = uncached_scan_Inr [OF i]
  then have "i < 256" "kmm_is_spaces_available ?m i 1 = Inr True" unfolding kRegionPageNums_def by blast+
  then have f: "i < 256" "pb_ref_count (?m i) = 0" unfolding spaces_available_True by auto
  have "uncached_take i 1 ?m = ?m(i := \<lparr>pb_size = 1, pb_ref_count = 1\<rparr>)"
    using f(2) by (simp add: fun_eq_iff uncached_take_eq)
  moreover have "((4096 + (ucast PAGE_SIZE - 1)) AND NOT (ucast PAGE_SIZE - 1) :: u64) div ucast PAGE_SIZE = 1"
    by (simp add: PAGE_SIZE_def)
  ultimately have "kmm_uncached_malloc 4096 h =
      Inr (uncached_page h i, h\<lparr>kernelUncachedMemoryRegionMap := ?m(i := \<lparr>pb_size = 1, pb_ref_count = 1\<rparr>)\<rparr>)"
    using i by (simp add: kmm_uncached_malloc_def Let_def uncached_page_def page_at_def PAGE_SIZE_def)
  then show ?thesis using f by blast
qed

lemma uncached_free_page:
  assumes "heap_inv h" "i < 256" "kernelUncachedMemoryRegionMap h i = \<lparr>pb_size = 1, pb_ref_count = 1\<rparr>"
  shows "kmm_uncached_free (uncached_page h i) h =
    Inr (h\<lparr>kernelUncachedMemoryRegionMap := (kernelUncachedMemoryRegionMap h)(i := \<lparr>pb_size = 0, pb_ref_count = 0\<rparr>)\<rparr>)"
proof -
  have "unat ((uncached_page h i - kUncachedStart h) div ucast PAGE_SIZE) = i"
    using page_at_index [of i "kUncachedStart h"] assms(2) by (simp add: uncached_page_def)
  then show ?thesis using assms uncached_page_nonzero(1) [OF assms(1,2)]
    by (simp add: kmm_uncached_free_def Let_def kRegionPageNums_def)
qed

section \<open>Reading a sector\<close>

text \<open>A sector buffer: page i of the uncached region.\<close>

definition held :: "'d fs \<Rightarrow> u64 \<Rightarrow> bool" where
  "held s p \<longleftrightarrow> (\<exists>i<256. p = uncached_page (fs_heap s) i \<and>
     kernelUncachedMemoryRegionMap (fs_heap s) i = \<lparr>pb_size = 1, pb_ref_count = 1\<rparr>)"

lemma heap_inv_uncached [simp]: "heap_inv (h\<lparr>kernelUncachedMemoryRegionMap := u\<rparr>) = heap_inv h"
  by (simp add: heap_inv_def layout_ok_def user_page_used_def)

lemma fs_step_refl: "fs_step s s"
  unfolding fs_step_def by (intro conjI exI [of _ "kernelUncachedMemoryRegionMap (fs_heap s)"] exI [of _ "dram (fs_heap s)"]) simp_all

lemma fs_step_trans:
  assumes "fs_step s s1" "fs_step s1 s2"
  shows "fs_step s s2"
proof -
  have "uncached_area (fs_heap s1) = uncached_area (fs_heap s)" using assms(1) by (auto simp: fs_step_def uncached_area_def)
  moreover obtain u m u' m' where "fs_heap s1 = (fs_heap s)\<lparr>kernelUncachedMemoryRegionMap := u, dram := m\<rparr>"
      "fs_heap s2 = (fs_heap s1)\<lparr>kernelUncachedMemoryRegionMap := u', dram := m'\<rparr>"
    using assms unfolding fs_step_def by blast
  then have "fs_heap s2 = (fs_heap s)\<lparr>kernelUncachedMemoryRegionMap := u', dram := m'\<rparr>" by simp
  ultimately show ?thesis using assms unfolding fs_step_def by metis
qed

lemma fs_step_heap:
  assumes "fs_step s s'"
  shows "kmm_used (fs_heap s') = kmm_used (fs_heap s)" "uncached_area (fs_heap s') = uncached_area (fs_heap s)"
    "heap_inv (fs_heap s') = heap_inv (fs_heap s)" "uncached_page (fs_heap s') = uncached_page (fs_heap s)"
  using assms by (auto simp: fs_step_def kmm_used_def uncached_area_def uncached_page_def heap_inv_def layout_ok_def user_page_used_def)

lemma ReadSector_ok:
  assumes ok: "emmc_ok b ba v" and s: "fs_ready ba v C s" "has_free_page (fs_heap s)" and lba: "unat lba < 2 ^ 23"
  shows "\<exists>p s'. ReadSector b lba 1 s = Inr (p, s') \<and> p \<noteq> 0 \<and> held s' p \<and> fs_ready ba v C s' \<and> fs_step s s' \<and>
    fs_mem s' = store_bytes p (block_bytes (C (unat lba))) (fs_mem s)"
proof -
  note r = s(1) [unfolded fs_ready_def]
  have hi: "heap_inv (fs_heap s)" using r by simp
  obtain i where i: "i < 256" and m: "kmm_uncached_malloc 4096 (fs_heap s) = Inr (uncached_page (fs_heap s) i,
      (fs_heap s)\<lparr>kernelUncachedMemoryRegionMap := (kernelUncachedMemoryRegionMap (fs_heap s))(i := \<lparr>pb_size = 1, pb_ref_count = 1\<rparr>)\<rparr>)"
    using uncached_malloc_page [OF hi s(2)] by blast
  let ?p = "uncached_page (fs_heap s) i"
  let ?h = "(fs_heap s)\<lparr>kernelUncachedMemoryRegionMap := (kernelUncachedMemoryRegionMap (fs_heap s))(i := \<lparr>pb_size = 1, pb_ref_count = 1\<rparr>)\<rparr>"
  let ?m = "(fs_mmc s)\<lparr>m_heap := ?h\<rparr>" and ?off = "ucast (kBlockSize * lba) :: u64"
  have off: "unat ?off = 512 * unat lba"
    using lba by (simp add: kBlockSize_def unat_ucast_u32_u64 unat_word_ariths)
  let ?n = "?m\<lparr>m_dev := (m_dev ?m)\<lparr>seek_offset := ?off\<rparr>\<rparr>"
  have seek: "snd (Mmc_Seek ?off ?m) = ?n" using r off by (simp add: Mmc_Seek_block)
  have "\<exists>d'. Mmc_Read b ?p (512 * 1) ?n =
      Inr (512 * uint (1 :: u32), set_mem (store_bytes ?p (block_bytes (concat (map (card_blocks v (m_io ?n)) [unat lba..<unat lba + unat (1 :: u32)])))) (?n\<lparr>m_io := d'\<rparr>)) \<and>
    phase v d' = Idle \<and> card_blocks v d' = card_blocks v (m_io ?n)"
    by (rule mmc_read_at [OF ok]) (use r off lba in simp_all)
  then obtain d' where d: "Mmc_Read b ?p 512 (snd (Mmc_Seek ?off ?m)) =
      Inr (512, set_mem (store_bytes ?p (block_bytes (C (unat lba)))) (?m\<lparr>m_dev := (m_dev ?m)\<lparr>seek_offset := ?off\<rparr>, m_io := d'\<rparr>))"
      and d': "phase v d' = Idle" "card_blocks v d' = C"
    unfolding seek using r by auto
  let ?s = "s\<lparr>fs_mmc := set_mem (store_bytes ?p (block_bytes (C (unat lba)))) (?m\<lparr>m_dev := (m_dev ?m)\<lparr>seek_offset := ?off\<rparr>, m_io := d'\<rparr>)\<rparr>"
  have R: "ReadSector b lba 1 s = Inr (?p, ?s)"
    using m d by (simp add: ReadSector_def PAGE_SIZE_def kBlockSize_def)
  have h: "fs_heap ?s = ?h\<lparr>dram := store_bytes ?p (block_bytes (C (unat lba))) (fs_mem s)\<rparr>"
    by (simp add: fs_heap_def fs_mem_def set_mem_def)
  have len: "length (block_bytes (C (unat lba))) = 512"
    using emmc_okD(1) [OF ok, of "m_io (fs_mmc s)"] r by simp
  have "held ?s ?p" unfolding held_def h using i by (intro exI [of _ i]) (simp add: uncached_page_def)
  moreover have "fs_ready ba v C ?s" using r d' hi unfolding fs_ready_def h by (simp add: set_mem_def)
  moreover have "fs_mem ?s = store_bytes ?p (block_bytes (C (unat lba))) (fs_mem s)" unfolding fs_mem_def h by simp
  moreover have "fs_step s ?s"
  proof -
    have "store_bytes ?p (block_bytes (C (unat lba))) (fs_mem s) a = fs_mem s a" if "a \<notin> uncached_area (fs_heap s)" for a
      using that uncached_page_area [OF hi i, of a] len by (force simp: store_bytes_def)
    then have "\<forall>a. a \<notin> uncached_area (fs_heap s) \<longrightarrow> fs_mem ?s a = fs_mem s a" unfolding fs_mem_def [of ?s] h by simp
    then show ?thesis unfolding fs_step_def
      by (intro conjI exI [of _ "kernelUncachedMemoryRegionMap ?h"] exI [of _ "store_bytes ?p (block_bytes (C (unat lba))) (fs_mem s)"])
        (simp_all add: fs_heap_def set_mem_def fs_mem_def)
  qed
  ultimately show ?thesis using R uncached_page_nonzero(1) [OF hi i] by blast
qed

lemma fs_free_ok:
  assumes "fs_ready ba v C s" "held s p"
  shows "\<exists>s'. fs_free p s = Inr s' \<and> fs_ready ba v C s' \<and> fs_step s s' \<and> has_free_page (fs_heap s') \<and> fs_mem s' = fs_mem s"
proof -
  note r = assms(1) [unfolded fs_ready_def]
  obtain i where i: "i < 256" "p = uncached_page (fs_heap s) i"
    "kernelUncachedMemoryRegionMap (fs_heap s) i = \<lparr>pb_size = 1, pb_ref_count = 1\<rparr>" using assms(2) by (auto simp: held_def)
  let ?h = "(fs_heap s)\<lparr>kernelUncachedMemoryRegionMap := (kernelUncachedMemoryRegionMap (fs_heap s))(i := \<lparr>pb_size = 0, pb_ref_count = 0\<rparr>)\<rparr>"
  have "fs_free p s = Inr (fs_set_heap ?h s)"
    using uncached_free_page [OF _ i(1,3)] r i(2) by (simp add: fs_free_def)
  moreover have h: "fs_heap (fs_set_heap ?h s) = ?h" by (simp add: fs_heap_def fs_set_heap_def)
  moreover have "fs_ready ba v C (fs_set_heap ?h s)" using r unfolding fs_ready_def h by (simp add: fs_set_heap_def)
  moreover have "has_free_page ?h" unfolding has_free_page_def using i(1) by (intro exI [of _ i]) simp
  moreover have "fs_step s (fs_set_heap ?h s)" unfolding fs_step_def h
    by (intro conjI exI [of _ "kernelUncachedMemoryRegionMap ?h"] exI [of _ "dram (fs_heap s)"]) (simp_all add: fs_set_heap_def fs_mem_def fs_heap_def)
  ultimately show ?thesis by (auto simp: fs_mem_def)
qed

section \<open>Entries of the FAT\<close>

lemma le_bytes_nth: "j < 4 \<Longrightarrow> le_bytes w ! j = ucast (drop_bit (8 * j) w)"
  by (simp add: le_bytes_def del: upt_rec_numeral)

lemma block_bytes_nth: "i < length ws \<Longrightarrow> j < 4 \<Longrightarrow> block_bytes ws ! (4 * i + j) = le_bytes (ws ! i) ! j"
proof (induction ws arbitrary: i)
  case (Cons w ws)
  show ?case
  proof (cases i)
    case 0
    then show ?thesis using Cons.prems by (simp add: block_bytes_simps nth_append)
  next
    case (Suc i')
    then show ?thesis using Cons by (simp add: block_bytes_simps nth_append)
  qed
qed simp

lemma load_block_word:
  assumes "i < length ws" "4 * length ws \<le> 2 ^ 64"
  shows "(load_le 4 (store_bytes p (block_bytes ws) m) (p + of_nat (4 * i)) :: u32) = ws ! i"
proof (rule bit_word_eqI)
  fix n assume "n < LENGTH(32)"
  then have n: "n < LENGTH(32)" "n div 8 < 4" by simp_all
  have "4 * i + n div 8 < 4 * length ws" using assms(1) n(2) by linarith
  moreover have "unat (of_nat (4 * i + n div 8) :: u64) = 4 * i + n div 8"
    using calculation assms(2) by (intro unat_of_nat_u64) linarith
  moreover have "p + of_nat (4 * i) + of_nat (n div 8) - p = (of_nat (4 * i + n div 8) :: u64)"
    unfolding of_nat_add by (simp del: of_nat_mult)
  ultimately have a: "store_bytes p (block_bytes ws) m (p + of_nat (4 * i) + of_nat (n div 8)) = le_bytes (ws ! i) ! (n div 8)"
    unfolding store_bytes_def by (simp only: length_block_bytes if_True block_bytes_nth [OF assms(1) n(2)])
  have e: "8 * (n div 8) + n mod 8 = n" by simp
  show "bit (load_le 4 (store_bytes p (block_bytes ws) m) (p + of_nat (4 * i)) :: u32) n \<longleftrightarrow> bit (ws ! i) n"
    unfolding bit_load_le [OF n(1)] a le_bytes_nth [OF n(2)] bit_ucast_iff bit_drop_bit_eq o_def e using n(2) by simp
qed

definition disk_fat :: "(nat \<Rightarrow> u32 list) \<Rightarrow> fat32_fat \<Rightarrow> u32 \<Rightarrow> u32" where
  "disk_fat C fat c = (C (unat (first_lba fat + fat_entry_sector fat c)) ! (unat (fat_entry_offset fat c) div 4)) AND 0x0fffffff"

lemma fat_entry_ok:
  assumes "fs_mem s = store_bytes p (block_bytes (C (unat (first_lba fat + fat_entry_sector fat c)))) m" "p \<noteq> 0"
    and "length (C (unat (first_lba fat + fat_entry_sector fat c))) = 128" "BPB_BytsPerSec (fat_bpb fat) = 512"
  shows "fat_entry p (fat_entry_offset fat c) s = Inr (disk_fat C fat c)"
proof -
  let ?off = "fat_entry_offset fat c"
  have o: "unat ?off = unat (c * 4) mod 512" using assms(4) by (simp add: fat_entry_offset_def unat_mod)
  have "unat (c * 4) = (unat c * 4) mod 2 ^ 32" by (simp add: unat_word_ariths)
  then have "4 dvd unat (c * 4)" by (simp only:) (rule dvd_mod, simp_all)
  then have "4 dvd unat ?off" unfolding o by (rule dvd_mod) simp
  then have "4 * (unat ?off div 4) = unat ?off" by (rule dvd_mult_div_cancel)
  then have "ucast ?off = (of_nat (4 * (unat ?off div 4)) :: u64)" by (metis of_nat_unat)
  moreover have "unat ?off div 4 < 128" using o by (simp add: less_mult_imp_div_less)
  ultimately show ?thesis using assms load_block_word [of "unat ?off div 4" "C (unat (first_lba fat + fat_entry_sector fat c))" p m]
    by (simp add: fat_entry_def disk_fat_def)
qed

section \<open>The cluster list\<close>

definition node_chain :: "'d fs \<Rightarrow> u32 list \<Rightarrow> u64 list \<Rightarrow> bool" where
  "node_chain s vs ps \<longleftrightarrow> length vs = length ps \<and> ps \<noteq> [] \<and> distinct ps \<and>
     (\<forall>i<length ps. ps ! i \<in> kmm_used (fs_heap s) \<and> ps ! i \<noteq> 0 \<and>
        (\<exists>pv. fs_nodes s (ps ! i) = Some \<lparr>node_val = vs ! i, node_prev = pv, node_next = if Suc i < length ps then ps ! Suc i else 0\<rparr>))"

text \<open>As \<open>fs_step\<close>, but nodes may be added.\<close>

definition fs_grow :: "'d fs \<Rightarrow> 'd fs \<Rightarrow> bool" where
  "fs_grow s s' \<longleftrightarrow> fs_initialized s' = fs_initialized s \<and> fs_volume s' = fs_volume s \<and>
     (\<exists>u k m. fs_heap s' = (fs_heap s)\<lparr>kernelUncachedMemoryRegionMap := u, kernelHeapMemMap := k, dram := m\<rparr>) \<and>
     kmm_used (fs_heap s) \<subseteq> kmm_used (fs_heap s') \<and>
     (\<forall>a. a \<notin> uncached_area (fs_heap s) \<longrightarrow> fs_mem s' a = fs_mem s a)"

lemma fs_step_grow: "fs_step s s' \<Longrightarrow> fs_grow s s'"
proof -
  assume st: "fs_step s s'"
  then obtain u m where "fs_heap s' = (fs_heap s)\<lparr>kernelUncachedMemoryRegionMap := u, dram := m\<rparr>" by (auto simp: fs_step_def)
  then have "fs_heap s' = (fs_heap s)\<lparr>kernelUncachedMemoryRegionMap := u, kernelHeapMemMap := kernelHeapMemMap (fs_heap s), dram := m\<rparr>" by simp
  then show "fs_grow s s'" using st fs_step_heap(1) [OF st] unfolding fs_grow_def fs_step_def by blast
qed

lemma fs_grow_heap:
  assumes "fs_grow s s'"
  shows "uncached_area (fs_heap s') = uncached_area (fs_heap s)" "heap_inv (fs_heap s') = heap_inv (fs_heap s)"
    "uncached_page (fs_heap s') = uncached_page (fs_heap s)"
proof -
  obtain u k m where "fs_heap s' = (fs_heap s)\<lparr>kernelUncachedMemoryRegionMap := u, kernelHeapMemMap := k, dram := m\<rparr>"
    using assms unfolding fs_grow_def by blast
  then show "uncached_area (fs_heap s') = uncached_area (fs_heap s)" "heap_inv (fs_heap s') = heap_inv (fs_heap s)"
    "uncached_page (fs_heap s') = uncached_page (fs_heap s)"
    by (simp_all add: uncached_area_def uncached_page_def fun_eq_iff heap_inv_def layout_ok_def user_page_used_def)
qed

lemma fs_grow_trans:
  assumes "fs_grow s s1" "fs_grow s1 s2"
  shows "fs_grow s s2"
proof -
  obtain u k m u' k' m' where "fs_heap s1 = (fs_heap s)\<lparr>kernelUncachedMemoryRegionMap := u, kernelHeapMemMap := k, dram := m\<rparr>"
      "fs_heap s2 = (fs_heap s1)\<lparr>kernelUncachedMemoryRegionMap := u', kernelHeapMemMap := k', dram := m'\<rparr>"
    using assms unfolding fs_grow_def by blast
  then have "fs_heap s2 = (fs_heap s)\<lparr>kernelUncachedMemoryRegionMap := u', kernelHeapMemMap := k', dram := m'\<rparr>" by simp
  then have "\<exists>u k m. fs_heap s2 = (fs_heap s)\<lparr>kernelUncachedMemoryRegionMap := u, kernelHeapMemMap := k, dram := m\<rparr>" by blast
  moreover have "kmm_used (fs_heap s) \<subseteq> kmm_used (fs_heap s2)" using assms unfolding fs_grow_def by blast
  moreover have "fs_mem s2 a = fs_mem s a" if "a \<notin> uncached_area (fs_heap s)" for a
    using assms that fs_grow_heap(1) [OF assms(1)] unfolding fs_grow_def by metis
  ultimately show ?thesis using assms unfolding fs_grow_def by metis
qed

lemma node_chain_step:
  assumes "fs_step s s'"
  shows "node_chain s' vs ps = node_chain s vs ps"
proof -
  have "fs_nodes s' = fs_nodes s" using assms by (simp add: fs_step_def)
  then show ?thesis unfolding node_chain_def fs_step_heap(1) [OF assms] by (simp only:)
qed

lemma node_chain_at:
  assumes "node_chain s vs ps" "i < length ps"
  shows "\<exists>pv. node_at (ps ! i) s = Inr \<lparr>node_val = vs ! i, node_prev = pv, node_next = if Suc i < length ps then ps ! Suc i else 0\<rparr>"
  using assms by (fastforce simp: node_chain_def node_at_def)

text \<open>Adding a node at the end.\<close>

lemma chain_extend:
  assumes ch: "node_chain s vs ps" and r: "fs_ready ba v C s" and room: "card (kmm_used (fs_heap s)) < HEAP_PAGES"
  shows "\<exists>p s1 s'. new_node x s = Inr (p, s1) \<and> set_next (ps ! (length ps - 1)) p s1 = Inr s' \<and> node_chain s' (vs @ [x]) (ps @ [p]) \<and>
    fs_ready ba v C s' \<and> fs_grow s s' \<and> card (kmm_used (fs_heap s')) = Suc (card (kmm_used (fs_heap s))) \<and> fs_mem s' = fs_mem s \<and>
    kernelUncachedMemoryRegionMap (fs_heap s') = kernelUncachedMemoryRegionMap (fs_heap s)"
proof -
  note rd = r [unfolded fs_ready_def]
  have hi: "heap_inv (fs_heap s)" using rd by simp
  have "\<exists>i<HEAP_PAGES. \<not> kernelHeapMemMap (fs_heap s) i"
  proof (rule ccontr)
    assume "\<not> ?thesis"
    then have "{i. i < HEAP_PAGES \<and> kernelHeapMemMap (fs_heap s) i} = {..<HEAP_PAGES}" by auto
    then show False using room by (simp add: kmm_used_card)
  qed
  then obtain i where "first_index (\<lambda>i. \<not> kernelHeapMemMap (fs_heap s) i) 0 HEAP_PAGES = Some i"
    using first_index_None [of "\<lambda>i. \<not> kernelHeapMemMap (fs_heap s) i" 0 HEAP_PAGES]
    by (cases "first_index (\<lambda>i. \<not> kernelHeapMemMap (fs_heap s) i) 0 HEAP_PAGES") auto
  then obtain p h where km: "kmm_malloc 24 (fs_heap s) = Inr (p, h)" by (simp add: kmm_malloc_def)
  note k = kmm_malloc_page [OF km _ hi, simplified]
  obtain kh where h: "h = (fs_heap s)\<lparr>kernelHeapMemMap := kh\<rparr>"
    using km by (auto simp: kmm_malloc_def split: option.splits if_splits)
  have p: "p \<noteq> 0" "p \<notin> kmm_used (fs_heap s)" using k kmm_used_page [OF heap_inv_layout [OF k(1)], of p] by auto
  let ?s1 = "(fs_set_heap h s)\<lparr>fs_nodes := (fs_nodes s)(p \<mapsto> \<lparr>node_val = x, node_prev = 0, node_next = 0\<rparr>)\<rparr>"
  have n: "new_node x s = Inr (p, ?s1)" using km p by (simp add: new_node_def operator_new_def)
  let ?l = "length ps - 1"
  have l: "?l < length ps" "Suc ?l = length ps" using ch by (auto simp: node_chain_def)
  then obtain pv where pv: "fs_nodes s (ps ! ?l) = Some \<lparr>node_val = vs ! ?l, node_prev = pv, node_next = 0\<rparr>" "ps ! ?l \<noteq> 0" "ps ! ?l \<noteq> p"
    using ch p unfolding node_chain_def by fastforce
  let ?s' = "?s1\<lparr>fs_nodes := (fs_nodes ?s1)(ps ! ?l \<mapsto> \<lparr>node_val = vs ! ?l, node_prev = pv, node_next = p\<rparr>)\<rparr>"
  have sn: "set_next (ps ! ?l) p ?s1 = Inr ?s'" using pv by (simp add: set_next_def node_at_def)
  have hs: "fs_heap ?s' = h" by (simp add: fs_heap_def fs_set_heap_def)
  have np: "p \<notin> set ps" using ch p(2) by (auto simp: node_chain_def in_set_conv_nth)
  have "node_chain ?s' (vs @ [x]) (ps @ [p])"
    unfolding node_chain_def hs k(3)
  proof (intro conjI allI impI)
    fix i assume i: "i < length (ps @ [p])"
    show "\<exists>pv. fs_nodes ?s' ((ps @ [p]) ! i) = Some \<lparr>node_val = (vs @ [x]) ! i, node_prev = pv,
        node_next = if Suc i < length (ps @ [p]) then (ps @ [p]) ! Suc i else 0\<rparr>"
    proof (cases "i < ?l")
      case True
      then have ii: "i < length ps" "Suc i < length ps" using l by linarith+
      then obtain pi where "fs_nodes s (ps ! i) = Some \<lparr>node_val = vs ! i, node_prev = pi, node_next = ps ! Suc i\<rparr>"
        using ch unfolding node_chain_def by fastforce
      moreover have "ps ! i \<noteq> ps ! ?l" using ch True ii l by (auto simp: node_chain_def nth_eq_iff_index_eq)
      moreover have "ps ! i \<noteq> p" using np ii(1) nth_mem by metis
      ultimately show ?thesis using ii ch by (simp add: nth_append node_chain_def)
    next
      case False
      show ?thesis
      proof (cases "i = ?l")
        case True
        then show ?thesis using l ch by (simp add: nth_append node_chain_def)
      next
        case F: False
        then have "i = length ps" using False i l by simp
        then show ?thesis using l ch pv(3) by (simp add: nth_append node_chain_def)
      qed
    qed
  qed (use ch np p(1) in \<open>auto simp: node_chain_def nth_append\<close>)
  moreover have "fs_ready ba v C ?s'" using rd k(1) unfolding fs_ready_def hs by (simp add: fs_set_heap_def)
  moreover have "fs_mem ?s' = fs_mem s" unfolding fs_mem_def hs using h by simp
  moreover have "fs_grow s ?s'"
    unfolding fs_grow_def hs k(3)
    by (intro conjI exI [of _ "kernelUncachedMemoryRegionMap (fs_heap s)"] exI [of _ kh] exI [of _ "dram (fs_heap s)"])
      (use calculation(3) h in \<open>auto simp: fs_set_heap_def\<close>)
  moreover have "card (kmm_used (fs_heap ?s')) = Suc (card (kmm_used (fs_heap s)))"
    unfolding hs k(3) using p(2) kmm_used_finite by simp
  ultimately show ?thesis using n sn h hs by (intro exI [of _ p] exI [of _ ?s1] exI [of _ ?s']) auto
qed

section \<open>The cluster list of a file\<close>

definition cluster_at :: "(nat \<Rightarrow> u32 list) \<Rightarrow> fat32_fat \<Rightarrow> u32 \<Rightarrow> nat \<Rightarrow> u32" where
  "cluster_at C fat c0 i = (disk_fat C fat ^^ i) c0"

text \<open>A file of k clusters, on a volume with one sector per cluster, within the first 4 GiB of the card.\<close>

definition file_on_disk :: "(nat \<Rightarrow> u32 list) \<Rightarrow> fat32_fat \<Rightarrow> u32 \<Rightarrow> nat \<Rightarrow> bool" where
  "file_on_disk C fat c0 k \<longleftrightarrow> BPB_BytsPerSec (fat_bpb fat) = 512 \<and> BPB_SecPerClus (fat_bpb fat) = 1 \<and>
     (\<forall>i. length (C i) = 128) \<and> inj_on (cluster_at C fat c0) {..<k} \<and>
     (\<forall>i<k. IsValidCluster (cluster_at C fat c0 i) \<and>
        unat (first_lba fat + fat_entry_sector fat (cluster_at C fat c0 i)) < 2 ^ 23 \<and>
        unat (first_lba fat + CalcSector fat (cluster_at C fat c0 i) 0) < 2 ^ 23)"

text \<open>
  The nodes are the first clusters of the file, and with a node for each of the others the kernel heap
  has at most N pages in use.
\<close>

definition list_state :: "nat \<Rightarrow> (nat \<Rightarrow> u32 list) \<Rightarrow> fat32_fat \<Rightarrow> u32 \<Rightarrow> nat \<Rightarrow> 'd fs \<Rightarrow> u64 list \<Rightarrow> bool" where
  "list_state N C fat c0 k s ps \<longleftrightarrow> node_chain s (map (cluster_at C fat c0) [0..<length ps]) ps \<and>
     length ps \<le> Suc k \<and> card (kmm_used (fs_heap s)) + (Suc k - length ps) \<le> N \<and> N \<le> HEAP_PAGES"

lemma list_step: "fs_step s s' \<Longrightarrow> list_state N C fat c0 k s' ps = list_state N C fat c0 k s ps"
  by (simp add: list_state_def node_chain_step fs_step_heap(1))

lemma list_at:
  assumes "list_state N C fat c0 k s ps" "i < length ps"
  shows "\<exists>pv. node_at (ps ! i) s = Inr \<lparr>node_val = cluster_at C fat c0 i, node_prev = pv,
    node_next = if Suc i < length ps then ps ! Suc i else 0\<rparr>"
  using node_chain_at [of s "map (cluster_at C fat c0) [0..<length ps]" ps i] assms by (simp add: list_state_def)

lemma list_next_nonzero: "list_state N C fat c0 k s ps \<Longrightarrow> i < length ps \<Longrightarrow> ps ! i \<noteq> 0"
  by (simp add: list_state_def node_chain_def)

lemma list_extend:
  assumes l: "list_state N C fat c0 k s ps" and r: "fs_ready ba v C s" and k: "length ps \<le> k"
  shows "\<exists>p s1 s'. new_node (cluster_at C fat c0 (length ps)) s = Inr (p, s1) \<and> set_next (ps ! (length ps - 1)) p s1 = Inr s' \<and>
    list_state N C fat c0 k s' (ps @ [p]) \<and> fs_ready ba v C s' \<and> fs_grow s s' \<and> fs_mem s' = fs_mem s \<and>
    kernelUncachedMemoryRegionMap (fs_heap s') = kernelUncachedMemoryRegionMap (fs_heap s)"
proof -
  have "card (kmm_used (fs_heap s)) + (Suc k - length ps) \<le> N" "N \<le> HEAP_PAGES" using l unfolding list_state_def by blast+
  then have room: "card (kmm_used (fs_heap s)) < HEAP_PAGES" "Suc (card (kmm_used (fs_heap s))) + (Suc k - (length ps + 1)) \<le> N" "N \<le> HEAP_PAGES"
    using k by linarith+
  from chain_extend [OF _ r room(1), of "map (cluster_at C fat c0) [0..<length ps]" ps "cluster_at C fat c0 (length ps)"] l
  obtain p s1 s' where e: "new_node (cluster_at C fat c0 (length ps)) s = Inr (p, s1)" "set_next (ps ! (length ps - 1)) p s1 = Inr s'"
      "node_chain s' (map (cluster_at C fat c0) [0..<length ps] @ [cluster_at C fat c0 (length ps)]) (ps @ [p])"
      "fs_ready ba v C s'" "fs_grow s s'" "card (kmm_used (fs_heap s')) = Suc (card (kmm_used (fs_heap s)))" "fs_mem s' = fs_mem s"
      "kernelUncachedMemoryRegionMap (fs_heap s') = kernelUncachedMemoryRegionMap (fs_heap s)"
    unfolding list_state_def by blast
  have "list_state N C fat c0 k s' (ps @ [p])"
    unfolding list_state_def e(6) length_append using e(3) room(2,3) k by simp
  then show ?thesis using e by blast
qed

lemma has_free_page_uncached: "kernelUncachedMemoryRegionMap h' = kernelUncachedMemoryRegionMap h \<Longrightarrow> has_free_page h' = has_free_page h"
  by (simp add: has_free_page_def)

lemma held_grow:
  "fs_grow s s' \<Longrightarrow> kernelUncachedMemoryRegionMap (fs_heap s') = kernelUncachedMemoryRegionMap (fs_heap s) \<Longrightarrow> held s' p = held s p"
  by (simp add: held_def fs_grow_heap(3))

lemma held_nonzero: "fs_ready ba v C s \<Longrightarrow> held s p \<Longrightarrow> p \<noteq> 0"
  using uncached_page_nonzero(1) by (auto simp: held_def fs_ready_def)

text \<open>Reading the FAT entry of cluster t.\<close>

lemma read_entry:
  assumes ok: "emmc_ok b ba v" and f: "file_on_disk C fat c0 k" "t < k" and r: "fs_ready ba v C s" "has_free_page (fs_heap s)"
    and c: "c = cluster_at C fat c0 t"
  shows "\<exists>p s'. ReadSector b (first_lba fat + fat_entry_sector fat c) 1 s = Inr (p, s') \<and> p \<noteq> 0 \<and> held s' p \<and> fs_ready ba v C s' \<and>
    fs_step s s' \<and> fat_entry p (fat_entry_offset fat c) s' = Inr (cluster_at C fat c0 (Suc t))"
proof -
  let ?L = "first_lba fat + fat_entry_sector fat c"
  have "unat ?L < 2 ^ 23" using f c by (simp add: file_on_disk_def)
  from ReadSector_ok [OF ok r this] obtain p s' where s': "ReadSector b ?L 1 s = Inr (p, s')" "p \<noteq> 0" "held s' p" "fs_ready ba v C s'"
      "fs_step s s'" "fs_mem s' = store_bytes p (block_bytes (C (unat ?L))) (fs_mem s)" by blast
  have "fat_entry p (fat_entry_offset fat c) s' = Inr (disk_fat C fat c)"
    using fat_entry_ok [of s' p C fat c "fs_mem s"] s'(2,6) f(1) by (simp add: file_on_disk_def)
  then show ?thesis using s' c by (auto simp: cluster_at_def)
qed

lemma CalcNextCluster_ok:
  assumes ok: "emmc_ok b ba v" and f: "file_on_disk C fat c0 k" "t < k" and r: "fs_ready ba v C s" "has_free_page (fs_heap s)"
    and l: "list_state N C fat c0 k s ps" "t < length ps"
  shows "\<exists>s' qs. CalcNextCluster b fat (ps ! t) s = Inr (cluster_at C fat c0 (Suc t), s') \<and> fs_ready ba v C s' \<and>
    has_free_page (fs_heap s') \<and> fs_grow s s' \<and> list_state N C fat c0 k s' (ps @ qs) \<and> Suc t < length (ps @ qs)"
proof -
  obtain pv where n: "node_at (ps ! t) s = Inr \<lparr>node_val = cluster_at C fat c0 t, node_prev = pv, node_next = if Suc t < length ps then ps ! Suc t else 0\<rparr>"
    using list_at [OF l] by blast
  show ?thesis
  proof (cases "Suc t < length ps")
    case True
    obtain pv' where "node_at (ps ! Suc t) s = Inr \<lparr>node_val = cluster_at C fat c0 (Suc t), node_prev = pv', node_next = if Suc (Suc t) < length ps then ps ! Suc (Suc t) else 0\<rparr>"
      using list_at [OF l(1) True] by blast
    then have "CalcNextCluster b fat (ps ! t) s = Inr (cluster_at C fat c0 (Suc t), s)"
      using n True list_next_nonzero [OF l(1) True] by (simp add: CalcNextCluster_def Let_def)
    then show ?thesis using r l True fs_step_grow [OF fs_step_refl] by (intro exI [of _ s] exI [of _ "[]"]) simp
  next
    case False
    then have t: "t = length ps - 1" "length ps \<le> k" "length ps = Suc t" using l(2) f(2) by linarith+
    obtain p s1 where 1: "ReadSector b (first_lba fat + fat_entry_sector fat (cluster_at C fat c0 t)) 1 s = Inr (p, s1)" "p \<noteq> 0" "held s1 p"
        "fs_ready ba v C s1" "fs_step s s1" "fat_entry p (fat_entry_offset fat (cluster_at C fat c0 t)) s1 = Inr (cluster_at C fat c0 (Suc t))"
      using read_entry [OF ok f r refl] by blast
    obtain s2 where 2: "fs_free p s1 = Inr s2" "fs_ready ba v C s2" "fs_step s1 s2" "has_free_page (fs_heap s2)"
      using fs_free_ok [OF 1(4,3)] by blast
    have l2: "list_state N C fat c0 k s2 ps" using l(1) list_step [OF 1(5)] list_step [OF 2(3)] by metis
    from list_extend [OF l2 2(2) t(2)] obtain q s3 s4 where
        3: "new_node (cluster_at C fat c0 (Suc t)) s2 = Inr (q, s3)" "set_next (ps ! t) q s3 = Inr s4" and
        4: "list_state N C fat c0 k s4 (ps @ [q])" "fs_ready ba v C s4" "fs_grow s2 s4"
          "kernelUncachedMemoryRegionMap (fs_heap s4) = kernelUncachedMemoryRegionMap (fs_heap s2)"
      unfolding t(3) by auto
    have "CalcNextCluster b fat (ps ! t) s = Inr (cluster_at C fat c0 (Suc t), s4)"
      using n False 1 2(1) 3 by (simp add: CalcNextCluster_def Let_def)
    moreover have "fs_grow s s4" using fs_grow_trans [OF fs_step_grow [OF fs_step_trans [OF 1(5) 2(3)]] 4(3)] .
    moreover have "has_free_page (fs_heap s4)" using 2(4) has_free_page_uncached [OF 4(4)] by simp
    ultimately show ?thesis using 4 t(3) by (intro exI [of _ s4] exI [of _ "[q]"]) simp
  qed
qed

lemma cluster_walk_ok:
  assumes ok: "emmc_ok b ba v" and f: "file_on_disk C fat c0 k"
  shows "t + n < k \<Longrightarrow> fs_ready ba v C s \<Longrightarrow> buf = 0 \<and> has_free_page (fs_heap s) \<or> held s buf \<Longrightarrow>
    list_state N C fat c0 k s ps \<Longrightarrow> t < length ps \<Longrightarrow>
    \<exists>buf' s' qs. cluster_walk b fat n (ps ! t) (cluster_at C fat c0 t) buf s = Inr (cluster_at C fat c0 (t + n), buf', s') \<and>
      fs_ready ba v C s' \<and> (buf' = 0 \<and> has_free_page (fs_heap s') \<or> held s' buf') \<and> fs_grow s s' \<and>
      list_state N C fat c0 k s' (ps @ qs) \<and> t + n < length (ps @ qs)"
proof (induction n arbitrary: t s buf ps)
  case 0
  then show ?case using fs_step_grow [OF fs_step_refl, of s] by (intro exI [of _ buf] exI [of _ s] exI [of _ "[]"]) simp
next
  case (Suc n)
  obtain pv where nd: "node_at (ps ! t) s = Inr \<lparr>node_val = cluster_at C fat c0 t, node_prev = pv, node_next = if Suc t < length ps then ps ! Suc t else 0\<rparr>"
    using list_at [OF Suc.prems(4,5)] by blast
  show ?case
  proof (cases "Suc t < length ps")
    case True
    obtain pv' where "node_at (ps ! Suc t) s = Inr \<lparr>node_val = cluster_at C fat c0 (Suc t), node_prev = pv', node_next = if Suc (Suc t) < length ps then ps ! Suc (Suc t) else 0\<rparr>"
      using list_at [OF Suc.prems(4) True] by blast
    then have "cluster_walk b fat (Suc n) (ps ! t) (cluster_at C fat c0 t) buf s = cluster_walk b fat n (ps ! Suc t) (cluster_at C fat c0 (Suc t)) buf s"
      using nd True list_next_nonzero [OF Suc.prems(4) True] by simp
    then show ?thesis using Suc.IH [OF _ Suc.prems(2,3,4) True] Suc.prems(1) by simp
  next
    case False
    then have t: "length ps \<le> k" "length ps = Suc t" "t < k" "length ps - 1 = t" using Suc.prems(1,5) by linarith+
    obtain s0 where 0: "free_if buf s = Inr s0" "fs_ready ba v C s0" "has_free_page (fs_heap s0)" "fs_step s s0"
    proof (cases "buf = 0")
      case True
      then have "has_free_page (fs_heap s)" using Suc.prems(3) held_nonzero [OF Suc.prems(2)] by blast
      then show ?thesis using that [of s] True Suc.prems(2) fs_step_refl [of s] by (simp add: free_if_def)
    next
      case False
      then show ?thesis using that fs_free_ok [OF Suc.prems(2), of buf] Suc.prems(3) by (auto simp: free_if_def)
    qed
    obtain p s1 where 1: "ReadSector b (first_lba fat + fat_entry_sector fat (cluster_at C fat c0 t)) 1 s0 = Inr (p, s1)" "p \<noteq> 0" "held s1 p"
        "fs_ready ba v C s1" "fs_step s0 s1" "fat_entry p (fat_entry_offset fat (cluster_at C fat c0 t)) s1 = Inr (cluster_at C fat c0 (Suc t))"
      using read_entry [OF ok f t(3) 0(2,3) refl] by blast
    have l1: "list_state N C fat c0 k s1 ps" using Suc.prems(4) list_step [OF 0(4)] list_step [OF 1(5)] by metis
    from list_extend [OF l1 1(4) t(1)] obtain q s3 s4 where
        3: "new_node (cluster_at C fat c0 (Suc t)) s1 = Inr (q, s3)" "set_next (ps ! t) q s3 = Inr s4" and
        4: "list_state N C fat c0 k s4 (ps @ [q])" "fs_ready ba v C s4" "fs_grow s1 s4"
          "kernelUncachedMemoryRegionMap (fs_heap s4) = kernelUncachedMemoryRegionMap (fs_heap s1)"
      unfolding t(2) t(4) by auto
    have h4: "p = 0 \<and> has_free_page (fs_heap s4) \<or> held s4 p" using 1(3) held_grow [OF 4(3,4)] by simp
    have "Suc t + n < k" "Suc t < length (ps @ [q])" using Suc.prems(1) t(2) by simp_all
    from Suc.IH [OF this(1) 4(2) h4 4(1) this(2)] obtain buf' s' qs where
      w: "cluster_walk b fat n ((ps @ [q]) ! Suc t) (cluster_at C fat c0 (Suc t)) p s4 = Inr (cluster_at C fat c0 (Suc t + n), buf', s')" and
      w': "fs_ready ba v C s'" "buf' = 0 \<and> has_free_page (fs_heap s') \<or> held s' buf'" "fs_grow s4 s'"
        "list_state N C fat c0 k s' ((ps @ [q]) @ qs)" "Suc t + n < length ((ps @ [q]) @ qs)" by blast
    have "IsValidCluster (cluster_at C fat c0 (Suc t))" using f Suc.prems(1) by (simp add: file_on_disk_def)
    then have "cluster_walk b fat (Suc n) (ps ! t) (cluster_at C fat c0 t) buf s = Inr (cluster_at C fat c0 (t + Suc n), buf', s')"
      using nd False 0(1) 1(1,6) 3 w t(2) by (simp add: nth_append)
    moreover have "fs_grow s s'" using fs_grow_trans [OF fs_grow_trans [OF fs_step_grow [OF fs_step_trans [OF 0(4) 1(5)]] 4(3)] w'(3)] .
    ultimately show ?thesis using w' by (intro exI [of _ buf'] exI [of _ s'] exI [of _ "q # qs"]) simp
  qed
qed

section \<open>Positions in the cluster list\<close>

lemma CalcCluster_ok:
  assumes ok: "emmc_ok b ba v" and f: "file_on_disk C fat c0 k" and n: "unat offset div 512 < k" and r: "fs_ready ba v C s" "has_free_page (fs_heap s)"
    and l: "list_state N C fat c0 k s ps"
  shows "\<exists>s' qs. CalcCluster b fat (ps ! 0) offset s = Inr (cluster_at C fat c0 (unat offset div 512), s') \<and> fs_ready ba v C s' \<and>
    has_free_page (fs_heap s') \<and> fs_grow s s' \<and> list_state N C fat c0 k s' (ps @ qs) \<and> unat offset div 512 < length (ps @ qs)"
proof -
  have l0: "0 < length ps" using l by (auto simp: list_state_def node_chain_def)
  obtain pv where nd: "node_at (ps ! 0) s = Inr \<lparr>node_val = cluster_at C fat c0 0, node_prev = pv, node_next = if Suc 0 < length ps then ps ! Suc 0 else 0\<rparr>"
    using list_at [OF l l0] by blast
  have m: "unat (offset div (ucast (BPB_SecPerClus (fat_bpb fat)) * ucast (BPB_BytsPerSec (fat_bpb fat)))) = unat offset div 512"
    using f by (simp add: file_on_disk_def unat_div)
  have "0 + unat offset div 512 < k" using n by simp
  from cluster_walk_ok [OF ok f this r(1) _ l l0, of 0] r(2) obtain buf s1 qs where
    w: "cluster_walk b fat (unat offset div 512) (ps ! 0) (cluster_at C fat c0 0) 0 s = Inr (cluster_at C fat c0 (unat offset div 512), buf, s1)" and
    s1: "fs_ready ba v C s1" "buf = 0 \<and> has_free_page (fs_heap s1) \<or> held s1 buf" "fs_grow s s1"
      "list_state N C fat c0 k s1 (ps @ qs)" "unat offset div 512 < length (ps @ qs)" by auto
  obtain s2 where 2: "free_if buf s1 = Inr s2" "fs_ready ba v C s2" "has_free_page (fs_heap s2)" "fs_step s1 s2"
  proof (cases "buf = 0")
    case True
    then have "has_free_page (fs_heap s1)" using s1(2) held_nonzero [OF s1(1)] by blast
    then show ?thesis using that [of s1] True s1(1) fs_step_refl [of s1] by (simp add: free_if_def)
  next
    case False
    then show ?thesis using that fs_free_ok [OF s1(1), of buf] s1(2) by (auto simp: free_if_def)
  qed
  have "CalcCluster b fat (ps ! 0) offset s = Inr (cluster_at C fat c0 (unat offset div 512), s2)"
    unfolding CalcCluster_def Let_def m using nd w 2(1) by simp
  then show ?thesis using 2 s1 list_step [OF 2(4)] fs_grow_trans [OF s1(3) fs_step_grow [OF 2(4)]]
    by (intro exI [of _ s2] exI [of _ qs]) simp
qed

lemma find_node_ok:
  assumes f: "file_on_disk C fat c0 k" and l: "list_state N C fat c0 k s ps" and n: "n < k" "n < length ps"
  shows "i \<le> n \<Longrightarrow> find_node s (cluster_at C fat c0 n) (ps ! i) = Some (Inr (ps ! n))"
proof (induction "n - i" arbitrary: i)
  case 0
  then have "i = n" by simp
  then show ?case using list_at [OF l n(2)] by (subst find_node.simps) auto
next
  case (Suc m)
  then have i: "i < n" "i < length ps" "Suc i < length ps" "i < k" using n by linarith+
  have "cluster_at C fat c0 i \<noteq> cluster_at C fat c0 n"
    using f i(1,4) n(1) unfolding file_on_disk_def by (metis inj_onD lessThan_iff less_irrefl)
  then have "find_node s (cluster_at C fat c0 n) (ps ! i) = find_node s (cluster_at C fat c0 n) (ps ! Suc i)"
    using list_at [OF l i(2)] i(3) by (subst find_node.simps) auto
  then show ?case using Suc.hyps(1) [of "Suc i"] Suc.hyps(2) i(1) by simp
qed

section \<open>One sector of a read\<close>

definition file_sector :: "(nat \<Rightarrow> u32 list) \<Rightarrow> fat32_fat \<Rightarrow> u32 \<Rightarrow> nat \<Rightarrow> u8 list" where
  "file_sector C fat c0 t = block_bytes (C (unat (first_lba fat + CalcSector fat (cluster_at C fat c0 t) 0)))"

definition file_bytes :: "(nat \<Rightarrow> u32 list) \<Rightarrow> fat32_fat \<Rightarrow> u32 \<Rightarrow> nat \<Rightarrow> nat \<Rightarrow> u8 list" where
  "file_bytes C fat c0 t k = concat (map (file_sector C fat c0) [t..<k])"

text \<open>As \<open>fs_grow\<close>, with the bytes that were written outside the uncached region.\<close>

definition fs_writes :: "u64 \<Rightarrow> u8 list \<Rightarrow> 'd fs \<Rightarrow> 'd fs \<Rightarrow> bool" where
  "fs_writes a bs s s' \<longleftrightarrow> fs_initialized s' = fs_initialized s \<and> fs_volume s' = fs_volume s \<and>
     (\<exists>u k m. fs_heap s' = (fs_heap s)\<lparr>kernelUncachedMemoryRegionMap := u, kernelHeapMemMap := k, dram := m\<rparr>) \<and>
     kmm_used (fs_heap s) \<subseteq> kmm_used (fs_heap s') \<and>
     (\<forall>x. x \<notin> uncached_area (fs_heap s) \<longrightarrow> fs_mem s' x = store_bytes a bs (fs_mem s) x)"

lemma store_bytes_Nil [simp]: "store_bytes a [] m = m"
  by (simp add: store_bytes_def)

lemma fs_grow_writes: "fs_grow s s' = fs_writes a [] s s'"
  by (simp add: fs_grow_def fs_writes_def)

lemma fs_writes_heap:
  assumes "fs_writes a bs s s'"
  shows "uncached_area (fs_heap s') = uncached_area (fs_heap s)"
proof -
  obtain u k m where "fs_heap s' = (fs_heap s)\<lparr>kernelUncachedMemoryRegionMap := u, kernelHeapMemMap := k, dram := m\<rparr>"
    using assms unfolding fs_writes_def by blast
  then show ?thesis by (simp add: uncached_area_def)
qed

lemma fs_writes_trans:
  assumes "fs_writes a xs s s1" "fs_writes (a + of_nat (length xs)) ys s1 s2" "length (xs @ ys) \<le> 2 ^ 64"
  shows "fs_writes a (xs @ ys) s s2"
proof -
  obtain u k m u' k' m' where "fs_heap s1 = (fs_heap s)\<lparr>kernelUncachedMemoryRegionMap := u, kernelHeapMemMap := k, dram := m\<rparr>"
      "fs_heap s2 = (fs_heap s1)\<lparr>kernelUncachedMemoryRegionMap := u', kernelHeapMemMap := k', dram := m'\<rparr>"
    using assms unfolding fs_writes_def by blast
  then have "fs_heap s2 = (fs_heap s)\<lparr>kernelUncachedMemoryRegionMap := u', kernelHeapMemMap := k', dram := m'\<rparr>" by simp
  then have "\<exists>u k m. fs_heap s2 = (fs_heap s)\<lparr>kernelUncachedMemoryRegionMap := u, kernelHeapMemMap := k, dram := m\<rparr>" by blast
  moreover have "kmm_used (fs_heap s) \<subseteq> kmm_used (fs_heap s2)" using assms unfolding fs_writes_def by blast
  moreover have "fs_mem s2 x = store_bytes a (xs @ ys) (fs_mem s) x" if x: "x \<notin> uncached_area (fs_heap s)" for x
  proof -
    have "fs_mem s2 x = store_bytes (a + of_nat (length xs)) ys (fs_mem s1) x"
      using assms(2) x fs_writes_heap [OF assms(1)] unfolding fs_writes_def by simp
    also have "\<dots> = store_bytes (a + of_nat (length xs)) ys (store_bytes a xs (fs_mem s)) x"
      using assms(1) x unfolding fs_writes_def store_bytes_def by simp
    also have "\<dots> = store_bytes a (xs @ ys) (fs_mem s) x" by (simp only: store_bytes_append [OF assms(3)])
    finally show ?thesis .
  qed
  ultimately show ?thesis using assms unfolding fs_writes_def by metis
qed

lemma fs_memcpy_ok:
  assumes r: "fs_ready ba v C s" "held s p" and m: "fs_mem s = store_bytes p blk m0" and so: "so < 512" "length blk = 512"
    and n: "unat n \<le> 512 - so" and d: "\<forall>i<unat n. a + of_nat i \<notin> uncached_area (fs_heap s)"
  shows "\<exists>s'. fs_memcpy a (p + of_nat so) n s = Inr s' \<and> fs_ready ba v C s' \<and> held s' p \<and> fs_nodes s' = fs_nodes s \<and>
    kmm_used (fs_heap s') = kmm_used (fs_heap s) \<and> fs_writes a (take (unat n) (drop so blk)) s s'"
proof -
  let ?m = "memcpy a (p + of_nat so) (ucast n) (dram (fs_heap s))"
  let ?s = "fs_set_heap ((fs_heap s)\<lparr>dram := ?m\<rparr>) s"
  obtain i where i: "i < 256" "p = uncached_page (fs_heap s) i" using r(2) by (auto simp: held_def)
  have hi: "heap_inv (fs_heap s)" using r(1) by (simp add: fs_ready_def)
  have un: "unat (ucast n :: u64) = unat n" by (rule unat_ucast_u32_u64)
  have sub: "unat (p + of_nat so + x - p) = so + unat x" if "x < ucast n" for x :: u64
  proof -
    have "unat x < unat n" using that un by (simp add: word_less_nat_alt)
    then have "so + unat x < 512" using n by linarith
    moreover have "p + of_nat so + x - p = (of_nat (so + unat x) :: u64)" by simp
    ultimately show ?thesis by (simp only:) (intro unat_of_nat_u64, simp)
  qed
  have "p + of_nat so + x \<noteq> a + y" if "x < ucast n" "y < ucast n" for x y :: u64
  proof -
    have "unat x < unat n" using that(1) un by (simp add: word_less_nat_alt)
    then have "unat (p + of_nat so + x - p) < 4096" using sub [OF that(1)] n so by simp
    then have "p + of_nat so + x \<in> uncached_area (fs_heap s)" using uncached_page_area [OF hi i(1)] i(2) by simp
    moreover have "unat y < unat n" using that(2) un by (simp add: word_less_nat_alt)
    then have "a + of_nat (unat y) \<notin> uncached_area (fs_heap s)" using d by blast
    ultimately show ?thesis by auto
  qed
  note cp = memcpy_eq [OF this, of "ucast n" "dram (fs_heap s)"]
  have "?m x = store_bytes a (take (unat n) (drop so blk)) (fs_mem s) x" for x
  proof (cases "x - a < ucast n")
    case True
    then have "unat (x - a) < unat n" using un by (simp add: word_less_nat_alt)
    moreover have "dram (fs_heap s) (p + of_nat so + (x - a)) = blk ! (so + unat (x - a))"
    proof -
      have "so + unat (x - a) < 512" using calculation n by linarith
      then show ?thesis using sub [OF True] m so(2) by (simp add: fs_mem_def store_bytes_def)
    qed
    ultimately show ?thesis using True cp n so by (simp add: store_bytes_def)
  next
    case False
    then have "\<not> unat (x - a) < unat n" using un by (simp add: word_less_nat_alt)
    then show ?thesis using False cp n so by (simp add: store_bytes_def fs_mem_def)
  qed
  then have wr: "?m = store_bytes a (take (unat n) (drop so blk)) (fs_mem s)" by blast
  have h: "fs_heap ?s = (fs_heap s)\<lparr>dram := ?m\<rparr>" by (simp add: fs_heap_def fs_set_heap_def)
  have "fs_writes a (take (unat n) (drop so blk)) s ?s"
    unfolding fs_writes_def fs_mem_def [of ?s] h
    by (intro conjI exI [of _ "kernelUncachedMemoryRegionMap (fs_heap s)"] exI [of _ "kernelHeapMemMap (fs_heap s)"] exI [of _ ?m])
      (simp_all add: fs_set_heap_def wr)
  moreover have "fs_ready ba v C ?s" using r(1) unfolding fs_ready_def h by (simp add: fs_set_heap_def)
  moreover have "held ?s p" using r(2) unfolding held_def h by (simp add: uncached_page_def)
  moreover have "fs_nodes ?s = fs_nodes s" by (simp add: fs_set_heap_def)
  ultimately show ?thesis using h by (intro exI [of _ ?s]) (simp add: fs_memcpy_def)
qed

lemma list_frame:
  "fs_nodes s' = fs_nodes s \<Longrightarrow> kmm_used (fs_heap s') = kmm_used (fs_heap s) \<Longrightarrow> list_state N C fat c0 k s' ps = list_state N C fat c0 k s ps"
  by (simp add: list_state_def node_chain_def)

lemma CalcNextSector_ok:
  assumes ok: "emmc_ok b ba v" and f: "file_on_disk C fat c0 k" "t < k" and r: "fs_ready ba v C s" "has_free_page (fs_heap s)"
    and l: "list_state N C fat c0 k s ps" "t < length ps"
  shows "\<exists>s' qs. CalcNextSector b fat sector (ps ! t) s = Inr (CalcSector fat (cluster_at C fat c0 (Suc t)) 0, s') \<and> fs_ready ba v C s' \<and>
    has_free_page (fs_heap s') \<and> fs_grow s s' \<and> list_state N C fat c0 k s' (ps @ qs) \<and> Suc t < length (ps @ qs)"
proof -
  have "BPB_SecPerClus (fat_bpb fat) = 1" using f(1) by (simp add: file_on_disk_def)
  then show ?thesis using CalcNextCluster_ok [OF ok f r l] by (auto simp: CalcNextSector_def)
qed

lemma read_step_ok:
  assumes ok: "emmc_ok b ba v" and f: "file_on_disk C fat c0 k" "t < k" and r: "fs_ready ba v C s" "has_free_page (fs_heap s)"
    and l: "list_state N C fat c0 k s ps" "t < length ps" and so: "unat so < 512" and n: "n = min rest (512 - so)"
    and d: "\<forall>i<unat n. a + of_nat i \<notin> uncached_area (fs_heap s)"
  shows "\<exists>s' qs. read_step b fat ((a, rest, CalcSector fat (cluster_at C fat c0 t) 0, so, ps ! t), s) =
      Inr ((a + ucast n, rest - n, CalcSector fat (cluster_at C fat c0 (Suc t)) 0, 0, (ps @ qs) ! Suc t), s') \<and>
    fs_ready ba v C s' \<and> has_free_page (fs_heap s') \<and> list_state N C fat c0 k s' (ps @ qs) \<and> Suc t < length (ps @ qs) \<and>
    fs_writes a (take (unat n) (drop (unat so) (file_sector C fat c0 t))) s s'"
proof -
  let ?sec = "CalcSector fat (cluster_at C fat c0 t) 0"
  let ?L = "first_lba fat + ?sec" and ?blk = "file_sector C fat c0 t"
  have L: "unat ?L < 2 ^ 23" and spc: "BPB_SecPerClus (fat_bpb fat) = 1" using f by (simp_all add: file_on_disk_def)
  obtain p s1 where 1: "ReadSector b ?L 1 s = Inr (p, s1)" "p \<noteq> 0" "held s1 p" "fs_ready ba v C s1" "fs_step s s1"
      "fs_mem s1 = store_bytes p ?blk (fs_mem s)"
    using ReadSector_ok [OF ok r L] unfolding file_sector_def by blast
  have len: "length ?blk = 512" using f(1) by (simp add: file_sector_def file_on_disk_def)
  have "so \<le> 512" using so by (simp add: word_le_nat_alt)
  then have u: "unat (512 - so) = 512 - unat so" by (simp add: unat_sub)
  then have n': "unat n \<le> 512 - unat so" using n by (simp add: min_def word_le_nat_alt)
  have d1: "\<forall>i<unat n. a + of_nat i \<notin> uncached_area (fs_heap s1)" using d fs_step_heap(2) [OF 1(5)] by simp
  obtain s2 where 2: "fs_memcpy a (p + of_nat (unat so)) n s1 = Inr s2" "fs_ready ba v C s2" "held s2 p" "fs_nodes s2 = fs_nodes s1"
      "kmm_used (fs_heap s2) = kmm_used (fs_heap s1)" "fs_writes a (take (unat n) (drop (unat so) ?blk)) s1 s2"
    using fs_memcpy_ok [OF 1(4,3,6) so len n' d1] by blast
  obtain s3 where 3: "fs_free p s2 = Inr s3" "fs_ready ba v C s3" "fs_step s2 s3" "has_free_page (fs_heap s3)"
    using fs_free_ok [OF 2(2,3)] by blast
  have l3: "list_state N C fat c0 k s3 ps" using l(1) list_step [OF 1(5)] list_frame [OF 2(4,5)] list_step [OF 3(3)] by metis
  from CalcNextSector_ok [OF ok f 3(2,4) l3 l(2), of ?sec] obtain s4 qs where
    4: "CalcNextSector b fat ?sec (ps ! t) s3 = Inr (CalcSector fat (cluster_at C fat c0 (Suc t)) 0, s4)" "fs_ready ba v C s4"
      "has_free_page (fs_heap s4)" "fs_grow s3 s4" "list_state N C fat c0 k s4 (ps @ qs)" "Suc t < length (ps @ qs)" by blast
  have "t < length (ps @ qs)" using l(2) by simp
  moreover have "(ps @ qs) ! t = ps ! t" using l(2) by (simp add: nth_append)
  ultimately obtain pv where nd: "node_at (ps ! t) s4 = Inr \<lparr>node_val = cluster_at C fat c0 t, node_prev = pv, node_next = (ps @ qs) ! Suc t\<rparr>"
    using list_at [OF 4(5), of t] unfolding if_P [OF 4(6)] by metis
  have "of_nat (unat so) = (ucast so :: u64)" by (simp add: unsigned_of_nat)
  then have "read_step b fat ((a, rest, ?sec, so, ps ! t), s) =
      Inr ((a + ucast n, rest - n, CalcSector fat (cluster_at C fat c0 (Suc t)) 0, 0, (ps @ qs) ! Suc t), s4)"
    using 1(1,2) 2(1) 3(1) 4(1) nd spc n by (simp add: read_step_def kBlockSize_def Let_def)
  moreover have "fs_writes a (take (unat n) (drop (unat so) ?blk)) s s4"
  proof -
    have "fs_writes a [] s s1" using fs_step_grow [OF 1(5)] by (rule fs_grow_writes [THEN iffD1])
    from fs_writes_trans [OF this, of "take (unat n) (drop (unat so) ?blk)" s2] 2(6) len
    have w: "fs_writes a (take (unat n) (drop (unat so) ?blk)) s s2" by simp
    have "fs_grow s2 s4" using fs_grow_trans [OF fs_step_grow [OF 3(3)] 4(4)] .
    then show ?thesis using fs_writes_trans [OF w, of "[]"] fs_grow_writes [of s2 s4] len by simp
  qed
  ultimately show ?thesis using 4 by blast
qed

section \<open>A read\<close>

lemma read_loop_ok:
  assumes ok: "emmc_ok b ba v" and f: "file_on_disk C fat c0 k" and cl: "IsValidCluster cluster"
  shows "fs_ready ba v C s \<Longrightarrow> has_free_page (fs_heap s) \<Longrightarrow> list_state N C fat c0 k s ps \<Longrightarrow> t < length ps \<Longrightarrow>
    unat so < 512 \<Longrightarrow> unat so + unat rest \<le> 512 * (k - t) \<Longrightarrow> \<forall>i<unat rest. a + of_nat i \<notin> uncached_area (fs_heap s) \<Longrightarrow>
    \<exists>st s' qs. read_loop b fat cluster ((a, rest, CalcSector fat (cluster_at C fat c0 t) 0, so, ps ! t), s) = Some (Inr (st, s')) \<and>
      fst (snd st) = 0 \<and> fs_ready ba v C s' \<and> has_free_page (fs_heap s') \<and> list_state N C fat c0 k s' (ps @ qs) \<and>
      fs_writes a (take (unat rest) (drop (unat so) (file_bytes C fat c0 t k))) s s'"
proof (induction "unat rest" arbitrary: a rest so t s ps rule: less_induct)
  case less
  show ?case
  proof (cases "rest = 0")
    case True
    moreover have "fs_writes a [] s s" using fs_step_grow [OF fs_step_refl [of s]] by (rule fs_grow_writes [THEN iffD1])
    ultimately show ?thesis using less.prems
      by (subst read_loop.simps) (auto intro!: exI [of _ "[]"])
  next
    case False
    then have r0: "0 < unat rest" by (simp add: unat_gt_0)
    then have t: "t < k" using less.prems(6) by (cases "k - t") auto
    define n where "n = min rest (512 - so)"
    have so: "so \<le> 512" using less.prems(5) by (simp add: word_le_nat_alt)
    have un: "unat n = min (unat rest) (512 - unat so)"
      using so by (simp add: n_def min_def word_le_nat_alt unat_sub)
    have "\<forall>i<unat n. a + of_nat i \<notin> uncached_area (fs_heap s)" using less.prems(7) un by simp
    from read_step_ok [OF ok f t less.prems(1-5) n_def this] obtain s1 qs where
      1: "read_step b fat ((a, rest, CalcSector fat (cluster_at C fat c0 t) 0, so, ps ! t), s) =
        Inr ((a + ucast n, rest - n, CalcSector fat (cluster_at C fat c0 (Suc t)) 0, 0, (ps @ qs) ! Suc t), s1)"
        "fs_ready ba v C s1" "has_free_page (fs_heap s1)" "list_state N C fat c0 k s1 (ps @ qs)" "Suc t < length (ps @ qs)"
        "fs_writes a (take (unat n) (drop (unat so) (file_sector C fat c0 t))) s s1" by blast
    have st: "read_loop b fat cluster ((a, rest, CalcSector fat (cluster_at C fat c0 t) 0, so, ps ! t), s) =
        read_loop b fat cluster ((a + ucast n, rest - n, CalcSector fat (cluster_at C fat c0 (Suc t)) 0, 0, (ps @ qs) ! Suc t), s1)"
      using 1(1) False cl by (subst read_loop.simps) (simp add: word_neq_0_conv)
    have le: "n \<le> rest" by (simp add: n_def)
    then have ur: "unat (rest - n) = unat rest - unat n" by (rule unat_sub)
    have n0: "0 < unat n" using un r0 less.prems(5) by simp
    have lt: "unat (rest - n) < unat rest" using ur n0 r0 by simp
    have len: "length (file_sector C fat c0 i) = 512" for i using f by (simp add: file_sector_def file_on_disk_def)
    have adr: "a + ucast n + of_nat i = a + of_nat (unat n + i)" for i by (simp add: unsigned_of_nat)
    have fit: "unat (0 :: u32) + unat (rest - n) \<le> 512 * (k - Suc t)"
    proof -
      have "k - t = Suc (k - Suc t)" using t by simp
      then have "unat so + unat rest \<le> 512 + 512 * (k - Suc t)" using less.prems(6) by simp
      then have "unat rest - min (unat rest) (512 - unat so) \<le> 512 * (k - Suc t)" unfolding min_def by (auto; linarith)
      then show ?thesis unfolding ur un by simp
    qed
    have dst: "\<forall>i<unat (rest - n). a + ucast n + of_nat i \<notin> uncached_area (fs_heap s1)"
    proof (intro allI impI)
      fix i assume "i < unat (rest - n)"
      then have "unat n + i < unat rest" using ur by linarith
      then have "a + of_nat (unat n + i) \<notin> uncached_area (fs_heap s)" using less.prems(7) by blast
      then show "a + ucast n + of_nat i \<notin> uncached_area (fs_heap s1)" unfolding adr fs_writes_heap [OF 1(6)] .
    qed
    from less.hyps [OF lt 1(2-5) _ fit dst] obtain st' s' rs where
      2: "read_loop b fat cluster ((a + ucast n, rest - n, CalcSector fat (cluster_at C fat c0 (Suc t)) 0, 0, (ps @ qs) ! Suc t), s1) = Some (Inr (st', s'))"
        "fst (snd st') = 0" "fs_ready ba v C s'" "has_free_page (fs_heap s')" "list_state N C fat c0 k s' ((ps @ qs) @ rs)"
        "fs_writes (a + ucast n) (take (unat (rest - n)) (file_bytes C fat c0 (Suc t) k)) s1 s'" by auto
    have fb: "file_bytes C fat c0 t k = file_sector C fat c0 t @ file_bytes C fat c0 (Suc t) k"
      using t by (simp add: file_bytes_def upt_conv_Cons)
    let ?x = "take (unat n) (drop (unat so) (file_sector C fat c0 t))" and ?y = "take (unat (rest - n)) (file_bytes C fat c0 (Suc t) k)"
    have xl: "length ?x = unat n" using len un by simp
    have xy: "?x @ ?y = take (unat rest) (drop (unat so) (file_bytes C fat c0 t k))"
    proof (cases "unat rest \<le> 512 - unat so")
      case True
      then have "unat n = unat rest" "unat (rest - n) = 0" using un ur by simp_all
      then show ?thesis unfolding fb using True len by simp
    next
      case False
      then have "unat n = 512 - unat so" using un by simp
      then show ?thesis unfolding fb ur using False len less.prems(5) by simp
    qed
    have "length (?x @ ?y) \<le> unat rest" unfolding xy by simp
    also have "\<dots> < 2 ^ 32" by (rule less_le_trans [OF unsigned_less]) simp
    finally have "length (?x @ ?y) \<le> 2 ^ 64" by simp
    then have "fs_writes a (?x @ ?y) s s'"
      using fs_writes_trans [OF 1(6), of ?y s'] 2(6) xl by (simp add: unsigned_of_nat)
    then show ?thesis unfolding st xy using 2 by (intro exI [of _ st'] exI [of _ s'] exI [of _ "qs @ rs"]) simp
  qed
qed

text \<open>An open file: c0 is its first cluster, k the number of its clusters, N bounds the kernel pages in use.\<close>

definition file_open :: "nat \<Rightarrow> (nat \<Rightarrow> u32 list) \<Rightarrow> u32 \<Rightarrow> nat \<Rightarrow> 'd fs \<Rightarrow> fat32_file \<Rightarrow> bool" where
  "file_open N C c0 k s file \<longleftrightarrow> fs_initialized s \<and> file_fat file < length (fs_volume s) \<and> unat (file_size file) \<le> 512 * k \<and>
     file_on_disk C (fs_volume s ! file_fat file) c0 k \<and>
     (\<exists>ps. list_state N C (fs_volume s ! file_fat file) c0 k s ps \<and> ps ! 0 = file_cluster_root file)"

lemma signed_small: "n < 2 ^ 31 \<Longrightarrow> signed_take_bit 31 (int n) = int n"
  by (rule signed_take_bit_int_eq_self) simp_all

lemma file_bytes_length: "file_on_disk C fat c0 k \<Longrightarrow> length (file_bytes C fat c0 0 t) = 512 * t"
  by (induction t) (simp_all add: file_bytes_def file_sector_def file_on_disk_def)

lemma drop_file_bytes:
  assumes "file_on_disk C fat c0 k" "t \<le> k"
  shows "drop (512 * t) (file_bytes C fat c0 0 k) = file_bytes C fat c0 t k"
proof -
  note len = file_bytes_length [OF assms(1)]
  have "file_bytes C fat c0 0 k = file_bytes C fat c0 0 t @ file_bytes C fat c0 t k"
    using assms(2) upt_add_eq_append [of 0 t "k - t"] by (simp add: file_bytes_def)
  then show ?thesis using len [of t] by simp
qed

lemma fat_read_at:
  assumes ok: "emmc_ok b ba v" and r: "fs_ready ba v C s" "has_free_page (fs_heap s)" and f: "file_open N C c0 k s file"
    and len: "0 < unat len" "unat len < 2 ^ 31" and range: "unat offset + unat len \<le> unat (file_size file)"
    and dest: "\<forall>i<unat len. buf + of_nat i \<notin> uncached_area (fs_heap s)"
  shows "\<exists>s'. Fat_Read b file buf offset len s = Inr (int (unat len), s') \<and>
    fs_writes buf (take (unat len) (drop (unat offset) (file_bytes C (fs_volume s ! file_fat file) c0 0 k))) s s' \<and>
    fs_ready ba v C s' \<and> has_free_page (fs_heap s') \<and> file_open N C c0 k s' file"
proof -
  let ?fat = "fs_volume s ! file_fat file" and ?t = "unat offset div 512" and ?so = "offset mod 512" and ?n = "ucast len :: u32"
  obtain ps where o: "fs_initialized s" "file_fat file < length (fs_volume s)" "unat (file_size file) \<le> 512 * k" "file_on_disk C ?fat c0 k"
      "list_state N C ?fat c0 k s ps" "ps ! 0 = file_cluster_root file" using f unfolding file_open_def by blast
  have t: "?t < k" using range len(1) o(3) by (simp add: less_mult_imp_div_less)
  from CalcCluster_ok [OF ok o(4) t r o(5)] obtain s1 qs where
    1: "CalcCluster b ?fat (ps ! 0) offset s = Inr (cluster_at C ?fat c0 ?t, s1)" "fs_ready ba v C s1" "has_free_page (fs_heap s1)"
      "fs_grow s s1" "list_state N C ?fat c0 k s1 (ps @ qs)" "?t < length (ps @ qs)" by blast
  have ps0: "(ps @ qs) ! 0 = ps ! 0" using o(5) by (simp add: list_state_def node_chain_def nth_append)
  have fn: "find_node s1 (cluster_at C ?fat c0 ?t) (ps ! 0) = Some (Inr ((ps @ qs) ! ?t))"
    using find_node_ok [OF o(4) 1(5) t 1(6), of 0] unfolding ps0 by simp
  have fsz: "unat (file_size file) < 2 ^ 32" by (rule less_le_trans [OF unsigned_less]) simp
  have un: "unat ?n = unat len" using len(2) by (simp add: unsigned_ucast_eq take_bit_nat_eq_self)
  have uo: "unat (offset + ?n) = unat offset + unat len" using range fsz un by (simp add: unat_word_ariths)
  have c1: "\<not> ucast offset + len > ucast (file_size file)"
  proof -
    have "unat (ucast offset + len :: u64) = unat offset + unat len"
      using range fsz by (simp add: unat_word_ariths unat_ucast_u32_u64)
    then show ?thesis using range by (simp add: word_less_nat_alt unat_ucast_u32_u64)
  qed
  have mn: "min (offset + ?n) (file_size file) = offset + ?n" using uo range by (simp add: min_def word_le_nat_alt)
  have so: "unat ?so = unat offset mod 512" by (simp add: unat_mod)
  have sec: "CalcSector ?fat c (ucast offset) = CalcSector ?fat c 0" for c
  proof -
    have "(ucast offset mod 512 div 512 :: u64) = 0" by (simp add: word_unat_eq_iff unat_div unat_mod)
    then show ?thesis using o(4) by (simp add: CalcSector_def kBlockSize_def file_on_disk_def)
  qed
  have vc: "IsValidCluster (cluster_at C ?fat c0 ?t)" using o(4) t by (simp add: file_on_disk_def)
  have "512 * ?t + unat ?so = unat offset" unfolding so by simp
  moreover have "512 * (k - ?t) + 512 * ?t = 512 * k" using t by (simp add: algebra_simps flip: distrib_left)
  ultimately have fit: "unat ?so + unat ?n \<le> 512 * (k - ?t)" using range o(3) un by linarith
  have so5: "unat ?so < 512" unfolding so by simp
  have dst: "\<forall>i<unat ?n. buf + of_nat i \<notin> uncached_area (fs_heap s1)" unfolding un fs_grow_heap(1) [OF 1(4)] by (rule dest)
  from read_loop_ok [OF ok o(4) vc 1(2,3,5,6) so5 fit dst] obtain st s2 rs where
    2: "read_loop b ?fat (cluster_at C ?fat c0 ?t) ((buf, ?n, CalcSector ?fat (cluster_at C ?fat c0 ?t) 0, ?so, (ps @ qs) ! ?t), s1) = Some (Inr (st, s2))"
      "fst (snd st) = 0" "fs_ready ba v C s2" "has_free_page (fs_heap s2)" "list_state N C ?fat c0 k s2 ((ps @ qs) @ rs)"
      "fs_writes buf (take (unat ?n) (drop (unat ?so) (file_bytes C ?fat c0 ?t k))) s1 s2" by blast
  obtain x1 x2 x3 x4 where st: "st = (x1, 0, x2, x3, x4)" using 2(2) by (cases st) auto
  have "sint ?n = int (unat len)"
  proof -
    have "uint ?n = int (unat len)" unfolding uint_nat un ..
    then show ?thesis using signed_small [OF len(2)] by (simp add: sint_uint)
  qed
  then have "Fat_Read b file buf offset len s = Inr (int (unat len), s2)"
    using o(1,2) c1 1(1) fn 2(1) unfolding Fat_Read_def o(6) [symmetric] mn kBlockSize_def
    by (simp add: or_diverge_res_def st Let_def sec)
  moreover have "drop (unat ?so) (file_bytes C ?fat c0 ?t k) = drop (unat offset) (file_bytes C ?fat c0 0 k)"
  proof -
    have "drop (unat ?so) (file_bytes C ?fat c0 ?t k) = drop (unat ?so + 512 * ?t) (file_bytes C ?fat c0 0 k)"
      by (simp only: drop_drop [symmetric] drop_file_bytes [OF o(4) less_imp_le [OF t]])
    moreover have "unat ?so + 512 * ?t = unat offset" unfolding so by simp
    ultimately show ?thesis by simp
  qed
  moreover have "fs_writes buf (take (unat len) (drop (unat ?so) (file_bytes C ?fat c0 ?t k))) s s2"
  proof -
    have "fs_writes buf [] s s1" using 1(4) by (rule fs_grow_writes [THEN iffD1])
    from fs_writes_trans [OF this] 2(6) len(2) un show ?thesis by simp
  qed
  moreover have "file_open N C c0 k s2 file"
  proof -
    have "fs_initialized s2" "fs_volume s2 = fs_volume s" using calculation(3) o(1) by (simp_all add: fs_writes_def)
    moreover have "((ps @ qs) @ rs) ! 0 = file_cluster_root file"
      using ps0 o(6) 1(6) by (subst nth_append) auto
    ultimately show ?thesis using o(2,3,4) 2(5) unfolding file_open_def by metis
  qed
  ultimately show ?thesis using 2(3,4) by metis
qed

text \<open>
  C15. On a volume with one sector per cluster, for an open file on a card that follows its protocol,
  a read of any non-empty part of the file returns its length and puts exactly the bytes of the file
  into the buffer; outside the uncached region no other byte of the memory changes, and the file stays
  open for further reads.
\<close>

theorem fat_read:
  assumes ok: "emmc_ok b ba v" and r: "fs_ready ba v C s" "has_free_page (fs_heap s)" and f: "file_open N C c0 k s file"
    and len: "0 < unat len" "unat len < 2 ^ 31" and range: "unat offset + unat len \<le> unat (file_size file)"
    and dest: "\<forall>i<unat len. buf + of_nat i \<notin> uncached_area (fs_heap s)"
  shows "\<exists>s'. Fat_Read b file buf offset len s = Inr (int (unat len), s') \<and>
    fs_writes buf (take (unat len) (drop (unat offset) (file_bytes C (fs_volume s ! file_fat file) c0 0 k))) s s' \<and>
    fs_ready ba v C s' \<and> has_free_page (fs_heap s') \<and> file_open N C c0 k s' file"
  by (rule fat_read_at [OF assms])

section \<open>A card in use\<close>

text \<open>The card of EvMmc, with a file of the clusters 3 and 32: every entry of sector 32 is 32.\<close>

definition demo_bpb :: "u8 \<Rightarrow> fat32_bpb" where
  "demo_bpb spc = (bpb_at (\<lambda>_. 0) 0)\<lparr>BPB_BytsPerSec := 512, BPB_SecPerClus := spc\<rparr>"

definition demo_fat :: "u8 \<Rightarrow> fat32_fat" where
  "demo_fat spc = \<lparr>fat_bpb = demo_bpb spc, fat_root = \<lparr>file_fat = 0, file_attr = kAttrDirectory, file_size = 0, file_cluster_root = 0x44000000\<rparr>,
     first_lba = 0, fat_first_sector = 32, fat_sectors = 100, rde_first_sector = 132, rde_sectors = 0,
     data_first_sector = 1000, data_sectors = 70000, fat_valid = True\<rparr>"

lemma demo_fat_simps:
  "first_lba (demo_fat n) = 0" "fat_first_sector (demo_fat n) = 32" "data_first_sector (demo_fat n) = 1000" "fat_bpb (demo_fat n) = demo_bpb n"
  "BPB_BytsPerSec (demo_bpb n) = 512" "BPB_SecPerClus (demo_bpb n) = n"
  by (simp_all add: demo_fat_def demo_bpb_def)

definition demo_fs :: "u8 \<Rightarrow> demo_card fs" where
  "demo_fs spc = \<lparr>fs_initialized = True, fs_volume = [demo_fat spc],
     fs_nodes = (\<lambda>_. None)(0x44000000 := Some \<lparr>node_val = 3, node_prev = 0, node_next = 0\<rparr>),
     sfn_result = replicate 13 0, lfn_result = replicate 256 0,
     fs_mmc = \<lparr>m_dev = device_boot\<lparr>sdhc := True, block_size := 512\<rparr>,
       m_heap = demo_heap\<lparr>kernelHeapMemMap := (\<lambda>_. False)(0 := True)\<rparr>,
       m_io = \<lparr>dc_phase = Idle, dc_bsc = 0, dc_arg = 0, dc_time = 7\<rparr>\<rparr>\<rparr>"

definition demo_file :: fat32_file where
  "demo_file = \<lparr>file_fat = 0, file_attr = 0, file_size = 1000, file_cluster_root = 0x44000000\<rparr>"

lemma demo_heap_used: "heap_inv (demo_heap\<lparr>kernelHeapMemMap := (\<lambda>_. False)(0 := True)\<rparr>)"
    "kmm_used (demo_heap\<lparr>kernelHeapMemMap := (\<lambda>_. False)(0 := True)\<rparr>) = {0x44000000}"
proof -
  show "heap_inv (demo_heap\<lparr>kernelHeapMemMap := (\<lambda>_. False)(0 := True)\<rparr>)"
    using demo_heap_inv by (simp add: heap_inv_def layout_ok_def user_page_used_def)
  have "{i. i < HEAP_PAGES \<and> ((\<lambda>_. False)(0 := True)) i} = {0 :: nat}" by (auto simp: HEAP_PAGES_def)
  then show "kmm_used (demo_heap\<lparr>kernelHeapMemMap := (\<lambda>_. False)(0 := True)\<rparr>) = {0x44000000}"
    by (simp add: kmm_used_def heap_boot_def page_at_def)
qed

lemma demo_fs_ready: "fs_ready False demo_view demo_block (demo_fs spc)" "has_free_page (fs_heap (demo_fs spc))"
  using demo_heap_used(1)
  by (simp_all add: fs_ready_def demo_fs_def demo_view_def fs_heap_def has_free_page_def heap_boot_def exI [of _ 0])

lemma demo_disk_fat: "unat c < 128 \<Longrightarrow> disk_fat demo_block (demo_fat 1) c = 32"
proof -
  assume c: "unat c < 128"
  then have u: "unat (c * 4) = unat c * 4" by (simp add: unat_word_ariths)
  then have "c * 4 div 512 = 0" using c by (simp add: word_unat_eq_iff unat_div)
  moreover have "unat (c * 4 mod 512) div 4 < 128" using u c by (simp add: unat_mod)
  ultimately show ?thesis
    by (simp add: disk_fat_def fat_entry_sector_def fat_entry_offset_def demo_fat_simps demo_block_def)
qed

lemma demo_clusters: "cluster_at demo_block (demo_fat 1) 3 0 = 3" "cluster_at demo_block (demo_fat 1) 3 (Suc 0) = 32"
  by (simp_all add: cluster_at_def demo_disk_fat)

lemma demo_on_disk: "file_on_disk demo_block (demo_fat 1) 3 2"
proof -
  have two: "{..<2} = {0, Suc 0}" "i < 2 \<longleftrightarrow> i = 0 \<or> i = Suc 0" for i :: nat by auto
  show ?thesis unfolding file_on_disk_def two
    by (auto simp: demo_clusters demo_block_def IsValidCluster_def fat_entry_sector_def CalcSector_def kBlockSize_def demo_fat_simps)
qed

lemma demo_open:
  assumes "3 \<le> N" "N \<le> HEAP_PAGES"
  shows "file_open N demo_block 3 2 (demo_fs 1) demo_file"
proof -
  have h: "fs_heap (demo_fs 1) = demo_heap\<lparr>kernelHeapMemMap := (\<lambda>_. False)(0 := True)\<rparr>" by (simp add: fs_heap_def demo_fs_def)
  have "list_state N demo_block (demo_fat 1) 3 2 (demo_fs 1) [0x44000000]"
    unfolding list_state_def node_chain_def h demo_heap_used(2)
    using assms by (simp add: demo_clusters demo_fs_def)
  then have "\<exists>ps. list_state N demo_block (demo_fat 1) 3 2 (demo_fs 1) ps \<and> ps ! 0 = 0x44000000" by (intro exI [of _ "[0x44000000]"]) simp
  then show ?thesis using demo_on_disk by (simp add: file_open_def demo_file_def demo_fs_def)
qed

lemma demo_bytes: "take 4 (drop 510 (file_bytes demo_block (demo_fat 1) 3 0 2)) = [0, 0, 6, 4]"
proof -
  have f: "file_bytes demo_block (demo_fat 1) 3 0 2 = concat (replicate 128 (le_bytes 1001)) @ concat (replicate 128 (le_bytes 1030))"
    by (simp add: file_bytes_def file_sector_def demo_clusters upt_rec CalcSector_def demo_fat_simps kBlockSize_def
        block_bytes_def demo_block_def)
  have "concat (replicate 128 (le_bytes 1001)) = concat (replicate 127 (le_bytes 1001)) @ le_bytes 1001"
    using replicate_add [of 127 1 "le_bytes 1001"] by simp
  moreover have "concat (replicate 128 (le_bytes 1030)) = le_bytes 1030 @ concat (replicate 127 (le_bytes 1030))"
    using replicate_Suc [of 127 "le_bytes 1030"] by simp
  moreover have "length (concat (replicate n (le_bytes x))) = 4 * n" for n x by (induction n) simp_all
  ultimately have "take 4 (drop 510 (file_bytes demo_block (demo_fat 1) 3 0 2)) = drop 2 (le_bytes 1001) @ take 2 (le_bytes 1030)"
    unfolding f by simp
  then show ?thesis by (simp add: le_bytes_def upt_rec)
qed

theorem fat_read_witness:
  "\<exists>s'. Fat_Read demo_emmc demo_file 0x80000 510 4 (demo_fs 1) = Inr (4, s') \<and> fs_writes 0x80000 [0, 0, 6, 4] (demo_fs 1) s'"
proof -
  have d: "\<forall>i<unat (4 :: u64). 0x80000 + of_nat i \<notin> uncached_area (fs_heap (demo_fs 1))"
  proof (intro allI impI)
    fix i assume "i < unat (4 :: u64)"
    then have "unat (0x80000 + of_nat i :: u64) = 0x80000 + i" by (simp add: unat_word_ariths unat_of_nat_u64)
    then show "0x80000 + of_nat i \<notin> uncached_area (fs_heap (demo_fs 1))"
      using \<open>i < unat 4\<close> by (simp add: uncached_area_def fs_heap_def demo_fs_def heap_boot_def)
  qed
  have v: "fs_volume (demo_fs 1) ! file_fat demo_file = demo_fat 1" by (simp add: demo_fs_def demo_file_def)
  have "unat (file_size demo_file) = 1000" by (simp add: demo_file_def)
  then show ?thesis
    using fat_read [OF demo_emmc_ok demo_fs_ready demo_open, of HEAP_PAGES 4 510 "0x80000"] d unfolding v by (auto simp: demo_bytes HEAP_PAGES_def)
qed

section \<open>Clusters of several sectors\<close>

lemma new_node_frame:
  assumes "new_node x s = Inr (p, s')" "heap_inv (fs_heap s)" "q \<in> kmm_used (fs_heap s)"
  shows "fs_nodes s' q = fs_nodes s q"
proof -
  obtain h where h: "kmm_malloc 24 (fs_heap s) = Inr (p, h)"
    and s': "s' = (fs_set_heap h s)\<lparr>fs_nodes := (fs_nodes s)(p \<mapsto> \<lparr>node_val = x, node_prev = 0, node_next = 0\<rparr>)\<rparr>"
    using assms(1) by (auto simp: new_node_def operator_new_def rbind_eq_Inr split: if_splits)
  have "p \<notin> kmm_used (fs_heap s)" using kmm_malloc_page(2) [OF h _ assms(2)] by simp
  then show ?thesis using assms(3) by (auto simp: s')
qed

lemma match_entry_frame:
  assumes "match_entry fat filename a i prev_buf s = Inr (found, s')" "heap_inv (fs_heap s)" "q \<in> kmm_used (fs_heap s)"
  shows "fs_nodes s' q = fs_nodes s q" "found = None \<longrightarrow> fs_heap s' = fs_heap s"
proof -
  obtain l r where "GetLfn a (of_nat i) (if prev_buf \<noteq> 0 then prev_buf + (512 - 32) else 0) (fs_mem s) (lfn_result s) = Inr (l, r)"
    and e: "(let s = s\<lparr>lfn_result := r\<rparr>;
             s = (if l then s else s\<lparr>sfn_result := GetSfn (dir_at (fs_mem s) a) (sfn_result s)\<rparr>);
             entry_filename = list_cstr (if l then lfn_result s else sfn_result s)
         in if strncmp filename entry_filename kFat32MaxFileNameSize = 0
            then let c = push_bit 16 (ucast (DIR_FstClusHI (dir_at (fs_mem s) a))) OR ucast (DIR_FstClusLO (dir_at (fs_mem s) a));
                     c = (if c = 0 then BPB_RootClus (fat_bpb fat) else c)
                 in rbind (InitFile (file_fat (fat_root fat)) (DIR_Attr (dir_at (fs_mem s) a)) (DIR_FileSize (dir_at (fs_mem s) a)) c s) (\<lambda>(f, s). Inr (Some f, s))
            else Inr (None, s)) = Inr (found, s')"
    using assms(1) by (auto simp: match_entry_def rbind_eq_Inr fs_mem_def fs_heap_def Let_def split: if_splits)
  define s2 where "s2 = (if l then s\<lparr>lfn_result := r\<rparr> else (s\<lparr>lfn_result := r\<rparr>)\<lparr>sfn_result := GetSfn (dir_at (fs_mem (s\<lparr>lfn_result := r\<rparr>)) a) (sfn_result (s\<lparr>lfn_result := r\<rparr>))\<rparr>)"
  have s2: "fs_nodes s2 = fs_nodes s" "fs_heap s2 = fs_heap s" by (simp_all add: s2_def fs_heap_def)
  have "(\<exists>c p. new_node c s2 = Inr (p, s')) \<and> found \<noteq> None \<or> s' = s2 \<and> found = None"
    using e unfolding Let_def s2_def [symmetric] by (auto simp: InitFile_def rbind_eq_Inr split: if_splits)
  then show "fs_nodes s' q = fs_nodes s q" "found = None \<longrightarrow> fs_heap s' = fs_heap s"
    using new_node_frame [of _ s2 _ s' q] assms(2,3) s2 by auto
qed

lemma scan_entries_frame:
  "scan_entries fat filename buf prev_buf is s = Inr (found, s') \<Longrightarrow> heap_inv (fs_heap s) \<Longrightarrow> q \<in> kmm_used (fs_heap s) \<Longrightarrow>
    fs_nodes s' q = fs_nodes s q"
proof (induction "is" arbitrary: s)
  case (Cons i "is")
  note st = Cons.prems(1) [unfolded scan_entries.simps Let_def]
  show ?case
  proof (cases "Inr (None, s) = Inr (found, s') \<or> scan_entries fat filename buf prev_buf is s = Inr (found, s')")
    case True
    then show ?thesis using Cons.IH Cons.prems(2,3) by auto
  next
    case False
    then obtain f s1 where 1: "match_entry fat filename (buf + of_nat i) i prev_buf s = Inr (f, s1)"
        "(if f \<noteq> None then Inr (f, s1) else scan_entries fat filename buf prev_buf is s1) = Inr (found, s')"
      using st by (auto simp: rbind_eq_Inr split: if_split_asm)
    note m = match_entry_frame [OF 1(1) Cons.prems(2,3)]
    show ?thesis
    proof (cases "f = None")
      case True
      then show ?thesis using 1(2) m Cons.IH [of s1] Cons.prems(2,3) by simp
    next
      case False
      then show ?thesis using 1(2) m(1) by simp
    qed
  qed
qed simp



end
