(* ===== verification/EvFrame.thy ===== *)
theory EvFrame
  imports EvFatRead EvLoader
begin

text \<open>
  What the file system and the drivers below it may write, whatever the SD card, its controller and the
  timer do: pages of the uncached region, new kernel pages, and the buffer of a read. With it the image
  loader of the Raspberry Pi extends one address space and leaves the other guests alone.
\<close>

section \<open>Properties of the results that are not errors\<close>

definition always :: "('a \<Rightarrow> bool) \<Rightarrow> 'a res \<Rightarrow> bool" where
  "always Q m \<longleftrightarrow> (\<forall>x. m = Inr x \<longrightarrow> Q x)"

named_theorems frame_rules "how a property of the results goes through the control structure, and what the operations keep"

lemma alwaysD: "always Q m \<Longrightarrow> m = Inr x \<Longrightarrow> Q x"
  by (simp add: always_def)

lemma always_Inl [frame_rules]: "always Q (Inl e)"
  by (simp add: always_def)

lemma always_Inr [frame_rules]: "Q x \<Longrightarrow> always Q (Inr x)"
  by (simp add: always_def)

lemma always_if [frame_rules]: "(c \<Longrightarrow> always Q m) \<Longrightarrow> (\<not> c \<Longrightarrow> always Q n) \<Longrightarrow> always Q (if c then m else n)"
  by simp

lemma always_prod [frame_rules]: "(\<And>x y. p = (x, y) \<Longrightarrow> always Q (f x y)) \<Longrightarrow> always Q (case p of (x, y) \<Rightarrow> f x y)"
  by (cases p) simp

lemma always_option [frame_rules]:
  "(p = None \<Longrightarrow> always Q m) \<Longrightarrow> (\<And>x. p = Some x \<Longrightarrow> always Q (f x)) \<Longrightarrow> always Q (case p of None \<Rightarrow> m | Some x \<Rightarrow> f x)"
  by (cases p) simp_all

lemma always_mono: "always P m \<Longrightarrow> (\<And>x. P x \<Longrightarrow> Q x) \<Longrightarrow> always Q m"
  by (simp add: always_def)

lemma always_bind: "always P m \<Longrightarrow> (\<And>x. P x \<Longrightarrow> always Q (f x)) \<Longrightarrow> always Q (rbind m f)"
  by (auto simp: always_def rbind_eq_Inr)

lemma always_bind_any: "(\<And>x. m = Inr x \<Longrightarrow> always Q (f x)) \<Longrightarrow> always Q (rbind m f)"
  by (auto simp: always_def rbind_eq_Inr)

lemma always_arr_get [frame_rules]: "(\<And>x. i < length xs \<Longrightarrow> x = xs ! i \<Longrightarrow> always Q (f x)) \<Longrightarrow> always Q (rbind (arr_get xs i) f)"
  by (auto simp: always_def rbind_eq_Inr arr_get_eq_Inr)

lemma always_bind2: "always (\<lambda>(x, y). P x y) m \<Longrightarrow> (\<And>x y. P x y \<Longrightarrow> always Q (f x y)) \<Longrightarrow> always Q (rbind m (\<lambda>(x, y). f x y))"
  by (auto simp: always_def rbind_eq_Inr)

lemma always_bind3:
  "always (\<lambda>(x, y, z). P x y z) m \<Longrightarrow> (\<And>x y z. P x y z \<Longrightarrow> always Q (f x y z)) \<Longrightarrow> always Q (rbind m (\<lambda>(x, y, z). f x y z))"
  by (auto simp: always_def rbind_eq_Inr)

lemma always_mono2: "always (\<lambda>(x, y). P x y) m \<Longrightarrow> (\<And>x y. P x y \<Longrightarrow> Q (x, y)) \<Longrightarrow> always Q m"
  by (auto simp: always_def)

lemma always_mono3: "always (\<lambda>(x, y, z). P x y z) m \<Longrightarrow> (\<And>x y z. P x y z \<Longrightarrow> Q (x, y, z)) \<Longrightarrow> always Q m"
  by (auto simp: always_def)

section \<open>Register accesses\<close>

text \<open>They change the devices only.\<close>

lemma rd_keeps: "rd b off s = (x, s') \<Longrightarrow> m_heap s' = m_heap s \<and> m_dev s' = m_dev s"
  by (auto simp: rd_def split: prod.splits)

lemma rd_keeps_snd [simp]: "m_heap (snd (rd b off s)) = m_heap s" "m_dev (snd (rd b off s)) = m_dev s"
  by (simp_all add: rd_def split: prod.splits)

lemma wr_keeps [simp]: "m_heap (wr b off v s) = m_heap s" "m_dev (wr b off v s) = m_dev s"
  by (simp_all add: wr_def)

lemma sleep_keeps:
  "always (\<lambda>s'. m_heap s' = m_heap s \<and> m_dev s' = m_dev s) (mmc_sleep b ms s)"
  "always (\<lambda>s'. m_heap s' = m_heap s \<and> m_dev s' = m_dev s) (mmc_sleep_usec b us s)"
  by (auto simp: always_def mmc_sleep_def mmc_sleep_usec_def rbind_eq_Inr)

lemma wait_keeps:
  "always (\<lambda>(ok, s'). m_heap s' = m_heap s \<and> m_dev s' = m_dev s) (mmc_wait_set b off msk ms s)"
  "always (\<lambda>(ok, s'). m_heap s' = m_heap s \<and> m_dev s' = m_dev s) (mmc_wait_clear b off msk ms s)"
  by (auto simp: always_def mmc_wait_set_def mmc_wait_clear_def rbind_eq_Inr)

lemmas [frame_rules] = sleep_keeps [THEN always_bind] wait_keeps [THEN always_bind2] sleep_keeps [THEN always_mono]

section \<open>Transfers\<close>

text \<open>The addresses of the next n bytes of a buffer.\<close>

fun buf_range :: "buffer \<Rightarrow> nat \<Rightarrow> u64 set" where
  "buf_range (kMem a) n = {x. unat (x - a) < n}"
| "buf_range _ n = {}"

definition touches :: "u64 set \<Rightarrow> 'd mmc \<Rightarrow> 'd mmc \<Rightarrow> bool" where
  "touches R s s' \<longleftrightarrow> block_size (m_dev s') = block_size (m_dev s) \<and>
     (\<exists>m. m_heap s' = (m_heap s)\<lparr>dram := m\<rparr> \<and> (\<forall>x. x \<notin> R \<longrightarrow> m x = dram (m_heap s) x))"

lemma touches_same: "m_heap s' = m_heap s \<Longrightarrow> m_dev s' = m_dev s \<Longrightarrow> touches R s s'"
  unfolding touches_def by (intro conjI exI [of _ "dram (m_heap s)"]) simp_all

lemma touches_trans: "touches R s s1 \<Longrightarrow> touches R s1 s2 \<Longrightarrow> touches R s s2"
  unfolding touches_def by (elim conjE exE) (simp, metis)

lemma touches_mono: "touches R s s' \<Longrightarrow> R \<subseteq> R' \<Longrightarrow> touches R' s s'"
  unfolding touches_def by blast

lemma touches_none: "touches {} s s' \<Longrightarrow> m_heap s' = m_heap s"
  unfolding touches_def by (auto simp: fun_eq_iff [symmetric])

lemma unat_add_le: "unat (x + y :: u64) \<le> unat x + unat y"
  by (simp add: unat_word_ariths)

lemma offset_shift: "unat (x - a :: u64) \<le> unat (x - (a + of_nat j)) + j"
proof -
  have "x - a = (x - (a + of_nat j)) + of_nat j" by simp
  then have "unat (x - a) \<le> unat (x - (a + of_nat j)) + unat (of_nat j :: u64)" using unat_add_le by metis
  moreover have "unat (of_nat j :: u64) \<le> j" by (simp add: unat_of_nat)
  ultimately show ?thesis by linarith
qed

lemma buf_range_next: "buf_range (next_word buf) n \<subseteq> buf_range buf (4 + n)"
proof (cases buf)
  case (kMem a)
  have "unat (x - a) < 4 + n" if "unat (x - (a + 4)) < n" for x using offset_shift [of x a 4] that by simp
  then show ?thesis using kMem by auto
qed simp_all

lemma buf_range_mono: "m \<le> n \<Longrightarrow> buf_range buf m \<subseteq> buf_range buf n"
  by (cases buf) auto

lemma store_word_touches: "always (touches (buf_range buf 4) s) (store_word buf v s)"
proof (cases buf)
  case (kMem a)
  then show ?thesis by (auto simp: always_def touches_def store_le_def)
next
  case (kScr i)
  have "touches {} s (s\<lparr>m_dev := (m_dev s)\<lparr>scr_reg := r\<rparr>\<rparr>)" for r
    unfolding touches_def by (intro conjI exI [of _ "dram (m_heap s)"]) simp_all
  then show ?thesis using kScr by (auto simp: always_def rbind_eq_Inr)
qed (simp add: always_def)

lemma transfer_words_touches:
  "always (\<lambda>(buf', s'). touches (buf_range buf (4 * n)) s s' \<and> (\<forall>k. buf_range buf' k \<subseteq> buf_range buf (4 * n + k)))
     (transfer_words b write n buf s)"
proof (induction n arbitrary: buf s)
  case 0
  then show ?case by (simp add: always_def touches_same)
next
  case (Suc n)
  have sub: "buf_range buf 4 \<subseteq> buf_range buf (4 * Suc n)" "buf_range (next_word buf) (4 * n) \<subseteq> buf_range buf (4 * Suc n)"
    using buf_range_mono [of 4 "4 * Suc n" buf] buf_range_next [of buf "4 * n"] by simp_all
  have step: "always (\<lambda>(buf', s'). touches (buf_range buf (4 * Suc n)) s s' \<and> (\<forall>k. buf_range buf' k \<subseteq> buf_range buf (4 * Suc n + k)))
      (transfer_words b write n (next_word buf) s1)" if s1: "touches (buf_range buf (4 * Suc n)) s s1" for s1
  proof (rule always_mono2 [OF Suc.IH], elim conjE, intro case_prodI conjI allI)
    fix buf' s' k
    assume t: "touches (buf_range (next_word buf) (4 * n)) s1 s'" and r: "\<forall>k. buf_range buf' k \<subseteq> buf_range (next_word buf) (4 * n + k)"
    show "touches (buf_range buf (4 * Suc n)) s s'" by (rule touches_trans [OF s1 touches_mono [OF t sub(2)]])
    show "buf_range buf' k \<subseteq> buf_range buf (4 * Suc n + k)" using r buf_range_next [of buf "4 * n + k"] by (simp add: algebra_simps) blast
  qed
  show ?case
  proof (cases "write")
    case True
    have "touches (buf_range buf (4 * Suc n)) s (wr b 0x20 v s)" for v by (rule touches_same) simp_all
    then show ?thesis using True step by (auto intro!: always_bind_any)
  next
    case False
    obtain v s1 where r: "rd b 0x20 s = (v, s1)" by force
    have "touches (buf_range buf (4 * Suc n)) s s1" using rd_keeps [OF r] by (intro touches_same) simp_all
    then have "always (touches (buf_range buf (4 * Suc n)) s) (store_word buf v s1)"
      by (intro always_mono [OF store_word_touches]) (metis touches_trans touches_mono sub(1))
    then show ?thesis using False r step by (auto intro!: always_bind)
  qed
qed

lemma transfer_block_touches:
  "always (\<lambda>(buf', s'). touches (buf_range buf (unat (block_size (m_dev s)))) s s' \<and>
       (\<forall>k. buf_range buf' k \<subseteq> buf_range buf (unat (block_size (m_dev s)) + k)))
     (transfer_block b write buf s)"
proof -
  let ?len = "unat (block_size (m_dev s))"
  show ?thesis
  proof (cases "?len mod 4 = 0")
    case True
    then have e: "4 * (?len div 4) = ?len" by presburger
    show ?thesis using transfer_words_touches [of buf "?len div 4" s b "write"] True unfolding e
      by (simp add: transfer_block_def Let_def)
  qed (simp add: transfer_block_def always_def)
qed

text \<open>A command of the same transfer: its buffer and its number of blocks do not change.\<close>

definition same_transfer :: "CommandData \<Rightarrow> CommandData \<Rightarrow> bool" where
  "same_transfer c c' \<longleftrightarrow> cmd_buffer c' = cmd_buffer c \<and> transfer_blocks c' = transfer_blocks c"

lemma transfer_loop_touches:
  "always (\<lambda>(ok, c', s'). touches (buf_range buf (n * unat (block_size (m_dev s)))) s s' \<and> same_transfer c c')
     (transfer_loop b write irqs n buf (c, s))"
proof (induction n arbitrary: buf s)
  case 0
  then show ?case by (simp add: always_def touches_same same_transfer_def)
next
  case (Suc n)
  let ?len = "unat (block_size (m_dev s))" and ?R = "buf_range buf (Suc n * unat (block_size (m_dev s)))"
  have R: "buf_range buf ?len \<subseteq> ?R" by (rule buf_range_mono) simp
  have rest: "always (\<lambda>(ok, c', s'). touches ?R s s' \<and> same_transfer c c') (transfer_loop b write irqs n buf' (c, s2))"
    if t: "touches ?R s s2" and r: "\<forall>k. buf_range buf' k \<subseteq> buf_range buf (?len + k)" for buf' s2
  proof -
    have bs: "block_size (m_dev s2) = block_size (m_dev s)" using t by (simp add: touches_def)
    have "buf_range buf' (n * ?len) \<subseteq> ?R" using r by simp
    then show ?thesis
      by (intro always_mono3 [OF Suc.IH]) (use t in \<open>auto simp: bs intro: touches_trans touches_mono\<close>)
  qed
  have block: "always (\<lambda>(ok, c', s'). touches ?R s s' \<and> same_transfer c c')
      (rbind (transfer_block b write buf s1) (\<lambda>(buf, s). transfer_loop b write irqs n buf (c, s)))"
    if k: "m_heap s1 = m_heap s" "m_dev s1 = m_dev s" for s1
  proof (rule always_bind2 [OF transfer_block_touches], elim conjE)
    fix buf' s2
    assume t: "touches (buf_range buf (unat (block_size (m_dev s1)))) s1 s2" and r: "\<forall>k. buf_range buf' k \<subseteq> buf_range buf (unat (block_size (m_dev s1)) + k)"
    have "touches ?R s s2" by (rule touches_trans [OF touches_same [OF k]]) (use touches_mono [OF t] R k in simp)
    then show "always (\<lambda>(ok, c', s'). touches ?R s s' \<and> same_transfer c c') (transfer_loop b write irqs n buf' (c, s2))"
      by (rule rest) (use r k in simp)
  qed
  show ?case
    unfolding transfer_loop.simps Let_def
    by (intro frame_rules block) (auto simp: same_transfer_def dest!: rd_keeps intro!: touches_same)
qed

section \<open>Commands\<close>

lemma same_transfer_trans: "same_transfer c c1 \<Longrightarrow> same_transfer c1 c2 \<Longrightarrow> same_transfer c c2"
  by (simp add: same_transfer_def)

lemma wait_command_keeps: "always (\<lambda>(ok, s'). m_heap s' = m_heap s \<and> m_dev s' = m_dev s) (wait_command b n s)"
proof (induction n arbitrary: s)
  case 0
  then show ?case by (simp add: always_def)
next
  case (Suc n)
  show ?case
    unfolding wait_command.simps Let_def
    by (intro frame_rules always_mono2 [OF Suc.IH]) (auto dest!: rd_keeps)
qed

lemma read_response_keeps [simp]:
  "m_heap (snd (read_response b (c, s))) = m_heap s" "m_dev (snd (read_response b (c, s))) = m_dev s"
  "cmd_buffer (fst (read_response b (c, s))) = cmd_buffer c" "transfer_blocks (fst (read_response b (c, s))) = transfer_blocks c"
  by (auto simp: read_response_def split: prod.splits dest!: rd_keeps)

lemma WaitCommandDone_keeps:
  "always (\<lambda>(ok, c', s'). m_heap s' = m_heap s \<and> m_dev s' = m_dev s \<and> same_transfer c c') (WaitCommandDone b (c, s))"
  unfolding WaitCommandDone_def prod.case Let_def
  by (intro frame_rules wait_command_keeps [THEN always_bind2]) (auto simp: same_transfer_def split_beta dest!: rd_keeps)

abbreviation data_range :: "CommandData \<Rightarrow> 'd mmc \<Rightarrow> u64 set" where
  "data_range c s \<equiv> buf_range (cmd_buffer c) (unat (transfer_blocks c) * unat (block_size (m_dev s)))"

lemma PerformDataTransfer_touches:
  "always (\<lambda>(ok, c', s'). touches (data_range c s) s s' \<and> same_transfer c c') (PerformDataTransfer b (c, s))"
  unfolding PerformDataTransfer_def Let_def prod.case by (rule transfer_loop_touches)

lemma SendCommand_touches:
  "always (\<lambda>(ok, c', s'). touches (data_range c s) s s' \<and> same_transfer c c') (SendCommand b (c, s))"
proof -
  let ?Q = "\<lambda>(ok, c', s'). touches (data_range c s) s s' \<and> same_transfer c c'"
  have last: "always ?Q (if P then rbind (mmc_wait_set b 0x30 2 2000 s1) (\<lambda>(u, s).
               let (interrupts, s) = rd b 0x30 s;
                   s = wr b 0x30 0xffff0002 s
               in if interrupts AND 0xffff0002 \<noteq> 2 \<and> interrupts AND 0xffff0002 \<noteq> 0x100002
                  then Inr (False, c1\<lparr>cmd_error := interrupts AND 0xffff0000\<rparr>, snd (rd b 0x24 s))
                  else Inr (True, c1, wr b 0x30 0xffff0002 s))
          else Inr (True, c1, s1))"
    if t: "touches (data_range c s) s s1" and c: "same_transfer c c1" for P c1 s1
  proof -
    have t': "touches (data_range c s) s s'" if "m_heap s' = m_heap s1" "m_dev s' = m_dev s1" for s'
      by (rule touches_trans [OF t touches_same [OF that]])
    show ?thesis unfolding Let_def
      by (intro frame_rules) (use t c in \<open>auto simp: same_transfer_def dest!: rd_keeps intro!: t'\<close>)
  qed
  have data: "always (\<lambda>(c', s'). touches (data_range c s) s s' \<and> same_transfer c c')
      (if P then rbind (PerformDataTransfer b (c1, s1)) (\<lambda>(u, c, s). Inr (c, s)) else Inr (c1, s1))"
    if k: "m_heap s1 = m_heap s" "m_dev s1 = m_dev s" and c: "same_transfer c c1" for P c1 s1
  proof -
    have R: "data_range c1 s1 = data_range c s" using k c by (simp add: same_transfer_def)
    show ?thesis
      by (intro frame_rules PerformDataTransfer_touches [THEN always_bind3])
        (use touches_same [OF k] c in \<open>auto simp: R same_transfer_trans intro: touches_trans\<close>)
  qed
  show ?thesis
    unfolding SendCommand_def prod.case Let_def
    by (intro frame_rules WaitCommandDone_keeps [THEN always_bind3] data [THEN always_bind2] last [unfolded Let_def])
      (auto simp: same_transfer_def intro!: touches_same)
qed

lemma data_tries_touches: "always (\<lambda>(ok, s'). touches (data_range c s) s s') (data_tries b n (c, s))"
proof (induction n arbitrary: c s)
  case 0
  then show ?case by (simp add: always_def touches_same)
next
  case (Suc n)
  have again: "always (\<lambda>(ok, s'). touches (data_range c s) s s') (data_tries b n (c1, s1))"
    if t: "touches (data_range c s) s s1" and c: "same_transfer c c1" for c1 s1
  proof -
    have R: "data_range c1 s1 = data_range c s" using t c by (simp add: touches_def same_transfer_def)
    show ?thesis by (rule always_mono2 [OF Suc.IH]) (use t in \<open>auto simp: R intro: touches_trans\<close>)
  qed
  show ?case
    unfolding data_tries.simps by (intro frame_rules SendCommand_touches [THEN always_bind3] again) auto
qed

lemma set_command_transfer: "always (\<lambda>c'. same_transfer c c') (set_command t arg timeout c)"
  by (auto simp: always_def set_command_def rbind_eq_Inr same_transfer_def)

text \<open>A read of the card writes into the buffer only.\<close>

lemma Mmc_Read_touches: "always (\<lambda>(r, s'). touches {x. unat (x - buf) < unat sz} s s') (Mmc_Read b buf sz s)"
proof -
  let ?n = "sz div block_size (m_dev s)" and ?R = "{x. unat (x - buf) < unat sz}"
  have le: "unat ?n * unat (block_size (m_dev s)) \<le> unat sz" by (simp add: unat_div)
  have tries: "always (\<lambda>(ok, s'). touches ?R s s') (data_tries b k (c, s))"
    if "same_transfer (command_data\<lparr>transfer_blocks := ?n, cmd_buffer := kMem buf\<rparr>) c" for k c
  proof (rule always_mono2 [OF data_tries_touches], intro case_prodI)
    fix ok s' assume "touches (data_range c s) s s'"
    then show "touches ?R s s'" by (rule touches_mono) (use that le in \<open>auto simp: same_transfer_def\<close>)
  qed
  have "always (\<lambda>(ok, s'). touches ?R s s') (HandleDataCommand b False buf sz block s)" for block
    unfolding HandleDataCommand_def Let_def
    by (intro frame_rules set_command_transfer [THEN always_bind] tries) (auto intro: touches_same)
  then show ?thesis
    unfolding Mmc_Read_def Let_def by (intro frame_rules always_bind2) auto
qed

section \<open>Initialising the card leaves the memory alone\<close>

definition no_mem :: "CommandData \<Rightarrow> bool" where
  "no_mem c \<longleftrightarrow> (\<forall>n. buf_range (cmd_buffer c) n = {})"

lemma no_mem_command_data [simp]: "no_mem command_data" "no_mem (command_data\<lparr>cmd_buffer := kScr i, transfer_blocks := n\<rparr>)"
  "no_mem (c\<lparr>cmd_arg := a\<rparr>) = no_mem c" "no_mem (c\<lparr>cmd_reg := r\<rparr>) = no_mem c"
  by (simp_all add: no_mem_def command_data_def)

lemma no_mem_transfer: "same_transfer c c' \<Longrightarrow> no_mem c' = no_mem c"
  by (simp add: no_mem_def same_transfer_def)

lemma set_command_heap: "no_mem c \<Longrightarrow> always no_mem (set_command t arg timeout c)"
  by (rule always_mono [OF set_command_transfer]) (simp add: no_mem_transfer)

lemma SendCommand_heap: "no_mem c \<Longrightarrow> always (\<lambda>(ok, c', s'). m_heap s' = m_heap s \<and> no_mem c') (SendCommand b (c, s))"
  by (rule always_mono3 [OF SendCommand_touches]) (auto simp: no_mem_def same_transfer_def dest: touches_none)

lemma AppCommand_heap: "no_mem c \<Longrightarrow> always (\<lambda>(ok, c', s'). m_heap s' = m_heap s \<and> no_mem c') (AppCommand b (c, s))"
  unfolding AppCommand_def prod.case Let_def
  by (intro frame_rules SendCommand_heap [THEN always_bind3] SendCommand_heap [THEN always_mono3]) auto

lemmas [frame_rules] = set_command_heap [THEN always_bind] SendCommand_heap [THEN always_bind3] AppCommand_heap [THEN always_bind3]

lemma reset_poll_heap: "always (\<lambda>(ok, s'). m_heap s' = m_heap s) (reset_poll b n s)"
proof (induction n arbitrary: s)
  case (Suc n)
  show ?case unfolding reset_poll.simps Let_def by (intro frame_rules always_mono2 [OF Suc.IH]) (auto dest!: rd_keeps)
qed (simp add: always_def)

lemma ResetCommandHandlingCircuit_heap: "always (\<lambda>(ok, s'). m_heap s' = m_heap s) (ResetCommandHandlingCircuit b s)"
  unfolding ResetCommandHandlingCircuit_def Let_def
  by (intro frame_rules reset_poll_heap [THEN always_mono2]) (auto dest!: rd_keeps)

lemmas [frame_rules] = ResetCommandHandlingCircuit_heap [THEN always_bind2]

lemma Check_heap:
  "always (\<lambda>(ok, s'). m_heap s' = m_heap s) (CheckV2Card b s)"
  "always (\<lambda>(ok, s'). m_heap s' = m_heap s) (CheckUsableCard b s)"
  "always (\<lambda>(ok, s'). m_heap s' = m_heap s) (CheckRca b s)"
  "always (\<lambda>(ok, s'). m_heap s' = m_heap s) (SelectCard b s)"
  unfolding CheckV2Card_def CheckUsableCard_def CheckRca_def SelectCard_def Let_def
  by (intro frame_rules; auto)+

lemma ocr_tries_heap: "no_mem c \<Longrightarrow> always (\<lambda>(ok, c', s'). m_heap s' = m_heap s) (ocr_tries b n (c, s))"
proof (induction n arbitrary: c s)
  case (Suc n)
  show ?case unfolding ocr_tries.simps by (intro frame_rules always_mono3 [OF Suc.IH]) (use Suc.prems in auto)
qed (simp add: always_def)

lemma CheckOcr_heap: "always (\<lambda>(ok, s'). m_heap s' = m_heap s) (CheckOcr b s)"
  unfolding CheckOcr_def Let_def by (intro frame_rules ocr_tries_heap [THEN always_bind3]) auto

lemma sdhc_loop_heap:
  assumes "sdhc_loop b v2 c s = Some r" "no_mem c"
  shows "always (\<lambda>(ok, s'). m_heap s' = m_heap s) r"
proof -
  let ?P = "\<lambda>b v2 c s r. no_mem c \<longrightarrow> always (\<lambda>(ok, s'). m_heap s' = m_heap s) r"
  have "?P b v2 c s r"
  proof (rule sdhc_loop.raw_induct [where P = ?P, OF _ assms(1)], rule impI)
    fix loop :: "'a bus \<Rightarrow> bool \<Rightarrow> CommandData \<Rightarrow> 'a mmc \<Rightarrow> (bool \<times> 'a mmc) res option" and b v2 c s r
    assume ih: "\<And>b v2 c s r. loop b v2 c s = Some r \<Longrightarrow> ?P b v2 c s r" and nm: "no_mem c"
      and body: "(let v2_flags = if v2 then push_bit 30 1 else 0; c = c\<lparr>cmd_arg := 0x00ff8000 OR v2_flags\<rparr>
        in case AppCommand b (c, s) of
            Inl e \<Rightarrow> Some (Inl e)
          | Inr (ok, c, s) \<Rightarrow>
              if \<not> ok then Some (Inr (False, s))
              else let r = cmd_response c ! 0
                   in if bit r 31
                      then Some (Inr (True, s\<lparr>m_dev := (m_dev s)\<lparr>ocr := ucast (drop_bit 8 r AND 0xffff), sdhc := bit r 30\<rparr>\<rparr>))
                      else (case mmc_sleep b 500 s of Inl e \<Rightarrow> Some (Inl e) | Inr s \<Rightarrow> loop b v2 c s)) = Some r"
    let ?c = "c\<lparr>cmd_arg := 0x00ff8000 OR (if v2 then push_bit 30 1 else 0)\<rparr>"
    have c: "no_mem ?c" using nm by simp
    show "always (\<lambda>(ok, s'). m_heap s' = m_heap s) r"
    proof (cases "AppCommand b (?c, s)")
      case (Inl e)
      then show ?thesis using body by (auto simp: Let_def always_def)
    next
      case (Inr x)
      obtain ok c1 s1 where x: "x = (ok, c1, s1)" by (cases x)
      have k: "m_heap s1 = m_heap s" "no_mem c1" using alwaysD [OF AppCommand_heap [OF c] Inr] unfolding x by auto
      show ?thesis
      proof (cases "\<not> ok \<or> bit (cmd_response c1 ! 0) 31")
        case True
        then show ?thesis using body Inr k(1) unfolding x by (auto simp: Let_def always_def split: if_splits)
      next
        case False
        then have st: "(case mmc_sleep b 500 s1 of Inl e \<Rightarrow> Some (Inl e) | Inr s \<Rightarrow> loop b v2 c1 s) = Some r"
          using body Inr unfolding x by (simp add: Let_def)
        show ?thesis
        proof (cases "mmc_sleep b 500 s1")
          case (Inl e)
          then show ?thesis using st by (auto simp: always_def)
        next
          case (Inr s2)
          have "m_heap s2 = m_heap s1" using alwaysD [OF sleep_keeps(1) Inr] by simp
          then show ?thesis using ih [of b v2 c1 s2 r] st Inr k by simp
        qed
      qed
    qed
  qed
  then show ?thesis using assms(2) by blast
qed

lemma wait_inhibit_heap:
  assumes "wait_inhibit b s = Some r"
  shows "always (\<lambda>s'. m_heap s' = m_heap s) r"
proof (rule wait_inhibit.raw_induct [where P = "\<lambda>b s r. always (\<lambda>s'. m_heap s' = m_heap s) r", OF _ assms])
  fix loop :: "'a bus \<Rightarrow> 'a mmc \<Rightarrow> 'a mmc res option" and b s r
  assume ih: "\<And>b s r. loop b s = Some r \<Longrightarrow> always (\<lambda>s'. m_heap s' = m_heap s) r"
    and body: "(let (x, s) = rd b 0x24 s
      in if x AND EMMC_STATUS_INHIBIT \<noteq> 0
         then case mmc_sleep b 1 s of Inl e \<Rightarrow> Some (Inl e) | Inr s \<Rightarrow> loop b s
         else Some (Inr s)) = Some r"
  obtain x s1 where x: "rd b 0x24 s = (x, s1)" by force
  have k: "m_heap s1 = m_heap s" using rd_keeps [OF x] by simp
  show "always (\<lambda>s'. m_heap s' = m_heap s) r"
  proof (cases "x AND EMMC_STATUS_INHIBIT = 0")
    case True
    then show ?thesis using body x k by (auto intro: always_Inr)
  next
    case False
    show ?thesis
    proof (cases "mmc_sleep b 1 s1")
      case (Inl e)
      then show ?thesis using body x False by (auto simp: always_def)
    next
      case (Inr s2)
      have "m_heap s2 = m_heap s1" using alwaysD [OF sleep_keeps(1) Inr] by simp
      then show ?thesis using ih [of b s2 r] body x False Inr k by simp
    qed
  qed
qed

lemma ChangeClockRate_heap: "always (\<lambda>(ok, s'). m_heap s' = m_heap s) (ChangeClockRate b base rate s)"
proof -
  have "always (\<lambda>s'. m_heap s' = m_heap s) (case wait_inhibit b s of None \<Rightarrow> Inl Diverge | Some r \<Rightarrow> r)"
    by (intro frame_rules wait_inhibit_heap)
  note [frame_rules] = this [THEN always_bind]
  show ?thesis unfolding ChangeClockRate_def Let_def by (intro frame_rules) (auto dest!: rd_keeps)
qed

lemma SetupInitialClockRate_heap: "always (\<lambda>(ok, s'). m_heap s' = m_heap s) (SetupInitialClockRate b s)"
  unfolding SetupInitialClockRate_def Let_def by (intro frame_rules) (auto dest!: rd_keeps)

lemma CheckSdhcSupport_heap: "always (\<lambda>(ok, s'). m_heap s' = m_heap s) (CheckSdhcSupport b v2 s)"
  unfolding CheckSdhcSupport_def by (intro frame_rules sdhc_loop_heap) auto

lemma SetScr_heap: "always (\<lambda>(ok, s'). m_heap s' = m_heap s) (SetScr b s)"
proof -
  have "always (\<lambda>(ok, c, s'). m_heap s' = m_heap s \<and> no_mem c) (if \<not> sdhc (m_dev s)
            then rbind (set_command SET_BLOCKLEN 512 2000 command_data) (\<lambda>c. SendCommand b (c, s))
            else Inr (True, command_data, s))"
    by (intro frame_rules SendCommand_heap) auto
  note [frame_rules] = this [THEN always_bind3]
  show ?thesis unfolding SetScr_def Let_def
    by (intro frame_rules) (auto dest!: rd_keeps simp: no_mem_def)
qed

lemma IsCardInserted_heap: "IsCardInserted b s = (x, s') \<Longrightarrow> m_heap s' = m_heap s"
  by (auto simp: IsCardInserted_def split: prod.splits dest!: rd_keeps)

lemma SetupHostIrqs_heap [simp]: "m_heap (SetupHostIrqs b s) = m_heap s"
  by (simp add: SetupHostIrqs_def)

lemmas [frame_rules] = Check_heap [THEN always_bind2] CheckOcr_heap [THEN always_bind2] ChangeClockRate_heap [THEN always_bind2]
  SetupInitialClockRate_heap [THEN always_bind2] CheckSdhcSupport_heap [THEN always_bind2] SetScr_heap [THEN always_bind2]

lemma ResetCard_heap: "always (\<lambda>(ok, s'). m_heap s' = m_heap s) (ResetCard b s)"
  unfolding ResetCard_def Let_def
  by (intro frame_rules) (simp_all, auto dest!: rd_keeps IsCardInserted_heap)

lemma open_tries_heap: "always (\<lambda>(ok, s'). m_heap s' = m_heap s) (open_tries b n s)"
proof (induction n arbitrary: s)
  case (Suc n)
  show ?case unfolding open_tries.simps by (intro frame_rules ResetCard_heap [THEN always_bind2] always_mono2 [OF Suc.IH]) auto
qed (simp add: always_def)

section \<open>What the guests see of the heap\<close>

text \<open>The heap without the kernel's page maps, with the uncached region and R blanked out.\<close>

definition heap_view :: "u64 set \<Rightarrow> heap \<Rightarrow> heap" where
  "heap_view R h = h\<lparr>kernelUncachedMemoryRegionMap := \<lambda>_. \<lparr>pb_size = 0, pb_ref_count = 0\<rparr>, kernelHeapMemMap := \<lambda>_. False,
     dram := \<lambda>x. if x \<in> uncached_area h \<union> R then 0 else dram h x\<rparr>"

definition kept :: "u64 set \<Rightarrow> heap \<Rightarrow> heap \<Rightarrow> bool" where
  "kept R h h' \<longleftrightarrow> heap_view R h' = heap_view R h \<and> kmm_used h \<subseteq> kmm_used h'"

lemma kept_refl [simp]: "kept R h h"
  by (simp add: kept_def)

lemma kept_trans: "kept R h h1 \<Longrightarrow> kept R h1 h2 \<Longrightarrow> kept R h h2"
  by (auto simp: kept_def)

lemma heap_view_starts:
  assumes "heap_view R h' = heap_view R h"
  shows "kHeapStart h' = kHeapStart h" "kUncachedStart h' = kUncachedStart h" "kUserStart h' = kUserStart h"
    "userMemoryRegionMap h' = userMemoryRegionMap h" "nextFreeSpaceIndex h' = nextFreeSpaceIndex h"
  using arg_cong [OF assms, of kHeapStart] arg_cong [OF assms, of kUncachedStart] arg_cong [OF assms, of kUserStart]
    arg_cong [OF assms, of userMemoryRegionMap] arg_cong [OF assms, of nextFreeSpaceIndex] by (simp_all add: heap_view_def)

lemma kept_starts: "kept R h h' \<Longrightarrow> layout_ok h' = layout_ok h \<and> uncached_area h' = uncached_area h \<and> kUncachedStart h' = kUncachedStart h"
  using heap_view_starts [of R h' h] by (simp add: kept_def layout_ok_def uncached_area_def)

lemma keptI:
  assumes "h' = h\<lparr>kernelUncachedMemoryRegionMap := u, kernelHeapMemMap := k, dram := m\<rparr>" "kmm_used h \<subseteq> kmm_used h'"
    "\<And>x. x \<notin> uncached_area h \<Longrightarrow> x \<notin> R \<Longrightarrow> m x = dram h x"
  shows "kept R h h'"
proof -
  have "uncached_area h' = uncached_area h" by (simp add: assms(1) uncached_area_def)
  then have "heap_view R h' = heap_view R h" unfolding heap_view_def using assms(3) by (auto simp: assms(1) fun_eq_iff)
  then show ?thesis using assms(2) by (simp add: kept_def)
qed

lemma keptD:
  assumes "kept R h h'"
  shows "\<exists>u k m. h' = h\<lparr>kernelUncachedMemoryRegionMap := u, kernelHeapMemMap := k, dram := m\<rparr>"
    "kmm_used h \<subseteq> kmm_used h'" "x \<notin> uncached_area h \<Longrightarrow> x \<notin> R \<Longrightarrow> dram h' x = dram h x"
proof -
  note e = assms [unfolded kept_def, THEN conjunct1]
  show "\<exists>u k m. h' = h\<lparr>kernelUncachedMemoryRegionMap := u, kernelHeapMemMap := k, dram := m\<rparr>"
    by (intro exI [of _ "kernelUncachedMemoryRegionMap h'"] exI [of _ "kernelHeapMemMap h'"] exI [of _ "dram h'"])
      (use heap_view_starts [OF e] in \<open>auto intro: heap.equality\<close>)
  show "kmm_used h \<subseteq> kmm_used h'" using assms by (simp add: kept_def)
  show "dram h' x = dram h x" if "x \<notin> uncached_area h" "x \<notin> R"
  proof -
    have "uncached_area h' = uncached_area h" using kept_starts [OF assms] by simp
    then show ?thesis using fun_cong [OF arg_cong [OF e, of dram], of x] that by (simp add: heap_view_def)
  qed
qed

lemma kept_mono: "kept R h h' \<Longrightarrow> R \<subseteq> R' \<Longrightarrow> kept R' h h'"
proof -
  assume k: "kept R h h'" and R: "R \<subseteq> R'"
  obtain u q m where h': "h' = h\<lparr>kernelUncachedMemoryRegionMap := u, kernelHeapMemMap := q, dram := m\<rparr>" using keptD(1) [OF k] by blast
  show ?thesis by (rule keptI [OF h' keptD(2) [OF k]]) (use keptD(3) [OF k] R h' in auto)
qed

section \<open>Pages of the uncached region\<close>

lemma uncached_pages_area:
  assumes "layout_ok h" "i + n \<le> 256" "unat (x - page_at (kUncachedStart h) i) < 4096 * n"
  shows "x \<in> uncached_area h"
proof -
  let ?p = "page_at (kUncachedStart h) i" and ?k = "unat (x - page_at (kUncachedStart h) i)"
  have l: "unat (kUncachedStart h) + 4096 * 256 < 2 ^ 64" and z: "kUncachedStart h \<noteq> 0"
  proof -
    have "unat (kUncachedStart h) + 4096 * 256 \<le> unat (kUserStart h)" using assms(1) by (simp add: layout_ok_def heap_consts)
    then show "unat (kUncachedStart h) + 4096 * 256 < 2 ^ 64" using unat_lt_64 [of "kUserStart h"] by linarith
    have "0 < unat (kUncachedStart h)" using assms(1) by (simp add: layout_ok_def heap_consts)
    then show "kUncachedStart h \<noteq> 0" by (simp add: unat_gt_0)
  qed
  have "n \<noteq> 0" using assms(3) by auto
  then have i: "i < 256" using assms(2) by simp
  have p: "unat ?p = unat (kUncachedStart h) + i * 4096" by (rule page_at_nonzero(2) [OF z _ i]) (use l in simp)
  have "unat (?p + of_nat ?k) = unat ?p + ?k"
    by (subst unat_add_lem [THEN iffD1]) (use p l assms(2,3) in simp_all)
  then have "unat x = unat ?p + ?k" by simp
  then show ?thesis using p assms(2,3) by (simp add: uncached_area_def)
qed

lemma uncached_malloc_page_at:
  assumes "kmm_uncached_malloc sz h = Inr (p, h')" "layout_ok h"
  shows "\<exists>i. p = page_at (kUncachedStart h) i \<and> p \<noteq> 0 \<and> kept {} h h' \<and> dram h' = dram h \<and>
    (\<forall>x. unat (x - p) < 4096 * unat (((sz + 0xfff) AND NOT 0xfff) div 4096) \<longrightarrow> x \<in> uncached_area h)"
proof -
  obtain i n where i: "i < kRegionPageNums" "n = unat (((sz + (ucast PAGE_SIZE - 1)) AND NOT (ucast PAGE_SIZE - 1)) div ucast PAGE_SIZE :: u64)"
    "p = kUncachedStart h + of_nat i * ucast PAGE_SIZE"
    "h' = h\<lparr>kernelUncachedMemoryRegionMap := uncached_take i n (kernelUncachedMemoryRegionMap h)\<rparr>"
    "uncached_scan (kernelUncachedMemoryRegionMap h) n 0 = Inr i" using uncached_malloc_cases [OF assms(1)] by metis
  have p: "p = page_at (kUncachedStart h) i" unfolding i(3) page_at_def by (simp add: PAGE_SIZE_def)
  have n: "n = unat (((sz + 0xfff) AND NOT 0xfff) div 4096)" unfolding i(2) by (simp add: PAGE_SIZE_def)
  have "kmm_is_spaces_available (kernelUncachedMemoryRegionMap h) i n = Inr True" using uncached_scan_Inr [OF i(5)] by blast
  then have in256: "n = 0 \<or> i + n \<le> 256" unfolding spaces_available_True kRegionPageNums_def by blast
  have "p \<noteq> 0"
  proof -
    have "unat (kUncachedStart h) + 4096 * 256 \<le> 2 ^ 64" and "kUncachedStart h \<noteq> 0"
      using assms(2) unat_lt_64 [of "kUserStart h"] by (auto simp: layout_ok_def heap_consts)
    then show ?thesis unfolding p using page_at_nonzero(1) [of "kUncachedStart h" 256 i] i(1) by (simp add: kRegionPageNums_def)
  qed
  moreover have "kept {} h h'" by (rule keptI [where k = "kernelHeapMemMap h" and m = "dram h"]) (simp_all add: i(4) kmm_used_def)
  moreover have "dram h' = dram h" by (simp add: i(4))
  moreover have "x \<in> uncached_area h" if "unat (x - p) < 4096 * n" for x
    by (rule uncached_pages_area [OF assms(2), of i n]) (use that in256 p in auto)
  ultimately show ?thesis using p unfolding n by blast
qed

lemma uncached_free_kept: "always (\<lambda>h'. kept {} h h' \<and> dram h' = dram h) (kmm_uncached_free p h)"
  by (auto simp: always_def kmm_uncached_free_def Let_def kmm_used_def split: if_splits intro!: keptI [where h = h and k = "kernelHeapMemMap h" and m = "dram h"])

section \<open>The firmware\<close>

text \<open>The firmware answers in the message: it writes the uncached region only.\<close>

definition vc_ok :: "(u32 \<Rightarrow> mem \<Rightarrow> mem) \<Rightarrow> u64 set \<Rightarrow> bool" where
  "vc_ok vc A \<longleftrightarrow> (\<forall>msg m x. x \<notin> A \<longrightarrow> vc msg m x = m x)"

lemma kept_dram:
  assumes "kept {} h h1" "\<And>x. x \<notin> uncached_area h \<Longrightarrow> m x = dram h1 x"
  shows "kept {} h (h1\<lparr>dram := m\<rparr>)"
proof (rule kept_trans [OF assms(1)])
  have "uncached_area h1 = uncached_area h" using kept_starts [OF assms(1)] by simp
  then show "kept {} h1 (h1\<lparr>dram := m\<rparr>)"
    using assms(2) by (intro keptI [where u = "kernelUncachedMemoryRegionMap h1" and k = "kernelHeapMemMap h1" and m = m])
      (simp_all add: kmm_used_def)
qed

lemma set_mem_kept: "kept {} h (m_heap s) \<Longrightarrow> (\<And>m x. x \<notin> uncached_area h \<Longrightarrow> f m x = m x) \<Longrightarrow> kept {} h (m_heap (set_mem f s))"
  by (simp add: set_mem_def kept_dram)

lemma Mailbox_Write_kept:
  "vc_ok vc (uncached_area h) \<Longrightarrow> kept {} h (m_heap s) \<Longrightarrow> always (\<lambda>s'. kept {} h (m_heap s')) (Mailbox_Write b vc ch v s)"
  by (auto simp: always_def Mailbox_Write_def rbind_eq_Inr Let_def vc_ok_def intro!: kept_dram)

lemma Mailbox_Read_keeps: "always (\<lambda>(x, s'). m_heap s' = m_heap s) (Mailbox_Read b ch s)"
  by (auto simp: always_def Mailbox_Read_def rbind_eq_Inr)

lemma uncached_zalloc_kept:
  assumes "layout_ok h"
  shows "always (\<lambda>(p, h'). kept {} h h' \<and> (\<forall>x. unat (x - p) < 8192 \<longrightarrow> x \<in> uncached_area h)) (kmm_uncached_zalloc (8 * 1024) h)"
proof -
  have sz: "8 * 1024 = (0x2000 :: u64)" by simp
  have "kept {} h (if p \<noteq> 0 then h1\<lparr>dram := memzero p 0x2000 (dram h1)\<rparr> else h1) \<and> (\<forall>x. unat (x - p) < 8192 \<longrightarrow> x \<in> uncached_area h)"
    if "kmm_uncached_malloc 0x2000 h = Inr (p, h1)" for p h1
  proof -
    note m = uncached_malloc_page_at [OF that assms]
    then have k: "kept {} h h1" by blast
    have a: "\<And>x. unat (x - p) < 8192 \<Longrightarrow> x \<in> uncached_area h" using m by auto
    have "memzero p 0x2000 (dram h1) x = dram h1 x" if "x \<notin> uncached_area h" for x
      using a [of x] that by (auto simp: memzero_eq word_less_nat_alt)
    then show ?thesis using k a kept_dram [OF k] by auto
  qed
  then show ?thesis unfolding sz by (auto simp: always_def kmm_uncached_zalloc_def rbind_eq_Inr)
qed

lemma Mailbox_Process_kept:
  assumes "layout_ok h" "m_heap s = h" "vc_ok vc (uncached_area h)" and len: "length tag = 20"
  shows "always (\<lambda>(ok, t, s'). kept {} h (m_heap s')) (Mailbox_Process b vc tag s)"
proof -
  have step: "kept {} h (m_heap (set_mem f s1))"
    if "kept {} h (m_heap s1)" "\<And>m x. unat (x - p) \<ge> 8192 \<Longrightarrow> f m x = m x" "\<forall>x. unat (x - p) < 8192 \<longrightarrow> x \<in> uncached_area h" for s1 f p
    using that by (intro set_mem_kept) (auto simp: not_less [symmetric])
  have far: "\<not> unat (x - (p + of_nat j)) < k" if "8192 \<le> unat (x - p)" "j + k \<le> 8192" for x p :: u64 and j k
    using offset_shift [of x p j] that by linarith
  have mem: "kept {} h (m_heap (set_mem (\<lambda>m. store_le 4 m (p + 28) (0 :: u32)) (set_mem (\<lambda>m. store_le 4 m (p + 4) (0 :: u32))
      (set_mem (\<lambda>m. store_le 4 m p (0x20 :: u32)) (set_mem (store_bytes (p + 8) tag) (s\<lparr>m_heap := h1\<rparr>))))))"
    if k: "kept {} h h1" and a: "\<forall>x. unat (x - p) < 8192 \<longrightarrow> x \<in> uncached_area h" for p h1
  proof (intro step [OF _ _ a])
    show "kept {} h (m_heap (s\<lparr>m_heap := h1\<rparr>))" using k by simp
    show "store_bytes (p + 8) tag m x = m x" if "8192 \<le> unat (x - p)" for m x
      using far [OF that, of 8 20] len by (simp add: store_bytes_def)
    show "store_le 4 m p (0x20 :: u32) x = m x" "store_le 4 m (p + 4) (0 :: u32) x = m x" "store_le 4 m (p + 28) (0 :: u32) x = m x"
      if "8192 \<le> unat (x - p)" for m x
      using far [OF that, of 0 4] far [OF that, of 4 4] far [OF that, of 28 4] by (simp_all add: store_le_def)
  qed
  have free: "always (\<lambda>h'. kept {} h h') (kmm_uncached_free p h1)" if "kept {} h h1" for p h1
    by (rule always_mono [OF uncached_free_kept]) (use kept_trans [OF that] in blast)
  show ?thesis
    unfolding Mailbox_Process_def Let_def len assms(2)
    by (intro frame_rules uncached_zalloc_kept [OF assms(1), THEN always_bind2] Mailbox_Write_kept [OF assms(3), THEN always_bind]
        Mailbox_Read_keeps [THEN always_bind2] free [THEN always_bind])
      (use mem in \<open>auto simp: len\<close>)
qed

lemma le_bytes_length [simp]: "length (le_bytes x) = 4"
  by (simp add: le_bytes_def)

lemma Mmc_Open_kept:
  assumes "layout_ok (m_heap s)" "vc_ok vc (uncached_area (m_heap s))"
  shows "always (\<lambda>(ok, s'). kept {} (m_heap s) (m_heap s')) (Mmc_Open b vc junk s)"
proof -
  have clock: "always (\<lambda>(r, s'). kept {} (m_heap s) (m_heap s')) (GetClockRate b vc junk kEmmc s1)" if "m_heap s1 = m_heap s" for s1
    unfolding GetClockRate_def
    by (intro frame_rules Mailbox_Process_kept [OF assms(1) that assms(2), THEN always_bind3]) simp_all
  show ?thesis
    unfolding Mmc_Open_def Let_def
    by (intro frame_rules clock [THEN always_bind2] open_tries_heap [THEN always_mono2]) (auto dest!: rd_keeps)
qed

section \<open>The file system\<close>

definition fs_kept :: "u64 set \<Rightarrow> 'd fs \<Rightarrow> 'd fs \<Rightarrow> bool" where
  "fs_kept R s s' \<longleftrightarrow> kept R (fs_heap s) (fs_heap s') \<and> layout_ok (fs_heap s')"

lemma fs_kept_refl: "layout_ok (fs_heap s) \<Longrightarrow> fs_heap s' = fs_heap s \<Longrightarrow> fs_kept R s s'"
  by (simp add: fs_kept_def)

lemma fs_kept_trans: "fs_kept R s s1 \<Longrightarrow> fs_kept R s1 s2 \<Longrightarrow> fs_kept R s s2"
  by (auto simp: fs_kept_def intro: kept_trans)

lemma fs_kept_eq: "fs_kept R s s1 \<Longrightarrow> fs_heap s2 = fs_heap s1 \<Longrightarrow> fs_kept R s s2"
  by (simp add: fs_kept_def)

lemma fs_kept_layout: "fs_kept R s s' \<Longrightarrow> layout_ok (fs_heap s')"
  by (simp add: fs_kept_def)

lemma fs_keptI: "layout_ok (fs_heap s) \<Longrightarrow> kept R (fs_heap s) (fs_heap s') \<Longrightarrow> fs_kept R s s'"
  using kept_starts by (simp add: fs_kept_def)

lemma fs_heap_update [simp]: "fs_heap (s\<lparr>fs_mmc := m\<rparr>) = m_heap m" "fs_heap (s\<lparr>fs_nodes := ns\<rparr>) = fs_heap s"
  "fs_heap (s\<lparr>lfn_result := l\<rparr>) = fs_heap s" "fs_heap (s\<lparr>sfn_result := l\<rparr>) = fs_heap s"
  "fs_heap (s\<lparr>fs_initialized := i\<rparr>) = fs_heap s" "fs_heap (s\<lparr>fs_volume := vs\<rparr>) = fs_heap s"
  by (simp_all add: fs_heap_def)

lemma fs_set_heap_simps [simp]: "fs_heap (fs_set_heap h s) = h" "fs_volume (fs_set_heap h s) = fs_volume s"
    "fs_initialized (fs_set_heap h s) = fs_initialized s" "fs_nodes (fs_set_heap h s) = fs_nodes s"
    "m_io (fs_mmc (fs_set_heap h s)) = m_io (fs_mmc s)" "m_dev (fs_mmc (fs_set_heap h s)) = m_dev (fs_mmc s)"
  by (simp_all add: fs_set_heap_def fs_heap_def)

text \<open>A read of at most eight sectors stays inside its page, whether it succeeds or not.\<close>

lemma ReadSector_kept:
  assumes l: "layout_ok (fs_heap s)" and n: "unat (kBlockSize * num) \<le> 4096"
  shows "always (\<lambda>(p, s'). fs_kept {} s s') (ReadSector b lba num s)"
proof -
  have rd: "always (\<lambda>(r, m). fs_kept {} s (s\<lparr>fs_mmc := m\<rparr>)) (Mmc_Read b p (kBlockSize * num) (snd (Mmc_Seek off ((fs_mmc s)\<lparr>m_heap := h\<rparr>))))"
    if r: "kmm_uncached_malloc (ucast PAGE_SIZE) (fs_heap s) = Inr (p, h)" for p h off
  proof (rule always_mono2 [OF Mmc_Read_touches], rule case_prodI)
    fix r m
    let ?m0 = "snd (Mmc_Seek off ((fs_mmc s)\<lparr>m_heap := h\<rparr>))"
    assume t: "touches {x. unat (x - p) < unat (kBlockSize * num)} ?m0 m"
    have h0: "m_heap ?m0 = h" by (simp add: Mmc_Seek_def)
    note u = uncached_malloc_page_at [OF r l]
    then have k: "kept {} (fs_heap s) h" by blast
    have a: "x \<in> uncached_area (fs_heap s)" if "unat (x - p) < 4096" for x using u that by (auto simp: PAGE_SIZE_def)
    obtain d where d: "m_heap m = h\<lparr>dram := d\<rparr>" "\<forall>x. \<not> unat (x - p) < unat (kBlockSize * num) \<longrightarrow> d x = dram h x"
      using t h0 unfolding touches_def by auto
    have "d x = dram h x" if "x \<notin> uncached_area (fs_heap s)" for x using d(2) a [of x] that n by fastforce
    then have "kept {} (fs_heap s) (m_heap m)" unfolding d(1) by (rule kept_dram [OF k])
    then show "fs_kept {} s (s\<lparr>fs_mmc := m\<rparr>)" by (intro fs_keptI [OF l]) simp
  qed
  show ?thesis
    unfolding ReadSector_def Let_def
  proof (rule always_bind_any, rule always_prod, simp only:)
    fix x p h assume "kmm_uncached_malloc (ucast PAGE_SIZE) (fs_heap s) = Inr (p, h)"
    from rd [OF this] show "always (\<lambda>(p, s'). fs_kept {} s s') (rbind (Mmc_Read b p (kBlockSize * num)
        (snd (Mmc_Seek (ucast (kBlockSize * lba)) ((fs_mmc s)\<lparr>m_heap := h\<rparr>)))) (\<lambda>(r, m). Inr (if r < 0 then 0 else p, s\<lparr>fs_mmc := m\<rparr>)))"
      by (rule always_bind2) (simp add: always_Inr)
  qed
qed

lemma fs_free_kept: "layout_ok (fs_heap s) \<Longrightarrow> always (fs_kept {} s) (fs_free p s)"
  using uncached_free_kept [of "fs_heap s" p] by (auto simp: always_def fs_free_def rbind_eq_Inr intro!: fs_keptI)

lemma free_if_kept: "layout_ok (fs_heap s) \<Longrightarrow> always (fs_kept {} s) (free_if p s)"
  by (auto simp: free_if_def intro: fs_free_kept always_Inr fs_kept_refl)

lemma operator_new_kept: "always (\<lambda>(p, h'). kept {} h h') (operator_new n h)"
proof -
  have "kept {} h h'" if "kmm_malloc n h = Inr (p, h')" for p h'
    using that
  proof (cases rule: kmm_malloc_cases)
    case (2 i)
    then show ?thesis
      by (intro keptI [where u = "kernelUncachedMemoryRegionMap h" and m = "dram h" and k = "(kernelHeapMemMap h)(i := True)"])
        (auto simp: kmm_used_def)
  qed simp
  then show ?thesis by (auto simp: always_def operator_new_def rbind_eq_Inr split: if_splits)
qed

lemma new_node_kept: "layout_ok (fs_heap s) \<Longrightarrow> always (\<lambda>(p, s'). fs_kept {} s s') (new_node v s)"
  using operator_new_kept [of "fs_heap s" 24]
  by (auto simp: always_def new_node_def rbind_eq_Inr intro!: fs_keptI)

lemma set_next_heap: "always (\<lambda>s'. fs_heap s' = fs_heap s) (set_next p q s)"
  by (auto simp: always_def set_next_def rbind_eq_Inr)

lemma InitFile_kept: "layout_ok (fs_heap s) \<Longrightarrow> always (\<lambda>(f, s'). fs_kept {} s s') (InitFile fat attr sz c s)"
  unfolding InitFile_def by (intro frame_rules new_node_kept [THEN always_bind2]) auto


text \<open>The operations in the order in which the code calls them, from a first state on.\<close>

lemma fs_bind:
  assumes "layout_ok (fs_heap s) \<Longrightarrow> always (\<lambda>(x, s'). fs_kept {} s s') m" "fs_kept R s0 s"
    "\<And>x s'. fs_kept R s0 s' \<Longrightarrow> always Q (f x s')"
  shows "always Q (rbind m (\<lambda>(x, s'). f x s'))"
proof (rule always_bind2 [OF assms(1)])
  show "layout_ok (fs_heap s)" by (rule fs_kept_layout [OF assms(2)])
  show "always Q (f x s')" if "fs_kept {} s s'" for x s'
    using assms(2) that kept_mono [of "{}" "fs_heap s" "fs_heap s'" R] by (intro assms(3)) (auto simp: fs_kept_def intro: kept_trans)
qed

lemma fs_bind1:
  assumes "layout_ok (fs_heap s) \<Longrightarrow> always (\<lambda>s'. fs_kept {} s s') m" "fs_kept R s0 s"
    "\<And>s'. fs_kept R s0 s' \<Longrightarrow> always Q (f s')"
  shows "always Q (rbind m f)"
proof (rule always_bind [OF assms(1)])
  show "layout_ok (fs_heap s)" by (rule fs_kept_layout [OF assms(2)])
  show "always Q (f s')" if "fs_kept {} s s'" for s'
    using assms(2) that kept_mono [of "{}" "fs_heap s" "fs_heap s'" R] by (intro assms(3)) (auto simp: fs_kept_def intro: kept_trans)
qed

lemma ReadSector1_kept: "layout_ok (fs_heap s) \<Longrightarrow> always (\<lambda>(p, s'). fs_kept {} s s') (ReadSector b lba 1 s)"
  by (rule ReadSector_kept) (simp_all add: kBlockSize_def)

lemma set_next_bind: "fs_kept R s0 s \<Longrightarrow> (\<And>s'. fs_kept R s0 s' \<Longrightarrow> always Q (f s')) \<Longrightarrow> always Q (rbind (set_next p q s) f)"
  by (rule always_bind [OF set_next_heap]) (simp add: fs_kept_def)

lemmas fs_rules = frame_rules fs_bind [OF ReadSector1_kept] fs_bind1 [OF fs_free_kept] fs_bind1 [OF free_if_kept]
  fs_bind [OF new_node_kept] set_next_bind fs_bind [OF InitFile_kept]

lemma cluster_walk_kept: "fs_kept R s0 s \<Longrightarrow> always (\<lambda>(c, buf, s'). fs_kept R s0 s') (cluster_walk b fat n p c buf s)"
proof (induction n arbitrary: p c buf s)
  case (Suc n)
  show ?case unfolding cluster_walk.simps by (intro fs_rules always_bind_any Suc.IH [THEN always_mono3]) (use Suc.prems in auto)
qed (simp add: always_Inr)

text \<open>Operations with two results.\<close>

lemma CalcCluster_kept: "fs_kept R s0 s \<Longrightarrow> always (\<lambda>(c, s'). fs_kept R s0 s') (CalcCluster b fat p off s)"
  unfolding CalcCluster_def Let_def by (intro fs_rules cluster_walk_kept [THEN always_bind3] always_bind_any) auto

lemma CalcNextCluster_kept: "fs_kept R s0 s \<Longrightarrow> always (\<lambda>(c, s'). fs_kept R s0 s') (CalcNextCluster b fat p s)"
  unfolding CalcNextCluster_def Let_def by (intro fs_rules always_bind_any) auto

lemma CalcNextSector_kept: "fs_kept R s0 s \<Longrightarrow> always (\<lambda>(c, s'). fs_kept R s0 s') (CalcNextSector b fat sec p s)"
  unfolding CalcNextSector_def Let_def by (intro fs_rules CalcNextCluster_kept [THEN always_bind2]) auto

lemma match_entry_kept: "fs_kept R s0 s \<Longrightarrow> always (\<lambda>(f, s'). fs_kept R s0 s') (match_entry fat name a i pb s)"
  unfolding match_entry_def Let_def by (intro fs_rules always_bind_any) (auto simp: fs_kept_def)

lemma scan_entries_kept: "fs_kept R s0 s \<Longrightarrow> always (\<lambda>(f, s'). fs_kept R s0 s') (scan_entries fat name buf pb is s)"
proof (induction "is" arbitrary: s)
  case (Cons i "is")
  show ?case
    unfolding scan_entries.simps Let_def
    by (intro fs_rules match_entry_kept [THEN always_bind2] Cons.IH) (use Cons.prems in auto)
qed (simp add: always_Inr)

lemma open_sector_kept: "fs_kept R s0 s \<Longrightarrow> always (\<lambda>(f, c, p, s'). fs_kept R s0 s') (open_sector b fat name p s)"
  unfolding open_sector_def prod.case_distrib [of "\<lambda>f. f s"]
  by (intro fs_rules scan_entries_kept [THEN always_bind2] CalcNextSector_kept [THEN always_bind2] always_bind_any) auto

lemma open_loop_kept:
  assumes "open_loop b fat name c p s = Some r" "fs_kept R s0 s"
  shows "always (\<lambda>(f, buf, s'). fs_kept R s0 s') r"
proof -
  let ?P = "\<lambda>b fat name c p s r. fs_kept R s0 s \<longrightarrow> always (\<lambda>(f, buf, s'). fs_kept R s0 s') r"
  have "?P b fat name c p s r"
  proof (rule open_loop.raw_induct [where P = ?P, OF _ assms(1)], rule impI)
    fix loop :: "'a bus \<Rightarrow> fat32_fat \<Rightarrow> cstr \<Rightarrow> u32 \<Rightarrow> u32 \<times> u64 \<times> u64 \<Rightarrow> 'a fs \<Rightarrow> (fat32_file option \<times> u64 \<times> 'a fs) res option" and b fat name c p s r
    assume ih: "\<And>b fat name c p s r. loop b fat name c p s = Some r \<Longrightarrow> ?P b fat name c p s r" and k: "fs_kept R s0 s"
      and body: "(if IsValidCluster c
        then case open_sector b fat name p s of
            Inl e \<Rightarrow> Some (Inl e)
          | Inr (found, cluster, p, s) \<Rightarrow>
              (if found \<noteq> None then Some (Inr (found, snd (snd p), s)) else loop b fat name cluster p s)
        else Some (Inr (None, snd (snd p), s))) = Some r"
    show "always (\<lambda>(f, buf, s'). fs_kept R s0 s') r"
    proof (cases "IsValidCluster c")
      case False
      then show ?thesis using body k by (auto simp: always_def)
    next
      case True
      show ?thesis
      proof (cases "open_sector b fat name p s")
        case (Inl e)
        then show ?thesis using True body by (auto simp: always_def)
      next
        case (Inr x)
        obtain f c1 p1 s1 where x: "x = (f, c1, p1, s1)" by (cases x)
        have k1: "fs_kept R s0 s1" using alwaysD [OF open_sector_kept [OF k] Inr] unfolding x by simp
        show ?thesis
        proof (cases "f = None")
          case True
          then have "loop b fat name c1 p1 s1 = Some r" using body Inr \<open>IsValidCluster c\<close> unfolding x by simp
          then show ?thesis using ih k1 by blast
        next
          case False
          then show ?thesis using body Inr k1 \<open>IsValidCluster c\<close> unfolding x by (auto simp: always_def)
        qed
      qed
    qed
  qed
  then show ?thesis using assms(2) by blast
qed

lemma Fat_Open_kept: "fs_kept R s0 s \<Longrightarrow> always (\<lambda>(f, s'). fs_kept R s0 s') (Fat_Open b name s)"
proof -
  have "always (\<lambda>(f, buf, s'). fs_kept R s0 s') (case open_loop b fat name c p s of None \<Rightarrow> Inl Diverge | Some r \<Rightarrow> r)"
    if "fs_kept R s0 s" for fat c p by (simp add: always_Inl open_loop_kept [OF _ that] split: option.split)
  note loop = this [THEN always_bind3]
  assume "fs_kept R s0 s"
  then show ?thesis unfolding Fat_Open_def Let_def by (intro fs_rules loop always_bind_any) auto
qed


lemma mount_volume_kept: "fs_kept R s0 s \<Longrightarrow> always (fs_kept R s0) (mount_volume b i s)"
  unfolding mount_volume_def Let_def by (intro fs_rules) (auto simp: fs_kept_def)

lemma mount_volumes_kept: "fs_kept R s0 s \<Longrightarrow> always (fs_kept R s0) (mount_volumes b is s)"
proof (induction "is" arbitrary: s)
  case (Cons i "is")
  show ?case unfolding mount_volumes.simps by (intro mount_volume_kept [OF Cons.prems, THEN always_bind] Cons.IH)
qed (simp add: always_Inr)

lemma fs_kept_update [simp]:
  "fs_kept R s0 (s\<lparr>fs_volume := vs\<rparr>) = fs_kept R s0 s" "fs_kept R s0 (s\<lparr>fs_initialized := i\<rparr>) = fs_kept R s0 s"
  by (simp_all add: fs_kept_def)

lemma Fat_Init_kept:
  assumes "layout_ok (fs_heap s)" "vc_ok vc (uncached_area (fs_heap s))"
  shows "always (\<lambda>(ok, s'). fs_kept {} s s') (Fat_Init b vc junk s)"
proof -
  note mo = Mmc_Open_kept [of "fs_mmc s" vc b junk, folded fs_heap_def, OF assms]
  have k: "fs_kept {} s (s\<lparr>fs_initialized := False, fs_mmc := m\<rparr>)" if "kept {} (fs_heap s) (m_heap m)" for m
    using that by (intro fs_keptI [OF assms(1)]) simp
  show ?thesis
    unfolding Fat_Init_def Let_def
    by (intro fs_rules always_bind2 [OF mo] mount_volumes_kept [THEN always_bind] | simp)+ (use k in auto)
qed

section \<open>Guest pages and kernel pages are outside the uncached region\<close>

lemma page_offset_nat:
  fixes p x :: u64
  assumes "x - p < 4096" "unat p + 4096 \<le> 2 ^ 64"
  shows "unat p \<le> unat x" "unat x < unat p + 4096"
proof -
  have d: "unat (x - p) < 4096" using assms(1) by (simp add: word_less_nat_alt)
  have "unat (p + (x - p)) = unat p + unat (x - p)" using d assms(2) by (subst unat_add_lem [THEN iffD1]) simp_all
  then have "unat x = unat p + unat (x - p)" by simp
  then show "unat p \<le> unat x" "unat x < unat p + 4096" using d by simp_all
qed

lemma guest_page_cached:
  assumes "layout_ok h" "p \<in> umm_used h" "x - p < 4096"
  shows "x \<notin> uncached_area h"
proof -
  obtain i where i: "i < 524288" "p = page_at (kUserStart h) i" using assms(2) by (auto simp: umm_used_def)
  have l: "unat (kUncachedStart h) + 4096 * 256 \<le> unat (kUserStart h)" "unat (kUserStart h) + 4096 * 524288 \<le> 2 ^ 64"
    using assms(1) by (simp_all add: layout_ok_def heap_consts)
  have p: "unat p = unat (kUserStart h) + i * 4096" unfolding i(2) using page_at_nonzero(2) [OF _ l(2) i(1)] l(1) by fastforce
  have "unat p \<le> unat x" by (rule page_offset_nat(1) [OF assms(3)]) (use p i(1) l(2) in linarith)
  then show ?thesis using p l(1) by (simp add: uncached_area_def)
qed

lemma kernel_page_cached:
  assumes "layout_ok h" "p \<in> kmm_used h" "x - p < 4096"
  shows "x \<notin> uncached_area h"
proof -
  obtain i where i: "i < 16384" "p = page_at (kHeapStart h) i" using assms(2) by (auto simp: kmm_used_def HEAP_PAGES_def)
  have l: "unat (kHeapStart h) + 4096 * 16384 \<le> unat (kUncachedStart h)" using assms(1) by (simp add: layout_ok_def heap_consts)
  have b: "unat (kHeapStart h) + 4096 * 16384 \<le> 2 ^ 64" using l unat_lt_64 [of "kUncachedStart h"] by linarith
  have p: "unat p = unat (kHeapStart h) + i * 4096" unfolding i(2) using page_at_nonzero(2) [OF _ b i(1)] assms(1) by (simp add: layout_ok_def)
  have "unat x < unat p + 4096" by (rule page_offset_nat(2) [OF assms(3)]) (use p i(1) b in linarith)
  then show ?thesis using p l i(1) by (simp add: uncached_area_def)
qed

section \<open>Reading\<close>

text \<open>A page of a file is a count of sectors that the conversion to \<open>float\<close> gives exactly.\<close>

lemma float32_small: "n < 2 ^ 24 \<Longrightarrow> float32 n = n"
proof -
  assume "n < 2 ^ 24"
  then have "floorlog 2 n \<le> 24" by (intro floorlog_leI) simp_all
  then show ?thesis by (simp add: float32_def)
qed

lemma read_sectors_page: "unat n \<le> 4096 \<Longrightarrow> unat (read_sectors_of n) \<le> 8"
proof -
  assume n: "unat n \<le> 4096"
  then have e: "read_sectors_of n = of_nat ((unat n + 256) div 512)" by (simp add: read_sectors_of_def float32_small)
  have k: "(unat n + 256) div 512 \<le> 8" using n by simp
  then have "unat (of_nat ((unat n + 256) div 512) :: u32) = (unat n + 256) div 512" by (simp add: unat_of_nat)
  then show ?thesis using k unfolding e by simp
qed

lemma sectors_page:
  fixes k :: u32
  assumes "unat k \<le> 8"
  shows "unat (kBlockSize * k) \<le> 4096"
proof -
  have "unat (512 * k) = 512 * unat k" using assms by (subst unat_mult_lem [THEN iffD1]) simp_all
  then show ?thesis using assms by (simp add: kBlockSize_def)
qed

lemma memcpy_frame: "\<not> unat (x - d) < unat n \<Longrightarrow> memcpy d s n m x = m x"
proof -
  assume x: "\<not> unat (x - d) < unat n"
  have "fold (\<lambda>i m. m(d + of_nat i := m (s + of_nat i))) [0..<k] m x = m x" if "k \<le> unat n" for k
    using that
  proof (induction k)
    case (Suc k)
    have "unat (of_nat k :: u64) = k" using Suc.prems unat_lt_64 [of n] by (intro unat_of_nat_u64) simp
    then have "x \<noteq> d + of_nat k" using x Suc.prems by auto
    then show ?case using Suc by simp
  qed simp
  then show ?thesis by (simp add: memcpy_def)
qed

lemma fs_memcpy_kept:
  assumes "fs_kept R s0 s" "\<And>x. unat (x - dst) < unat n \<Longrightarrow> x \<in> R"
  shows "always (fs_kept R s0) (fs_memcpy dst src n s)"
proof -
  let ?m = "memcpy dst src (ucast n) (dram (fs_heap s))"
  have u: "unat (ucast n :: u64) = unat n" by (rule unat_ucast_u32_u64)
  have "kept R (fs_heap s) ((fs_heap s)\<lparr>dram := ?m\<rparr>)"
    by (rule keptI [where u = "kernelUncachedMemoryRegionMap (fs_heap s)" and k = "kernelHeapMemMap (fs_heap s)" and m = ?m])
      (use memcpy_frame [of _ dst "ucast n", unfolded u] assms(2) in \<open>auto simp: kmm_used_def\<close>)
  then have "fs_kept R s0 (fs_set_heap ((fs_heap s)\<lparr>dram := ?m\<rparr>) s)"
    using assms(1) by (auto simp: fs_kept_def layout_ok_def intro: kept_trans)
  then show ?thesis by (simp add: fs_memcpy_def always_Inr)
qed

text \<open>The part of the buffer that is still to be filled.\<close>

definition rest_in :: "u64 set \<Rightarrow> u64 \<Rightarrow> u32 \<Rightarrow> bool" where
  "rest_in R buf remains \<longleftrightarrow> unat remains \<le> 4096 \<and> (\<forall>x. unat (x - buf) < unat remains \<longrightarrow> x \<in> R)"

lemma rest_in_next:
  assumes "rest_in R buf remains" "c \<le> remains"
  shows "rest_in R (buf + ucast c) (remains - c)" "\<And>x. unat (x - buf) < unat c \<Longrightarrow> x \<in> R"
proof -
  have u: "unat (remains - c) = unat remains - unat c" using assms(2) by (simp add: unat_sub)
  have c: "unat c \<le> unat remains" using assms(2) by (simp add: word_le_nat_alt)
  have "unat (x - buf) < unat remains" if "unat (x - (buf + ucast c)) < unat remains - unat c" for x
    using offset_shift [of x buf "unat c"] that c by simp
  then show "rest_in R (buf + ucast c) (remains - c)" using assms(1) unfolding rest_in_def u by auto
  show "x \<in> R" if "unat (x - buf) < unat c" for x using assms(1) that c unfolding rest_in_def by auto
qed

lemma read_step_kept:
  assumes "fs_kept R s0 s" "rest_in R buf remains"
  shows "always (\<lambda>((buf, remains, _), s'). fs_kept R s0 s' \<and> rest_in R buf remains) (read_step b fat ((buf, remains, sector, so, cl), s))"
proof -
  have round: "always (\<lambda>((buf, remains, _), s'). fs_kept R s0 s' \<and> rest_in R buf remains)
      (rbind (ReadSector b lba num s) (\<lambda>(read_buf, s).
        if read_buf = 0 then Inl NullDeref
        else rbind (fs_memcpy buf (read_buf + ucast so) c s) (\<lambda>s.
             rbind (fs_free read_buf s) (\<lambda>s.
             rbind (CalcNextSector b fat sector cl s) (\<lambda>(sector, s).
             rbind (node_at cl s) (\<lambda>node.
             Inr ((buf + ucast c, remains - c, sector, 0, node_next node), s)))))))"
    if "unat num \<le> 8" "c \<le> remains" for num c lba
    by (intro fs_rules fs_bind [OF ReadSector_kept [OF _ sectors_page [OF that(1)]] assms(1)] fs_memcpy_kept [THEN always_bind]
        CalcNextSector_kept [THEN always_bind2] always_bind_any)
      (use rest_in_next [OF assms(2) that(2)] in auto)
  have eight: "unat (min (read_sectors_of remains) k) \<le> 8" for k
    using read_sectors_page [of remains] assms(2) by (auto simp: rest_in_def min_def word_le_nat_alt)
  show ?thesis
    unfolding read_step_def prod.case Let_def
    by (simp split: if_splits) (auto intro!: round eight)
qed


lemma read_loop_kept:
  assumes "read_loop b fat c st = Some r" "fs_kept R s0 (snd st)" "rest_in R (fst (fst st)) (fst (snd (fst st)))"
  shows "always (\<lambda>(p, s'). fs_kept R s0 s') r"
proof -
  let ?I = "\<lambda>st. fs_kept R s0 (snd st) \<and> rest_in R (fst (fst st)) (fst (snd (fst st)))"
  let ?P = "\<lambda>b fat c st r. ?I st \<longrightarrow> always (\<lambda>(p, s'). fs_kept R s0 s') r"
  have "?P b fat c st r"
  proof (rule read_loop.raw_induct [where P = ?P, OF _ assms(1)], rule impI)
    fix loop :: "'a bus \<Rightarrow> fat32_fat \<Rightarrow> u32 \<Rightarrow> (u64 \<times> u32 \<times> u32 \<times> u32 \<times> u64) \<times> 'a fs \<Rightarrow> ((u64 \<times> u32 \<times> u32 \<times> u32 \<times> u64) \<times> 'a fs) res option"
      and b fat c st r
    assume ih: "\<And>b fat c st r. loop b fat c st = Some r \<Longrightarrow> ?P b fat c st r" and i: "?I st"
      and body: "(if 0 < fst (snd (fst st)) \<and> IsValidCluster c
        then case read_step b fat st of Inl e \<Rightarrow> Some (Inl e) | Inr st \<Rightarrow> loop b fat c st
        else Some (Inr st)) = Some r"
    obtain buf remains sector so cl s where st: "st = ((buf, remains, sector, so, cl), s)" by (metis prod.collapse)
    note i' = i [unfolded st, simplified]
    show "always (\<lambda>(p, s'). fs_kept R s0 s') r"
    proof (cases "0 < remains \<and> IsValidCluster c")
      case False
      then have "r = Inr st" using body unfolding st by auto
      then show ?thesis using i' by (simp add: st always_Inr)
    next
      case True
      show ?thesis
      proof (cases "read_step b fat st")
        case (Inl e)
        then show ?thesis using True body by (auto simp: st always_def)
      next
        case (Inr st1)
        have "?I st1"
          using alwaysD [OF read_step_kept [OF i'[THEN conjunct1] i'[THEN conjunct2]] Inr [unfolded st]] by (auto split: prod.splits)
        moreover have "loop b fat c st1 = Some r" using True body Inr by (simp add: st)
        ultimately show ?thesis using ih by blast
      qed
    qed
  qed
  then show ?thesis using assms(2,3) by blast
qed

lemma Fat_Read_kept:
  assumes "fs_kept R s0 s" "unat len \<le> 4096" "\<And>x. unat (x - buf) < unat len \<Longrightarrow> x \<in> R"
  shows "always (\<lambda>(n, s'). fs_kept R s0 s') (Fat_Read b file buf off len s)"
proof -
  have loop: "always (\<lambda>(p, s'). fs_kept R s0 s') (or_diverge_res (read_loop b fat c ((buf, remains, sector, so, cl), s1)))"
    if "fs_kept R s0 s1" "unat remains \<le> unat len" for fat c remains sector so cl s1
  proof -
    have "rest_in R buf remains" unfolding rest_in_def using assms(2,3) that(2) by fastforce
    then show ?thesis
      unfolding or_diverge_res_def
      by (auto simp: always_Inl that(1) intro!: read_loop_kept split: option.split)
  qed
  have rem: "unat (min (off + ucast len) sz - off) \<le> unat len" if "\<not> ucast off + len > ucast sz" for sz
  proof -
    have l: "unat (ucast len :: u32) = unat len" using assms(2) by (simp add: unsigned_ucast_eq take_bit_nat_eq_self)
    have o: "unat off < 2 ^ 32" "unat sz < 2 ^ 32" by (rule less_le_trans [OF unsigned_less], simp)+
    have "unat (ucast off + len :: u64) = unat off + unat len"
      using assms(2) o(1) unat_ucast_u32_u64 [of off] by (subst unat_add_lem [THEN iffD1]) simp_all
    then have le: "unat off + unat len \<le> unat sz" using that by (simp add: word_less_nat_alt unat_ucast_u32_u64)
    then have "unat (off + ucast len) = unat off + unat len" using l o by (subst unat_add_lem [THEN iffD1]) simp_all
    then have "min (off + ucast len) sz = off + ucast len" using le by (simp add: min_def word_le_nat_alt)
    then show ?thesis by (simp add: l)
  qed
  show ?thesis
    unfolding Fat_Read_def Let_def
    by (intro fs_rules CalcCluster_kept [THEN always_bind2] loop [THEN always_bind2] always_bind_any) (use assms(1) rem in \<open>auto simp: always_Inr\<close>)
qed




section \<open>The guests\<close>

lemma guests_layout: "guests_inv own h \<Longrightarrow> layout_ok h"
  by (simp add: guests_inv_def s2_inv_def heap_inv_layout)

lemma kept_guests:
  assumes st: "guests_step own own1 (mm, h) (mm1, h1)" and k: "kept R h1 h'"
    and R: "\<And>x. x \<in> R \<Longrightarrow> x - page < 4096 \<and> page \<in> umm_used h1 \<and> page \<notin> umm_used h"
  shows "guests_step own own1 (mm, h) (mm1, h')" "mm_lookup h' mm1 a = mm_lookup h1 mm1 a"
proof -
  note g = st [unfolded guests_step_def prod.case]
  have i1: "guests_inv own1 h1" and ok1: "mm_ok own1 mm1" using g by blast+
  have l: "layout_ok h1" using i1 by (simp add: guests_inv_def s2_inv_def heap_inv_layout)
  have dom: "dom own1 \<subseteq> kmm_used h1" using i1 by (simp add: guests_inv_def s2_inv_def)
  obtain u q m where h': "h' = h1\<lparr>kernelUncachedMemoryRegionMap := u, kernelHeapMemMap := q, dram := m\<rparr>"
    using keptD(1) [OF k] by blast
  have mem: "x \<in> R" if "m x \<noteq> dram h1 x" "x \<notin> uncached_area h1" for x
    using keptD(3) [OF k that(2)] that(1) by (auto simp: h')
  have oth: "\<not> x - p < 4096" if x: "m x \<noteq> dram h1 x" and p: "own1 p \<noteq> None" for x p
  proof
    assume xp: "x - p < 4096"
    have pk: "p \<in> kmm_used h1" using dom p by auto
    have "x \<notin> uncached_area h1" by (rule kernel_page_cached [OF l pk xp])
    then have "x - page < 4096" "page \<in> umm_used h1" using R mem [OF x] by blast+
    then show False using guest_page_not_kernel [OF l _ pk] xp by blast
  qed
  have o: "guests_inv own1 (h1\<lparr>dram := m\<rparr>)" by (rule other_writes(1) [OF i1 oth])
  have o2: "s2_lookup m q a = s2_lookup (dram h1) q a" if "own1 q = Some (q, [])" for q a by (rule other_writes(2) [OF i1 oth that])
  have same: "umm_used h' = umm_used h1" "user_region h' = user_region h1" "dram h' = m" "heap_inv h' = heap_inv (h1\<lparr>dram := m\<rparr>)"
    unfolding h' by (simp_all add: umm_used_def user_region_def user_page_used_def heap_inv_def layout_ok_def)
  have same': "umm_used (h1\<lparr>dram := m\<rparr>) = umm_used h1" "user_region (h1\<lparr>dram := m\<rparr>) = user_region h1"
    "kmm_used (h1\<lparr>dram := m\<rparr>) = kmm_used h1" "dram (h1\<lparr>dram := m\<rparr>) = m"
    by (simp_all add: umm_used_def user_region_def user_page_used_def kmm_used_def)
  note kmm = keptD(2) [OF k]
  have iu: "guests_inv own1 h'"
  proof -
    note o' = o [unfolded guests_inv_def s2_inv_def guest_isolated_def same']
    have "dom own1 \<subseteq> kmm_used h'" using o' kmm by blast
    then show ?thesis unfolding guests_inv_def s2_inv_def guest_isolated_def same using o' by blast
  qed
  have keep: "m x = dram h x" if p: "p \<in> umm_used h" "x - p < 4096" for p x
  proof -
    have pu: "p \<in> umm_used h1" using g p(1) by blast
    have "\<not> x - page < 4096" if "page \<in> umm_used h1" "page \<notin> umm_used h"
      by (rule aligned_pages_disjoint [OF _ _ _ p(2)]) (use umm_used_page [OF l pu] umm_used_page [OF l that(1)] that p(1) in auto)
    then have "m x = dram h1 x" using mem R guest_page_cached [OF l pu p(2)] by blast
    then show ?thesis using g p by simp
  qed
  show "guests_step own own1 (mm, h) (mm1, h')"
    unfolding guests_step_def prod.case same
  proof (intro conjI allI ballI impI)
    show "guests_inv own1 h'" by (rule iu)
    show "kmm_used h \<subseteq> kmm_used h'" using g kmm by blast
    show "s2_lookup m q a = s2_lookup (dram h) q a" if "own q = Some (q, [])" "q \<noteq> mm_page_table mm1" for q a
    proof -
      have "own1 q = Some (q, [])" "s2_lookup (dram h1) q a = s2_lookup (dram h) q a" using g that by blast+
      then show ?thesis using o2 by metis
    qed
    show "m x = dram h x" if "p \<in> umm_used h" "x - p < 4096" for p x by (rule keep [OF that])
    show "own \<subseteq>\<^sub>m own1" "umm_used h \<subseteq> umm_used h1" "user_region h1 = user_region h" using g by blast+
    show "mm_ok own1 mm1" by (rule ok1)
    show "mm_page_table mm1 = mm_page_table mm" if "mm_page_table mm \<noteq> 0" using g that by satx
    show "mm_page_table mm1 = 0 \<or> own (mm_page_table mm1) = None" if "mm_page_table mm = 0" using g that by satx
    show "own1 q = Some (q, [])" if "own q = Some (q, [])" "q \<noteq> mm_page_table mm1" for q using g that by blast
  qed
  show "mm_lookup h' mm1 a = mm_lookup h1 mm1 a"
    using o2 ok1 by (auto simp: mm_lookup_def mm_ok_def same)
qed

lemma fs_writes_kept: "fs_writes page bs s s' \<Longrightarrow> kept {x. unat (x - page) < length bs} (fs_heap s) (fs_heap s')"
proof -
  assume w: "fs_writes page bs s s'"
  then obtain u k m where h': "fs_heap s' = (fs_heap s)\<lparr>kernelUncachedMemoryRegionMap := u, kernelHeapMemMap := k, dram := m\<rparr>"
    unfolding fs_writes_def by blast
  have "fs_mem s' x = store_bytes page bs (fs_mem s) x" if "x \<notin> uncached_area (fs_heap s)" for x
    using w that unfolding fs_writes_def by blast
  then show ?thesis
    using w by (intro keptI [OF h']) (auto simp: fs_writes_def fs_mem_def h' store_bytes_def)
qed

lemma fs_kept_guests:
  assumes "fs_kept {} s s'" "guests_inv own (fs_heap s)" "mm_ok own mm"
  shows "guests_step own own (mm, fs_heap s) (mm, fs_heap s')"
  by (rule kept_guests(1) [OF guests_step_refl [OF assms(2,3)], of "{}"]) (use assms(1) in \<open>auto simp: fs_kept_def\<close>)

end
