(* ===== verification/EvFatLoader.thy ===== *)
theory EvFatLoader
  imports EvFrame
begin

text \<open>
  The image loader of fs/loader.cc on the Raspberry Pi: it mounts the FAT32 volume of the SD card,
  opens the image and copies the file, page by page, into fresh guest pages from the load address on.
  Whatever the card does it extends one address space (the interpretation of \<open>image_loader\<close>); on a card that
  follows its protocol it copies the file.
\<close>

section \<open>The loader\<close>

function fat_load_loop :: "'d bus \<Rightarrow> fat32_file \<Rightarrow> u64 \<Rightarrow> int \<Rightarrow> int \<Rightarrow> MmContext \<times> 'd fs \<Rightarrow> (bool \<times> MmContext \<times> 'd fs) res" where
  "fat_load_loop b file cur_va remains offset (mm, s) =
     (if remains > 0
      then case PageMap mm cur_va (fs_heap s) of
          Inl e \<Rightarrow> Inl e
        | Inr (buf, mm, h) \<Rightarrow>
            let req_len = min 4096 remains
            in (case Fat_Read b file buf (word_of_int offset) (word_of_int req_len) (fs_set_heap h s) of
                  Inl e \<Rightarrow> Inl e
                | Inr (reads, s) \<Rightarrow>
                    if req_len \<noteq> reads then Inr (False, mm, s)
                    else fat_load_loop b file (cur_va + ucast PAGE_SIZE) (remains - reads) (offset + reads) (mm, s))
      else Inr (True, mm, s))"
  by pat_completeness auto
termination by (relation "measure (\<lambda>(b, file, cur_va, remains, offset, s). nat remains)") auto

declare fat_load_loop.simps [simp del]

text \<open>
  The object is value initialised; the arrays of GetSfn and GetLfn are static. The system timer is
  read before and after the copy, for the message with the speed.
\<close>

definition fat_zero :: fat32_fat where
  "fat_zero = \<lparr>fat_bpb = bpb_at (\<lambda>_. 0) 0, fat_root = \<lparr>file_fat = 0, file_attr = 0, file_size = 0, file_cluster_root = 0\<rparr>,
     first_lba = 0, fat_first_sector = 0, fat_sectors = 0, rde_first_sector = 0, rde_sectors = 0,
     data_first_sector = 0, data_sectors = 0, fat_valid = False\<rparr>"

definition Fat32Fs_new :: "'d fs \<Rightarrow> 'd fs res" where
  "Fat32Fs_new s = rbind (operator_new 2280 (fs_heap s)) (\<lambda>(p, h).
     Inr ((fs_set_heap h s)\<lparr>fs_initialized := False, fs_volume := replicate MAX_FAT_VOLUME_SIZE fat_zero\<rparr>))"

definition fs_usec :: "'d bus \<Rightarrow> 'd fs \<Rightarrow> 'd fs" where
  "fs_usec b s = s\<lparr>fs_mmc := (fs_mmc s)\<lparr>m_io := snd (SystemTimer_GetTime b (m_io (fs_mmc s)))\<rparr>\<rparr>"

definition LoaderLoadFile_fat :: "'d bus \<Rightarrow> (u32 \<Rightarrow> mem \<Rightarrow> mem) \<Rightarrow> u32 \<Rightarrow> cstr \<Rightarrow> u64 \<Rightarrow> MmContext \<times> 'd fs \<Rightarrow> (bool \<times> MmContext \<times> 'd fs) res" where
  "LoaderLoadFile_fat b vc junk name va = (\<lambda>(mm, s).
     rbind (Fat32Fs_new s) (\<lambda>s.
     rbind (Fat_Init b vc junk s) (\<lambda>(ok, s).
     if \<not> ok then Inr (False, mm, s)
     else rbind (Fat_Open b name s) (\<lambda>(file, s).
     case file of
       None \<Rightarrow> Inr (False, mm, s)
     | Some file \<Rightarrow>
         rbind (fat_load_loop b file (va AND PAGE_MASK) (GetFileSize file) 0 (mm, fs_usec b s)) (\<lambda>(ok, mm, s).
         Inr (ok, mm, if ok then fs_usec b s else s))))))"

definition LoaderLoadVcpu_fat :: "'d bus \<Rightarrow> (u32 \<Rightarrow> mem \<Rightarrow> mem) \<Rightarrow> u32 \<Rightarrow> LoaderVcpuConfig \<Rightarrow> MmContext \<times> 'd fs \<Rightarrow> (bool \<times> u64 \<times> u64 \<times> string \<times> MmContext \<times> 'd fs) res" where
  "LoaderLoadVcpu_fat b vc junk cfg s =
     rbind (LoaderLoadFile_fat b vc junk (list_cstr (map of_char (cfg_filename cfg))) (cfg_file_load_va cfg) s) (\<lambda>(ok, s).
       Inr (ok, cfg_pc cfg, cfg_sp cfg, cfg_filename cfg, s))"

section \<open>Mapping a page leaves the uncached region alone\<close>

definition same_uncached :: "heap \<Rightarrow> heap \<Rightarrow> bool" where
  "same_uncached h h' \<longleftrightarrow> kernelUncachedMemoryRegionMap h' = kernelUncachedMemoryRegionMap h \<and> kUncachedStart h' = kUncachedStart h"

lemma same_uncached_trans: "same_uncached h h1 \<Longrightarrow> same_uncached h1 h2 \<Longrightarrow> same_uncached h h2"
  by (simp add: same_uncached_def)

lemma kmm_zalloc_uncached: "kmm_zalloc sz h = Inr (p, h') \<Longrightarrow> same_uncached h h'"
  by (auto simp: kmm_zalloc_def kmm_malloc_def rbind_eq_Inr Let_def same_uncached_def split: if_splits option.splits)

lemma CreatePageTable_uncached: "CreatePageTable t s ipa h = Inr (t', h') \<Longrightarrow> same_uncached h h'"
  using kmm_zalloc_uncached by (fastforce simp: CreatePageTable_def rbind_eq_Inr Let_def same_uncached_def split: if_splits)

lemma MapPage_uncached:
  assumes "MapPage mm ipa page flags h = Inr (slot, mm', h')"
  shows "same_uncached h h'"
proof -
  obtain mm1 h1 t2 h2 t3 h3 where 1: "(if mm_page_table mm = 0
            then rbind (kmm_zalloc (ucast PAGE_SIZE) h) (\<lambda>(p, h). Inr (mm\<lparr>mm_page_table := p\<rparr>, h))
            else Inr (mm, h)) = Inr (mm1, h1)"
    and 2: "CreatePageTable (mm_page_table mm1) 30 ipa h1 = Inr (t2, h2)" "CreatePageTable t2 21 ipa h2 = Inr (t3, h3)"
    and 3: "same_uncached h3 h'"
    using assms by (fastforce simp: MapPage_def rbind_eq_Inr Let_def SetPageTableEntry_def same_uncached_def)
  have "same_uncached h h1" using 1 kmm_zalloc_uncached by (auto simp: rbind_eq_Inr same_uncached_def split: if_splits)
  then show ?thesis using CreatePageTable_uncached [OF 2(1)] CreatePageTable_uncached [OF 2(2)] 3 same_uncached_trans by blast
qed

lemma PageMap_uncached:
  assumes "PageMap mm ipa h = Inr (page, mm', h')"
  shows "same_uncached h h'"
proof -
  obtain h1 slot where z: "umm_zalloc 4096 h = Inr (page, h1)" and m: "MapPage mm ipa page kStage2PteDram h1 = Inr (slot, mm', h')"
    using assms by (auto simp: PageMap_def PageAllocate_def MapPageAccessible_def PAGE_SIZE_def rbind_eq_Inr)
  have "same_uncached h h1"
    using z by (auto simp: umm_zalloc_def umm_malloc_def rbind_eq_Inr Let_def same_uncached_def split: if_splits option.splits)
  then show ?thesis using MapPage_uncached [OF m] same_uncached_trans by blast
qed

section \<open>A page of the file\<close>

lemma fs_writes_guests:
  assumes st: "guests_step own own1 (mm, h) (mm1, fs_heap s)" and page: "page \<in> umm_used (fs_heap s)" "page \<notin> umm_used h"
    and w: "fs_writes page bs s s'" and len: "length bs \<le> 4096"
  shows "guests_step own own1 (mm, h) (mm1, fs_heap s')" "mm_lookup (fs_heap s') mm1 a = mm_lookup (fs_heap s) mm1 a"
    "umm_used (fs_heap s') = umm_used (fs_heap s)" "nextFreeSpaceIndex (fs_heap s') = nextFreeSpaceIndex (fs_heap s)"
    "i < length bs \<Longrightarrow> fs_mem s' (page + of_nat i) = bs ! i"
proof -
  have R: "x - page < 4096 \<and> page \<in> umm_used (fs_heap s) \<and> page \<notin> umm_used h" if "x \<in> {x. unat (x - page) < length bs}" for x
    using that len page by (simp add: word_less_nat_alt)
  note k = fs_writes_kept [OF w]
  show "guests_step own own1 (mm, h) (mm1, fs_heap s')" by (rule kept_guests(1) [OF st k R])
  show "mm_lookup (fs_heap s') mm1 a = mm_lookup (fs_heap s) mm1 a" by (rule kept_guests(2) [OF st k R])
  show "umm_used (fs_heap s') = umm_used (fs_heap s)" "nextFreeSpaceIndex (fs_heap s') = nextFreeSpaceIndex (fs_heap s)"
    using keptD(1) [OF k] by (auto simp: umm_used_def user_page_used_def)
  show "fs_mem s' (page + of_nat i) = bs ! i" if i: "i < length bs"
  proof -
    have l: "layout_ok (fs_heap s)" using guests_step_inv [OF st] guests_layout by blast
    have ui: "unat (of_nat i :: u64) = i" by (intro unat_of_nat_u64) (use i len in simp)
    then have "page + of_nat i - page < 4096" unfolding word_less_nat_alt add_diff_cancel_left' using i len by simp
    then have "page + of_nat i \<notin> uncached_area (fs_heap s)" by (rule guest_page_cached [OF l page(1)])
    then show ?thesis using w i ui by (simp add: fs_writes_def store_bytes_def)
  qed
qed

text \<open>The open file after the tables took kernel pages.\<close>

lemma file_open_heap:
  assumes f: "file_open N C c0 k s file" and kmm: "kmm_used (fs_heap s) \<subseteq> kmm_used h" "card (kmm_used h) \<le> card (kmm_used (fs_heap s)) + 3"
    and N: "N + 3 \<le> HEAP_PAGES"
  shows "file_open (N + 3) C c0 k (fs_set_heap h s) file"
proof -
  let ?fat = "fs_volume s ! file_fat file"
  obtain ps where o: "fs_initialized s" "file_fat file < length (fs_volume s)" "unat (file_size file) \<le> 512 * k" "file_on_disk C ?fat c0 k"
      "list_state N C ?fat c0 k s ps" "ps ! 0 = file_cluster_root file" using f unfolding file_open_def by blast
  have "list_state (N + 3) C ?fat c0 k (fs_set_heap h s) ps"
    using o(5) kmm N unfolding list_state_def node_chain_def fs_set_heap_simps by auto
  then show ?thesis unfolding file_open_def fs_set_heap_simps using o by blast
qed

lemma file_open_room: "file_open N C c0 k s file \<Longrightarrow> card (kmm_used (fs_heap s)) \<le> N"
  by (auto simp: file_open_def list_state_def)

section \<open>What a load may change\<close>

lemma Fat32Fs_new_kept: "layout_ok (fs_heap s) \<Longrightarrow> always (fs_kept {} s) (Fat32Fs_new s)"
  unfolding Fat32Fs_new_def
  by (rule always_bind2 [OF operator_new_kept], rule always_Inr) (simp add: fs_keptI)


lemma fat_load_loop_extends:
  assumes "fat_load_loop b file va n off (mm, s) = Inr (ok, mm', s')" "guests_inv own (fs_heap s)" "mm_ok own mm"
  shows "\<exists>own'. guests_step own own' (mm, fs_heap s) (mm', fs_heap s')"
  using assms
proof (induction "nat n" arbitrary: own va n off mm s rule: less_induct)
  case less
  note prems = less.prems
  show ?case
  proof (cases "n > 0")
    case False
    then show ?thesis using prems(1) guests_step_refl [OF prems(2,3)] by (auto simp: fat_load_loop.simps)
  next
    case True
    define k where "k = min 4096 n"
    obtain page mm1 h1 where p: "PageMap mm va (fs_heap s) = Inr (page, mm1, h1)"
      using prems(1) True by (subst (asm) fat_load_loop.simps) (auto split: sum.splits)
    obtain r s2 where f: "Fat_Read b file page (word_of_int off) (word_of_int k) (fs_set_heap h1 s) = Inr (r, s2)"
      and st: "(if k \<noteq> r then Inr (False, mm1, s2) else fat_load_loop b file (va + ucast PAGE_SIZE) (n - r) (off + r) (mm1, s2)) = Inr (ok, mm', s')"
      using prems(1) True p by (subst (asm) fat_load_loop.simps) (auto simp: Let_def k_def split: sum.splits)
    note v = PageMap_view [OF prems(2,3) p]
    obtain own1 where g1: "guests_step own own1 (mm, fs_heap s) (mm1, h1)" using v by blast
    have l1: "layout_ok h1" using guests_step_inv [OF g1] guests_layout by blast
    let ?R = "{x. unat (x - page) < 4096}"
    have kk: "0 < k" "k \<le> 4096" using True by (simp_all add: k_def)
    have len: "unat (word_of_int k :: u64) \<le> 4096"
      using kk by (simp add: unsigned_of_int take_bit_int_eq_self nat_le_iff)
    have "fs_kept ?R (fs_set_heap h1 s) s2"
      using alwaysD [OF Fat_Read_kept [of ?R "fs_set_heap h1 s" "fs_set_heap h1 s" "word_of_int k" page b "file" "word_of_int off"] f] l1 len
      by (auto simp: fs_kept_def)
    then have k2: "kept ?R h1 (fs_heap s2)" by (simp add: fs_kept_def)
    have g2: "guests_step own own1 (mm, fs_heap s) (mm1, fs_heap s2)"
      by (rule kept_guests(1) [OF g1 k2, of page]) (use v in \<open>auto simp: word_less_nat_alt\<close>)
    show ?thesis
    proof (cases "k = r")
      case False
      then show ?thesis using st g2 by auto
    next
      case True
      then have l: "fat_load_loop b file (va + ucast PAGE_SIZE) (n - r) (off + r) (mm1, s2) = Inr (ok, mm', s')" using st by simp
      have i2: "guests_inv own1 (fs_heap s2)" "mm_ok own1 mm1" using guests_step_inv [OF g2] by simp_all
      have "nat (n - r) < nat n" using True kk(1) \<open>n > 0\<close> by simp
      from less.hyps [OF this l i2] show ?thesis using guests_step_trans [OF _ g2] prems(2) by fastforce
    qed
  qed
qed

lemma LoaderLoadVcpu_fat_extends:
  assumes r: "LoaderLoadVcpu_fat b vc junk cfg (mm, s) = Inr (ok, pc, sp, name, mm', s')"
    and vc: "vc_ok vc (uncached_area (fs_heap s))" and inv: "guests_inv own (fs_heap s)" "mm_ok own mm"
  shows "\<exists>own'. guests_step own own' (mm, fs_heap s) (mm', fs_heap s')"
proof -
  have usec: "fs_heap (fs_usec b s) = fs_heap s" for s by (simp add: fs_usec_def fs_heap_def)
  note l = guests_layout [OF inv(1)]
  obtain fname va where r': "LoaderLoadFile_fat b vc junk fname va (mm, s) = Inr (ok, mm', s')"
    using r by (auto simp: LoaderLoadVcpu_fat_def rbind_eq_Inr)
  then obtain s1 ok1 s2 where 1: "Fat32Fs_new s = Inr s1" and 2: "Fat_Init b vc junk s1 = Inr (ok1, s2)"
    and 3: "(if \<not> ok1 then Inr (False, mm, s2)
      else rbind (Fat_Open b fname s2) (\<lambda>(file, s).
        case file of
          None \<Rightarrow> Inr (False, mm, s)
        | Some file \<Rightarrow>
            rbind (fat_load_loop b file (va AND PAGE_MASK) (GetFileSize file) 0 (mm, fs_usec b s)) (\<lambda>(ok, mm, s).
            Inr (ok, mm, if ok then fs_usec b s else s)))) = Inr (ok, mm', s')"
    by (auto simp: LoaderLoadFile_fat_def rbind_eq_Inr)
  have k1: "fs_kept {} s s1" using alwaysD [OF Fat32Fs_new_kept [OF l] 1] .
  have u1: "uncached_area (fs_heap s1) = uncached_area (fs_heap s)" using k1 kept_starts [of "{}" "fs_heap s" "fs_heap s1"] by (simp add: fs_kept_def)
  have k2: "fs_kept {} s1 s2" using alwaysD [OF Fat_Init_kept 2] fs_kept_layout [OF k1] vc u1 by simp
  have k: "fs_kept {} s s2" by (rule fs_kept_trans [OF k1 k2])
  show ?thesis
  proof (cases ok1)
    case False
    then show ?thesis using 3 fs_kept_guests [OF k inv] by auto
  next
    case True
    then obtain f0 s3 where o: "Fat_Open b fname s2 = Inr (f0, s3)"
      and 4: "(case f0 of
          None \<Rightarrow> Inr (False, mm, s3)
        | Some file \<Rightarrow>
            rbind (fat_load_loop b file (va AND PAGE_MASK) (GetFileSize file) 0 (mm, fs_usec b s3)) (\<lambda>(ok, mm, s).
            Inr (ok, mm, if ok then fs_usec b s else s))) = Inr (ok, mm', s')"
      using 3 by (auto simp: rbind_eq_Inr)
    have "fs_kept {} s s3" using alwaysD [OF Fat_Open_kept [OF k] o] by simp
    from fs_kept_guests [OF this inv] have g: "guests_step own own (mm, fs_heap s) (mm, fs_heap s3)" .
    show ?thesis
    proof (cases f0)
      case None
      then show ?thesis using 4 g by auto
    next
      case (Some f)
      then obtain s4 where l: "fat_load_loop b f (va AND PAGE_MASK) (GetFileSize f) 0 (mm, fs_usec b s3) = Inr (ok, mm', s4)"
        and s4: "fs_heap s' = fs_heap s4" using 4 by (auto simp: rbind_eq_Inr usec)
      note gi = guests_step_inv [OF g]
      from fat_load_loop_extends [OF l, unfolded usec] obtain own' where "guests_step own own' (mm, fs_heap s3) (mm', fs_heap s')"
        using gi s4 by auto
      then show ?thesis using guests_step_trans [OF _ g] inv(1) by fastforce
    qed
  qed
qed

section \<open>The loader as the machine calls it\<close>

text \<open>The firmware writes the uncached region only; it gets the address of the message there.\<close>

definition confine :: "u64 set \<Rightarrow> (u32 \<Rightarrow> mem \<Rightarrow> mem) \<Rightarrow> u32 \<Rightarrow> mem \<Rightarrow> mem" where
  "confine A vc msg m x = (if x \<in> A then vc msg m x else m x)"

lemma confine_vc_ok: "vc_ok vc A \<Longrightarrow> confine A vc = vc"
  by (auto simp: vc_ok_def confine_def fun_eq_iff)

definition fat_loader :: "'d bus \<Rightarrow> (u32 \<Rightarrow> mem \<Rightarrow> mem) \<Rightarrow> u32 \<Rightarrow> 'd fs \<Rightarrow> LoaderVcpuConfig \<Rightarrow> loader" where
  "fat_loader b vc junk s cfg = (\<lambda>(mm, h).
     rbind (LoaderLoadVcpu_fat b (confine (uncached_area h) vc) junk cfg (mm, fs_set_heap h s)) (\<lambda>(ok, pc, sp, name, mm, s).
     Inr (ok, pc, sp, name, mm, fs_heap s)))"

interpretation pi_loader: image_loader "fat_loader b vc junk s cfg" for b :: "'d bus" and vc junk s cfg
proof
  fix own mm h ok pc sp name mm' h'
  assume inv: "guests_inv own h" "mm_ok own mm" and r: "fat_loader b vc junk s cfg (mm, h) = Inr (ok, pc, sp, name, mm', h')"
  then obtain s' where l: "LoaderLoadVcpu_fat b (confine (uncached_area h) vc) junk cfg (mm, fs_set_heap h s) = Inr (ok, pc, sp, name, mm', s')"
    and h': "h' = fs_heap s'" by (auto simp: fat_loader_def rbind_eq_Inr)
  have "vc_ok (confine (uncached_area h) vc) (uncached_area (fs_heap (fs_set_heap h s)))" by (simp add: vc_ok_def confine_def)
  from LoaderLoadVcpu_fat_extends [OF l this] show "\<exists>own'. guests_step own own' (mm, h) (mm', h')" using inv by (simp add: h')
qed

section \<open>The copy\<close>

text \<open>One round of the loop: a fresh page is mapped and filled with the next part of the file.\<close>

lemma fat_load_page:
  assumes ok: "emmc_ok b ba v" and r: "fs_ready ba v C s" "has_free_page (fs_heap s)" and f: "file_open N C c0 k s file"
    and g: "guests_inv own (fs_heap s)" "mm_ok own mm" and room: "unat (nextFreeSpaceIndex (fs_heap s)) < 524288" "N + 3 \<le> HEAP_PAGES"
    and n: "0 < n" "n \<le> 4096" "off + n \<le> unat (file_size file)" "unat (file_size file) < 2 ^ 31"
  obtains page mm1 h1 s2 own1 where "PageMap mm cur_va (fs_heap s) = Inr (page, mm1, h1)"
    "Fat_Read b file page (word_of_int (int off)) (word_of_int (int n)) (fs_set_heap h1 s) = Inr (int n, s2)"
    "fs_ready ba v C s2" "has_free_page (fs_heap s2)" "file_open (N + 3) C c0 k s2 file" "fs_volume s2 = fs_volume s"
    "guests_step own own1 (mm, fs_heap s) (mm1, fs_heap s2)" "page \<in> umm_used (fs_heap s2)" "aligned 12 page"
    "unat (nextFreeSpaceIndex (fs_heap s2)) = Suc (unat (nextFreeSpaceIndex (fs_heap s)))"
    "\<And>a. mm_lookup (fs_heap s2) mm1 a = (if s2_path a = s2_path cur_va then page OR kStage2PteDram else mm_lookup (fs_heap s) mm a)"
    "\<And>i. i < n \<Longrightarrow> fs_mem s2 (page + of_nat i) = file_bytes C (fs_volume s ! file_fat file) c0 0 k ! (off + i)"
proof -
  let ?fat = "fs_volume s ! file_fat file" and ?o = "word_of_int (int off) :: u32" and ?n = "word_of_int (int n) :: u64"
  have kroom: "card (kmm_used (fs_heap s)) + 3 \<le> HEAP_PAGES" using file_open_room [OF f] room(2) by linarith
  obtain page mm1 h1 where p: "PageMap mm cur_va (fs_heap s) = Inr (page, mm1, h1)"
    "unat (nextFreeSpaceIndex h1) = Suc (unat (nextFreeSpaceIndex (fs_heap s)))" "card (kmm_used h1) \<le> card (kmm_used (fs_heap s)) + 3"
    by (rule PageMap_total [OF g(1) room(1) kroom])
  let ?s1 = "fs_set_heap h1 s"
  note v = PageMap_view [OF g p(1)]
  obtain own1 where s1: "guests_step own own1 (mm, fs_heap s) (mm1, h1)" using v by blast
  have gi1: "guests_inv own1 h1" "mm_ok own1 mm1" using guests_step_inv [OF s1] by simp_all
  have l1: "layout_ok h1" "heap_inv h1" using gi1(1) by (simp_all add: guests_inv_def s2_inv_def heap_inv_layout)
  have sub: "kmm_used (fs_heap s) \<subseteq> kmm_used h1" using s1 unfolding guests_step_def prod.case by blast
  note su = PageMap_uncached [OF p(1), unfolded same_uncached_def]
  have r1: "fs_ready ba v C ?s1" using r(1) l1(2) by (simp add: fs_ready_def)
  have fp1: "has_free_page (fs_heap ?s1)" using r(2) su has_free_page_uncached [of h1 "fs_heap s"] by simp
  have f1: "file_open (N + 3) C c0 k ?s1 file" by (rule file_open_heap [OF f sub p(3) room(2)])
  have un: "unat ?n = n"
  proof -
    have "n < 2 ^ 64" using n(2) by simp
    then show ?thesis by (simp add: unat_of_nat)
  qed
  have uo: "unat ?o = off"
  proof -
    have "off < 2 ^ 32" using n(3,4) by simp
    then show ?thesis by (simp add: unat_of_nat)
  qed
  have dest: "\<forall>i<unat ?n. page + of_nat i \<notin> uncached_area (fs_heap ?s1)"
  proof (intro allI impI)
    fix i assume "i < unat ?n"
    then have i: "i < 4096" using un n(2) by simp
    then have "unat (of_nat i :: u64) = i" by (intro unat_of_nat_u64) simp
    then have "page + of_nat i - page < 4096" unfolding word_less_nat_alt add_diff_cancel_left' using i by simp
    moreover have "page \<in> umm_used h1" using v by blast
    ultimately show "page + of_nat i \<notin> uncached_area (fs_heap ?s1)" using guest_page_cached [OF l1(1)] by simp
  qed
  have len: "0 < unat ?n" "unat ?n < 2 ^ 31" "unat ?o + unat ?n \<le> unat (file_size file)" unfolding un uo using n by simp_all
  let ?bs = "take n (drop off (file_bytes C ?fat c0 0 k))"
  obtain s2 where 2: "Fat_Read b file page ?o ?n ?s1 = Inr (int n, s2)" "fs_writes page ?bs ?s1 s2"
      "fs_ready ba v C s2" "has_free_page (fs_heap s2)" "file_open (N + 3) C c0 k s2 file"
    using fat_read_at [OF ok r1 fp1 f1 len dest] unfolding un uo by auto
  have lb: "length ?bs = n"
  proof -
    obtain ps where "unat (file_size file) \<le> 512 * k" "file_on_disk C ?fat c0 k" using f unfolding file_open_def by blast
    then have "off + n \<le> length (file_bytes C ?fat c0 0 k)" using n(3) file_bytes_length by fastforce
    then show ?thesis by simp
  qed
  have pg: "page \<in> umm_used (fs_heap ?s1)" "page \<notin> umm_used (fs_heap s)" using v by simp_all
  have s1': "guests_step own own1 (mm, fs_heap s) (mm1, fs_heap ?s1)" using s1 by simp
  have lb': "length ?bs \<le> 4096" unfolding lb by (rule n(2))
  note w = fs_writes_guests [OF s1' pg 2(2) lb']
  show ?thesis
  proof (rule that [OF p(1) 2(1,3-5) _ w(1)])
    show "fs_volume s2 = fs_volume s" using 2(2) by (simp add: fs_writes_def)
    show "page \<in> umm_used (fs_heap s2)" unfolding w(3) by (rule pg(1))
    show "aligned 12 page" using v by blast
    show "unat (nextFreeSpaceIndex (fs_heap s2)) = Suc (unat (nextFreeSpaceIndex (fs_heap s)))" unfolding w(4) by (simp add: p(2))
    show "mm_lookup (fs_heap s2) mm1 a = (if s2_path a = s2_path cur_va then page OR kStage2PteDram else mm_lookup (fs_heap s) mm a)" for a
      unfolding w(2) fs_set_heap_simps using v by blast
    show "fs_mem s2 (page + of_nat i) = file_bytes C ?fat c0 0 k ! (off + i)" if "i < n" for i
    proof -
      have "i < length ?bs" using that lb by simp
      then have "fs_mem s2 (page + of_nat i) = ?bs ! i" by (rule w(5))
      also have "\<dots> = file_bytes C ?fat c0 0 k ! (off + i)" using that lb by simp
      finally show ?thesis .
    qed
  qed
qed

lemma fat_load_loop_reads:
  assumes ok: "emmc_ok b ba v" and "fs_ready ba v C s" "has_free_page (fs_heap s)" "file_open N C c0 k s file"
    "guests_inv own (fs_heap s)" "mm_ok own mm" "off + n = unat (file_size file)" "unat (file_size file) < 2 ^ 31"
    "unat cur_va mod 4096 = 0" "unat cur_va + 4096 * ((n + 4095) div 4096) \<le> 2 ^ 39"
    "unat (nextFreeSpaceIndex (fs_heap s)) + (n + 4095) div 4096 \<le> 524288" "N + 3 * ((n + 4095) div 4096) \<le> HEAP_PAGES"
  shows "\<exists>own' mm' s'. fat_load_loop b file cur_va (int n) (int off) (mm, s) = Inr (True, mm', s') \<and>
    guests_step own own' (mm, fs_heap s) (mm', fs_heap s') \<and> fs_ready ba v C s' \<and>
    (\<forall>a. unat a < unat cur_va \<longrightarrow> mm_lookup (fs_heap s') mm' a = mm_lookup (fs_heap s) mm a) \<and>
    (\<forall>i<n. guest_byte (fs_heap s') mm' (cur_va + of_nat i) = file_bytes C (fs_volume s ! file_fat file) c0 0 k ! (off + i))"
  using assms(2-)
proof (induction n arbitrary: own N cur_va off mm s rule: less_induct)
  case (less n)
  let ?bytes = "file_bytes C (fs_volume s ! file_fat file) c0 0 k"
  show ?case
  proof (cases "n = 0")
    case True
    then have "fat_load_loop b file cur_va (int n) (int off) (mm, s) = Inr (True, mm, s)" by (simp add: fat_load_loop.simps)
    then show ?thesis using True guests_step_refl [OF less.prems(4,5)] less.prems(1) by auto
  next
    case False
    define r where "r = min 4096 n"
    have rb: "0 < r" "r \<le> 4096" "r \<le> n" using False unfolding r_def by simp_all
    have pages: "(n + 4095) div 4096 = Suc ((n - r + 4095) div 4096)" using ceil_div [of n 4096] False unfolding r_def by simp
    have up: "unat cur_va + 4096 \<le> 2 ^ 39" using less.prems(9) unfolding pages by simp
    have room: "unat (nextFreeSpaceIndex (fs_heap s)) < 524288" "N + 3 \<le> HEAP_PAGES"
      using less.prems(10,11) unfolding pages by simp_all
    have fit: "off + r \<le> unat (file_size file)" using less.prems(6) rb(3) by simp
    obtain page mm1 h1 s2 own1 where p: "PageMap mm cur_va (fs_heap s) = Inr (page, mm1, h1)"
        "Fat_Read b file page (word_of_int (int off)) (word_of_int (int r)) (fs_set_heap h1 s) = Inr (int r, s2)"
      and s2: "fs_ready ba v C s2" "has_free_page (fs_heap s2)" "file_open (N + 3) C c0 k s2 file" "fs_volume s2 = fs_volume s"
        "guests_step own own1 (mm, fs_heap s) (mm1, fs_heap s2)"
      and pg: "page \<in> umm_used (fs_heap s2)" "aligned 12 page"
        "unat (nextFreeSpaceIndex (fs_heap s2)) = Suc (unat (nextFreeSpaceIndex (fs_heap s)))"
      and lk: "\<And>a. mm_lookup (fs_heap s2) mm1 a = (if s2_path a = s2_path cur_va then page OR kStage2PteDram else mm_lookup (fs_heap s) mm a)"
      and fill: "\<And>i. i < r \<Longrightarrow> fs_mem s2 (page + of_nat i) = ?bytes ! (off + i)"
      by (rule fat_load_page [OF ok less.prems(1-5) room rb(1,2) fit less.prems(7), of cur_va]) blast
    have mn: "min 4096 (int n) = int r" unfolding r_def by simp
    have st: "fat_load_loop b file cur_va (int n) (int off) (mm, s) =
        fat_load_loop b file (cur_va + 0x1000) (int (n - r)) (int (off + r)) (mm1, s2)"
      using False p rb(3) by (subst fat_load_loop.simps) (simp add: mn PAGE_SIZE_def Let_def of_nat_diff)
    have uc: "unat (cur_va + 0x1000) = unat cur_va + 4096" using up by (subst unat_word_ariths) simp
    note i2 = guests_step_inv [OF s2(5)]
    have "\<exists>own' mm' s'. fat_load_loop b file (cur_va + 0x1000) (int (n - r)) (int (off + r)) (mm1, s2) = Inr (True, mm', s') \<and>
        guests_step own1 own' (mm1, fs_heap s2) (mm', fs_heap s') \<and> fs_ready ba v C s' \<and>
        (\<forall>a. unat a < unat (cur_va + 0x1000) \<longrightarrow> mm_lookup (fs_heap s') mm' a = mm_lookup (fs_heap s2) mm1 a) \<and>
        (\<forall>i<n - r. guest_byte (fs_heap s') mm' (cur_va + 0x1000 + of_nat i) = file_bytes C (fs_volume s2 ! file_fat file) c0 0 k ! (off + r + i))"
    proof (rule less.IH [OF _ s2(1-3) _ _ _ less.prems(7)])
      show "n - r < n" using rb by simp
      show "guests_inv own1 (fs_heap s2)" "mm_ok own1 mm1" using i2 by simp_all
      show "off + r + (n - r) = unat (file_size file)" using less.prems(6) rb(3) by simp
      show "unat (cur_va + 0x1000) mod 4096 = 0" using less.prems(8) unfolding uc by simp
      show "unat (cur_va + 0x1000) + 4096 * ((n - r + 4095) div 4096) \<le> 2 ^ 39" using less.prems(9) unfolding uc pages by simp
      show "unat (nextFreeSpaceIndex (fs_heap s2)) + (n - r + 4095) div 4096 \<le> 524288" using less.prems(10) unfolding pg(3) pages by simp
      show "N + 3 + 3 * ((n - r + 4095) div 4096) \<le> HEAP_PAGES" using less.prems(11) unfolding pages by simp
    qed
    then obtain own' mm' s' where q: "fat_load_loop b file (cur_va + 0x1000) (int (n - r)) (int (off + r)) (mm1, s2) = Inr (True, mm', s')"
        "guests_step own1 own' (mm1, fs_heap s2) (mm', fs_heap s')" "fs_ready ba v C s'"
      and low: "\<And>a. unat a < unat cur_va + 4096 \<Longrightarrow> mm_lookup (fs_heap s') mm' a = mm_lookup (fs_heap s2) mm1 a"
      and hi: "\<And>i. i < n - r \<Longrightarrow> guest_byte (fs_heap s') mm' (cur_va + 0x1000 + of_nat i) = ?bytes ! (off + r + i)"
      unfolding uc s2(4) by blast
    have g: "guests_step own own' (mm, fs_heap s) (mm', fs_heap s')"
      using guests_step_trans [of own "(mm, fs_heap s)" own1 "(mm1, fs_heap s2)"] s2(5) q(2) less.prems(4) by simp
    have keep: "mm_lookup (fs_heap s') mm' a = mm_lookup (fs_heap s) mm a" if a: "unat a < unat cur_va" for a
      using low [of a] lk [of a] other_page [OF less.prems(8) up a] a by simp
    have byte: "guest_byte (fs_heap s') mm' (cur_va + of_nat i) = ?bytes ! (off + i)" if i: "i < n" for i
    proof (cases "i < r")
      case True
      then have y: "i < 4096" using rb(2) by simp
      note o = load_address [OF less.prems(8) y up]
      have "mm_lookup (fs_heap s') mm' (cur_va + of_nat i) = page OR kStage2PteDram" using low [of "cur_va + of_nat i"] lk o(1,3) y by simp
      then have "guest_byte (fs_heap s') mm' (cur_va + of_nat i) = dram (fs_heap s') (page + of_nat i)"
        using mask_page_entry [OF pg(2) kStage2PteDram_low] o(2) by (simp add: guest_byte_def)
      also have "\<dots> = dram (fs_heap s2) (page + of_nat i)" by (rule guests_step_page [OF q(2) pg(1) y])
      also have "\<dots> = ?bytes ! (off + i)" using fill [OF True] by (simp add: fs_mem_def)
      finally show ?thesis .
    next
      case False
      then have r8: "r = 4096" using i unfolding r_def by linarith
      have e: "cur_va + of_nat i = cur_va + 0x1000 + of_nat (i - r)"
      proof -
        have "i = 4096 + (i - r)" using False r8 by simp
        then have "(of_nat i :: u64) = of_nat (4096 + (i - r))" by simp
        then show ?thesis by simp
      qed
      have "i - r < n - r" using i False by simp
      from hi [OF this] show ?thesis unfolding e using False by simp
    qed
    show ?thesis unfolding st using q(1,3) g keep byte by blast
  qed
qed

lemma fs_usec_ready:
  assumes "emmc_ok b ba v"
  shows "fs_heap (fs_usec b s) = fs_heap s" "fs_volume (fs_usec b s) = fs_volume s"
    "fs_ready ba v C s \<Longrightarrow> fs_ready ba v C (fs_usec b s)" "file_open N C c0 k (fs_usec b s) file = file_open N C c0 k s file"
proof -
  obtain x d where x: "bus_read b SystemTimerRegs_CLO (m_io (fs_mmc s)) = (x, d)" by force
  then have io: "snd (SystemTimer_GetTime b (m_io (fs_mmc s))) = d" by (simp add: SystemTimer_GetTime_def)
  note k = emmc_okD(3) [OF assms x]
  show h: "fs_heap (fs_usec b s) = fs_heap s" and vol: "fs_volume (fs_usec b s) = fs_volume s"
    by (simp_all add: fs_usec_def fs_heap_def)
  show "fs_ready ba v C (fs_usec b s)" if "fs_ready ba v C s"
    using that k io h by (simp add: fs_ready_def keeps_def) (simp add: fs_usec_def io)
  show "file_open N C c0 k (fs_usec b s) file = file_open N C c0 k s file"
    unfolding file_open_def list_state_def node_chain_def h vol by (simp add: fs_usec_def)
qed

lemma GetFileSize_small: "unat (file_size file) < 2 ^ 31 \<Longrightarrow> GetFileSize file = int (unat (file_size file))"
proof -
  assume n: "unat (file_size file) < 2 ^ 31"
  have "uint (file_size file) = int (unat (file_size file))" unfolding uint_nat ..
  then show ?thesis using signed_small [OF n] by (simp add: GetFileSize_def sint_uint)
qed

lemma load_va_aligned: "unat (va AND PAGE_MASK) mod 4096 = 0"
proof -
  have "aligned 12 (va AND PAGE_MASK)" by (simp add: aligned_bit bit_and_iff PAGE_MASK_def bit_numeral_simps less_Suc_eq eval_nat_numeral)
  then show ?thesis by (simp add: aligned_dvd mod_eq_0_iff_dvd)
qed

text \<open>The whole load, once the volume is mounted and the file found.\<close>

lemma LoaderLoadVcpu_fat_loads:
  fixes v :: "'d emmc_view"
  assumes ok: "emmc_ok b ba v"
    and init: "Fat32Fs_new s0 = Inr s1" "Fat_Init b vc junk s1 = Inr (True, s2)"
      "Fat_Open b (list_cstr (map of_char (cfg_filename cfg))) s2 = Inr (Some file, s)"
    and r: "fs_ready ba v C s" "has_free_page (fs_heap s)" and f: "file_open N C c0 k s file"
    and g: "guests_inv own (fs_heap s)" "mm_ok own mm" and n: "n = unat (file_size file)" "n < 2 ^ 31"
    and va: "va = cfg_file_load_va cfg AND PAGE_MASK" and room: "unat va + 4096 * ((n + 4095) div 4096) \<le> 2 ^ 39"
      "unat (nextFreeSpaceIndex (fs_heap s)) + (n + 4095) div 4096 \<le> 524288" "N + 3 * ((n + 4095) div 4096) \<le> HEAP_PAGES"
  shows "\<exists>own' mm' s'. LoaderLoadVcpu_fat b vc junk cfg (mm, s0) = Inr (True, cfg_pc cfg, cfg_sp cfg, cfg_filename cfg, mm', s') \<and>
    guests_step own own' (mm, fs_heap s) (mm', fs_heap s') \<and>
    (\<forall>i<n. guest_byte (fs_heap s') mm' (va + of_nat i) = file_bytes C (fs_volume s ! file_fat file) c0 0 k ! i)"
proof -
  note u = fs_usec_ready [OF ok, where s = s]
  have n0: "0 + n = unat (file_size file)" "unat (file_size file) < 2 ^ 31" using n by simp_all
  have al: "unat va mod 4096 = 0" unfolding va by (rule load_va_aligned)
  have f1: "file_open N C c0 k (fs_usec b s) file" using f unfolding u(4) .
  obtain own' mm' s' where l: "fat_load_loop b file va (int n) (int 0) (mm, fs_usec b s) = Inr (True, mm', s')"
      "guests_step own own' (mm, fs_heap s) (mm', fs_heap s')"
      "\<forall>i<n. guest_byte (fs_heap s') mm' (va + of_nat i) = file_bytes C (fs_volume s ! file_fat file) c0 0 k ! (0 + i)"
    using fat_load_loop_reads [OF ok u(3) [OF r(1)] _ f1 _ g(2) n0 al room(1) _ room(3), unfolded u(1,2), OF r(2) g(1) room(2)] by blast
  have "LoaderLoadVcpu_fat b vc junk cfg (mm, s0) = Inr (True, cfg_pc cfg, cfg_sp cfg, cfg_filename cfg, mm', fs_usec b s')"
    using init l(1) GetFileSize_small [OF n0(2)] n(1)
    by (simp add: LoaderLoadVcpu_fat_def LoaderLoadFile_fat_def va)
  then show ?thesis using l(2,3) unfolding fs_usec_ready(1) [OF ok, where s = s', symmetric] by auto
qed



end
