(* ===== verification/EvRuns.thy ===== *)
theory EvRuns
  imports EvFatLoader
begin

text \<open>
  Runs of the hypervisor with the image loader of its platform, and the isolation of the guests in them.
\<close>

section \<open>Runs of the hypervisor\<close>

text \<open>
  A step of the machine: on QEMU with the loader on any state of the disk, on the boards with the SD card
  with the loader on any state of the card and the driver, and any configuration.
\<close>

inductive hyp_step :: "platform \<Rightarrow> 'd vdev \<Rightarrow> 'e bus \<Rightarrow> hv \<Rightarrow> hv \<Rightarrow> bool" for p dev b where
  hyp_qemu: "hyp_step p dev b hv hv'" if "p = Qemu" "hv_step p (LoaderLoadVcpu dev d cfg) hv hv'"
| hyp_pi: "hyp_step p dev b hv hv'" if "p \<noteq> Qemu" "hv_step p (fat_loader b vc junk s cfg) hv hv'"

inductive_cases hyp_stepE: "hyp_step p dev b hv hv'"

lemma hyp_step_spec:
  assumes "hyp_step p dev b hv hv'" "hv_inv hv"
  shows "hv_inv hv' \<and> user_region (hv_heap hv') = user_region (hv_heap hv) \<and>
    (\<forall>j<ntasks hv. j \<noteq> cur hv \<longrightarrow> j \<noteq> cur hv' \<longrightarrow> guest_kept hv hv' j)"
  by (rule hyp_stepE [OF assms(1)]) (erule qemu_loader.hv_step_spec [OF _ assms(2)], erule pi_loader.hv_step_spec [OF _ assms(2)])

lemma hyp_steps_inv: "(hyp_step p dev b)\<^sup>*\<^sup>* hv hv' \<Longrightarrow> hv_inv hv \<Longrightarrow> hv_inv hv'"
  by (induction rule: rtranclp_induct) (use hyp_step_spec in blast)+

lemma guest_pages_distinct:
  assumes inv: "hv_inv hv" and j: "j < ntasks hv" "k < ntasks hv" "j \<noteq> k"
    and u: "guest_lookup hv j a AND PAGE_MASK \<in> user_region (hv_heap hv)"
  shows "guest_lookup hv j a AND PAGE_MASK \<noteq> guest_lookup hv k b AND PAGE_MASK"
proof
  assume e: "guest_lookup hv j a AND PAGE_MASK = guest_lookup hv k b AND PAGE_MASK"
  obtain own where ok: "vm_ok own hv" using inv by (auto simp: hv_inv_def)
  have l: "layout_ok (hv_heap hv)" using ok by (simp add: vm_ok_def guests_inv_def s2_inv_def heap_inv_layout)
  have nz: "root_of hv i \<noteq> 0" if "guest_lookup hv i c AND PAGE_MASK \<in> user_region (hv_heap hv)" for i c
  proof
    assume "root_of hv i = 0"
    then have "guest_lookup hv i c AND PAGE_MASK = 0" by (simp add: guest_lookup_def mm_lookup_def root_of_def)
    then show False using that user_region_nonzero [OF l] by simp
  qed
  have own: "own (root_of hv i) = Some (root_of hv i, [])" if "i < ntasks hv" "root_of hv i \<noteq> 0" for i
    using ok that by (auto simp: vm_ok_def block_ok_def mm_ok_def root_of_def)
  have gl: "guest_lookup hv i c = s2_lookup (dram (hv_heap hv)) (root_of hv i) c" if "root_of hv i \<noteq> 0" for i c
    using that by (simp add: guest_lookup_def mm_lookup_def root_of_def)
  have nj: "root_of hv j \<noteq> 0" and nk: "root_of hv k \<noteq> 0" using nz u e by metis+
  have "guest_isolated own (hv_heap hv)" using ok by (simp add: vm_ok_def guests_inv_def)
  then have "root_of hv j = root_of hv k"
    using own [OF j(1) nj] own [OF j(2) nk] u e unfolding gl [OF nj] gl [OF nk] guest_isolated_def by blast
  moreover have "root_of hv j \<noteq> root_of hv k" using ok j nj unfolding vm_ok_def by blast
  ultimately show False by contradiction
qed

text \<open>
  C1. Guests are isolated in every run: from a state that satisfies the invariant, whatever guests,
  interrupts, the disk or the SD card and its controller do, the invariant holds; in every step the memory, the translation and the
  scheduling state of a guest that runs neither before nor after the step stay, and no two guests ever
  have a user page in common.
\<close>

theorem guests_isolated:
  fixes dev :: "'d vdev" and b :: "'e bus"
  assumes "hv_inv hv" "(hyp_step p dev b)\<^sup>*\<^sup>* hv hv1" "hyp_step p dev b hv1 hv2"
  shows "hv_inv hv2 \<and>
    (\<forall>j. j < ntasks hv1 \<longrightarrow> j \<noteq> cur hv1 \<longrightarrow> j \<noteq> cur hv2 \<longrightarrow> guest_kept hv1 hv2 j) \<and>
    (\<forall>j k a b. j < ntasks hv2 \<longrightarrow> k < ntasks hv2 \<longrightarrow> j \<noteq> k \<longrightarrow>
       guest_lookup hv2 j a AND PAGE_MASK \<in> user_region (hv_heap hv2) \<longrightarrow>
       guest_lookup hv2 j a AND PAGE_MASK \<noteq> guest_lookup hv2 k b AND PAGE_MASK) \<and>
    (cur hv2 \<noteq> 0 \<longrightarrow> vttbr_el2 (hv_cpu hv2) = root_of hv2 (cur hv2) OR push_bit 48 (of_nat (cur hv2) AND 0xff))"
proof (intro conjI allI impI)
  have i1: "hv_inv hv1" using hyp_steps_inv [OF assms(2,1)] .
  note s = hyp_step_spec [OF assms(3) i1]
  show i2: "hv_inv hv2" using s by blast
  show "guest_kept hv1 hv2 j" if "j < ntasks hv1" "j \<noteq> cur hv1" "j \<noteq> cur hv2" for j using s that by blast
  show "guest_lookup hv2 j a AND PAGE_MASK \<noteq> guest_lookup hv2 k b AND PAGE_MASK"
    if "j < ntasks hv2" "k < ntasks hv2" "j \<noteq> k" "guest_lookup hv2 j a AND PAGE_MASK \<in> user_region (hv_heap hv2)" for j k a b
    using guest_pages_distinct [OF i2 that] .
  show "vttbr_el2 (hv_cpu hv2) = root_of hv2 (cur hv2) OR push_bit 48 (of_nat (cur hv2) AND 0xff)" if "cur hv2 \<noteq> 0"
    using i2 that by (simp add: hv_inv_def entered_def)
qed

lemma demo_loop: "hv_inv (demo_hv\<lparr>hv_resume := \<lambda>_. FirstRun\<rparr>)"
proof -
  let ?hv = "demo_hv\<lparr>hv_resume := \<lambda>_. FirstRun\<rparr>"
  have same: "task ?hv = task demo_hv" "ntasks ?hv = ntasks demo_hv" "root_of ?hv = root_of demo_hv" "cur ?hv = 1"
    by (simp_all add: task_def ntasks_def root_of_def cur_def fun_eq_iff demo_hv_def)
  have "vm_ok (\<lambda>_. None) ?hv" using demo_vm_ok unfolding vm_ok_def same by simp
  moreover have "loop_ok ?hv" by (simp add: loop_ok_def)
  moreover have "root_of demo_hv 1 = 0" by (simp add: root_of_def task_def)
  then have "entered ?hv" unfolding entered_def same by (simp add: demo_hv_def push_bit_eq_mult)
  ultimately show ?thesis by (auto simp: hv_inv_def)
qed

theorem guests_isolated_witness:
  "\<exists>hv2. hyp_step Qemu demo_dev demo_emmc (demo_hv\<lparr>hv_resume := \<lambda>_. FirstRun\<rparr>) hv2 \<and> cpu_sysregs (hv_cpu hv2) = (\<lambda>_. 7) \<and>
     guest_kept (demo_hv\<lparr>hv_resume := \<lambda>_. FirstRun\<rparr>) hv2 0"
proof -
  let ?hv = "demo_hv\<lparr>hv_resume := \<lambda>_. FirstRun\<rparr>"
  let ?hv2 = "?hv\<lparr>hv_heap := (hv_heap ?hv)\<lparr>dram := dram (hv_heap ?hv)\<rparr>, hv_cpu := (hv_cpu ?hv)\<lparr>cpu_sysregs := \<lambda>_. 7\<rparr>\<rparr>"
  have c: "cur ?hv = 1" "cur ?hv2 = 1" "ntasks ?hv = 2" by (simp_all add: cur_def demo_hv_def ntasks_def)
  have "hv_step Qemu (LoaderLoadVcpu demo_dev d (hd (kConfigVCPUs TEST_APP))) ?hv ?hv2" for d
    by (rule hv_step.guest_runs) (simp_all add: c guest_writes_def)
  then have s: "hyp_step Qemu demo_dev demo_emmc ?hv ?hv2" by (intro hyp_qemu) simp_all
  have "guest_kept ?hv ?hv2 0"
    using guests_isolated [OF demo_loop rtranclp.rtrancl_refl s] c by (metis zero_less_numeral zero_neq_one)
  then show ?thesis using s by auto
qed

end
