(* ===== verification/EvStart.thy ===== *)
theory EvStart
  imports EvRuns
begin

text \<open>
  The start of the hypervisor (kernel/kernel_main.cc): the scheduler with its timer, one task for every
  configured guest, and that the state in which the loop of \<open>KernelMain\<close> begins satisfies the invariant,
  so that every run from power on is isolated.
\<close>

section \<open>KernelMain\<close>

text \<open>The lambdas that are registered at the interrupt controller.\<close>

datatype line_handler = SerialReceive | SchedTick

type_synonym 'd chip = "line_handler option list \<times> ArmGenericTimer \<times> 'd"

definition StartSchedTimer :: "'d bus \<Rightarrow> platform \<Rightarrow> u64 \<Rightarrow> u64 \<Rightarrow> 'd chip \<Rightarrow> 'd chip res" where
  "StartSchedTimer b p cntfrq cntpct = (\<lambda>(tbl, t, d).
     rbind (RegisterIrq b p 26 0 0xca SchedTick (tbl, d)) (\<lambda>(tbl, d).
       Inr (tbl, ArmGenericTimer_Start cntfrq cntpct 1000 t, d)))"

text \<open>The loop over the configurations; the argument of the loader is the address of one.\<close>

fun create_tasks :: "platform \<Rightarrow> symbols \<Rightarrow> u64 \<Rightarrow> u64 list \<Rightarrow> hv \<Rightarrow> hv res" where
  "create_tasks p sy loader [] hv = Inr hv"
| "create_tasks p sy loader (vcpu # vcpus) hv =
     rbind (CreateTask p sy loader vcpu hv) (\<lambda>(pid, hv). create_tasks p sy loader vcpus hv)"

text \<open>The addresses of the entries of \<open>kConfigVCPUs\<close>, which the linker places; an entry takes 32 bytes.\<close>

definition vcpu_addresses :: "u64 \<Rightarrow> test_guest \<Rightarrow> u64 list" where
  "vcpu_addresses configs g = map (\<lambda>i. configs + of_nat (32 * i)) [0..<length (kConfigVCPUs g)]"

text \<open>\<open>KernelMain\<close> up to its loop; the serial line is already up (CONFIG_EARLY_SERIAL_INIT).\<close>

definition KernelMain_start :: "'d bus \<Rightarrow> platform \<Rightarrow> test_guest \<Rightarrow> symbols \<Rightarrow> u64 \<Rightarrow> u64 \<Rightarrow> u64 \<Rightarrow> u64 \<Rightarrow> 'd chip \<times> hv \<Rightarrow> ('d chip \<times> hv) res" where
  "KernelMain_start b p g sy loader configs cntfrq cntpct = (\<lambda>(k, hv).
     let hv = hv\<lparr>hv_sched := Sched_Init (hv_sched hv)\<rparr>
     in rbind (StartSchedTimer b p cntfrq cntpct k) (\<lambda>k.
        rbind (create_tasks p sy loader (vcpu_addresses configs g) hv) (\<lambda>hv. Inr (k, hv))))"

section \<open>The board of a new task\<close>

definition board_pages :: "platform \<Rightarrow> u64 list" where
  "board_pages p = device_pages (GIC_V2_DISTRIBUTOR_BASE p) (GIC_V2_CPU_INTERFACE_BASE p) @
     device_pages (GIC_V2_VIRTUAL_CPU_BASE p) (GIC_V2_VIRTUAL_CPU_BASE p + 0x2000) @
     device_pages (UART0_BASE p) (UART0_BASE p + 0x1000)"

lemma device_pages_aligned: "aligned 12 st \<Longrightarrow> pa \<in> set (device_pages st e) \<Longrightarrow> aligned 12 pa"
proof -
  assume st: "aligned 12 st" and "pa \<in> set (device_pages st e)"
  then obtain i where pa: "pa = st + of_nat (i * 4096)" by (auto simp: device_pages_def)
  have "(of_nat (i * 4096) :: u64) = push_bit 12 (of_nat i)" by (simp add: push_bit_eq_mult)
  then have "aligned 12 (of_nat (i * 4096) :: u64)" by (simp add: aligned_bit bit_push_bit_iff)
  then show ?thesis using st unfolding pa by (intro aligned_add) simp_all
qed

lemma board_pages_aligned: "pa \<in> set (board_pages p) \<Longrightarrow> aligned 12 pa"
proof -
  have "aligned 12 (GIC_V2_DISTRIBUTOR_BASE p)" "aligned 12 (GIC_V2_VIRTUAL_CPU_BASE p)" "aligned 12 (UART0_BASE p)"
    by (simp_all add: GIC_V2_DISTRIBUTOR_BASE_def GIC_V2_VIRTUAL_CPU_BASE_def UART0_BASE_def aligned_def
        take_bit_eq_mask mask_eq_exp_minus_1)
  then show "pa \<in> set (board_pages p) \<Longrightarrow> aligned 12 pa" by (auto simp: board_pages_def dest: device_pages_aligned)
qed

lemma board_pages_count: "length (board_pages p) \<le> 19"
  by (simp add: board_pages_def device_pages_def GIC_V2_DISTRIBUTOR_BASE_def GIC_V2_CPU_INTERFACE_BASE_def
      GIC_V2_VIRTUAL_CPU_BASE_def UART0_BASE_def)

text \<open>The boards differ only in where the guest sees the pages.\<close>

definition board_maps :: "(u64 \<Rightarrow> u64) \<Rightarrow> (u64 \<Rightarrow> u64) \<Rightarrow> (u64 \<Rightarrow> u64) \<Rightarrow> platform \<Rightarrow> board \<Rightarrow> MmContext \<Rightarrow> heap \<Rightarrow> (board \<times> MmContext \<times> heap) res" where
  "board_maps v1 v2 v3 p b mm h =
     rbind (Board_Init b h) (\<lambda>(b, h).
     rbind (MapDevices v1 False (device_pages (GIC_V2_DISTRIBUTOR_BASE p) (GIC_V2_CPU_INTERFACE_BASE p)) (mm, h)) (\<lambda>mh.
     rbind (MapDevices v2 True (device_pages (GIC_V2_VIRTUAL_CPU_BASE p) (GIC_V2_VIRTUAL_CPU_BASE p + 0x2000)) mh) (\<lambda>mh.
     rbind (MapDevices v3 False (device_pages (UART0_BASE p) (UART0_BASE p + 0x1000)) mh) (\<lambda>(mm, h).
       Inr (b, mm, h)))))"

lemma board_Init_maps: "\<exists>v1 v2 v3. board_Init p = board_maps v1 v2 v3 p"
proof (cases p)
  case Qemu
  have "board_Init Qemu = board_maps (\<lambda>pa. pa) (\<lambda>pa. pa - 0x30000) (\<lambda>pa. pa) Qemu"
    by (simp add: board_Init_def BoardQemu_Init_def board_maps_def fun_eq_iff)
  then show ?thesis unfolding Qemu by blast
next
  case Bcm2711
  have "board_Init Bcm2711 = board_maps (\<lambda>pa. if False then 0x08000000 OR (pa AND 0xfff) else pa)
      (\<lambda>pa. if False then (0x08010000 OR (pa AND 0xffff)) - 0x6000 else pa)
      (\<lambda>pa. if False then 0x09000000 OR (pa AND 0x00000fff) else pa) Bcm2711"
    by (simp add: board_Init_def BoardBcm2711_Init_def board_maps_def fun_eq_iff)
  then show ?thesis unfolding Bcm2711 by blast
next
  case Bcm2711_NuttX
  have "board_Init Bcm2711_NuttX = board_maps (\<lambda>pa. 0x08000000 OR (pa AND 0xfff))
      (\<lambda>pa. (0x08010000 OR (pa AND 0xffff)) - 0x6000) (\<lambda>pa. 0x09000000 OR (pa AND 0x00000fff)) Bcm2711_NuttX"
    by (simp add: board_Init_def BoardBcm2711_Init_def board_maps_def fun_eq_iff GIC_V2_DISTRIBUTOR_BASE_def
        GIC_V2_CPU_INTERFACE_BASE_def GIC_V2_VIRTUAL_CPU_BASE_def UART0_BASE_def)
  then show ?thesis unfolding Bcm2711_NuttX by blast
qed


lemma board_maps_step:
  assumes "guests_inv own h" "mm_ok own mm" "\<forall>pa\<in>set pas. aligned 12 pa \<and> pa \<notin> user_region h" "card (kmm_used h) + 3 * length pas \<le> HEAP_PAGES"
  obtains own' mm' h' where "MapDevices va acc pas (mm, h) = Inr (mm', h')" "guests_step own own' (mm, h) (mm', h')"
    "guests_inv own' h'" "mm_ok own' mm'" "user_region h' = user_region h" "card (kmm_used h') \<le> card (kmm_used h) + 3 * length pas"
proof -
  obtain mm' h' where m: "MapDevices va acc pas (mm, h) = Inr (mm', h')" "card (kmm_used h') \<le> card (kmm_used h) + 3 * length pas"
    using MapDevices_total [OF assms(1,2,4,3)] by blast
  obtain own' where g: "guests_step own own' (mm, h) (mm', h')" using MapDevices_spec [OF assms(1,2) m(1) assms(3)] by blast
  show ?thesis using that [OF m(1) g] guests_step_inv [OF g] m(2) g by (simp add: guests_step_def)
qed

lemma board_Init_ready:
  assumes inv: "guests_inv own h" "mm_ok own mm" and room: "card (kmm_used h) + 62 \<le> HEAP_PAGES"
    and fit: "set (board_pages p) \<inter> user_region h = {}"
  obtains b' mm' h' own' where "board_Init p b mm h = Inr (b', mm', h')" "guests_step own own' (mm, h) (mm', h')"
    "virtio_gic b' = virtio_gic b" "queue_inv (console_in b')" "queue_inv (console_out b')" "card (kmm_used h') \<le> card (kmm_used h) + 62"
proof -
  obtain v1 v2 v3 where bi: "board_Init p = board_maps v1 v2 v3 p" using board_Init_maps by blast
  have "card (kmm_used h) + 5 \<le> HEAP_PAGES" using room by simp
  from Board_Init_total [OF inv(1) this] obtain b' h0 where 0: "Board_Init b h = Inr (b', h0)" "card (kmm_used h0) = card (kmm_used h) + 5"
    "guests_inv own h0" "user_region h0 = user_region h" by metis
  note s0 = Board_Init_spec [OF 0(1) inv]
  let ?p1 = "device_pages (GIC_V2_DISTRIBUTOR_BASE p) (GIC_V2_CPU_INTERFACE_BASE p)"
  let ?p2 = "device_pages (GIC_V2_VIRTUAL_CPU_BASE p) (GIC_V2_VIRTUAL_CPU_BASE p + 0x2000)"
  let ?p3 = "device_pages (UART0_BASE p) (UART0_BASE p + 0x1000)"
  have len: "length ?p1 + length ?p2 + length ?p3 \<le> 19" using board_pages_count [of p] by (simp add: board_pages_def)
  have pg: "\<forall>pa\<in>set ?p1. aligned 12 pa \<and> pa \<notin> user_region h" "\<forall>pa\<in>set ?p2. aligned 12 pa \<and> pa \<notin> user_region h"
    "\<forall>pa\<in>set ?p3. aligned 12 pa \<and> pa \<notin> user_region h"
    using fit board_pages_aligned [of _ p] by (auto simp: board_pages_def)
  obtain own1 mm1 h1 where 1: "MapDevices v1 False ?p1 (mm, h0) = Inr (mm1, h1)" "guests_step own own1 (mm, h0) (mm1, h1)"
      "guests_inv own1 h1" "mm_ok own1 mm1" "user_region h1 = user_region h0" "card (kmm_used h1) \<le> card (kmm_used h0) + 3 * length ?p1"
    by (rule board_maps_step [OF 0(3) inv(2), of ?p1]) (use pg(1) 0(2,4) len room in auto)
  obtain own2 mm2 h2 where 2: "MapDevices v2 True ?p2 (mm1, h1) = Inr (mm2, h2)" "guests_step own1 own2 (mm1, h1) (mm2, h2)"
      "guests_inv own2 h2" "mm_ok own2 mm2" "user_region h2 = user_region h1" "card (kmm_used h2) \<le> card (kmm_used h1) + 3 * length ?p2"
    by (rule board_maps_step [OF 1(3,4), of ?p2]) (use pg(2) 0(2,4) 1(5,6) len room in auto)
  obtain own3 mm3 h3 where 3: "MapDevices v3 False ?p3 (mm2, h2) = Inr (mm3, h3)" "guests_step own2 own3 (mm2, h2) (mm3, h3)"
      "guests_inv own3 h3" "mm_ok own3 mm3" "user_region h3 = user_region h2" "card (kmm_used h3) \<le> card (kmm_used h2) + 3 * length ?p3"
    by (rule board_maps_step [OF 2(3,4), of ?p3]) (use pg(3) 0(2,4) 1(5,6) 2(5,6) len room in auto)
  have r: "board_Init p b mm h = Inr (b', mm3, h3)"
    unfolding bi board_maps_def by (simp only: 0(1) 1(1) 2(1) 3(1) rbind_Inr prod.case)
  have st: "guests_step own own3 (mm, h) (mm3, h3)"
    using guests_step_trans [OF _ guests_step_trans [OF _ guests_step_trans [OF _ _ 1(2)] 2(2)] 3(2)] inv(1) s0 by simp
  show ?thesis by (rule that [OF r st]) (use s0 0(2) 1(6) 2(6) 3(6) len in auto)
qed


section \<open>A new task\<close>

lemma CreateTask_ready:
  assumes ok: "vm_ok own hv" "loop_ok hv" and n8: "ntasks hv < 8" and fit: "set (board_pages p) \<inter> user_region (hv_heap hv) = {}"
    and room: "card (kmm_used (hv_heap hv)) + 63 \<le> HEAP_PAGES"
  obtains hv' own' where "CreateTask p sy loader arg hv = Inr (ntasks hv, hv')" "vm_step {} own own' hv hv'" "loop_ok hv'"
    "ntasks hv' = Suc (ntasks hv)" "cur hv' = cur hv" "hv_cpu hv' = hv_cpu hv" "user_region (hv_heap hv') = user_region (hv_heap hv)"
    "card (kmm_used (hv_heap hv')) \<le> card (kmm_used (hv_heap hv)) + 63"
proof -
  have g: "guests_inv own (hv_heap hv)" and b: "board_ok (hv_board hv)" using ok by (simp_all add: vm_ok_def)
  have hi: "heap_inv (hv_heap hv)" using g by (simp add: guests_inv_def s2_inv_def)
  have mm0: "mm_ok own new_mm" by (simp add: mm_ok_def)
  have "card (kmm_used (hv_heap hv)) < HEAP_PAGES" using room by simp
  then obtain page h1 where z: "kmm_zalloc 4096 (hv_heap hv) = Inr (page, h1)" "card (kmm_used h1) = Suc (card (kmm_used (hv_heap hv)))"
    by (rule kmm_zalloc_total [OF hi]) blast
  have s1: "guests_step own own (new_mm, hv_heap hv) (new_mm, h1)" by (rule kmm_zalloc_guests [OF z(1) g mm0])
  have i1: "guests_inv own h1" "user_region h1 = user_region (hv_heap hv)" using s1 by (simp_all add: guests_step_def)
  obtain bd mm h own' where i: "board_Init p (hv_board hv) new_mm h1 = Inr (bd, mm, h)" "guests_step own own' (new_mm, h1) (mm, h)"
    "virtio_gic bd = virtio_gic (hv_board hv)" "queue_inv (console_in bd)" "queue_inv (console_out bd)" "card (kmm_used h) \<le> card (kmm_used h1) + 62"
    by (rule board_Init_ready [OF i1(1) mm0, of p "hv_board hv"]) (use z(2) room fit i1(2) in auto)
  define t where "t = (case initial_vcpu_regs hv of Some t \<Rightarrow> t
    | None \<Rightarrow> let t = CpuRegLoadVCpuAllSysregs (cpu_sysregs (hv_cpu hv)) (\<lambda>_. 0) in t(SCTLR_EL1 := t SCTLR_EL1 AND NOT 1))"
  define tsk where "tsk = zero_Tcb\<lparr>tcb_name := ''New vCPU'', tcb_state := RUNNING,
    tcb_cpu_context := zero_CpuContext\<lparr>cc_x19_x28 := sym_LoadTaskImage sy # loader # arg # replicate 7 0,
      cc_pc := sym_KernelSwitchFromKThread sy, cc_sp := page + ucast PAGE_SIZE - 272\<rparr>,
    tcb_priority := 1, tcb_counter := 1, tcb_vcpu_sysregs := t, tcb_board := True, tcb_mm := mm\<rparr>"
  have si: "sched_inv (hv_sched hv)" using ok by (simp add: vm_ok_def)
  have "1 \<le> tcb_priority tsk" "tcb_priority tsk \<le> 2 ^ 29" "0 \<le> tcb_counter tsk" "tcb_counter tsk \<le> 2 * tcb_priority tsk"
    by (simp_all add: tsk_def)
  from AddTask_spec(1) [OF si this] n8 obtain s where a: "AddTask tsk (hv_sched hv) = Inr (ntasks hv, s)" unfolding ntasks_def by blast
  let ?hv = "hv\<lparr>hv_heap := h, initial_vcpu_regs := Some t, hv_board := bd, hv_sched := s, hv_resume := (hv_resume hv)(ntasks hv := FirstRun)\<rparr>"
  have r: "CreateTask p sy loader arg hv = Inr (ntasks hv, ?hv)"
    using z(1) i(1) a by (cases "initial_vcpu_regs hv") (simp_all add: CreateTask_def CreateInitialCpuRegsTemplate_def PAGE_SIZE_def Let_def zero_Tcb_def t_def tsk_def)
  have st: "guests_step own own' (new_mm, hv_heap hv) (mm, hv_heap ?hv)" using guests_step_trans [OF _ s1 i(2)] g by simp
  have bd: "board_ok (hv_board ?hv)" using b i(3-5) by (simp add: board_ok_def)
  have a': "AddTask tsk (hv_sched hv) = Inr (ntasks hv, hv_sched ?hv)" using a by simp
  have tk: "tcb_mm tsk = mm" "tcb_priority tsk = 1" "tcb_counter tsk = 1" "tcb_board tsk" "length (vc_regs (tcb_vcpu tsk)) = 31"
    by (simp_all add: tsk_def zero_Tcb_def zero_VCpuContext_def)
  note v = vm_add [OF ok(1) n8 st bd a' tk]
  have ur: "user_region (hv_heap ?hv) = user_region (hv_heap hv)" using v(1) by (simp add: vm_step_def)
  show ?thesis by (rule that [OF r v(1) _ v(3,4) _ ur]) (use ok(2) i(6) z(2) in \<open>auto simp: loop_ok_def\<close>)
qed

lemma create_tasks_ready:
  assumes "vm_ok own hv" "loop_ok hv" "ntasks hv + length vcpus \<le> 8" "set (board_pages p) \<inter> user_region (hv_heap hv) = {}"
    "card (kmm_used (hv_heap hv)) + 63 * length vcpus \<le> HEAP_PAGES"
  shows "\<exists>hv' own'. create_tasks p sy loader vcpus hv = Inr hv' \<and> vm_step {} own own' hv hv' \<and> loop_ok hv' \<and>
    ntasks hv' = ntasks hv + length vcpus \<and> cur hv' = cur hv \<and> hv_cpu hv' = hv_cpu hv"
  using assms
proof (induction vcpus arbitrary: own hv)
  case Nil
  then show ?case using vm_step_refl by auto
next
  case (Cons vcpu vcpus)
  obtain hv1 own1 where 1: "CreateTask p sy loader vcpu hv = Inr (ntasks hv, hv1)" "vm_step {} own own1 hv hv1" "loop_ok hv1"
    "ntasks hv1 = Suc (ntasks hv)" "cur hv1 = cur hv" "hv_cpu hv1 = hv_cpu hv" "user_region (hv_heap hv1) = user_region (hv_heap hv)"
    "card (kmm_used (hv_heap hv1)) \<le> card (kmm_used (hv_heap hv)) + 63"
    by (rule CreateTask_ready [OF Cons.prems(1,2) _ Cons.prems(4), of sy loader vcpu]) (use Cons.prems(3,5) in auto)
  have "\<exists>hv' own'. create_tasks p sy loader vcpus hv1 = Inr hv' \<and> vm_step {} own1 own' hv1 hv' \<and> loop_ok hv' \<and>
      ntasks hv' = ntasks hv1 + length vcpus \<and> cur hv' = cur hv1 \<and> hv_cpu hv' = hv_cpu hv1"
    by (rule Cons.IH) (use vm_step_ok [OF 1(2)] 1(3-8) Cons.prems(3-5) in simp_all)
  then obtain hv' own' where 2: "create_tasks p sy loader vcpus hv1 = Inr hv'" "vm_step {} own1 own' hv1 hv'" "loop_ok hv'"
    "ntasks hv' = ntasks hv1 + length vcpus" "cur hv' = cur hv1" "hv_cpu hv' = hv_cpu hv1" by blast
  have "vm_step {} own own' hv hv'" using vm_step_trans [OF 1(2) 2(2)] by simp
  then show ?case using 1 2 by (intro exI [of _ hv'] exI [of _ own']) simp
qed


section \<open>From power on\<close>

text \<open>
  The static data before \<open>KernelMain\<close>: empty pools over any memory, no task, no interrupt asserted. The
  console queues of the board are not allocated yet, so that their content is arbitrary.
\<close>

definition hv_boot :: "u64 \<Rightarrow> u64 \<Rightarrow> u64 \<Rightarrow> mem \<Rightarrow> cpu \<Rightarrow> queue \<Rightarrow> queue \<Rightarrow> hv" where
  "hv_boot hs us gs m c qi qo = \<lparr>hv_heap = heap_boot hs us gs m, hv_sched = Sched_instance, hv_cpu = c,
     hv_board = \<lparr>console_in = qi, console_out = qo, virtio_uart = VirtioPl011Uart_new, virtio_gic = VirtioGic_new\<rparr>,
     is_asserted = False, initial_vcpu_regs = None, hypervisor_command_comming = False, hypervisor_command_switch_req = False,
     hv_gich_lr0 = 0, hv_console = [], hv_resume = (\<lambda>_. FirstRun)\<rparr>"

lemma board_Init_queues: "board_Init p (bd\<lparr>console_in := qi, console_out := qo\<rparr>) mm h = board_Init p bd mm h"
proof -
  have "Board_Init (bd\<lparr>console_in := qi, console_out := qo\<rparr>) h = Board_Init bd h" by (simp add: Board_Init_def)
  then show ?thesis using board_Init_maps [of p] by (auto simp: board_maps_def)
qed

lemma CreateTask_queues:
  "CreateTask p sy loader arg (hv\<lparr>hv_board := (hv_board hv)\<lparr>console_in := qi, console_out := qo\<rparr>\<rparr>) = CreateTask p sy loader arg hv"
  by (cases "initial_vcpu_regs hv") (simp_all add: CreateTask_def CreateInitialCpuRegsTemplate_def board_Init_queues Let_def)

lemma RegisterIrq_timer:
  "length tbl = 1024 \<Longrightarrow> \<exists>d'. RegisterIrq b p 26 0 0xca x (tbl, d) = Inr (tbl[26 := Some x], d')"
  by (auto simp: RegisterIrq_def arr_set_def Let_def split: prod.splits)

text \<open>
  C2. The start of the hypervisor succeeds on every board and leaves a state of the invariant: from zeroed
  static data and any memory, with a memory layout that keeps the device pages apart from the guest
  pages, \<open>KernelMain\<close> registers the tick of the scheduler and creates the configured guest, and in every state a
  run of the machine then reaches the invariant holds and no two guests have a user page in common.
\<close>

theorem boot_isolated:
  fixes dev :: "'d vdev" and b :: "'e bus"
  assumes "layout_ok (heap_boot hs us gs m)" "set (board_pages p) \<inter> user_region (heap_boot hs us gs m) = {}" "length tbl = 1024"
  shows "\<exists>t' d' hv0. KernelMain_start b p g sy loader configs cntfrq cntpct ((tbl, t, d), hv_boot hs us gs m c qi qo) =
      Inr ((tbl[26 := Some SchedTick], t', d'), hv0) \<and> ntasks hv0 = 2 \<and> cur hv0 = 0 \<and> bit (cnthp_ctl_el2 t') 0 \<and>
    (\<forall>hv. (hyp_step p dev b)\<^sup>*\<^sup>* hv0 hv \<longrightarrow> hv_inv hv \<and>
       (\<forall>j k x y. j < ntasks hv \<longrightarrow> k < ntasks hv \<longrightarrow> j \<noteq> k \<longrightarrow> guest_lookup hv j x AND PAGE_MASK \<in> user_region (hv_heap hv) \<longrightarrow>
          guest_lookup hv j x AND PAGE_MASK \<noteq> guest_lookup hv k y AND PAGE_MASK))"
proof -
  let ?h = "heap_boot hs us gs m" and ?b = "hv_boot hs us gs m c qi qo" and ?q = "Queue_new (\<lambda>_. 0)"
  let ?hv = "?b\<lparr>hv_sched := Sched_Init Sched_instance\<rparr>"
  let ?hvq = "?hv\<lparr>hv_board := (hv_board ?hv)\<lparr>console_in := ?q, console_out := ?q\<rparr>\<rparr>"
  have hi: "heap_inv ?h" by (rule heap_inv_boot [OF assms(1)])
  have n: "ntasks ?hvq = 1" "cur ?hvq = 0" by (simp_all add: ntasks_def cur_def Sched_Init_def)
  have t0: "task ?hvq 0 = kInitTask" by (simp add: task_def Sched_Init_def Sched_instance_def kNrTasks_def)
  have vm: "vm_ok (\<lambda>_. None) ?hvq"
    unfolding vm_ok_def n
  proof (intro conjI allI impI)
    show "sched_inv (hv_sched ?hvq)" using sched_inv_Init by simp
    show "board_ok (hv_board ?hvq)" by (simp add: board_ok_def hv_boot_def queue_inv_new vgic_ok_new)
    show "guests_inv (\<lambda>_. None) (hv_heap ?hvq)" using s2_inv_empty [OF hi] by (simp add: guests_inv_def hv_boot_def)
    show "block_ok (\<lambda>_. None) i (task ?hvq i)" if "i < 1" for i
    proof -
      have i: "i = 0" using that by simp
      show ?thesis unfolding i t0 by (simp add: block_ok_def kInitTask_def zero_Tcb_def zero_VCpuContext_def mm_ok_def)
    qed
    show "root_of ?hvq i \<noteq> root_of ?hvq j" if "i < 1" "j < 1" "i \<noteq> j" for i j using that by simp
  qed
  have lo: "loop_ok ?hvq" by (simp add: loop_ok_def hv_boot_def)
  have u0: "card (kmm_used (hv_heap ?hvq)) = 0" by (simp add: hv_boot_def heap_boot_def kmm_used_def)
  obtain a where va: "vcpu_addresses configs g = [a]" by (cases g) (simp_all add: vcpu_addresses_def kConfigVCPUs_def)
  obtain hv0 own0 where 0: "create_tasks p sy loader [a] ?hvq = Inr hv0" "vm_step {} (\<lambda>_. None) own0 ?hvq hv0" "loop_ok hv0"
      "ntasks hv0 = 2" "cur hv0 = 0"
    using create_tasks_ready [OF vm lo, of "[a]" p sy loader] n u0 assms(2) by (auto simp: hv_boot_def HEAP_PAGES_def)
  have c: "create_tasks p sy loader [a] ?hv = Inr hv0" using 0(1) by (simp only: create_tasks.simps CreateTask_queues)
  have inv: "hv_inv hv0" using vm_step_ok [OF 0(2)] 0(3,5) by (auto simp: hv_inv_def entered_def)
  obtain d' where r: "RegisterIrq b p 26 0 0xca SchedTick (tbl, d) = Inr (tbl[26 := Some SchedTick], d')"
    using RegisterIrq_timer [OF assms(3), of b p SchedTick d] by (elim exE)
  let ?t' = "ArmGenericTimer_Start cntfrq cntpct 1000 t"
  have s: "KernelMain_start b p g sy loader configs cntfrq cntpct ((tbl, t, d), ?b) = Inr ((tbl[26 := Some SchedTick], ?t', d'), hv0)"
    unfolding KernelMain_start_def StartSchedTimer_def va by (simp add: r c Let_def) (use c in \<open>simp add: hv_boot_def\<close>)
  have e: "bit (cnthp_ctl_el2 ?t') 0"
    by (simp add: ArmGenericTimer_Start_def SetIrqMask_def ArmGenericTimer_Enable_def SetCompare_def Let_def bit_or_iff bit_and_iff bit_not_iff
        bit_numeral_simps)
  have run: "hv_inv hv" if "(hyp_step p dev b)\<^sup>*\<^sup>* hv0 hv" for hv by (rule hyp_steps_inv [OF that inv])
  show ?thesis using s 0(4,5) e run guest_pages_distinct by blast
qed


theorem boot_isolated_witness:
  "\<exists>k hv0. KernelMain_start demo_emmc Qemu TEST_APP \<lparr>sym_LoadTaskImage = 0x80000, sym_KernelSwitchFromKThread = 0x81000\<rparr> 0x82000 0x83000 62500000 7
       ((replicate 1024 None, ArmGenericTimer_Init \<lparr>cnthctl_el2 = 0, cntvoff_el2 = 0, cnthp_ctl_el2 = 0, cnthp_cval_el2 = 0, gt_next = 0, gt_interval = 0\<rparr>,
         \<lparr>dc_phase = Idle, dc_bsc = 0, dc_arg = 0, dc_time = 0\<rparr>),
        hv_boot 0x44000000 0x48000000 0x48100000 (\<lambda>_. 0) zero_cpu (Queue_new (\<lambda>_. 0)) (Queue_new (\<lambda>_. 0))) = Inr (k, hv0) \<and> hv_inv hv0"
proof -
  have l: "layout_ok demo_heap" using demo_heap_inv by (rule heap_inv_layout)
  have low: "x < 0x40000000" if "x \<in> set (board_pages Qemu)" for x
  proof -
    have "unat (0x08000000 + of_nat (i * 4096) :: u64) < 0x40000000" if "i < 16" for i using device_run [of "0x08000000" 16 i] that by simp
    moreover have "unat (0x08040000 + of_nat (i * 4096) :: u64) < 0x40000000" if "i < 2" for i using device_run [of "0x08040000" 2 i] that by simp
    moreover have "unat (0x09000000 + of_nat (i * 4096) :: u64) < 0x40000000" if "i < 1" for i using device_run [of "0x09000000" 1 i] that by simp
    ultimately show ?thesis using that unfolding board_pages_def qemu_device_pages word_less_nat_alt by fastforce
  qed
  then have f: "set (board_pages Qemu) \<inter> user_region demo_heap = {}" using demo_user_region by (meson disjoint_iff leD)
  show ?thesis
    using boot_isolated [OF l f, where tbl = "replicate 1024 None" and b = demo_emmc and dev = demo_dev]
    by (metis length_replicate rtranclp.rtrancl_refl)
qed

end
