(* ===== verification/EvList.thy ===== *)
theory EvList
  imports EvStage2
begin

text \<open>
  The doubly linked list with a sentinel (common/list.cc). Nodes live in pages of the kernel heap; the
  store maps the addresses that \<open>operator new\<close> returned to nodes, so that a null or dangling pointer is an
  error. The list is refined to a list of keys. The file is not part of the build.
\<close>

section \<open>Nodes\<close>

record list_node =
  ln_key :: u32
  ln_prev :: u64
  ln_next :: u64

record linked_list =
  ll_nil :: u64
  ll_nodes :: "u64 \<Rightarrow> list_node option"
  ll_heap :: heap

definition ll_get :: "u64 \<Rightarrow> linked_list \<Rightarrow> list_node res" where
  "ll_get p s = (if p = 0 then Inl NullDeref else case ll_nodes s p of None \<Rightarrow> Inl OutOfBounds | Some n \<Rightarrow> Inr n)"

definition ll_put :: "u64 \<Rightarrow> (list_node \<Rightarrow> list_node) \<Rightarrow> linked_list \<Rightarrow> linked_list res" where
  "ll_put p f s = rbind (ll_get p s) (\<lambda>n. Inr (s\<lparr>ll_nodes := (ll_nodes s)(p \<mapsto> f n)\<rparr>))"

text \<open>\<open>new LinkedList::Node\<close>: the fields are not initialised, \<open>raw\<close> is what the page holds.\<close>

definition new_list_node :: "list_node \<Rightarrow> linked_list \<Rightarrow> (u64 \<times> linked_list) res" where
  "new_list_node raw s = rbind (operator_new 24 (ll_heap s)) (\<lambda>(p, h).
     Inr (p, s\<lparr>ll_heap := h, ll_nodes := (ll_nodes s)(p \<mapsto> raw)\<rparr>))"

definition delete_list_node :: "u64 \<Rightarrow> linked_list \<Rightarrow> linked_list res" where
  "delete_list_node p s = rbind (operator_delete p (ll_heap s)) (\<lambda>h.
     Inr (s\<lparr>ll_heap := h, ll_nodes := (ll_nodes s)(p := None)\<rparr>))"

section \<open>Operations\<close>

definition LinkedList_new :: "list_node \<Rightarrow> heap \<Rightarrow> linked_list res" where
  "LinkedList_new raw h =
     rbind (new_list_node raw \<lparr>ll_nil = 0, ll_nodes = Map.empty, ll_heap = h\<rparr>) (\<lambda>(p, s).
     let s = s\<lparr>ll_nil := p\<rparr>
     in rbind (ll_put (ll_nil s) (ln_prev_update (\<lambda>_. ll_nil s)) s) (\<lambda>s.
        ll_put (ll_nil s) (ln_next_update (\<lambda>_. ll_nil s)) s))"

definition LinkedList_destroy :: "linked_list \<Rightarrow> linked_list res" where
  "LinkedList_destroy s = (if ll_nil s \<noteq> 0 then delete_list_node (ll_nil s) s else Inr s)"

definition LinkedList_Begin :: "linked_list \<Rightarrow> u64 res" where
  "LinkedList_Begin s = rbind (ll_get (ll_nil s) s) (\<lambda>n. Inr (ln_next n))"

definition LinkedList_Next :: "u64 \<Rightarrow> linked_list \<Rightarrow> u64 res" where
  "LinkedList_Next p s = rbind (ll_get p s) (\<lambda>n. Inr (ln_next n))"

definition LinkedList_Front :: "linked_list \<Rightarrow> u32 res" where
  "LinkedList_Front s = rbind (ll_get (ll_nil s) s) (\<lambda>n. rbind (ll_get (ln_next n) s) (\<lambda>n. Inr (ln_key n)))"

definition LinkedList_Back :: "linked_list \<Rightarrow> u32 res" where
  "LinkedList_Back s = rbind (ll_get (ll_nil s) s) (\<lambda>n. rbind (ll_get (ln_prev n) s) (\<lambda>n. Inr (ln_key n)))"

definition PushFront :: "list_node \<Rightarrow> u32 \<Rightarrow> linked_list \<Rightarrow> linked_list res" where
  "PushFront raw key s =
     rbind (new_list_node raw s) (\<lambda>(x, s).
     rbind (ll_put x (ln_key_update (\<lambda>_. key)) s) (\<lambda>s.
     rbind (ll_get (ll_nil s) s) (\<lambda>nil.
     rbind (ll_put x (ln_next_update (\<lambda>_. ln_next nil)) s) (\<lambda>s.
     rbind (ll_get (ll_nil s) s) (\<lambda>nil.
     rbind (ll_put (ln_next nil) (ln_prev_update (\<lambda>_. x)) s) (\<lambda>s.
     rbind (ll_put (ll_nil s) (ln_next_update (\<lambda>_. x)) s) (\<lambda>s.
     ll_put x (ln_prev_update (\<lambda>_. ll_nil s)) s)))))))"

definition PushBack :: "list_node \<Rightarrow> u32 \<Rightarrow> linked_list \<Rightarrow> linked_list res" where
  "PushBack raw key s =
     rbind (new_list_node raw s) (\<lambda>(x, s).
     rbind (ll_put x (ln_key_update (\<lambda>_. key)) s) (\<lambda>s.
     rbind (ll_get (ll_nil s) s) (\<lambda>nil.
     rbind (ll_put x (ln_prev_update (\<lambda>_. ln_prev nil)) s) (\<lambda>s.
     rbind (ll_get (ll_nil s) s) (\<lambda>nil.
     rbind (ll_put (ln_prev nil) (ln_next_update (\<lambda>_. x)) s) (\<lambda>s.
     ll_put x (ln_next_update (\<lambda>_. ll_nil s)) s))))))"

definition DeleteNode :: "u64 \<Rightarrow> linked_list \<Rightarrow> linked_list res" where
  "DeleteNode p s =
     (if p = ll_nil s then Inr s
      else rbind (ll_get p s) (\<lambda>node.
           rbind (ll_put (ln_prev node) (ln_next_update (\<lambda>_. ln_next node)) s) (\<lambda>s.
           rbind (ll_get p s) (\<lambda>node.
           rbind (ll_put (ln_next node) (ln_prev_update (\<lambda>_. ln_prev node)) s) (\<lambda>s.
           delete_list_node p s)))))"

definition PopFront :: "linked_list \<Rightarrow> linked_list res" where
  "PopFront s = rbind (ll_get (ll_nil s) s) (\<lambda>nil. DeleteNode (ln_next nil) s)"

definition PopBack :: "linked_list \<Rightarrow> linked_list res" where
  "PopBack s = rbind (ll_get (ll_nil s) s) (\<lambda>nil. DeleteNode (ln_prev nil) s)"

partial_function (option) search_loop :: "linked_list \<Rightarrow> u32 \<Rightarrow> u64 \<Rightarrow> u64 res option" where
  "search_loop s key p =
     (if p = ll_nil s then Some (Inr p)
      else case ll_get p s of
          Inl e \<Rightarrow> Some (Inl e)
        | Inr n \<Rightarrow> (if ln_key n \<noteq> key then search_loop s key (ln_next n) else Some (Inr p)))"

definition SearchNode :: "u32 \<Rightarrow> linked_list \<Rightarrow> u64 res" where
  "SearchNode key s = rbind (ll_get (ll_nil s) s) (\<lambda>nil. case search_loop s key (ln_next nil) of None \<Rightarrow> Inl Diverge | Some r \<Rightarrow> r)"

definition LinkedList_Delete :: "u32 \<Rightarrow> linked_list \<Rightarrow> linked_list res" where
  "LinkedList_Delete key s = rbind (SearchNode key s) (\<lambda>p. DeleteNode p s)"

section \<open>The list of keys\<close>

definition nxt :: "linked_list \<Rightarrow> u64 \<Rightarrow> u64" where "nxt s p = ln_next (the (ll_nodes s p))"
definition prv :: "linked_list \<Rightarrow> u64 \<Rightarrow> u64" where "prv s p = ln_prev (the (ll_nodes s p))"
definition key_at :: "linked_list \<Rightarrow> u64 \<Rightarrow> u32" where "key_at s p = ln_key (the (ll_nodes s p))"

text \<open>The ring of the sentinel and the nodes ps, in both directions.\<close>

definition ring_of :: "linked_list \<Rightarrow> u64 list \<Rightarrow> bool" where
  "ring_of s ps \<longleftrightarrow> distinct (ll_nil s # ps) \<and> 0 \<notin> set (ll_nil s # ps) \<and> (\<forall>p\<in>set (ll_nil s # ps). ll_nodes s p \<noteq> None) \<and>
     map (nxt s) (ll_nil s # ps) = ps @ [ll_nil s] \<and> map (prv s) (ps @ [ll_nil s]) = ll_nil s # ps \<and>
     heap_inv (ll_heap s) \<and> set (ll_nil s # ps) \<subseteq> kmm_used (ll_heap s)"

text \<open>The keys, and that the list holds the pages of its nodes and no other page than those of U is in use.\<close>

definition list_rep :: "u64 set \<Rightarrow> linked_list \<Rightarrow> u32 list \<Rightarrow> bool" where
  "list_rep U s ks \<longleftrightarrow> (\<exists>ps. ring_of s ps \<and> map (key_at s) ps = ks \<and> U \<inter> set (ll_nil s # ps) = {} \<and>
     kmm_used (ll_heap s) = U \<union> set (ll_nil s # ps))"

lemma ll_get_eq: "p \<noteq> 0 \<Longrightarrow> ll_nodes s p \<noteq> None \<Longrightarrow> ll_get p s = Inr (the (ll_nodes s p))"
  by (auto simp: ll_get_def)

lemma ll_put_eq: "p \<noteq> 0 \<Longrightarrow> ll_nodes s p \<noteq> None \<Longrightarrow> ll_put p f s = Inr (s\<lparr>ll_nodes := (ll_nodes s)(p \<mapsto> f (the (ll_nodes s p)))\<rparr>)"
  by (simp add: ll_put_def ll_get_eq)

lemma ring_nil: "ring_of s ps \<Longrightarrow> ll_nil s \<noteq> 0 \<and> ll_nodes s (ll_nil s) \<noteq> None \<and> nxt s (ll_nil s) = hd (ps @ [ll_nil s]) \<and> prv s (ll_nil s) = last (ll_nil s # ps)"
proof -
  assume r: "ring_of s ps"
  have "map (nxt s) (ll_nil s # ps) = ps @ [ll_nil s]" using r by (simp add: ring_of_def)
  then have "nxt s (ll_nil s) = hd (ps @ [ll_nil s])" by (metis list.sel(1) list.simps(9))
  moreover have "map (prv s) (ps @ [ll_nil s]) = ll_nil s # ps" using r by (simp add: ring_of_def)
  then have "prv s (ll_nil s) = last (ll_nil s # ps)" by (metis last_map last_snoc snoc_eq_iff_butlast)
  ultimately show ?thesis using r by (auto simp: ring_of_def)
qed

text \<open>The neighbours of a node in the middle.\<close>

lemma ring_node:
  assumes "ring_of s (as @ p # bs)"
  shows "nxt s p = hd (bs @ [ll_nil s])" "prv s p = last (ll_nil s # as)"
proof -
  have n: "map (nxt s) ((ll_nil s # as) @ p # bs) = as @ p # bs @ [ll_nil s]" using assms by (simp add: ring_of_def)
  have "map (nxt s) ((ll_nil s # as) @ p # bs) ! length (ll_nil s # as) = nxt s p" by (simp add: nth_append)
  moreover have "(as @ p # bs @ [ll_nil s]) ! length (ll_nil s # as) = hd (bs @ [ll_nil s])" by (cases bs) (simp_all add: nth_append)
  ultimately show "nxt s p = hd (bs @ [ll_nil s])" using n by metis
  have v: "map (prv s) (as @ p # bs @ [ll_nil s]) = (ll_nil s # as) @ p # bs" using assms by (simp add: ring_of_def)
  have "map (prv s) (as @ p # bs @ [ll_nil s]) ! length as = prv s p" by (simp add: nth_append)
  moreover have "((ll_nil s # as) @ p # bs) ! length as = last (ll_nil s # as)"
    by (cases as rule: rev_cases) (simp_all add: nth_append nth_Cons')
  ultimately show "prv s p = last (ll_nil s # as)" using v by metis
qed


section \<open>Inserting\<close>

lemma new_list_node_fresh:
  assumes "new_list_node raw s = Inr (x, s')" "heap_inv (ll_heap s)"
  shows "x \<noteq> 0 \<and> x \<notin> kmm_used (ll_heap s) \<and> s' = s\<lparr>ll_heap := ll_heap s', ll_nodes := (ll_nodes s)(x \<mapsto> raw)\<rparr> \<and>
    heap_inv (ll_heap s') \<and> kmm_used (ll_heap s') = insert x (kmm_used (ll_heap s))"
proof -
  obtain h where h: "kmm_malloc 24 (ll_heap s) = Inr (x, h)" "x \<noteq> 0" and s': "s' = s\<lparr>ll_heap := h, ll_nodes := (ll_nodes s)(x \<mapsto> raw)\<rparr>"
    using assms(1) by (auto simp: new_list_node_def operator_new_def rbind_eq_Inr split: if_splits)
  note p = kmm_malloc_page [OF h(1) _ assms(2)]
  show ?thesis using h(2) p(1-3) by (simp add: s')
qed

lemma ring_hd_in: "ring_of s ps \<Longrightarrow> nxt s (ll_nil s) \<in> set (ll_nil s # ps)"
  using ring_nil [of s ps] by (cases ps) auto

text \<open>An assignment to a field, on the three fields as functions of the address.\<close>

definition same_list :: "linked_list \<Rightarrow> linked_list \<Rightarrow> bool" where
  "same_list s s' \<longleftrightarrow> ll_nil s' = ll_nil s \<and> ll_heap s' = ll_heap s \<and> dom (ll_nodes s') = dom (ll_nodes s)"

lemma put_next:
  assumes "p \<noteq> 0" "p \<in> dom (ll_nodes s)"
  obtains s' where "ll_put p (ln_next_update (\<lambda>_. v)) s = Inr s'" "same_list s s'" "nxt s' = (nxt s)(p := v)" "prv s' = prv s" "key_at s' = key_at s"
proof -
  obtain n where n: "ll_nodes s p = Some n" using assms(2) by blast
  show ?thesis
    by (rule that [of "s\<lparr>ll_nodes := (ll_nodes s)(p \<mapsto> n\<lparr>ln_next := v\<rparr>)\<rparr>"])
      (use assms(1) n in \<open>auto simp: ll_put_def ll_get_def same_list_def nxt_def prv_def key_at_def fun_eq_iff\<close>)
qed

lemma put_prev:
  assumes "p \<noteq> 0" "p \<in> dom (ll_nodes s)"
  obtains s' where "ll_put p (ln_prev_update (\<lambda>_. v)) s = Inr s'" "same_list s s'" "nxt s' = nxt s" "prv s' = (prv s)(p := v)" "key_at s' = key_at s"
proof -
  obtain n where n: "ll_nodes s p = Some n" using assms(2) by blast
  show ?thesis
    by (rule that [of "s\<lparr>ll_nodes := (ll_nodes s)(p \<mapsto> n\<lparr>ln_prev := v\<rparr>)\<rparr>"])
      (use assms(1) n in \<open>auto simp: ll_put_def ll_get_def same_list_def nxt_def prv_def key_at_def fun_eq_iff\<close>)
qed

lemma put_key:
  assumes "p \<noteq> 0" "p \<in> dom (ll_nodes s)"
  obtains s' where "ll_put p (ln_key_update (\<lambda>_. v)) s = Inr s'" "same_list s s'" "nxt s' = nxt s" "prv s' = prv s" "key_at s' = (key_at s)(p := v)"
proof -
  obtain n where n: "ll_nodes s p = Some n" using assms(2) by blast
  show ?thesis
    by (rule that [of "s\<lparr>ll_nodes := (ll_nodes s)(p \<mapsto> n\<lparr>ln_key := v\<rparr>)\<rparr>"])
      (use assms(1) n in \<open>auto simp: ll_put_def ll_get_def same_list_def nxt_def prv_def key_at_def fun_eq_iff\<close>)
qed

lemma get_fields:
  assumes "p \<noteq> 0" "p \<in> dom (ll_nodes s)"
  obtains n where "ll_get p s = Inr n" "ln_next n = nxt s p" "ln_prev n = prv s p" "ln_key n = key_at s p"
  using assms that by (auto simp: ll_get_def nxt_def prv_def key_at_def)

lemma new_list_node_view:
  assumes "new_list_node raw s = Inr (x, s1)" "heap_inv (ll_heap s)"
  shows "ll_nil s1 = ll_nil s" "dom (ll_nodes s1) = insert x (dom (ll_nodes s))"
    "nxt s1 = (nxt s)(x := ln_next raw)" "prv s1 = (prv s)(x := ln_prev raw)" "key_at s1 = (key_at s)(x := ln_key raw)"
proof -
  have s1: "s1 = s\<lparr>ll_heap := ll_heap s1, ll_nodes := (ll_nodes s)(x \<mapsto> raw)\<rparr>" using new_list_node_fresh [OF assms] by blast
  have e: "ll_nodes s1 = (ll_nodes s)(x \<mapsto> raw)" by (subst s1) simp
  show "ll_nil s1 = ll_nil s" by (subst s1) simp
  show "dom (ll_nodes s1) = insert x (dom (ll_nodes s))" "nxt s1 = (nxt s)(x := ln_next raw)" "prv s1 = (prv s)(x := ln_prev raw)"
    "key_at s1 = (key_at s)(x := ln_key raw)" by (simp_all add: e nxt_def prv_def key_at_def fun_eq_iff)
qed

lemma PushFront_eval:
  assumes r: "ring_of s ps" and n: "new_list_node raw s = Inr (x, s1)"
  obtains s' where "PushFront raw k s = Inr s'" "ll_nil s' = ll_nil s" "ll_heap s' = ll_heap s1"
    "dom (ll_nodes s') = insert x (dom (ll_nodes s))" "nxt s' = (nxt s)(x := nxt s (ll_nil s), ll_nil s := x)"
    "prv s' = (prv s)(nxt s (ll_nil s) := x, x := ll_nil s)" "key_at s' = (key_at s)(x := k)"
proof -
  let ?nil = "ll_nil s" and ?y = "nxt s (ll_nil s)"
  have hi: "heap_inv (ll_heap s)" using r by (simp add: ring_of_def)
  note f = new_list_node_fresh [OF n hi]
  have all: "p \<noteq> 0 \<and> p \<in> dom (ll_nodes s) \<and> p \<noteq> x" if "p \<in> set (?nil # ps)" for p
    using r that f unfolding ring_of_def by blast
  have nil: "?nil \<noteq> 0" "?nil \<noteq> x" "?nil \<in> dom (ll_nodes s)" using all [of ?nil] by auto
  have y: "?y \<noteq> 0" "?y \<noteq> x" "?y \<in> dom (ll_nodes s)" using all [OF ring_hd_in [OF r]] by auto
  note 1 = new_list_node_view [OF n hi]
  have x: "x \<noteq> 0" "x \<in> dom (ll_nodes s1)" using f 1(2) by simp_all
  obtain s2 where 2: "ll_put x (ln_key_update (\<lambda>_. k)) s1 = Inr s2" "same_list s1 s2" "nxt s2 = nxt s1" "prv s2 = prv s1" "key_at s2 = (key_at s1)(x := k)"
    by (rule put_key [OF x])
  have d2: "dom (ll_nodes s2) = insert x (dom (ll_nodes s))" "ll_nil s2 = ?nil" using 2(2) 1 by (simp_all add: same_list_def)
  obtain n2 where n2: "ll_get ?nil s2 = Inr n2" "ln_next n2 = nxt s2 ?nil" by (rule get_fields [of ?nil s2]) (use nil d2 in auto)
  have y2: "ln_next n2 = ?y" using n2(2) 2(3) 1(3) nil(2) by simp
  obtain s3 where 3: "ll_put x (ln_next_update (\<lambda>_. ?y)) s2 = Inr s3" "same_list s2 s3" "nxt s3 = (nxt s2)(x := ?y)" "prv s3 = prv s2" "key_at s3 = key_at s2"
    by (rule put_next [of x s2 ?y]) (use x d2 in auto)
  have d3: "dom (ll_nodes s3) = insert x (dom (ll_nodes s))" "ll_nil s3 = ?nil" using 3(2) d2 by (simp_all add: same_list_def)
  obtain n3 where n3: "ll_get ?nil s3 = Inr n3" "ln_next n3 = nxt s3 ?nil" by (rule get_fields [of ?nil s3]) (use nil d3 in auto)
  have y3: "ln_next n3 = ?y" using n3(2) 3(3) 2(3) 1(3) nil(2) by simp
  obtain s4 where 4: "ll_put ?y (ln_prev_update (\<lambda>_. x)) s3 = Inr s4" "same_list s3 s4" "nxt s4 = nxt s3" "prv s4 = (prv s3)(?y := x)" "key_at s4 = key_at s3"
    by (rule put_prev [of ?y s3 x]) (use y d3 in auto)
  have d4: "dom (ll_nodes s4) = insert x (dom (ll_nodes s))" "ll_nil s4 = ?nil" using 4(2) d3 by (simp_all add: same_list_def)
  obtain s5 where 5: "ll_put ?nil (ln_next_update (\<lambda>_. x)) s4 = Inr s5" "same_list s4 s5" "nxt s5 = (nxt s4)(?nil := x)" "prv s5 = prv s4" "key_at s5 = key_at s4"
    by (rule put_next [of ?nil s4 x]) (use nil d4 in auto)
  have d5: "dom (ll_nodes s5) = insert x (dom (ll_nodes s))" "ll_nil s5 = ?nil" using 5(2) d4 by (simp_all add: same_list_def)
  obtain s6 where 6: "ll_put x (ln_prev_update (\<lambda>_. ?nil)) s5 = Inr s6" "same_list s5 s6" "nxt s6 = nxt s5" "prv s6 = (prv s5)(x := ?nil)" "key_at s6 = key_at s5"
    by (rule put_prev [of x s5 ?nil]) (use x d5 in auto)
  show ?thesis
  proof (rule that [of s6])
    show "PushFront raw k s = Inr s6"
      unfolding PushFront_def by (simp add: n 2(1) d2(2) n2(1) y2 3(1) d3(2) n3(1) y3 4(1) d4(2) 5(1) d5(2) 6(1))
    show "ll_nil s6 = ?nil" "ll_heap s6 = ll_heap s1" "dom (ll_nodes s6) = insert x (dom (ll_nodes s))"
      using 2(2) 3(2) 4(2) 5(2) 6(2) d5 by (simp_all add: same_list_def)
    show "nxt s6 = (nxt s)(x := ?y, ?nil := x)" by (simp add: 6(3) 5(3) 4(3) 3(3) 2(3) 1(3))
    show "prv s6 = (prv s)(?y := x, x := ?nil)" using y(2) by (simp add: 6(4) 5(4) 4(4) 3(4) 2(4) 1(4) fun_upd_twist)
    show "key_at s6 = (key_at s)(x := k)" by (simp add: 6(5) 5(5) 4(5) 3(5) 2(5) 1(5))
  qed
qed


lemma PushFront_ring:
  assumes r: "ring_of s ps" and n: "new_list_node raw s = Inr (x, s1)"
  obtains s' where "PushFront raw k s = Inr s'" "ring_of s' (x # ps)" "map (key_at s') (x # ps) = k # map (key_at s) ps"
    "kmm_used (ll_heap s') = insert x (kmm_used (ll_heap s))" "ll_nil s' = ll_nil s"
proof -
  let ?nil = "ll_nil s" and ?y = "nxt s (ll_nil s)"
  have hi: "heap_inv (ll_heap s)" using r by (simp add: ring_of_def)
  note f = new_list_node_fresh [OF n hi]
  obtain s' where e: "PushFront raw k s = Inr s'" "ll_nil s' = ?nil" "ll_heap s' = ll_heap s1"
    "dom (ll_nodes s') = insert x (dom (ll_nodes s))" "nxt s' = (nxt s)(x := ?y, ?nil := x)"
    "prv s' = (prv s)(?y := x, x := ?nil)" "key_at s' = (key_at s)(x := k)" by (rule PushFront_eval [OF r n])
  have d: "distinct (?nil # ps)" "x \<notin> set (?nil # ps)" and nz: "0 \<notin> set (?nil # ps)"
    using r f unfolding ring_of_def by blast+
  have dom: "set (?nil # ps) \<subseteq> dom (ll_nodes s)" using r unfolding ring_of_def by blast
  have used: "set (?nil # ps) \<subseteq> kmm_used (ll_heap s)" using r unfolding ring_of_def by blast
  have N: "?y # map (nxt s) ps = ps @ [?nil]" using r by (simp add: ring_of_def)
  obtain rest where y: "ps @ [?nil] = ?y # rest" using N by metis
  have V: "map (prv s) (?y # rest) = ?nil # ps" using r by (simp add: ring_of_def flip: y)
  have rest: "?y \<notin> set rest" "x \<notin> set rest" "x \<noteq> ?y"
  proof -
    have "distinct (?y # rest)" "set (?y # rest) = set (?nil # ps)" using d(1) by (simp_all flip: y)
    then show "?y \<notin> set rest" "x \<notin> set rest" "x \<noteq> ?y" using d(2) by auto
  qed
  have "map (nxt s') (?nil # x # ps) = x # ?y # map (nxt s) ps"
    using d by (auto simp: e(5) map_fun_upd)
  then have n': "map (nxt s') (?nil # x # ps) = (x # ps) @ [?nil]" using N by simp
  have "map (prv s') (x # ?y # rest) = ?nil # x # map (prv s) rest"
    using rest by (simp add: e(6) map_fun_upd)
  moreover have "(x # ps) @ [?nil] = x # ?y # rest" "map (prv s) rest = ps" using y V by simp_all
  ultimately have v': "map (prv s') ((x # ps) @ [?nil]) = ?nil # x # ps" by (simp only:)
  have k': "map (key_at s') (x # ps) = k # map (key_at s) ps" using d(2) by (simp add: e(7) map_fun_upd)
  have "ring_of s' (x # ps)"
    unfolding ring_of_def e(2)
  proof (intro conjI)
    show "distinct (?nil # x # ps)" using d by auto
    show "0 \<notin> set (?nil # x # ps)" using nz f by auto
    show "\<forall>p\<in>set (?nil # x # ps). ll_nodes s' p \<noteq> None" using dom e(4) by auto
    show "map (nxt s') (?nil # x # ps) = (x # ps) @ [?nil]" by (rule n')
    show "map (prv s') ((x # ps) @ [?nil]) = ?nil # x # ps" by (rule v')
    show "heap_inv (ll_heap s')" using f e(3) by simp
    show "set (?nil # x # ps) \<subseteq> kmm_used (ll_heap s')" using f e(3) used by auto
  qed
  then show ?thesis using that e(1-3) k' f by simp
qed

section \<open>Deleting\<close>

lemma DeleteNode_ring:
  assumes r: "ring_of s (as @ p # bs)"
  obtains s' where "DeleteNode p s = Inr s'" "ring_of s' (as @ bs)" "map (key_at s') (as @ bs) = map (key_at s) (as @ bs)"
    "kmm_used (ll_heap s') = kmm_used (ll_heap s) - {p}" "ll_nil s' = ll_nil s"
proof -
  let ?nil = "ll_nil s" and ?a = "prv s p" and ?b = "nxt s p"
  have d: "distinct (?nil # as @ p # bs)" and nz: "0 \<notin> set (?nil # as @ p # bs)" and dom: "set (?nil # as @ p # bs) \<subseteq> dom (ll_nodes s)"
    and used: "set (?nil # as @ p # bs) \<subseteq> kmm_used (ll_heap s)" and hi: "heap_inv (ll_heap s)"
    using r unfolding ring_of_def by blast+
  note nb = ring_node [OF r]
  obtain xs where xs: "?nil # as = xs @ [?a]" using nb(2) by (metis append_butlast_last_id list.distinct(1))
  obtain ys where ys: "bs @ [?nil] = ?b # ys" using nb(1) by (metis append_is_Nil_conv list.collapse list.distinct(1))
  have ina: "?a \<in> set (?nil # as)" unfolding xs by simp
  have inb: "?b \<in> set (bs @ [?nil])" unfolding ys by simp
  have pa: "p \<noteq> 0" "?a \<noteq> 0" "?b \<noteq> 0" "?a \<noteq> p" "?b \<noteq> p" "p \<noteq> ?nil" using d nz ina inb by auto
  have pd: "p \<in> dom (ll_nodes s)" "?a \<in> dom (ll_nodes s)" "?b \<in> dom (ll_nodes s)" using dom ina inb by auto
  obtain n1 where n1: "ll_get p s = Inr n1" "ln_next n1 = ?b" "ln_prev n1 = ?a" by (rule get_fields [OF pa(1) pd(1)])
  obtain s1 where 1: "ll_put ?a (ln_next_update (\<lambda>_. ?b)) s = Inr s1" "same_list s s1" "nxt s1 = (nxt s)(?a := ?b)" "prv s1 = prv s" "key_at s1 = key_at s"
    by (rule put_next [OF pa(2) pd(2)])
  have d1: "dom (ll_nodes s1) = dom (ll_nodes s)" using 1(2) by (simp add: same_list_def)
  obtain n2 where n2: "ll_get p s1 = Inr n2" "ln_next n2 = nxt s1 p" "ln_prev n2 = prv s1 p" by (rule get_fields [of p s1]) (use pa pd d1 in auto)
  have n2': "ln_next n2 = ?b" "ln_prev n2 = ?a" using n2 1(3,4) pa(4) by simp_all
  obtain s2 where 2: "ll_put ?b (ln_prev_update (\<lambda>_. ?a)) s1 = Inr s2" "same_list s1 s2" "nxt s2 = nxt s1" "prv s2 = (prv s1)(?b := ?a)" "key_at s2 = key_at s1"
    by (rule put_prev [of ?b s1 ?a]) (use pa pd d1 in auto)
  have h2: "ll_heap s2 = ll_heap s" "ll_nil s2 = ?nil" "dom (ll_nodes s2) = dom (ll_nodes s)" using 1(2) 2(2) by (simp_all add: same_list_def)
  have "p \<in> kmm_used (ll_heap s)" using used by auto
  then obtain h where h: "kmm_free p (ll_heap s) = Inr h" "heap_inv h" "kmm_used h = kmm_used (ll_heap s) - {p}"
    using kmm_free_page [OF hi] by blast
  let ?s = "s2\<lparr>ll_heap := h, ll_nodes := (ll_nodes s2)(p := None)\<rparr>"
  have run: "DeleteNode p s = Inr ?s"
    using pa(1,6) by (simp add: DeleteNode_def n1 1(1) n2(1) n2' 2(1) delete_list_node_def operator_delete_def h2(1) h(1))
  have view: "nxt ?s q = ((nxt s)(?a := ?b)) q" "prv ?s q = ((prv s)(?b := ?a)) q" "key_at ?s q = key_at s q" if "q \<noteq> p" for q
  proof -
    have "nxt ?s q = nxt s2 q" "prv ?s q = prv s2 q" "key_at ?s q = key_at s2 q" using that by (simp_all add: nxt_def prv_def key_at_def)
    then show "nxt ?s q = ((nxt s)(?a := ?b)) q" "prv ?s q = ((prv s)(?b := ?a)) q" "key_at ?s q = key_at s q"
      by (simp_all add: 1(3-5) 2(3-5))
  qed
  have len: "length xs = length as" using arg_cong [OF xs, of length] by simp
  have "map (nxt s) ((?nil # as) @ p # bs) = as @ p # (bs @ [?nil])" using r by (simp add: ring_of_def)
  then have N: "map (nxt s) (xs @ ?a # p # bs) = as @ p # ?b # ys" unfolding xs ys by simp
  then have N': "map (nxt s) xs = as" "map (nxt s) bs = ys" using len by (simp_all add: append_eq_append_conv)
  have "map (prv s) (as @ p # (bs @ [?nil])) = (?nil # as) @ p # bs" using r by (simp add: ring_of_def)
  then have V: "map (prv s) (as @ p # ?b # ys) = xs @ ?a # p # bs" unfolding xs ys by simp
  then have V': "map (prv s) as = xs" "map (prv s) ys = bs" using len by (simp_all add: append_eq_append_conv)
  have da: "?a \<notin> set xs" "?a \<notin> set bs" "p \<notin> set xs" "p \<notin> set bs"
  proof -
    have "distinct (xs @ [?a] @ p # bs)" using d by (metis append_Cons append_assoc xs)
    then show "?a \<notin> set xs" "?a \<notin> set bs" "p \<notin> set xs" "p \<notin> set bs" by auto
  qed
  have db: "?b \<notin> set as" "?b \<notin> set ys" "p \<notin> set as" "p \<notin> set ys"
  proof -
    have "distinct (as @ p # bs @ [?nil])" using d by auto
    then have "distinct (as @ p # ?b # ys)" unfolding ys .
    then show "?b \<notin> set as" "?b \<notin> set ys" "p \<notin> set as" "p \<notin> set ys" by auto
  qed
  have mapn: "map (nxt ?s) zs = map (nxt s) zs" if "?a \<notin> set zs" "p \<notin> set zs" for zs
  proof (rule map_cong [OF refl])
    fix q assume "q \<in> set zs"
    then have "q \<noteq> p" "q \<noteq> ?a" using that by auto
    then show "nxt ?s q = nxt s q" by (simp add: view(1))
  qed
  have mapv: "map (prv ?s) zs = map (prv s) zs" if "?b \<notin> set zs" "p \<notin> set zs" for zs
  proof (rule map_cong [OF refl])
    fix q assume "q \<in> set zs"
    then have "q \<noteq> p" "q \<noteq> ?b" using that by auto
    then show "prv ?s q = prv s q" by (simp add: view(2))
  qed
  have "map (nxt ?s) (xs @ ?a # bs) = as @ ?b # ys" using mapn [OF da(1,3)] mapn [OF da(2,4)] N' view(1) [OF pa(4)] by simp
  then have n': "map (nxt ?s) (?nil # as @ bs) = (as @ bs) @ [?nil]" using xs ys by (metis append_Cons append_assoc append_Nil)
  have "map (prv ?s) (as @ ?b # ys) = xs @ ?a # bs" using mapv [OF db(1,3)] mapv [OF db(2,4)] V' view(2) [OF pa(5)] by simp
  then have v': "map (prv ?s) ((as @ bs) @ [?nil]) = ?nil # as @ bs" using xs ys by (metis append_Cons append_assoc append_Nil)
  have nil: "ll_nil ?s = ?nil" "ll_heap ?s = h" using h2 by simp_all
  have "ring_of ?s (as @ bs)"
    unfolding ring_of_def nil
  proof (intro conjI)
    show "distinct (?nil # as @ bs)" using d by auto
    show "0 \<notin> set (?nil # as @ bs)" using nz by auto
    show "\<forall>q\<in>set (?nil # as @ bs). ll_nodes ?s q \<noteq> None"
    proof
      fix q assume q: "q \<in> set (?nil # as @ bs)"
      then have "q \<noteq> p" using d by auto
      moreover have "q \<in> dom (ll_nodes s2)" using q dom h2(3) by auto
      ultimately show "ll_nodes ?s q \<noteq> None" by auto
    qed
    show "map (nxt ?s) (?nil # as @ bs) = (as @ bs) @ [?nil]" by (rule n')
    show "map (prv ?s) ((as @ bs) @ [?nil]) = ?nil # as @ bs" by (rule v')
    show "heap_inv h" by (rule h(2))
    show "set (?nil # as @ bs) \<subseteq> kmm_used h" using used h(3) d by auto
  qed
  moreover have "map (key_at ?s) (as @ bs) = map (key_at s) (as @ bs)"
  proof (rule map_cong [OF refl])
    fix q assume "q \<in> set (as @ bs)"
    then have "q \<noteq> p" using d by auto
    then show "key_at ?s q = key_at s q" by (rule view(3))
  qed
  ultimately show ?thesis using that run h(3) nil by metis
qed


lemma new_list_node_total:
  assumes "heap_inv (ll_heap s)" "card (kmm_used (ll_heap s)) < HEAP_PAGES"
  obtains x s' where "new_list_node raw s = Inr (x, s')"
proof -
  obtain q h1 where "kmm_zalloc 4096 (ll_heap s) = Inr (q, h1)" by (rule kmm_zalloc_total [OF assms])
  then have "first_index (\<lambda>i. \<not> kernelHeapMemMap (ll_heap s) i) 0 HEAP_PAGES \<noteq> None"
    by (auto simp: kmm_zalloc_def kmm_malloc_def rbind_eq_Inr split: option.splits)
  then obtain p h where k: "kmm_malloc 24 (ll_heap s) = Inr (p, h)" by (auto simp: kmm_malloc_def)
  have "p \<in> kmm_used h" "heap_inv h" using kmm_malloc_page(1,3) [OF k _ assms(1)] by simp_all
  then have "p \<noteq> 0" using kmm_used_page by (auto simp: heap_inv_def)
  then show ?thesis using that k by (simp add: new_list_node_def operator_new_def)
qed

section \<open>The constructor and the queries\<close>

lemma LinkedList_new_rep:
  assumes "heap_inv h" "card (kmm_used h) < HEAP_PAGES"
  shows "\<exists>s. LinkedList_new raw h = Inr s \<and> list_rep (kmm_used h) s []"
proof -
  let ?s0 = "\<lparr>ll_nil = 0, ll_nodes = Map.empty, ll_heap = h\<rparr>"
  have h0: "heap_inv (ll_heap ?s0)" "card (kmm_used (ll_heap ?s0)) < HEAP_PAGES" using assms by simp_all
  obtain x s1 where n: "new_list_node raw ?s0 = Inr (x, s1)" by (rule new_list_node_total [OF h0])
  have f: "x \<noteq> 0" "x \<notin> kmm_used h" "s1 = ?s0\<lparr>ll_heap := ll_heap s1, ll_nodes := [x \<mapsto> raw]\<rparr>"
    "heap_inv (ll_heap s1)" "kmm_used (ll_heap s1) = insert x (kmm_used h)"
    using new_list_node_fresh [OF n h0(1)] by simp_all
  have s1n: "s1\<lparr>ll_nil := x\<rparr> = \<lparr>ll_nil = x, ll_nodes = [x \<mapsto> raw], ll_heap = ll_heap s1\<rparr>" by (subst f(3)) simp
  let ?s = "\<lparr>ll_nil = x, ll_nodes = [x \<mapsto> raw\<lparr>ln_prev := x, ln_next := x\<rparr>], ll_heap = ll_heap s1\<rparr>"
  have "LinkedList_new raw h = Inr ?s"
    unfolding LinkedList_new_def n rbind_Inr prod.case s1n using f(1) by (simp add: Let_def ll_put_def ll_get_def)
  moreover have "ring_of ?s []" using f by (simp add: ring_of_def nxt_def prv_def)
  ultimately show ?thesis using f(2,5) by (auto simp: list_rep_def)
qed

lemma ring_get: "ring_of s ps \<Longrightarrow> p \<in> set (ll_nil s # ps) \<Longrightarrow>
  \<exists>n. ll_get p s = Inr n \<and> ln_next n = nxt s p \<and> ln_prev n = prv s p \<and> ln_key n = key_at s p"
  using get_fields [of p s] unfolding ring_of_def by (metis domIff)

lemma LinkedList_Front_rep: "list_rep U s (k # ks) \<Longrightarrow> LinkedList_Front s = Inr k"
proof -
  assume "list_rep U s (k # ks)"
  then obtain p ps where r: "ring_of s (p # ps)" "key_at s p = k" by (auto simp: list_rep_def)
  obtain n where n: "ll_get (ll_nil s) s = Inr n" "ln_next n = nxt s (ll_nil s)" using ring_get [OF r(1), of "ll_nil s"] by auto
  have "ln_next n = p" using n(2) ring_nil [OF r(1)] by simp
  moreover obtain m where "ll_get p s = Inr m" "ln_key m = k" using ring_get [OF r(1), of p] r(2) by auto
  ultimately show ?thesis by (simp add: LinkedList_Front_def n(1))
qed

lemma LinkedList_Back_rep: "list_rep U s (ks @ [k]) \<Longrightarrow> LinkedList_Back s = Inr k"
proof -
  assume "list_rep U s (ks @ [k])"
  then obtain ps p where r: "ring_of s (ps @ [p])" "key_at s p = k" by (auto simp: list_rep_def map_eq_append_conv)
  obtain n where n: "ll_get (ll_nil s) s = Inr n" "ln_prev n = prv s (ll_nil s)" using ring_get [OF r(1), of "ll_nil s"] by auto
  have "ln_prev n = p" using n(2) ring_nil [OF r(1)] by simp
  moreover obtain m where "ll_get p s = Inr m" "ln_key m = k" using ring_get [OF r(1), of p] r(2) by auto
  ultimately show ?thesis by (simp add: LinkedList_Back_def n(1))
qed

section \<open>The operations on the list of keys\<close>

lemma list_repI: "ring_of s ps \<Longrightarrow> map (key_at s) ps = ks \<Longrightarrow> U \<inter> set (ll_nil s # ps) = {} \<Longrightarrow>
    kmm_used (ll_heap s) = U \<union> set (ll_nil s # ps) \<Longrightarrow> list_rep U s ks"
  unfolding list_rep_def by blast

lemma PushFront_rep:
  assumes "list_rep U s ks" "card (kmm_used (ll_heap s)) < HEAP_PAGES"
  shows "\<exists>s'. PushFront raw k s = Inr s' \<and> list_rep U s' (k # ks)"
proof -
  obtain ps where r: "ring_of s ps" "map (key_at s) ps = ks" "U \<inter> set (ll_nil s # ps) = {}" "kmm_used (ll_heap s) = U \<union> set (ll_nil s # ps)"
    using assms(1) unfolding list_rep_def by blast
  have hi: "heap_inv (ll_heap s)" using r(1) by (simp add: ring_of_def)
  obtain x s1 where n: "new_list_node raw s = Inr (x, s1)" by (rule new_list_node_total [OF hi assms(2)])
  have f: "x \<notin> kmm_used (ll_heap s)" using new_list_node_fresh [OF n hi] by blast
  obtain s' where s': "PushFront raw k s = Inr s'" "ring_of s' (x # ps)" "map (key_at s') (x # ps) = k # map (key_at s) ps"
    "kmm_used (ll_heap s') = insert x (kmm_used (ll_heap s))" "ll_nil s' = ll_nil s" by (rule PushFront_ring [OF r(1) n])
  have e: "set (ll_nil s' # x # ps) = insert x (set (ll_nil s # ps))" unfolding s'(5) by auto
  have "x \<notin> U" using f unfolding r(4) by blast
  then have "U \<inter> set (ll_nil s' # x # ps) = {}" "kmm_used (ll_heap s') = U \<union> set (ll_nil s' # x # ps)"
    using r(3) unfolding e s'(4) r(4) by blast+
  then show ?thesis using s'(1) list_repI [OF s'(2) s'(3) [unfolded r(2)]] by blast
qed

lemma DeleteNode_rep:
  assumes "ring_of s (as @ p # bs)" "U \<inter> set (ll_nil s # as @ p # bs) = {}" "kmm_used (ll_heap s) = U \<union> set (ll_nil s # as @ p # bs)"
  shows "\<exists>s'. DeleteNode p s = Inr s' \<and> list_rep U s' (map (key_at s) (as @ bs))"
proof -
  obtain s' where s': "DeleteNode p s = Inr s'" "ring_of s' (as @ bs)" "map (key_at s') (as @ bs) = map (key_at s) (as @ bs)"
    "kmm_used (ll_heap s') = kmm_used (ll_heap s) - {p}" "ll_nil s' = ll_nil s" by (rule DeleteNode_ring [OF assms(1)])
  have "distinct (ll_nil s # as @ p # bs)" using assms(1) unfolding ring_of_def by blast
  then have e: "set (ll_nil s' # as @ bs) = set (ll_nil s # as @ p # bs) - {p}" unfolding s'(5) by auto
  have "p \<notin> U" using assms(2) by auto
  then have "U \<inter> set (ll_nil s' # as @ bs) = {}" "kmm_used (ll_heap s') = U \<union> set (ll_nil s' # as @ bs)"
    using assms(2) unfolding e s'(4) assms(3) by blast+
  then show ?thesis using s'(1) list_repI [OF s'(2,3)] by blast
qed

lemma DeleteNode_nil: "DeleteNode (ll_nil s) s = Inr s"
  by (simp add: DeleteNode_def)

lemma PopFront_rep:
  assumes "list_rep U s ks"
  shows "\<exists>s'. PopFront s = Inr s' \<and> list_rep U s' (tl ks)"
proof -
  obtain ps where r: "ring_of s ps" "map (key_at s) ps = ks" "U \<inter> set (ll_nil s # ps) = {}" "kmm_used (ll_heap s) = U \<union> set (ll_nil s # ps)"
    using assms(1) unfolding list_rep_def by blast
  obtain n where n: "ll_get (ll_nil s) s = Inr n" "ln_next n = nxt s (ll_nil s)" using ring_get [OF r(1), of "ll_nil s"] by auto
  then have pop: "PopFront s = DeleteNode (hd (ps @ [ll_nil s])) s" using ring_nil [OF r(1)] by (simp add: PopFront_def)
  show ?thesis
  proof (cases ps)
    case Nil
    then show ?thesis using pop DeleteNode_nil assms r(2) by auto
  next
    case (Cons p bs)
    then show ?thesis using DeleteNode_rep [of s "[]" p bs U] r pop by auto
  qed
qed

lemma PopBack_rep:
  assumes "list_rep U s ks"
  shows "\<exists>s'. PopBack s = Inr s' \<and> list_rep U s' (butlast ks)"
proof -
  obtain ps where r: "ring_of s ps" "map (key_at s) ps = ks" "U \<inter> set (ll_nil s # ps) = {}" "kmm_used (ll_heap s) = U \<union> set (ll_nil s # ps)"
    using assms(1) unfolding list_rep_def by blast
  obtain n where n: "ll_get (ll_nil s) s = Inr n" "ln_prev n = prv s (ll_nil s)" using ring_get [OF r(1), of "ll_nil s"] by auto
  then have pop: "PopBack s = DeleteNode (last (ll_nil s # ps)) s" using ring_nil [OF r(1)] by (simp add: PopBack_def)
  show ?thesis
  proof (cases ps rule: rev_cases)
    case Nil
    then show ?thesis using pop DeleteNode_nil assms r(2) by auto
  next
    case (snoc as p)
    then show ?thesis using DeleteNode_rep [of s as p "[]" U] r pop by (auto simp: butlast_append)
  qed
qed

lemma search_loop_miss:
  "ring_of s (as @ bs) \<Longrightarrow> k \<notin> key_at s ` set bs \<Longrightarrow> search_loop s k (hd (bs @ [ll_nil s])) = Some (Inr (ll_nil s))"
proof (induction bs arbitrary: as)
  case Nil
  then show ?case by (simp add: search_loop.simps)
next
  case (Cons p bs)
  obtain n where n: "ll_get p s = Inr n" "ln_next n = nxt s p" "ln_key n = key_at s p" using ring_get [OF Cons.prems(1), of p] by auto
  have "p \<noteq> ll_nil s" using Cons.prems(1) by (auto simp: ring_of_def)
  moreover have "nxt s p = hd (bs @ [ll_nil s])" using ring_node(1) [OF Cons.prems(1)] .
  moreover have "key_at s p \<noteq> k" using Cons.prems(2) by auto
  ultimately show ?case using Cons.IH [of "as @ [p]"] Cons.prems n by (subst search_loop.simps) simp
qed

lemma search_loop_hit:
  "ring_of s (xs @ as @ p # bs) \<Longrightarrow> k \<notin> key_at s ` set as \<Longrightarrow> key_at s p = k \<Longrightarrow> search_loop s k (hd (as @ [p])) = Some (Inr p)"
proof (induction as arbitrary: xs)
  case Nil
  obtain n where n: "ll_get p s = Inr n" "ln_key n = key_at s p" using ring_get [OF Nil.prems(1), of p] by auto
  have "p \<noteq> ll_nil s" using Nil.prems(1) by (auto simp: ring_of_def)
  then show ?case using n Nil.prems(3) by (subst search_loop.simps) simp
next
  case (Cons q as)
  have r: "ring_of s (xs @ q # as @ p # bs)" using Cons.prems(1) by simp
  obtain n where n: "ll_get q s = Inr n" "ln_next n = nxt s q" "ln_key n = key_at s q" using ring_get [OF r, of q] by auto
  have "q \<noteq> ll_nil s" using r by (auto simp: ring_of_def)
  moreover have "nxt s q = hd (as @ [p])" using ring_node(1) [OF r] by (cases as) simp_all
  moreover have "key_at s q \<noteq> k" using Cons.prems(2) by auto
  ultimately show ?case using Cons.IH [of "xs @ [q]"] Cons.prems n by (subst search_loop.simps) simp
qed

lemma LinkedList_Delete_rep:
  assumes "list_rep U s ks"
  shows "\<exists>s'. LinkedList_Delete k s = Inr s' \<and> list_rep U s' (remove1 k ks)"
proof -
  obtain ps where r: "ring_of s ps" "map (key_at s) ps = ks" "U \<inter> set (ll_nil s # ps) = {}" "kmm_used (ll_heap s) = U \<union> set (ll_nil s # ps)"
    using assms(1) unfolding list_rep_def by blast
  obtain n where n: "ll_get (ll_nil s) s = Inr n" "ln_next n = nxt s (ll_nil s)" using ring_get [OF r(1), of "ll_nil s"] by auto
  then have nx: "ln_next n = hd (ps @ [ll_nil s])" using ring_nil [OF r(1)] by simp
  show ?thesis
  proof (cases "k \<in> set ks")
    case False
    have "search_loop s k (hd (ps @ [ll_nil s])) = Some (Inr (ll_nil s))"
      by (rule search_loop_miss [of s "[]"]) (use r(1,2) False in auto)
    then have "LinkedList_Delete k s = Inr s" by (simp add: LinkedList_Delete_def SearchNode_def n(1) nx DeleteNode_nil)
    then show ?thesis using assms False by (simp add: remove1_idem)
  next
    case True
    then obtain as' bs' where ks: "ks = as' @ k # bs'" "k \<notin> set as'" using split_list_first by metis
    then obtain as p bs where ps: "ps = as @ p # bs" "map (key_at s) as = as'" "key_at s p = k" "map (key_at s) bs = bs'"
      using r(2) by (auto simp: map_eq_append_conv map_eq_Cons_conv)
    have r': "ring_of s (as @ p # bs)" using r(1) ps(1) by simp
    have "search_loop s k (hd (as @ [p])) = Some (Inr p)"
      by (rule search_loop_hit [of s "[]"]) (use r' ps ks(2) in auto)
    moreover have "hd (ps @ [ll_nil s]) = hd (as @ [p])" unfolding ps(1) by (cases as) simp_all
    ultimately have "LinkedList_Delete k s = DeleteNode p s" by (simp add: LinkedList_Delete_def SearchNode_def n(1) nx)
    moreover have "remove1 k ks = map (key_at s) (as @ bs)" using ks ps(2,4) by (simp add: remove1_append)
    ultimately show ?thesis using DeleteNode_rep [OF r'] r(3,4) ps(1) by auto
  qed
qed


section \<open>PushBack\<close>

text \<open>\<open>PushBack\<close> does not set the back pointer of the sentinel: a second element takes the place of the first.\<close>

lemma PushBack_eval:
  assumes hi: "heap_inv (ll_heap s)" and nil: "ll_nil s \<noteq> 0" "ll_nil s \<in> dom (ll_nodes s)" "ll_nil s \<in> kmm_used (ll_heap s)"
    and y: "prv s (ll_nil s) = ll_nil s" and e: "PushBack raw k s = Inr s'"
  obtains x where "x \<noteq> 0" "x \<notin> kmm_used (ll_heap s)" "ll_nil s' = ll_nil s" "heap_inv (ll_heap s')" "kmm_used (ll_heap s') = insert x (kmm_used (ll_heap s))"
    "dom (ll_nodes s') = insert x (dom (ll_nodes s))" "nxt s' = (nxt s)(x := ll_nil s, ll_nil s := x)"
    "prv s' (ll_nil s) = ll_nil s" "key_at s' = (key_at s)(x := k)"
proof -
  let ?nil = "ll_nil s"
  obtain x s1 where n: "new_list_node raw s = Inr (x, s1)" using e by (auto simp: PushBack_def rbind_eq_Inr)
  note f = new_list_node_fresh [OF n hi]
  have 1: "ll_nil s1 = ?nil" "dom (ll_nodes s1) = insert x (dom (ll_nodes s))"
    "nxt s1 = (nxt s)(x := ln_next raw)" "prv s1 = (prv s)(x := ln_prev raw)" "key_at s1 = (key_at s)(x := ln_key raw)"
    by (rule new_list_node_view [OF n hi])+
  have x: "x \<noteq> 0" "x \<noteq> ?nil" "x \<in> dom (ll_nodes s1)" using f 1(2) nil(3) by auto
  obtain s2 where 2: "ll_put x (ln_key_update (\<lambda>_. k)) s1 = Inr s2" "same_list s1 s2" "nxt s2 = nxt s1" "prv s2 = prv s1" "key_at s2 = (key_at s1)(x := k)"
    by (rule put_key [OF x(1,3)])
  have d2: "dom (ll_nodes s2) = insert x (dom (ll_nodes s))" "ll_nil s2 = ?nil" using 2(2) 1 by (simp_all add: same_list_def)
  obtain n2 where n2: "ll_get ?nil s2 = Inr n2" "ln_prev n2 = prv s2 ?nil" by (rule get_fields [of ?nil s2]) (use nil d2 in auto)
  have y2: "ln_prev n2 = ?nil" using n2(2) 2(4) 1(4) x(2) y by simp
  obtain s3 where 3: "ll_put x (ln_prev_update (\<lambda>_. ?nil)) s2 = Inr s3" "same_list s2 s3" "nxt s3 = nxt s2" "prv s3 = (prv s2)(x := ?nil)" "key_at s3 = key_at s2"
    by (rule put_prev [of x s2 ?nil]) (use x d2 in auto)
  have d3: "dom (ll_nodes s3) = insert x (dom (ll_nodes s))" "ll_nil s3 = ?nil" using 3(2) d2 by (simp_all add: same_list_def)
  obtain n3 where n3: "ll_get ?nil s3 = Inr n3" "ln_prev n3 = prv s3 ?nil" by (rule get_fields [of ?nil s3]) (use nil d3 in auto)
  have y3: "ln_prev n3 = ?nil" using n3(2) 3(4) 2(4) 1(4) x(2) y by simp
  obtain s4 where 4: "ll_put ?nil (ln_next_update (\<lambda>_. x)) s3 = Inr s4" "same_list s3 s4" "nxt s4 = (nxt s3)(?nil := x)" "prv s4 = prv s3" "key_at s4 = key_at s3"
    by (rule put_next [of ?nil s3 x]) (use nil d3 in auto)
  have d4: "dom (ll_nodes s4) = insert x (dom (ll_nodes s))" "ll_nil s4 = ?nil" using 4(2) d3 by (simp_all add: same_list_def)
  obtain s5 where 5: "ll_put x (ln_next_update (\<lambda>_. ?nil)) s4 = Inr s5" "same_list s4 s5" "nxt s5 = (nxt s4)(x := ?nil)" "prv s5 = prv s4" "key_at s5 = key_at s4"
    by (rule put_next [of x s4 ?nil]) (use x d4 in auto)
  have "PushBack raw k s = Inr s5"
    unfolding PushBack_def by (simp add: n 2(1) d2(2) n2(1) y2 3(1) d3(2) n3(1) y3 4(1) d4(2) 5(1))
  then have s': "s' = s5" using e by simp
  show ?thesis
  proof (rule that [of x])
    show "x \<noteq> 0" by (rule x)
    show "ll_nil s' = ?nil" "dom (ll_nodes s') = insert x (dom (ll_nodes s))" using 5(2) d4 by (simp_all add: same_list_def s')
    have h: "ll_heap s' = ll_heap s1" using 2(2) 3(2) 4(2) 5(2) by (simp add: same_list_def s')
    show "x \<notin> kmm_used (ll_heap s)" "heap_inv (ll_heap s')" "kmm_used (ll_heap s') = insert x (kmm_used (ll_heap s))" using f by (simp_all add: h)
    show "nxt s' = (nxt s)(x := ?nil, ?nil := x)" using x(2) by (simp add: s' 5(3) 4(3) 3(3) 2(3) 1(3) fun_upd_twist)
    show "prv s' ?nil = ?nil" using x(2) y by (simp add: s' 5(4) 4(4) 3(4) 2(4) 1(4))
    show "key_at s' = (key_at s)(x := k)" by (simp add: s' 5(5) 4(5) 3(5) 2(5) 1(5))
  qed
qed

lemma PushBack_loses:
  assumes "list_rep U s []" "PushBack raw k s = Inr s1" "PushBack raw' k' s1 = Inr s2"
  shows "LinkedList_Front s2 = Inr k' \<and> (k \<noteq> k' \<longrightarrow> SearchNode k s2 = Inr (ll_nil s2))"
proof -
  let ?nil = "ll_nil s"
  have r: "ring_of s []" using assms(1) by (auto simp: list_rep_def)
  have c: "heap_inv (ll_heap s)" "?nil \<noteq> 0" "?nil \<in> dom (ll_nodes s)" "?nil \<in> kmm_used (ll_heap s)" "prv s ?nil = ?nil"
    using r by (auto simp: ring_of_def)
  obtain x where x: "x \<noteq> 0" "x \<notin> kmm_used (ll_heap s)" "ll_nil s1 = ?nil" "heap_inv (ll_heap s1)" "kmm_used (ll_heap s1) = insert x (kmm_used (ll_heap s))"
    "dom (ll_nodes s1) = insert x (dom (ll_nodes s))" "nxt s1 = (nxt s)(x := ?nil, ?nil := x)" "prv s1 ?nil = ?nil" "key_at s1 = (key_at s)(x := k)"
    by (rule PushBack_eval [OF c assms(2)])
  obtain y where y: "y \<noteq> 0" "y \<notin> kmm_used (ll_heap s1)" "ll_nil s2 = ?nil" "dom (ll_nodes s2) = insert y (dom (ll_nodes s1))"
    "nxt s2 = (nxt s1)(y := ?nil, ?nil := y)" "key_at s2 = (key_at s1)(y := k')"
    by (rule PushBack_eval [OF x(4) _ _ _ _ assms(3), unfolded x(3)]) (use c x in auto)
  have ny: "y \<noteq> ?nil" using y(2) x(5) c(4) by auto
  obtain n where n: "ll_get ?nil s2 = Inr n" "ln_next n = nxt s2 ?nil" by (rule get_fields [of ?nil s2]) (use c x y in auto)
  obtain m where m: "ll_get y s2 = Inr m" "ln_next m = nxt s2 y" "ln_key m = key_at s2 y" by (rule get_fields [of y s2]) (use y in auto)
  have n': "ln_next n = y" "ln_next m = ?nil" "ln_key m = k'" using n(2) m(2,3) y(5,6) ny by simp_all
  have "LinkedList_Front s2 = Inr k'" by (simp add: LinkedList_Front_def y(3) n(1) n' m(1))
  moreover have "search_loop s2 k y = Some (Inr ?nil)" if "k \<noteq> k'"
    using that ny by (subst search_loop.simps) (simp add: y(3) m(1) n' search_loop.simps)
  ultimately show ?thesis by (simp add: SearchNode_def y(3) n(1) n')
qed

section \<open>Refinement\<close>

text \<open>
  C24. The linked list implements a list of keys: the constructor gives the empty list, pushing at the front
  conses, popping removes the first or the last key, deleting a key removes its first occurrence, and the
  queries return the ends. Every operation returns (pushing, while a kernel page is free), the list
  stays a ring in both directions, and exactly the pages of its nodes are in use beside those of others.
\<close>

theorem LinkedList_refines:
  assumes "list_rep U s ks"
  shows "(card (kmm_used (ll_heap s)) < HEAP_PAGES \<longrightarrow> (\<exists>s'. PushFront raw k s = Inr s' \<and> list_rep U s' (k # ks))) \<and>
    (\<exists>s'. PopFront s = Inr s' \<and> list_rep U s' (tl ks)) \<and>
    (\<exists>s'. PopBack s = Inr s' \<and> list_rep U s' (butlast ks)) \<and>
    (\<exists>s'. LinkedList_Delete k s = Inr s' \<and> list_rep U s' (remove1 k ks)) \<and>
    (ks \<noteq> [] \<longrightarrow> LinkedList_Front s = Inr (hd ks) \<and> LinkedList_Back s = Inr (last ks))"
proof (intro conjI impI)
  show "\<exists>s'. PushFront raw k s = Inr s' \<and> list_rep U s' (k # ks)" if "card (kmm_used (ll_heap s)) < HEAP_PAGES"
    by (rule PushFront_rep [OF assms that])
  show "\<exists>s'. PopFront s = Inr s' \<and> list_rep U s' (tl ks)" by (rule PopFront_rep [OF assms])
  show "\<exists>s'. PopBack s = Inr s' \<and> list_rep U s' (butlast ks)" by (rule PopBack_rep [OF assms])
  show "\<exists>s'. LinkedList_Delete k s = Inr s' \<and> list_rep U s' (remove1 k ks)" by (rule LinkedList_Delete_rep [OF assms])
  show "LinkedList_Front s = Inr (hd ks)" if "ks \<noteq> []" using LinkedList_Front_rep [of U s "hd ks" "tl ks"] assms that by simp
  show "LinkedList_Back s = Inr (last ks)" if "ks \<noteq> []" using LinkedList_Back_rep [of U s "butlast ks" "last ks"] assms that by simp
qed

theorem LinkedList_refines_witness:
  "\<exists>s s1. LinkedList_new \<lparr>ln_key = 0, ln_prev = 0, ln_next = 0\<rparr> demo_heap = Inr s \<and> list_rep {} s [] \<and>
     PushFront \<lparr>ln_key = 9, ln_prev = 1, ln_next = 2\<rparr> 7 s = Inr s1 \<and> list_rep {} s1 [7]"
proof -
  have u: "kmm_used demo_heap = {}" by (simp add: kmm_used_def heap_boot_def)
  have c: "card (kmm_used demo_heap) < HEAP_PAGES" by (simp add: u HEAP_PAGES_def)
  obtain s where s: "LinkedList_new \<lparr>ln_key = 0, ln_prev = 0, ln_next = 0\<rparr> demo_heap = Inr s" "list_rep {} s []"
    using LinkedList_new_rep [OF demo_heap_inv c] u by auto
  then have "card (kmm_used (ll_heap s)) < HEAP_PAGES" by (auto simp: list_rep_def HEAP_PAGES_def)
  then show ?thesis using LinkedList_refines [OF s(2)] s by blast
qed

end
