(* ===== verification/Spec2Isabelle.thy ===== *)
theory Spec2Isabelle
  imports EvQueue EvMemory EvHeap EvTask EvStage2 EvSched EvVirtio EvBoard EvMachine EvPrintf EvWorld EvMmu EvDisk EvLoader EvDrivers EvMmc EvFat EvFatRead EvFatLoader EvFrame EvRuns EvStart EvList
begin

text \<open>
  A model of eVisor, a small hypervisor for 64 bit Arm (src/src). It runs at EL2 on one core. A guest
  is a task of a round robin scheduler with its own stage 2 translation tables, its saved EL1
  registers, and a virtual interrupt controller and UART which the hypervisor emulates when an
  access of the guest traps.

  \<^bold>\<open>How the parts interact.\<close> The machine state is one record, \<open>hv\<close> (EvHyp), that holds the singletons of
  the code: the heap with the memory, the scheduler with its task table, the EL2 state of the CPU,
  the board with the virtual devices, and the function statics. Every operation takes the state and
  returns the new one or an error (\<open>'a res\<close>, EvPrelude): PANIC, a null pointer, an access past an array
  and a loop without an end are values. A task that is not running is suspended inside the
  hypervisor; \<open>hv_resume\<close> says where it goes on. \<open>hv_step\<close> (EvMachine) is the step relation: the guest
  computes (it may write only what its tables map, and its EL1 registers), traps, or is
  interrupted, or the init task runs the loop of KernelMain. \<open>hyp_step\<close> (EvRuns) is the same with
  the loader of the platform and any state of the disk, the SD card and their drivers.

  \<^bold>\<open>Theories, in the order of the calls.\<close>
  \<^item> EvPrelude: errors, bind on results, arrays with bounds, words, first index search.
  \<^item> EvQueue: the console ring buffer (common/queue.cc), refined to a bounded list through the locale
    of bounded queues.
  \<^item> EvMemory: byte memory, memcpy, memset, memzero, strlen, strncmp (common/cstring).
  \<^item> EvHeap: kernel pages, uncached runs, guest pages (mm/heap, mm/uncached, mm/user_heap, mm/new.cc),
    with a locale of page allocators that both pools interpret.
  \<^item> EvList: the linked list with a sentinel (common/list.cc), refined to a list of keys; PushBack
    loses elements, which is shown too.
  \<^item> EvTask: control blocks and the save and restore of the EL1 registers (kernel/task/task.h,
    arch/arm64/cpu_regs.cc).
  \<^item> EvStage2: stage 2 tables (mm/pgtable_stage2.cc, pgtable_stage1.cc), the walk the hardware does
    (\<open>s2_lookup\<close>), the tree of tables (\<open>table_tree\<close>) and isolation (\<open>guest_isolated\<close>).
  \<^item> EvSched: the scheduler (kernel/sched/sched_core.cc).
  \<^item> EvVirtio: virtual GIC distributor and UART (platforms/virtio).
  \<^item> EvBoard: the boards, their device pages and trapped accesses (platforms/board.h, board_qemu.cc,
    board_bcm2711.cc).
  \<^item> EvHyp: the machine state, entering and leaving a guest (kernel/vm/vm.cc, sched_task_context.cc,
    sched_virq.cc, sched_task_console.cc), task creation (sched_create_task.cc), the serial line
    (platforms/serial.cc).
  \<^item> EvTrap: the trap handlers (arch/arm64/irq/trap.cc, mm/kmm_trap.cc) and the exception vectors.
  \<^item> EvInv, EvMachine, EvWorld: the invariant of the machine, its preservation by every step, with the
    loader as a locale (\<open>image_loader\<close>), and the properties of the handlers.
  \<^item> EvMmu: the address map of EL2 itself (arch/arm64/mmu.cc, boot_el2.cc).
  \<^item> EvPrintf: number formatting and vfprintf (common/cstdio).
  \<^item> EvDisk: the virtio disk driver (drivers/virtio/virtio-blk.cc); the device is a parameter whose
    documented behaviour is \<open>device_ok\<close>.
  \<^item> EvLoader: the image loader (fs/loader.cc), its interpretation as \<open>image_loader\<close> and
    the correctness of a load.
  \<^item> EvDrivers: the devices of the boards behind a bus of registers (\<open>'d bus\<close>, a parameter): timers
    (platforms/timer.cc, bcm2711/system_timer.cc, arm_generic_timer.cc), register polls
    (drivers/common.cc), pins (gpio_bcm2711.cc), the physical interrupt controller (gic_v2.cc) and the
    physical UART with the serial line (pl011_uart.cc, serial.cc).
  \<^item> EvMmc: the SD card driver (drivers/mmc) with the mailbox and the clock rates it asks for
    (drivers/mailbox, drivers/clkrst); the host controller is a parameter with the documented
    behaviour \<open>emmc_ok\<close>.
  \<^item> EvFat, EvFatRead: the FAT32 file system (fs/fat) on that driver: mounting, directory search,
    names, cluster lists; what a read returns in terms of the blocks of the card.
  \<^item> EvFrame: what the driver and the file system may write, whatever the controller, the card and the
    firmware do (\<open>kept\<close>, with the rules \<open>frame_rules\<close> for the control structure).
  \<^item> EvFatLoader: the image loader on the Raspberry Pi, which copies a file of the FAT32 volume page
    by page, its interpretation as \<open>image_loader\<close>, and the correctness of that copy.
  \<^item> EvRuns: the runs of the hypervisor on all boards and the isolation of the guests in them.
  \<^item> EvStart: KernelMain up to its loop (kernel/kernel_main.cc, the scheduler's timer of sched_core.cc); the
    state it leaves satisfies the invariant, so that isolation holds from power on.

  \<^bold>\<open>What the lemmas show.\<close> \<open>heap_inv\<close>, \<open>table_tree\<close>, \<open>guest_isolated\<close>, \<open>sched_inv\<close>, \<open>board_ok\<close> are the invariants
  of the components; \<open>vm_ok\<close> and \<open>hv_inv\<close> put them together, and every operation and step keeps them
  (C1 for whole runs). On top of them each operation has its functional description on the branches
  it has, errors included; the counterexamples of the code are properties too (out of bounds reads,
  leaks, the missing comma). Allocation and loading are shown to succeed when enough pages are free,
  not only to be right when they return.

  \<^bold>\<open>Integers and bounds.\<close> Machine integers are words; the fields of the control block that the code
  declares as long are \<open>int\<close> with the truncation to 32 bits written where the code has it (the
  invariant bounds them). Loops that may not end are partial functions into option (scheduler loop,
  console drain, string loops, the waits for devices, the loops over directories and cluster lists), and the properties show that they return. The
  fuel of the EL2 table walk is the number of levels.

  \<^bold>\<open>Not modelled.\<close> Caches, barriers and the timing of the hardware; the log output; the order in which
  C++ constructs the singletons; the start-up code in assembly. Interrupts are taken between two handlers, as the code
  masks them inside. The bytes of the exception frame on the stack are passed as a value, and the nodes
  of the cluster lists are a typed store at the addresses that operator new returns.
\<close>

end
